(* ===== verification/Arws_Prelude.thy ===== *)
theory Arws_Prelude
  imports Main "HOL-Library.Word" "HOL-Library.Multiset" "HOL-Library.Sublist"
begin

text \<open>
  Shared vocabulary of the development: the C types the gateway uses, C strings and the
  \<open>string.h\<close> functions the source calls, bounded scans over fixed arrays, removal by
  swapping with the last element, and the generic lemmas the component theories rest on.

  A C string is a \<open>string\<close> without NUL characters; a \<open>char[N]\<close> field is the string it
  holds. The byte-level lemma \<open>strncpy_sizeof\<close> justifies this reading: on an \<open>N\<close> byte
  buffer whose last byte is NUL, \<open>strncpy(dst, src, sizeof(dst) - 1)\<close> leaves exactly
  \<open>take (N - 1) src\<close> readable and keeps the last byte NUL. \<open>char\<close> is signed, as on the
  x86-64 target of the build.
\<close>

unbundle bit_operations_syntax

named_theorems arws_eval \<open>equations that evaluate closed terms of the model\<close>

section \<open>Machine integers\<close>

type_synonym uint32 = "32 word"
type_synonym uint64 = "64 word"

text \<open>\<open>int\<close> arithmetic is on HOL integers; where the source lets a counter run without
  bound the increment wraps at 32 bits, as the two's complement hardware does.\<close>

definition wrap32 :: "int \<Rightarrow> int" where
  "wrap32 x = (x + 2 ^ 31) mod 2 ^ 32 - 2 ^ 31"

definition cinc32 :: "int \<Rightarrow> int" where
  "cinc32 x = wrap32 (x + 1)"

text \<open>The remainder of C rounds towards zero: the sign of the result is that of the
  dividend.\<close>

definition crem :: "int \<Rightarrow> int \<Rightarrow> int" where
  "crem a b = (if a < 0 then - ((- a) mod \<bar>b\<bar>) else a mod \<bar>b\<bar>)"

text \<open>Undefined behaviour of the source is an error value of the model.\<close>

datatype mem_error = OutOfBounds | NullDeref

section \<open>C strings\<close>

abbreviation NUL :: char where
  "NUL \<equiv> CHR 0x00"

definition cstring :: "string \<Rightarrow> bool" where
  "cstring s \<longleftrightarrow> NUL \<notin> set s"

definition cstr :: "char list \<Rightarrow> string" where
  "cstr buf = takeWhile (\<lambda>c. c \<noteq> NUL) buf"

definition strncpy_bytes :: "char list \<Rightarrow> string \<Rightarrow> nat \<Rightarrow> char list" where
  "strncpy_bytes dst src n = take n (src @ replicate n NUL) @ drop n dst"

text \<open>\<open>buf_copy N s\<close> is what an \<open>N\<close> byte field holds after
  \<open>strncpy(field, s, sizeof(field) - 1)\<close> or \<open>snprintf(field, sizeof(field), "%s", s)\<close>.\<close>

definition buf_copy :: "nat \<Rightarrow> string \<Rightarrow> string" where
  "buf_copy N s = take (N - 1) s"

definition lower_char :: "char \<Rightarrow> char" where
  "lower_char c = (let n = of_char c :: nat in if 65 \<le> n \<and> n \<le> 90 then char_of (n + 32) else c)"

definition strcaseeq :: "string \<Rightarrow> string \<Rightarrow> bool" where
  "strcaseeq a b \<longleftrightarrow> map lower_char a = map lower_char b"

definition strneq :: "string \<Rightarrow> string \<Rightarrow> nat \<Rightarrow> bool" where
  "strneq a b n \<longleftrightarrow> take n a = take n b"

definition strncaseeq :: "string \<Rightarrow> string \<Rightarrow> nat \<Rightarrow> bool" where
  "strncaseeq a b n \<longleftrightarrow> map lower_char (take n a) = map lower_char (take n b)"

text \<open>\<open>strchr\<close>, \<open>strrchr\<close> and \<open>strstr\<close> return the suffix the C pointer points at.\<close>

definition strchr :: "string \<Rightarrow> char \<Rightarrow> string option" where
  "strchr s c = (case dropWhile (\<lambda>d. d \<noteq> c) s of [] \<Rightarrow> None | t \<Rightarrow> Some t)"

definition strrchr :: "string \<Rightarrow> char \<Rightarrow> string option" where
  "strrchr s c = (if c \<in> set s then Some (c # rev (takeWhile (\<lambda>d. d \<noteq> c) (rev s))) else None)"

fun strstr :: "string \<Rightarrow> string \<Rightarrow> string option" where
  "strstr [] needle = (if needle = [] then Some [] else None)"
| "strstr (c # s) needle =
     (if take (length needle) (c # s) = needle then Some (c # s) else strstr s needle)"

text \<open>The \<open>%d\<close> conversion of \<open>printf\<close>.\<close>

definition digit_char :: "nat \<Rightarrow> char" where
  "digit_char d = char_of (48 + d)"

fun dec_nat :: "nat \<Rightarrow> string" where
  "dec_nat n = (if n < 10 then [digit_char n] else dec_nat (n div 10) @ [digit_char (n mod 10)])"

declare dec_nat.simps [simp del]

definition dec_int :: "int \<Rightarrow> string" where
  "dec_int x = (if x < 0 then CHR ''-'' # dec_nat (nat (- x)) else dec_nat (nat x))"

text \<open>\<open>atoi\<close>: blanks, an optional sign, then digits; the value saturates at 64 bits, as \<open>strtol\<close>
  does, and is cut to 32.\<close>

definition is_space :: "char \<Rightarrow> bool" where
  "is_space c = (let n = of_char c :: nat in n = 32 \<or> 9 \<le> n \<and> n \<le> 13)"

definition is_digit :: "char \<Rightarrow> bool" where
  "is_digit c = (let n = of_char c :: nat in 48 \<le> n \<and> n \<le> 57)"

definition digits_val :: "string \<Rightarrow> nat" where
  "digits_val s = foldl (\<lambda>n c. 10 * n + (of_char c - 48)) 0 (takeWhile is_digit s)"

definition split_sign :: "string \<Rightarrow> bool \<times> string" where
  "split_sign s = (case s of [] \<Rightarrow> (False, [])
     | c # t \<Rightarrow> if c = CHR ''-'' then (True, t) else if c = CHR ''+'' then (False, t) else (False, s))"

definition strtol :: "string \<Rightarrow> int" where
  "strtol s = (let (neg, t) = split_sign (dropWhile is_space s); v = int (digits_val t)
               in max (- (2 ^ 63)) (min (2 ^ 63 - 1) (if neg then - v else v)))"

definition atoi :: "string \<Rightarrow> int" where
  "atoi s = wrap32 (strtol s)"

section \<open>The string hash\<close>

text \<open>Every hash table of the program uses the same \<open>hash * 33 + c\<close> loop, in \<open>unsigned int\<close>,
  with the (signed) character promoted to \<open>int\<close>.\<close>

definition djb2_step :: "uint32 \<Rightarrow> char \<Rightarrow> uint32" where
  "djb2_step h c = (push_bit 5 h + h) + signed (of_char c :: 8 word)"

definition djb2_from :: "uint32 \<Rightarrow> string \<Rightarrow> uint32" where
  "djb2_from h s = foldl djb2_step h s"

definition djb2 :: "string \<Rightarrow> uint32" where
  "djb2 s = djb2_from 5381 s"

section \<open>Scans over arrays\<close>

text \<open>The loop \<open>for (i = 0; i < n; i++) if (P(a[i])) { ...; break; }\<close>: the first index
  whose element satisfies the test.\<close>

fun first_idx :: "('a \<Rightarrow> bool) \<Rightarrow> 'a list \<Rightarrow> nat option" where
  "first_idx P [] = None"
| "first_idx P (x # xs) = (if P x then Some 0 else map_option Suc (first_idx P xs))"

text \<open>The best-so-far loops over an array: the leftmost minimum of a key over the elements
  that satisfy a test, with its index.\<close>

fun scan_best :: "('a \<Rightarrow> bool) \<Rightarrow> ('a \<Rightarrow> 'k::linorder) \<Rightarrow> nat \<Rightarrow> (nat \<times> 'k) option \<Rightarrow> 'a list
    \<Rightarrow> (nat \<times> 'k) option" where
  "scan_best E k i best [] = best"
| "scan_best E k i best (x # xs) =
     (if \<not> E x then scan_best E k (Suc i) best xs
      else scan_best E k (Suc i)
        (case best of None \<Rightarrow> Some (i, k x)
         | Some (b, bk) \<Rightarrow> if k x < bk then Some (i, k x) else best) xs)"

text \<open>\<open>a[i] = a[--count]\<close>: removal by moving the last element into the hole.\<close>

definition swap_remove :: "'a list \<Rightarrow> nat \<Rightarrow> 'a list" where
  "swap_remove xs i = butlast (xs[i := last xs])"

section \<open>Lemmas\<close>

subsection \<open>Machine integers\<close>

lemma wrap32_id: "- (2 ^ 31) \<le> x \<Longrightarrow> x < 2 ^ 31 \<Longrightarrow> wrap32 x = x"
  by (simp add: wrap32_def)

lemma cinc32_id [simp]: "- (2 ^ 31) \<le> x \<Longrightarrow> x < 2 ^ 31 - 1 \<Longrightarrow> cinc32 x = x + 1"
  by (simp add: cinc32_def wrap32_def)

lemma wrap32_bounds: "- (2 ^ 31) \<le> wrap32 x \<and> wrap32 x < 2 ^ 31"
proof -
  have "0 \<le> (x + 2 ^ 31) mod 2 ^ 32" and "(x + 2 ^ 31) mod 2 ^ 32 < 2 ^ 32"
    by simp_all
  then show ?thesis by (simp add: wrap32_def)
qed

lemma crem_nonneg [simp]: "0 \<le> a \<Longrightarrow> 0 < b \<Longrightarrow> crem a b = a mod b"
  by (simp add: crem_def)

lemma crem_bounds: "0 \<le> a \<Longrightarrow> 0 < b \<Longrightarrow> 0 \<le> crem a b \<and> crem a b < b"
  by simp

lemma crem_less:
  assumes "0 < b"
  shows "crem a b < b"
proof (cases "a < 0")
  case True
  have "0 \<le> (- a) mod b" by (rule pos_mod_sign[OF assms])
  moreover have "crem a b = - ((- a) mod b)" using True assms by (simp add: crem_def)
  ultimately show ?thesis using assms by linarith
qed (use assms in simp)

subsection \<open>C strings\<close>

lemma cstring_take [intro]: "cstring s \<Longrightarrow> cstring (take n s)"
  by (auto simp: cstring_def dest: in_set_takeD)

lemma cstring_drop [intro]: "cstring s \<Longrightarrow> cstring (drop n s)"
  by (auto simp: cstring_def dest: in_set_dropD)

lemma cstr_append: "cstring s \<Longrightarrow> cstr (s @ t) = s @ cstr t"
  by (auto simp: cstr_def cstring_def takeWhile_append)

lemma cstr_replicate_NUL [simp]: "0 < n \<Longrightarrow> cstr (replicate n NUL @ t) = []"
  by (cases n) (simp_all add: cstr_def)

lemma cstr_strncpy:
  assumes "cstring src"
  shows "cstr (strncpy_bytes dst src n) =
    (if length src < n then src else take n src @ cstr (drop n dst))"
proof (cases "length src < n")
  case True
  then have "strncpy_bytes dst src n = src @ replicate (n - length src) NUL @ drop n dst"
    by (simp add: strncpy_bytes_def)
  with True assms show ?thesis by (simp add: cstr_append)
next
  case False
  then have "strncpy_bytes dst src n = take n src @ drop n dst"
    by (simp add: strncpy_bytes_def)
  with False assms show ?thesis by (simp add: cstr_append cstring_take)
qed

lemma strncpy_sizeof:
  assumes "cstring src" "length dst = N" "0 < N" "dst ! (N - 1) = NUL"
  shows "cstr (strncpy_bytes dst src (N - 1)) = buf_copy N src"
    and "strncpy_bytes dst src (N - 1) ! (N - 1) = NUL"
proof -
  have last: "drop (N - 1) dst = [NUL]"
    using assms by (metis Cons_nth_drop_Suc One_nat_def Suc_pred diff_less drop_all
        eq_imp_le less_Suc_eq_0_disj)
  then show "cstr (strncpy_bytes dst src (N - 1)) = buf_copy N src"
    using assms(1) cstr_replicate_NUL[of 1 "[]"] by (simp add: cstr_strncpy buf_copy_def)
  show "strncpy_bytes dst src (N - 1) ! (N - 1) = NUL"
  proof -
    have "length (take (N - 1) (src @ replicate (N - 1) NUL)) = N - 1" by simp
    then show ?thesis using last unfolding strncpy_bytes_def by (metis nth_append_length)
  qed
qed

lemma buf_copy_id [simp]: "length s < N \<Longrightarrow> buf_copy N s = s"
  by (simp add: buf_copy_def)

lemma length_buf_copy: "0 < N \<Longrightarrow> length (buf_copy N s) < N"
  by (simp add: buf_copy_def)

lemma buf_copy_eq_self_iff: "0 < N \<Longrightarrow> buf_copy N s = s \<longleftrightarrow> length s < N"
  by (metis buf_copy_id length_buf_copy)

lemma buf_copy_idem [simp]: "buf_copy N (buf_copy N s) = buf_copy N s"
  by (simp add: buf_copy_def)

lemma cstring_buf_copy [intro]: "cstring s \<Longrightarrow> cstring (buf_copy N s)"
  by (auto simp: buf_copy_def)

lemma strcaseeq_refl [simp]: "strcaseeq s s"
  by (simp add: strcaseeq_def)

lemma strcaseeq_sym: "strcaseeq a b \<longleftrightarrow> strcaseeq b a"
  by (auto simp: strcaseeq_def)

lemma strcaseeq_trans: "strcaseeq a b \<Longrightarrow> strcaseeq b c \<Longrightarrow> strcaseeq a c"
  by (simp add: strcaseeq_def)

lemma strneq_refl [simp]: "strneq s s n"
  by (simp add: strneq_def)

lemma strneq_prefix_iff: "strneq p s (length p) \<longleftrightarrow> prefix p s"
  by (auto simp: strneq_def prefix_def take_is_prefix) (metis append_take_drop_id)

lemma strchr_None_iff: "strchr s c = None \<longleftrightarrow> c \<notin> set s"
proof -
  have "strchr s c = None \<longleftrightarrow> dropWhile (\<lambda>d. d \<noteq> c) s = []"
    unfolding strchr_def by (rule list.exhaust[of "dropWhile (\<lambda>d. d \<noteq> c) s"]) (simp_all only: list.case, simp_all)
  then show ?thesis by (auto simp: dropWhile_eq_Nil_conv)
qed

lemma strchr_SomeD:
  assumes "strchr s c = Some t"
  obtains u where "s = u @ t" "c \<notin> set u" "hd t = c" "t \<noteq> []"
proof -
  have t: "t = dropWhile (\<lambda>d. d \<noteq> c) s" "t \<noteq> []"
    using assms by (auto simp: strchr_def split: list.splits)
  have "s = takeWhile (\<lambda>d. d \<noteq> c) s @ t" using t by simp
  moreover have "c \<notin> set (takeWhile (\<lambda>d. d \<noteq> c) s)" by (auto dest: set_takeWhileD)
  moreover have "hd t = c" using t hd_dropWhile[of "\<lambda>d. d \<noteq> c" s] by simp
  ultimately show ?thesis using t that by blast
qed

lemma takeWhile_stop: "d \<notin> set xs \<Longrightarrow> takeWhile (\<lambda>c. c \<noteq> d) (xs @ d # ys) = xs"
  by (simp add: takeWhile_append)

lemma dropWhile_stop: "d \<notin> set xs \<Longrightarrow> dropWhile (\<lambda>c. c \<noteq> d) (xs @ d # ys) = d # ys"
  by (simp add: dropWhile_append)

lemma strchr_stop: "d \<notin> set xs \<Longrightarrow> strchr (xs @ d # ys) d = Some (d # ys)"
  by (simp add: strchr_def dropWhile_stop)

lemma strstr_None_iff: "strstr h n = None \<longleftrightarrow> \<not> sublist n h"
proof (induction h)
  case Nil
  then show ?case by simp
next
  case (Cons c h)
  have "take (length n) (c # h) = n \<longleftrightarrow> prefix n (c # h)"
    by (metis append_eq_conv_conj prefix_def)
  with Cons show ?case by (auto simp: sublist_Cons_right)
qed

lemma strstr_SomeD: "strstr h n = Some t \<Longrightarrow> suffix t h \<and> prefix n t"
proof (induction h)
  case Nil
  then show ?case by (auto split: if_splits)
next
  case (Cons c h)
  have "take (length n) (c # h) = n \<longleftrightarrow> prefix n (c # h)"
    by (metis append_eq_conv_conj prefix_def)
  with Cons show ?case by (auto split: if_splits simp: suffix_Cons)
qed

lemma strstr_append: "strstr s pat = Some t \<Longrightarrow> strstr (s @ u) pat = Some (t @ u)"
proof (induction s)
  case (Cons c s)
  show ?case
  proof (cases "take (length pat) (c # s) = pat")
    case True
    then have "length pat \<le> length (c # s)" by (metis length_take min.cobounded1)
    then have "take (length pat) ((c # s) @ u) = pat" using True by (metis append_Nil2 diff_is_0_eq take0 take_append)
    then have "strstr (c # s @ u) pat = Some (c # s @ u)" by simp
    moreover have "t = c # s" using True Cons.prems by simp
    ultimately show ?thesis by simp
  next
    case False
    with Cons.prems have IH: "strstr (s @ u) pat = Some (t @ u)" using Cons.IH by simp
    have "take (length pat) ((c # s) @ u) \<noteq> pat"
    proof
      assume a: "take (length pat) ((c # s) @ u) = pat"
      have "suffix t s" "prefix pat t" using strstr_SomeD[of s pat t] Cons.prems False by simp_all
      then have "length pat \<le> length (c # s)"
        using prefix_length_le suffix_length_le by (metis le_SucI length_Cons order_trans)
      then have "take (length pat) ((c # s) @ u) = take (length pat) (c # s)"
        by (simp only: take_append) simp
      with a False show False by simp
    qed
    with IH show ?thesis by simp
  qed
next
  case Nil
  then show ?case by (cases u) (auto split: if_splits)
qed

subsection \<open>Numbers as text\<close>

lemma digit_char_less: "d < 10 \<Longrightarrow> of_char (digit_char d) = 48 + (d::nat)"
  by (simp add: digit_char_def)

lemma is_digit_digit_char [simp]: "d < 10 \<Longrightarrow> is_digit (digit_char d)"
  by (simp add: is_digit_def digit_char_less Let_def)

lemma dec_nat_digits: "\<forall>c \<in> set (dec_nat n). is_digit c"
proof (induction n rule: less_induct)
  case (less n)
  show ?case
  proof (cases "n < 10")
    case True
    then show ?thesis by (simp add: dec_nat.simps[of n])
  next
    case False
    with less[of "n div 10"] show ?thesis by (simp add: dec_nat.simps[of n])
  qed
qed

lemma dec_nat_ne [simp]: "dec_nat n \<noteq> []"
  by (simp add: dec_nat.simps[of n])

lemma length_dec_nat: "n < 10 ^ k \<Longrightarrow> 0 < k \<Longrightarrow> length (dec_nat n) \<le> k"
proof (induction k arbitrary: n)
  case (Suc k)
  show ?case
  proof (cases "n < 10")
    case False
    then have "0 < k" using Suc.prems by (cases k) auto
    moreover have "n div 10 < 10 ^ k" using Suc.prems by (simp add: less_mult_imp_div_less mult.commute)
    ultimately show ?thesis using Suc.IH[of "n div 10"] False by (simp add: dec_nat.simps[of n])
  qed (simp add: dec_nat.simps[of n])
qed simp

lemma foldl_dec_nat: "foldl (\<lambda>n c. 10 * n + (of_char c - 48)) 0 (dec_nat n) = (n::nat)"
proof (induction n rule: less_induct)
  case (less n)
  show ?case
  proof (cases "n < 10")
    case True
    then show ?thesis by (simp add: dec_nat.simps[of n] digit_char_less)
  next
    case False
    with less[of "n div 10"] show ?thesis by (simp add: dec_nat.simps[of n] digit_char_less)
  qed
qed

lemma takeWhile_digits_append:
  "rest = [] \<or> \<not> is_digit (hd rest) \<Longrightarrow> takeWhile is_digit (dec_nat n @ rest) = dec_nat n"
  using dec_nat_digits[of n] by (cases rest) (auto simp: takeWhile_append2)

lemma digits_val_dec_nat:
  "rest = [] \<or> \<not> is_digit (hd rest) \<Longrightarrow> digits_val (dec_nat n @ rest) = n"
  by (simp add: digits_val_def takeWhile_digits_append foldl_dec_nat)

lemma dec_nat_no_sign: "split_sign (dropWhile is_space (dec_nat n @ rest)) = (False, dec_nat n @ rest)"
proof -
  obtain c cs where d: "dec_nat n = c # cs" by (cases "dec_nat n") auto
  then have "is_digit c" using dec_nat_digits[of n] by simp
  then have "\<not> is_space c" "c \<noteq> CHR ''-''" "c \<noteq> CHR ''+''" by (auto simp: is_digit_def is_space_def Let_def)
  then show ?thesis by (simp add: d split_sign_def)
qed

lemma atoi_dec_nat:
  assumes "n < 2 ^ 31" "rest = [] \<or> \<not> is_digit (hd rest)"
  shows "atoi (dec_nat n @ rest) = int n"
proof -
  have "strtol (dec_nat n @ rest) = int n"
    using assms by (simp add: strtol_def dec_nat_no_sign digits_val_dec_nat)
  then show ?thesis using assms(1) by (simp add: atoi_def wrap32_def)
qed

subsection \<open>Scans\<close>

lemma first_idx_None_iff: "first_idx P xs = None \<longleftrightarrow> (\<forall>x \<in> set xs. \<not> P x)"
  by (induction xs) auto

lemma first_idx_Some_iff:
  "first_idx P xs = Some i \<longleftrightarrow> i < length xs \<and> P (xs ! i) \<and> (\<forall>j < i. \<not> P (xs ! j))"
proof (induction xs arbitrary: i)
  case Nil
  then show ?case by simp
next
  case (Cons x xs)
  then show ?case by (cases i) (auto simp: less_Suc_eq_0_disj)
qed

lemma first_idx_SomeD:
  assumes "first_idx P xs = Some i"
  shows "i < length xs" and "P (xs ! i)" and "\<And>j. j < i \<Longrightarrow> \<not> P (xs ! j)"
  using assms by (auto simp: first_idx_Some_iff)

lemma first_idx_append:
  "first_idx P (xs @ ys) =
     (case first_idx P xs of Some i \<Rightarrow> Some i
      | None \<Rightarrow> map_option (\<lambda>i. i + length xs) (first_idx P ys))"
proof (induction xs)
  case Nil
  then show ?case by (simp add: option.map_ident)
next
  case (Cons x xs)
  then show ?case by (auto split: option.splits simp: option.map_comp comp_def)
qed

lemma first_idx_cong:
  "(\<And>x. x \<in> set xs \<Longrightarrow> P x = Q x) \<Longrightarrow> first_idx P xs = first_idx Q xs"
  by (induction xs) auto

lemma first_idx_map: "first_idx P (map f xs) = first_idx (P \<circ> f) xs"
  by (induction xs) auto

lemma first_idx_unique:
  "i < length xs \<Longrightarrow> P (xs ! i) \<Longrightarrow> (\<And>j. j < length xs \<Longrightarrow> P (xs ! j) \<Longrightarrow> j = i)
    \<Longrightarrow> first_idx P xs = Some i"
  unfolding first_idx_Some_iff by (metis order_less_trans nat_neq_iff)

lemma scan_best_Some:
  "\<exists>r. scan_best E k i (Some b) xs = Some r \<and> snd r \<le> snd b \<and>
     (\<forall>x \<in> set xs. E x \<longrightarrow> snd r \<le> k x) \<and>
     (r = b \<or> (\<exists>j < length xs. r = (i + j, k (xs ! j)) \<and> E (xs ! j)))"
proof (induction xs arbitrary: i b)
  case Nil
  then show ?case by simp
next
  case (Cons x xs)
  show ?case
  proof (cases "E x \<and> k x < snd b")
    case True
    then have eq: "scan_best E k i (Some b) (x # xs) = scan_best E k (Suc i) (Some (i, k x)) xs"
      by (cases b) simp
    from Cons.IH[of "Suc i" "(i, k x)"] obtain r where
      r: "scan_best E k (Suc i) (Some (i, k x)) xs = Some r" "snd r \<le> k x"
         "\<forall>x \<in> set xs. E x \<longrightarrow> snd r \<le> k x"
         "r = (i, k x) \<or> (\<exists>j < length xs. r = (Suc i + j, k (xs ! j)) \<and> E (xs ! j))"
      by auto
    from r(4) have "\<exists>j < length (x # xs). r = (i + j, k ((x # xs) ! j)) \<and> E ((x # xs) ! j)"
    proof
      assume "r = (i, k x)"
      with True show ?thesis by (intro exI[of _ 0]) simp
    next
      assume "\<exists>j < length xs. r = (Suc i + j, k (xs ! j)) \<and> E (xs ! j)"
      then obtain j where "j < length xs" "r = (Suc i + j, k (xs ! j))" "E (xs ! j)" by blast
      then show ?thesis by (intro exI[of _ "Suc j"]) simp
    qed
    with eq r True show ?thesis by (intro exI[of _ r]) auto
  next
    case False
    then have eq: "scan_best E k i (Some b) (x # xs) = scan_best E k (Suc i) (Some b) xs"
      by (cases b) auto
    from Cons.IH[of "Suc i" b] obtain r where
      r: "scan_best E k (Suc i) (Some b) xs = Some r" "snd r \<le> snd b"
         "\<forall>x \<in> set xs. E x \<longrightarrow> snd r \<le> k x"
         "r = b \<or> (\<exists>j < length xs. r = (Suc i + j, k (xs ! j)) \<and> E (xs ! j))"
      by auto
    from r(4) have "r = b \<or> (\<exists>j < length (x # xs). r = (i + j, k ((x # xs) ! j)) \<and> E ((x # xs) ! j))"
      by (metis (no_types, lifting) add_Suc_right add_Suc_shift length_Cons not_less_eq nth_Cons_Suc)
    with eq r False show ?thesis by (intro exI[of _ r]) auto
  qed
qed

lemma scan_best_None:
  "scan_best E k i None xs = None \<longleftrightarrow> (\<forall>x \<in> set xs. \<not> E x)"
proof (induction xs arbitrary: i)
  case (Cons x xs)
  then show ?case using scan_best_Some[of E k "Suc i" "(i, k x)" xs] by auto
qed simp

lemma scan_best_SomeD:
  "scan_best E k i None xs = Some (b, m) \<Longrightarrow>
     \<exists>j < length xs. b = i + j \<and> m = k (xs ! j) \<and> E (xs ! j) \<and> (\<forall>x \<in> set xs. E x \<longrightarrow> m \<le> k x)"
proof (induction xs arbitrary: i)
  case (Cons x xs)
  show ?case
  proof (cases "E x")
    case True
    with Cons.prems have "scan_best E k (Suc i) (Some (i, k x)) xs = Some (b, m)" by simp
    with scan_best_Some[of E k "Suc i" "(i, k x)" xs] have
      r: "m \<le> k x" "\<forall>x \<in> set xs. E x \<longrightarrow> m \<le> k x"
         "(b, m) = (i, k x) \<or> (\<exists>j < length xs. (b, m) = (Suc i + j, k (xs ! j)) \<and> E (xs ! j))"
      by auto
    from r(3) show ?thesis
    proof
      assume "(b, m) = (i, k x)"
      with True r show ?thesis by (intro exI[of _ 0]) auto
    next
      assume "\<exists>j < length xs. (b, m) = (Suc i + j, k (xs ! j)) \<and> E (xs ! j)"
      then obtain j where "j < length xs" "b = Suc i + j" "m = k (xs ! j)" "E (xs ! j)" by auto
      with r show ?thesis by (intro exI[of _ "Suc j"]) auto
    qed
  next
    case False
    with Cons.prems Cons.IH[of "Suc i"] obtain j where
      "j < length xs" "b = Suc i + j" "m = k (xs ! j)" "E (xs ! j)" "\<forall>x \<in> set xs. E x \<longrightarrow> m \<le> k x"
      by auto
    with False show ?thesis by (intro exI[of _ "Suc j"]) auto
  qed
qed simp

subsection \<open>Removal by swapping\<close>

lemma length_swap_remove [simp]: "length (swap_remove xs i) = length xs - 1"
  by (simp add: swap_remove_def)

lemma mset_swap_remove:
  assumes "i < length xs"
  shows "mset (swap_remove xs i) = mset xs - {#xs ! i#}"
proof -
  have ne: "xs[i := last xs] \<noteq> []" using assms by auto
  have l: "last (xs[i := last xs]) = last xs"
    using assms ne by (subst last_conv_nth[OF ne])
      (auto simp: nth_list_update last_conv_nth[of xs])
  have "mset (xs[i := last xs]) = mset (swap_remove xs i) + {#last xs#}"
    using append_butlast_last_id[OF ne] l unfolding swap_remove_def
    by (metis mset.simps(1) mset.simps(2) mset_append)
  moreover have "mset (xs[i := last xs]) = mset xs - {#xs ! i#} + {#last xs#}"
    using assms by (simp add: mset_update)
  ultimately show ?thesis by simp
qed

lemma set_swap_remove: "i < length xs \<Longrightarrow> set (swap_remove xs i) \<subseteq> set xs"
  by (metis diff_subset_eq_self mset_swap_remove set_mset_mono set_mset_mset)

lemma distinct_map_swap_remove:
  assumes "distinct (map f xs)" "i < length xs"
  shows "distinct (map f (swap_remove xs i))"
    and "f ` set (swap_remove xs i) = f ` set xs - {f (xs ! i)}"
proof -
  have m: "mset (map f (swap_remove xs i)) = mset (map f xs) - {#f (xs ! i)#}"
    using assms(2) by (simp add: mset_swap_remove image_mset_Diff)
  then show d: "distinct (map f (swap_remove xs i))"
    using assms(1) by (metis distinct_remove1 mset_eq_imp_distinct_iff mset_remove1)
  have "set (map f (swap_remove xs i)) = set (remove1 (f (xs ! i)) (map f xs))"
    using m by (metis mset_remove1 set_mset_mset)
  then show "f ` set (swap_remove xs i) = f ` set xs - {f (xs ! i)}"
    using assms(1) by simp
qed

subsection \<open>Evaluation\<close>

lemmas [arws_eval] =
  lower_char_def strcaseeq_def strneq_def strncaseeq_def strchr_def strrchr_def
  buf_copy_def djb2_def djb2_from_def djb2_step_def char_of_def swap_remove_def
  cinc32_def wrap32_def crem_def digit_char_def dec_nat.simps dec_int_def
  is_space_def is_digit_def digits_val_def split_sign_def strtol_def atoi_def

end
