(* ===== verification/Upstream.thy ===== *)
theory Upstream
  imports Arws_Prelude
begin

text \<open>
  The upstream load balancer, \<open>src/src/arws_upstream.c\<close>: pools of backend nodes, the four
  selection algorithms, the release of a node with passive circuit breaking, and the
  operations that manage pools and nodes.

  A pool is a record; its \<open>nodes\<close> array is the list of the first \<open>node_count\<close> entries, the
  only ones the code reads. A node pointer is a pair of a pool slot and a node index. Each
  operation runs under the pool's mutex and is one state transformer. Every entry point
  returns \<open>-1\<close> on a NULL name, which the model leaves out. A round-robin index that has
  overflowed \<open>int\<close> makes the code read outside the array: that is the error value
  \<open>OutOfBounds\<close>.
\<close>

section \<open>Data\<close>

datatype ArwsLbAlgo =
    ARWS_LB_ROUND_ROBIN
  | ARWS_LB_WEIGHTED_ROUND_ROBIN
  | ARWS_LB_LEAST_CONN
  | ARWS_LB_IP_HASH

record ArwsBackendNode =
  node_id :: string
  node_host :: string
  node_port :: int
  weight :: int
  effective_weight :: int
  current_weight :: int
  active_conns :: int
  is_alive :: bool
  is_backup :: int
  is_draining :: bool
  fail_count :: int
  pass_count :: int
  last_check_ms :: uint64
  total_requests :: uint64
  total_errors :: uint64

record ArwsUpstreamPool =
  pool_name :: string
  pool_algo :: ArwsLbAlgo
  pool_nodes :: "ArwsBackendNode list"
  rr_index :: int
  health_path :: string
  check_interval_ms :: int
  check_timeout_ms :: int
  fall_threshold :: int
  rise_threshold :: int
  pool_active :: bool

record upstream_state =
  g_pools :: "ArwsUpstreamPool list"
  g_upstream_initialized :: bool

type_synonym node_ptr = "nat \<times> nat"

abbreviation (input) ARWS_MAX_NODES_PER_POOL :: nat where "ARWS_MAX_NODES_PER_POOL \<equiv> 32"
abbreviation (input) ARWS_MAX_POOLS :: nat where "ARWS_MAX_POOLS \<equiv> 64"

section \<open>Life cycle\<close>

definition zero_pool :: ArwsUpstreamPool where
  "zero_pool = \<lparr>pool_name = [], pool_algo = ARWS_LB_ROUND_ROBIN, pool_nodes = [], rr_index = 0,
     health_path = [], check_interval_ms = 0, check_timeout_ms = 0, fall_threshold = 0,
     rise_threshold = 0, pool_active = False\<rparr>"

definition arws_upstream_init :: "upstream_state \<Rightarrow> upstream_state" where
  "arws_upstream_init st =
     (if g_upstream_initialized st then st
      else \<lparr>g_pools = replicate ARWS_MAX_POOLS zero_pool, g_upstream_initialized = True\<rparr>)"

definition arws_upstream_cleanup :: "upstream_state \<Rightarrow> upstream_state" where
  "arws_upstream_cleanup st =
     (if \<not> g_upstream_initialized st then st
      else \<lparr>g_pools = map (\<lambda>p. p\<lparr>pool_active := False\<rparr>) (g_pools st),
            g_upstream_initialized = False\<rparr>)"

section \<open>Pools and nodes\<close>

definition pool_named :: "string \<Rightarrow> ArwsUpstreamPool \<Rightarrow> bool" where
  "pool_named name p \<longleftrightarrow> pool_active p \<and> pool_name p = name"

definition arws_upstream_create_pool ::
  "string \<Rightarrow> ArwsLbAlgo \<Rightarrow> upstream_state \<Rightarrow> int \<times> upstream_state" where
  "arws_upstream_create_pool name algo st0 =
     (if name = [] then (-1, st0)
      else let st = arws_upstream_init st0 in
        case first_idx (pool_named name) (g_pools st) of
          Some i \<Rightarrow> (0, st\<lparr>g_pools := (g_pools st)[i := (g_pools st ! i)\<lparr>pool_algo := algo\<rparr>]\<rparr>)
        | None \<Rightarrow>
          (case first_idx (\<lambda>p. \<not> pool_active p) (g_pools st) of
             Some i \<Rightarrow>
               (0, st\<lparr>g_pools := (g_pools st)[i := (g_pools st ! i)
                  \<lparr>pool_active := True, pool_name := buf_copy 64 name, pool_algo := algo,
                   pool_nodes := [], rr_index := 0, health_path := ''/healthz'',
                   check_interval_ms := 5000, check_timeout_ms := 2000,
                   fall_threshold := 3, rise_threshold := 2\<rparr>]\<rparr>)
           | None \<Rightarrow> (-1, st)))"

definition arws_upstream_get_pool ::
  "string \<Rightarrow> upstream_state \<Rightarrow> upstream_state \<times> nat option" where
  "arws_upstream_get_pool name st =
     (if name = [] then (st, None)
      else let st' = arws_upstream_init st in (st', first_idx (pool_named name) (g_pools st')))"

definition upd_pool ::
  "nat \<Rightarrow> (ArwsUpstreamPool \<Rightarrow> ArwsUpstreamPool) \<Rightarrow> upstream_state \<Rightarrow> upstream_state" where
  "upd_pool k f st = st\<lparr>g_pools := (g_pools st)[k := f (g_pools st ! k)]\<rparr>"

definition set_health_params_locked ::
  "string option \<Rightarrow> int \<Rightarrow> int \<Rightarrow> int \<Rightarrow> int \<Rightarrow> ArwsUpstreamPool \<Rightarrow> ArwsUpstreamPool" where
  "set_health_params_locked path interval_ms timeout_ms fall_thresh rise_thresh p =
     p\<lparr>health_path := (case path of None \<Rightarrow> health_path p
                       | Some s \<Rightarrow> if s = [] then health_path p else buf_copy 128 s),
       check_interval_ms := (if interval_ms > 0 then interval_ms else check_interval_ms p),
       check_timeout_ms := (if timeout_ms > 0 then timeout_ms else check_timeout_ms p),
       fall_threshold := (if fall_thresh > 0 then fall_thresh else fall_threshold p),
       rise_threshold := (if rise_thresh > 0 then rise_thresh else rise_threshold p)\<rparr>"

definition arws_upstream_set_health_params ::
  "string \<Rightarrow> string option \<Rightarrow> int \<Rightarrow> int \<Rightarrow> int \<Rightarrow> int \<Rightarrow> upstream_state \<Rightarrow> int \<times> upstream_state" where
  "arws_upstream_set_health_params name path interval_ms timeout_ms fall_thresh rise_thresh st =
     (case arws_upstream_get_pool name st of
        (st1, None) \<Rightarrow> (-1, st1)
      | (st1, Some k) \<Rightarrow>
          (0, upd_pool k (set_health_params_locked path interval_ms timeout_ms fall_thresh
                            rise_thresh) st1))"

definition node_at :: "string \<Rightarrow> int \<Rightarrow> ArwsBackendNode \<Rightarrow> bool" where
  "node_at h p n \<longleftrightarrow> node_host n = h \<and> node_port n = p"

definition clamp_weight :: "int \<Rightarrow> int" where
  "clamp_weight w = (let w1 = (if w \<le> 0 then 1 else w) in if w1 > 100 then 100 else w1)"

definition new_node :: "string \<Rightarrow> int \<Rightarrow> int \<Rightarrow> int \<Rightarrow> ArwsBackendNode" where
  "new_node h p w backup =
     \<lparr>node_id = buf_copy 64 (h @ '':'' @ dec_int p), node_host = buf_copy 128 h, node_port = p,
      weight = w, effective_weight = w, current_weight = 0, active_conns = 0, is_alive = True,
      is_backup = backup, is_draining = False, fail_count = 0, pass_count = 0,
      last_check_ms = 0, total_requests = 0, total_errors = 0\<rparr>"

definition add_node_locked ::
  "string \<Rightarrow> int \<Rightarrow> int \<Rightarrow> int \<Rightarrow> ArwsUpstreamPool \<Rightarrow> int \<times> ArwsUpstreamPool" where
  "add_node_locked h p w backup pool =
     (case first_idx (node_at h p) (pool_nodes pool) of
        Some i \<Rightarrow>
          (0, pool\<lparr>pool_nodes := (pool_nodes pool)[i := (pool_nodes pool ! i)
             \<lparr>weight := w, effective_weight := w, is_backup := backup\<rparr>]\<rparr>)
      | None \<Rightarrow>
          if length (pool_nodes pool) \<ge> ARWS_MAX_NODES_PER_POOL then (-1, pool)
          else (0, pool\<lparr>pool_nodes := pool_nodes pool @ [new_node h p w backup]\<rparr>))"

definition add_node_slot ::
  "nat \<Rightarrow> string \<Rightarrow> int \<Rightarrow> int \<Rightarrow> int \<Rightarrow> upstream_state \<Rightarrow> int \<times> upstream_state" where
  "add_node_slot k h p w backup st =
     (let (rc, pool) = add_node_locked h p (clamp_weight w) backup (g_pools st ! k)
      in (rc, upd_pool k (\<lambda>_. pool) st))"

definition arws_upstream_add_node ::
  "string \<Rightarrow> string \<Rightarrow> int \<Rightarrow> int \<Rightarrow> int \<Rightarrow> upstream_state \<Rightarrow> int \<times> upstream_state" where
  "arws_upstream_add_node name h p w backup st =
     (if p \<le> 0 then (-1, st)
      else case arws_upstream_get_pool name st of
        (st1, Some k) \<Rightarrow> add_node_slot k h p w backup st1
      | (st1, None) \<Rightarrow>
          (case arws_upstream_create_pool name ARWS_LB_WEIGHTED_ROUND_ROBIN st1 of
             (rc, st2) \<Rightarrow>
               if rc \<noteq> 0 then (-1, st2)
               else (case arws_upstream_get_pool name st2 of
                       (st3, None) \<Rightarrow> (-1, st3)
                     | (st3, Some k) \<Rightarrow> add_node_slot k h p w backup st3)))"

definition arws_upstream_remove_node ::
  "string \<Rightarrow> string \<Rightarrow> int \<Rightarrow> upstream_state \<Rightarrow> int \<times> upstream_state" where
  "arws_upstream_remove_node name h p st =
     (case arws_upstream_get_pool name st of
        (st1, None) \<Rightarrow> (-1, st1)
      | (st1, Some k) \<Rightarrow>
          (case first_idx (node_at h p) (pool_nodes (g_pools st1 ! k)) of
             Some i \<Rightarrow>
               (0, upd_pool k (\<lambda>pool. pool\<lparr>pool_nodes :=
                     take i (pool_nodes pool) @ drop (Suc i) (pool_nodes pool)\<rparr>) st1)
           | None \<Rightarrow> (-1, st1)))"

definition arws_upstream_set_node_drain ::
  "string \<Rightarrow> string \<Rightarrow> int \<Rightarrow> int \<Rightarrow> upstream_state \<Rightarrow> int \<times> upstream_state" where
  "arws_upstream_set_node_drain name h p drain st =
     (case arws_upstream_get_pool name st of
        (st1, None) \<Rightarrow> (-1, st1)
      | (st1, Some k) \<Rightarrow>
          (case first_idx (node_at h p) (pool_nodes (g_pools st1 ! k)) of
             Some i \<Rightarrow>
               (0, upd_pool k (\<lambda>pool. pool\<lparr>pool_nodes := (pool_nodes pool)[i :=
                     (pool_nodes pool ! i)\<lparr>is_draining := (drain \<noteq> 0)\<rparr>]\<rparr>) st1)
           | None \<Rightarrow> (-1, st1)))"

definition arws_upstream_get_all_pools ::
  "int \<Rightarrow> upstream_state \<Rightarrow> upstream_state \<times> ArwsUpstreamPool list" where
  "arws_upstream_get_all_pools max_pools st =
     (if max_pools \<le> 0 then (st, [])
      else let st' = arws_upstream_init st
           in (st', take (nat max_pools) (filter pool_active (g_pools st'))))"

section \<open>Load balancing algorithms\<close>

definition eligible :: "int \<Rightarrow> ArwsBackendNode \<Rightarrow> bool" where
  "eligible use_backup n \<longleftrightarrow> is_alive n \<and> \<not> is_draining n \<and> is_backup n = use_backup"

definition take_node :: "ArwsBackendNode \<Rightarrow> ArwsBackendNode" where
  "take_node n = n\<lparr>active_conns := active_conns n + 1, total_requests := total_requests n + 1\<rparr>"

definition take_idx :: "nat \<Rightarrow> ArwsUpstreamPool \<Rightarrow> ArwsUpstreamPool" where
  "take_idx i p = p\<lparr>pool_nodes := (pool_nodes p)[i := take_node (pool_nodes p ! i)]\<rparr>"

text \<open>Smooth weighted round-robin: the loop body for an eligible node, the loop, and the
  correction of the winner.\<close>

definition wrr_bump :: "int \<Rightarrow> ArwsBackendNode \<Rightarrow> ArwsBackendNode" where
  "wrr_bump use_backup n =
     (if eligible use_backup n
      then n\<lparr>current_weight := current_weight n + effective_weight n,
             effective_weight := (if effective_weight n < weight n then effective_weight n + 1
                                  else effective_weight n)\<rparr>
      else n)"

fun wrr_loop ::
  "int \<Rightarrow> nat \<Rightarrow> (nat \<times> int) option \<Rightarrow> int \<Rightarrow> ArwsBackendNode list
    \<Rightarrow> ArwsBackendNode list \<times> (nat \<times> int) option \<times> int" where
  "wrr_loop use_backup i best total_w [] = ([], best, total_w)"
| "wrr_loop use_backup i best total_w (n # ns) =
     (if \<not> eligible use_backup n
      then (let (ns', r) = wrr_loop use_backup (Suc i) best total_w ns in (n # ns', r))
      else (let n' = wrr_bump use_backup n;
                best' = (case best of
                           None \<Rightarrow> Some (i, current_weight n')
                         | Some (b, bw) \<Rightarrow>
                             if current_weight n' > bw then Some (i, current_weight n') else best);
                (ns', r) = wrr_loop use_backup (Suc i) best' (total_w + effective_weight n) ns
            in (n' # ns', r)))"

definition select_wrr_locked ::
  "ArwsUpstreamPool \<Rightarrow> int \<Rightarrow> ArwsUpstreamPool \<times> nat option" where
  "select_wrr_locked p use_backup =
     (case wrr_loop use_backup 0 None 0 (pool_nodes p) of
        (ns, None, total_w) \<Rightarrow> (p\<lparr>pool_nodes := ns\<rparr>, None)
      | (ns, Some (b, bw), total_w) \<Rightarrow>
          (p\<lparr>pool_nodes := ns[b := take_node
               ((ns ! b)\<lparr>current_weight := current_weight (ns ! b) - total_w\<rparr>)]\<rparr>, Some b))"

text \<open>Least connections.\<close>

fun least_conn_loop ::
  "int \<Rightarrow> nat \<Rightarrow> (nat \<times> int) option \<Rightarrow> ArwsBackendNode list \<Rightarrow> (nat \<times> int) option" where
  "least_conn_loop use_backup i best [] = best"
| "least_conn_loop use_backup i best (n # ns) =
     (if \<not> eligible use_backup n then least_conn_loop use_backup (Suc i) best ns
      else least_conn_loop use_backup (Suc i)
             (case best of
                None \<Rightarrow> Some (i, active_conns n)
              | Some (b, bc) \<Rightarrow> if active_conns n < bc then Some (i, active_conns n) else best) ns)"

definition select_least_conn_locked ::
  "ArwsUpstreamPool \<Rightarrow> int \<Rightarrow> ArwsUpstreamPool \<times> nat option" where
  "select_least_conn_locked p use_backup =
     (case least_conn_loop use_backup 0 None (pool_nodes p) of
        None \<Rightarrow> (p, None)
      | Some (b, bc) \<Rightarrow> (take_idx b p, Some b))"

text \<open>Hashing of the client address.\<close>

definition hash_ip :: "string option \<Rightarrow> uint32" where
  "hash_ip ip = (case ip of None \<Rightarrow> 5381 | Some s \<Rightarrow> djb2 s)"

definition candidates :: "int \<Rightarrow> ArwsUpstreamPool \<Rightarrow> nat list" where
  "candidates use_backup p =
     filter (\<lambda>i. eligible use_backup (pool_nodes p ! i)) [0..<length (pool_nodes p)]"

definition select_ip_hash_locked ::
  "ArwsUpstreamPool \<Rightarrow> string option \<Rightarrow> int \<Rightarrow> ArwsUpstreamPool \<times> nat option" where
  "select_ip_hash_locked p client_ip use_backup =
     (let cs = candidates use_backup p in
      if length cs = 0 then (p, None)
      else let i = cs ! (unat (hash_ip client_ip) mod length cs) in (take_idx i p, Some i))"

text \<open>Plain round-robin.\<close>

fun rr_loop ::
  "nat \<Rightarrow> ArwsUpstreamPool \<Rightarrow> int \<Rightarrow> mem_error + (ArwsUpstreamPool \<times> nat option)" where
  "rr_loop 0 p use_backup = Inr (p, None)"
| "rr_loop (Suc attempts) p use_backup =
     (let idx = crem (rr_index p) (int (length (pool_nodes p)));
          p' = p\<lparr>rr_index := cinc32 (rr_index p)\<rparr>
      in if idx < 0 \<or> int (length (pool_nodes p)) \<le> idx then Inl OutOfBounds
         else if eligible use_backup (pool_nodes p ! nat idx)
         then Inr (take_idx (nat idx) p', Some (nat idx))
         else rr_loop attempts p' use_backup)"

definition select_rr_locked ::
  "ArwsUpstreamPool \<Rightarrow> int \<Rightarrow> mem_error + (ArwsUpstreamPool \<times> nat option)" where
  "select_rr_locked p use_backup = rr_loop (length (pool_nodes p)) p use_backup"

definition select_algo ::
  "string option \<Rightarrow> ArwsUpstreamPool \<Rightarrow> int \<Rightarrow> mem_error + (ArwsUpstreamPool \<times> nat option)" where
  "select_algo client_ip p use_backup =
     (case pool_algo p of
        ARWS_LB_ROUND_ROBIN \<Rightarrow> select_rr_locked p use_backup
      | ARWS_LB_LEAST_CONN \<Rightarrow> Inr (select_least_conn_locked p use_backup)
      | ARWS_LB_IP_HASH \<Rightarrow> Inr (select_ip_hash_locked p client_ip use_backup)
      | ARWS_LB_WEIGHTED_ROUND_ROBIN \<Rightarrow> Inr (select_wrr_locked p use_backup))"

text \<open>Primary nodes first, backup nodes only when no primary was found.\<close>

definition select_locked ::
  "string option \<Rightarrow> ArwsUpstreamPool \<Rightarrow> mem_error + (ArwsUpstreamPool \<times> nat option)" where
  "select_locked client_ip p =
     (case select_algo client_ip p 0 of
        Inl e \<Rightarrow> Inl e
      | Inr (p1, Some i) \<Rightarrow> Inr (p1, Some i)
      | Inr (p1, None) \<Rightarrow> select_algo client_ip p1 1)"

definition arws_upstream_select ::
  "string \<Rightarrow> string option \<Rightarrow> upstream_state \<Rightarrow> mem_error + (upstream_state \<times> node_ptr option)" where
  "arws_upstream_select name client_ip st =
     (case arws_upstream_get_pool name st of
        (st1, None) \<Rightarrow> Inr (st1, None)
      | (st1, Some k) \<Rightarrow>
          if pool_nodes (g_pools st1 ! k) = [] then Inr (st1, None)
          else (case select_locked client_ip (g_pools st1 ! k) of
                  Inl e \<Rightarrow> Inl e
                | Inr (p, r) \<Rightarrow>
                    Inr (upd_pool k (\<lambda>_. p) st1, map_option (\<lambda>i. (k, i)) r)))"

section \<open>Release with passive circuit breaker\<close>

definition release_node ::
  "ArwsUpstreamPool \<Rightarrow> int \<Rightarrow> ArwsBackendNode \<Rightarrow> ArwsBackendNode" where
  "release_node pool status_code n0 =
     (let n = (if active_conns n0 > 0 then n0\<lparr>active_conns := active_conns n0 - 1\<rparr> else n0) in
      if status_code \<ge> 500 \<or> status_code < 0
      then (let n1 = n\<lparr>total_errors := total_errors n + 1, fail_count := fail_count n + 1,
                       effective_weight := (if effective_weight n > 1 then effective_weight n div 2
                                            else effective_weight n)\<rparr>
            in if fail_count n1 \<ge> fall_threshold pool then n1\<lparr>is_alive := False\<rparr> else n1)
      else (let n1 = n\<lparr>fail_count := 0, pass_count := pass_count n + 1\<rparr>
            in if pass_count n1 \<ge> rise_threshold pool
               then n1\<lparr>is_alive := True, effective_weight := weight n1\<rparr> else n1))"

definition arws_upstream_release ::
  "string \<Rightarrow> node_ptr option \<Rightarrow> int \<Rightarrow> upstream_state \<Rightarrow> upstream_state" where
  "arws_upstream_release name node status_code st =
     (case node of
        None \<Rightarrow> st
      | Some (k, i) \<Rightarrow>
          (case arws_upstream_get_pool name st of
             (st1, None) \<Rightarrow> st1
           | (st1, Some kp) \<Rightarrow>
               upd_pool k (\<lambda>p. p\<lparr>pool_nodes := (pool_nodes p)[i :=
                 release_node (g_pools st1 ! kp) status_code (pool_nodes p ! i)]\<rparr>) st1))"


section \<open>The invariant\<close>

definition wf_node :: "ArwsBackendNode \<Rightarrow> bool" where
  "wf_node n \<longleftrightarrow> 1 \<le> weight n \<and> weight n \<le> 100 \<and> 1 \<le> effective_weight n \<and>
     effective_weight n \<le> weight n \<and> 0 \<le> active_conns n \<and> length (node_host n) < 128"

definition node_key :: "ArwsBackendNode \<Rightarrow> string \<times> int" where
  "node_key n = (node_host n, node_port n)"

definition wf_pool :: "ArwsUpstreamPool \<Rightarrow> bool" where
  "wf_pool p \<longleftrightarrow> length (pool_nodes p) \<le> ARWS_MAX_NODES_PER_POOL \<and>
     (\<forall>n \<in> set (pool_nodes p). wf_node n) \<and> distinct (map node_key (pool_nodes p)) \<and>
     length (pool_name p) < 64"

definition wf_upstream :: "upstream_state \<Rightarrow> bool" where
  "wf_upstream st \<longleftrightarrow> length (g_pools st) = ARWS_MAX_POOLS \<and> (\<forall>p \<in> set (g_pools st). wf_pool p) \<and>
     (\<forall>i < length (g_pools st). \<forall>j < length (g_pools st).
        pool_active (g_pools st ! i) \<and> pool_active (g_pools st ! j) \<and>
        pool_name (g_pools st ! i) = pool_name (g_pools st ! j) \<longrightarrow> i = j)"

end
