(* ===== verification/Upstream_Laws.thy ===== *)
theory Upstream_Laws
  imports Upstream
begin

text \<open>
  Correctness of the load balancer of \<open>Upstream\<close>: the contract every selection algorithm
  satisfies (locale \<open>node_selector\<close>, interpreted on the four algorithms), the choice each of
  them makes, the fairness of smooth weighted round-robin over a full cycle, the invariant
  of the pool table, and the circuit breaker.
\<close>

section \<open>Lemmas: characterisation of the loops\<close>

text \<open>What identifies a node and decides its eligibility; no selection changes it.\<close>

definition node_static :: "ArwsBackendNode \<Rightarrow> string \<times> int \<times> bool \<times> bool \<times> int \<times> int" where
  "node_static n = (node_host n, node_port n, is_alive n, is_draining n, is_backup n, weight n)"

lemma node_static_take [simp]: "node_static (take_node n) = node_static n"
  by (simp add: node_static_def take_node_def)

lemma node_static_bump [simp]: "node_static (wrr_bump ub n) = node_static n"
  by (simp add: node_static_def wrr_bump_def)

lemma node_static_cw [simp]: "node_static (n\<lparr>current_weight := c\<rparr>) = node_static n"
  by (simp add: node_static_def)

lemma eligible_static: "node_static m = node_static n \<Longrightarrow> eligible ub m = eligible ub n"
  by (simp add: node_static_def eligible_def)

lemma node_key_static: "node_static m = node_static n \<Longrightarrow> node_key m = node_key n"
  by (simp add: node_static_def node_key_def)

lemma active_conns_bump [simp]: "active_conns (wrr_bump ub n) = active_conns n"
  by (simp add: wrr_bump_def)

lemma least_conn_loop_scan:
  "least_conn_loop ub i best ns = scan_best (eligible ub) active_conns i best ns"
  by (induction ns arbitrary: i best) auto

definition neg_best :: "(nat \<times> int) option \<Rightarrow> (nat \<times> int) option" where
  "neg_best = map_option (\<lambda>(b, w). (b, - w))"

lemma wrr_loop_char:
  "wrr_loop ub i best t ns =
     (map (wrr_bump ub) ns,
      neg_best (scan_best (eligible ub) (\<lambda>n. - (current_weight n + effective_weight n)) i
        (neg_best best) ns),
      t + (\<Sum>n \<leftarrow> filter (eligible ub) ns. effective_weight n))"
proof (induction ns arbitrary: i best t)
  case Nil
  then show ?case by (cases best) (auto simp: neg_best_def)
next
  case (Cons n ns)
  show ?case
  proof (cases "eligible ub n")
    case False
    with Cons show ?thesis by (simp add: wrr_bump_def)
  next
    case True
    then have cw: "current_weight (wrr_bump ub n) = current_weight n + effective_weight n"
      by (simp add: wrr_bump_def)
    show ?thesis
      by (cases best) (use True cw Cons in \<open>auto simp: neg_best_def\<close>)
  qed
qed


section \<open>The contract of a selection algorithm\<close>

text \<open>What a selection may change: nothing that identifies a node or decides its
  eligibility, and the connection counter of the chosen node only.\<close>

definition conns_after :: "nat option \<Rightarrow> ArwsUpstreamPool \<Rightarrow> int list" where
  "conns_after r p =
     (case r of None \<Rightarrow> map active_conns (pool_nodes p)
      | Some i \<Rightarrow> (map active_conns (pool_nodes p))[i := active_conns (pool_nodes p ! i) + 1])"

definition select_frame :: "ArwsUpstreamPool \<Rightarrow> ArwsUpstreamPool \<Rightarrow> nat option \<Rightarrow> bool" where
  "select_frame p p' r \<longleftrightarrow>
     map node_static (pool_nodes p') = map node_static (pool_nodes p) \<and>
     map active_conns (pool_nodes p') = conns_after r p \<and>
     pool_algo p' = pool_algo p \<and> pool_name p' = pool_name p \<and> pool_active p' = pool_active p"

definition select_choice :: "int \<Rightarrow> ArwsUpstreamPool \<Rightarrow> nat option \<Rightarrow> bool" where
  "select_choice ub p r =
     (case r of None \<Rightarrow> (\<forall>n \<in> set (pool_nodes p). \<not> eligible ub n)
      | Some i \<Rightarrow> i < length (pool_nodes p) \<and> eligible ub (pool_nodes p ! i))"

text \<open>\<open>room k p\<close> says that \<open>k\<close> further selections on \<open>p\<close> stay clear of integer overflow.\<close>

locale node_selector =
  fixes sel :: "ArwsUpstreamPool \<Rightarrow> int \<Rightarrow> mem_error + (ArwsUpstreamPool \<times> nat option)"
    and room :: "nat \<Rightarrow> ArwsUpstreamPool \<Rightarrow> bool"
  assumes returns: "room (Suc k) p \<Longrightarrow> \<exists>p' r. sel p ub = Inr (p', r)"
    and chooses: "room (Suc k) p \<Longrightarrow> sel p ub = Inr (p', r) \<Longrightarrow> select_choice ub p r"
    and frames: "room (Suc k) p \<Longrightarrow> sel p ub = Inr (p', r) \<Longrightarrow> select_frame p p' r"
    and room_step: "room (Suc k) p \<Longrightarrow> sel p ub = Inr (p', None) \<Longrightarrow> room k p'"
begin

text \<open>Trying the primaries and then the backups finds a node whenever one is eligible, and
  a backup only when no primary is.\<close>

lemma two_phase:
  assumes "room 2 p"
  shows "\<exists>p' r. (case sel p 0 of Inl e \<Rightarrow> Inl e
                 | Inr (p1, Some i) \<Rightarrow> Inr (p1, Some i)
                 | Inr (p1, None) \<Rightarrow> sel p1 1) = Inr (p', r) \<and>
     select_frame p p' r \<and>
     (select_choice 0 p r \<and> r \<noteq> None \<or> select_choice 0 p None \<and> select_choice 1 p r)"
proof -
  have room: "room (Suc 1) p" using assms by (simp add: numeral_2_eq_2)
  from returns[OF room] obtain p1 r1 where s0: "sel p 0 = Inr (p1, r1)" by blast
  note c0 = chooses[OF room s0] and f0 = frames[OF room s0]
  show ?thesis
  proof (cases r1)
    case (Some i)
    with s0 c0 f0 show ?thesis by auto
  next
    case None
    with s0 room have room1: "room (Suc 0) p1" using room_step by simp
    from returns[OF room1] obtain p2 r2 where s1: "sel p1 1 = Inr (p2, r2)" by blast
    note c1 = chooses[OF room1 s1] and f1 = frames[OF room1 s1]
    have st: "map node_static (pool_nodes p1) = map node_static (pool_nodes p)"
      using f0 by (simp add: select_frame_def)
    then have len: "length (pool_nodes p1) = length (pool_nodes p)"
      by (metis length_map)
    have el: "i < length (pool_nodes p) \<Longrightarrow>
        eligible ub (pool_nodes p1 ! i) = eligible ub (pool_nodes p ! i)" for i ub
      by (rule eligible_static) (metis len nth_map st)
    have "select_choice 1 p r2"
      using c1 el len unfolding select_choice_def
      by (auto split: option.splits simp: all_set_conv_all_nth)
    moreover have "conns_after r2 p1 = conns_after r2 p"
    proof -
      have ac: "map active_conns (pool_nodes p1) = map active_conns (pool_nodes p)"
        using f0 None by (simp add: select_frame_def conns_after_def)
      moreover have "i < length (pool_nodes p) \<Longrightarrow>
          active_conns (pool_nodes p1 ! i) = active_conns (pool_nodes p ! i)" for i
        using ac len by (metis nth_map)
      ultimately show ?thesis using c1 len
        by (auto simp: conns_after_def select_choice_def split: option.splits)
    qed
    ultimately show ?thesis using None s0 s1 c0 f0 f1
      by (auto simp: select_frame_def)
  qed
qed

end

section \<open>The four algorithms satisfy the contract\<close>

lemma take_idx_frame: "i < length (pool_nodes p) \<Longrightarrow> select_frame p (take_idx i p) (Some i)"
  by (simp add: select_frame_def take_idx_def conns_after_def map_update take_node_def
      list_update_same_conv node_static_def)

lemma select_frame_rr [simp]: "select_frame p (p'\<lparr>rr_index := x\<rparr>) r = select_frame p p' r"
  "select_frame (p\<lparr>rr_index := x\<rparr>) p' r = select_frame p p' r"
  by (cases r; simp add: select_frame_def conns_after_def)+

lemma select_frame_refl [simp]: "select_frame p p None"
  by (simp add: select_frame_def conns_after_def)

subsection \<open>Weighted round-robin\<close>

definition wrr_key :: "ArwsBackendNode \<Rightarrow> int" where
  "wrr_key n = current_weight n + effective_weight n"

definition wrr_total :: "int \<Rightarrow> ArwsUpstreamPool \<Rightarrow> int" where
  "wrr_total ub p = (\<Sum>n \<leftarrow> filter (eligible ub) (pool_nodes p). effective_weight n)"

lemma select_wrr_None:
  "select_wrr_locked p ub = (p', None) \<Longrightarrow> (\<forall>n \<in> set (pool_nodes p). \<not> eligible ub n) \<and> p' = p"
proof -
  assume a: "select_wrr_locked p ub = (p', None)"
  then have "scan_best (eligible ub) (\<lambda>n. - (current_weight n + effective_weight n)) 0 None
      (pool_nodes p) = None"
    by (auto simp: select_wrr_locked_def wrr_loop_char neg_best_def split: option.splits)
  then have "\<forall>n \<in> set (pool_nodes p). \<not> eligible ub n" by (simp add: scan_best_None)
  moreover from this have "map (wrr_bump ub) (pool_nodes p) = pool_nodes p"
    by (simp add: wrr_bump_def map_idI)
  ultimately show ?thesis using a
    by (auto simp: select_wrr_locked_def wrr_loop_char split: option.splits)
qed

lemma select_wrr_Some:
  assumes "select_wrr_locked p ub = (p', Some b)"
  shows "b < length (pool_nodes p)" "eligible ub (pool_nodes p ! b)"
    "\<And>i. i < length (pool_nodes p) \<Longrightarrow> eligible ub (pool_nodes p ! i)
       \<Longrightarrow> wrr_key (pool_nodes p ! i) \<le> wrr_key (pool_nodes p ! b)"
    "p' = p\<lparr>pool_nodes := (map (wrr_bump ub) (pool_nodes p))[b := take_node
        ((wrr_bump ub (pool_nodes p ! b))\<lparr>current_weight :=
           wrr_key (pool_nodes p ! b) - wrr_total ub p\<rparr>)]\<rparr>"
proof -
  let ?k = "\<lambda>n. - (current_weight n + effective_weight n)"
  from assms obtain m where sc: "scan_best (eligible ub) ?k 0 None (pool_nodes p) = Some (b, m)"
    by (auto simp: select_wrr_locked_def wrr_loop_char neg_best_def split: option.splits)
  from scan_best_SomeD[OF sc] have
    b: "b < length (pool_nodes p)" "eligible ub (pool_nodes p ! b)" "m = ?k (pool_nodes p ! b)"
    "\<forall>x \<in> set (pool_nodes p). eligible ub x \<longrightarrow> m \<le> ?k x"
    by auto
  show "b < length (pool_nodes p)" "eligible ub (pool_nodes p ! b)" by fact+
  show "wrr_key (pool_nodes p ! i) \<le> wrr_key (pool_nodes p ! b)"
    if "i < length (pool_nodes p)" "eligible ub (pool_nodes p ! i)" for i
    using b that by (force simp: wrr_key_def)
  have "current_weight (wrr_bump ub (pool_nodes p ! b)) = wrr_key (pool_nodes p ! b)"
    using b by (simp add: wrr_bump_def wrr_key_def)
  then show "p' = p\<lparr>pool_nodes := (map (wrr_bump ub) (pool_nodes p))[b := take_node
        ((wrr_bump ub (pool_nodes p ! b))\<lparr>current_weight :=
           wrr_key (pool_nodes p ! b) - wrr_total ub p\<rparr>)]\<rparr>"
    using assms sc b(1)
    by (auto simp: select_wrr_locked_def wrr_loop_char neg_best_def wrr_total_def)
qed

interpretation wrr: node_selector "\<lambda>p ub. Inr (select_wrr_locked p ub)" "\<lambda>k p. True"
proof (unfold_locales, goal_cases)
  case (1 k p ub)
  then show ?case by (metis surj_pair)
next
  case (2 k p ub p' r)
  then show ?case
    by (cases r) (auto simp: select_choice_def dest: select_wrr_None select_wrr_Some)
next
  case (3 k p ub p' r)
  show ?case
  proof (cases r)
    case None
    with 3 show ?thesis by (auto dest: select_wrr_None)
  next
    case (Some b)
    with 3 have s: "select_wrr_locked p ub = (p', Some b)" by simp
    note c = select_wrr_Some[OF s]
    have "map node_static (pool_nodes p') = map node_static (pool_nodes p)"
      using c(1) by (simp add: c(4) map_update comp_def list_update_same_conv)
    moreover have "map active_conns (pool_nodes p') = conns_after (Some b) p"
      using c(1) by (simp add: c(4) map_update comp_def conns_after_def take_node_def)
    ultimately show ?thesis using Some c(4) by (simp add: select_frame_def)
  qed
qed simp

subsection \<open>Least connections\<close>

lemma select_least_conn_Some:
  assumes "select_least_conn_locked p ub = (p', Some b)"
  shows "b < length (pool_nodes p)" "eligible ub (pool_nodes p ! b)" "p' = take_idx b p"
    "\<And>n. n \<in> set (pool_nodes p) \<Longrightarrow> eligible ub n \<Longrightarrow> active_conns (pool_nodes p ! b) \<le> active_conns n"
proof -
  from assms obtain m where
    sc: "scan_best (eligible ub) active_conns 0 None (pool_nodes p) = Some (b, m)" and
    p': "p' = take_idx b p"
    by (auto simp: select_least_conn_locked_def least_conn_loop_scan split: option.splits)
  from scan_best_SomeD[OF sc] show "b < length (pool_nodes p)" "eligible ub (pool_nodes p ! b)"
    "\<And>n. n \<in> set (pool_nodes p) \<Longrightarrow> eligible ub n \<Longrightarrow> active_conns (pool_nodes p ! b) \<le> active_conns n"
    by auto
  show "p' = take_idx b p" by (rule p')
qed

lemma select_least_conn_None:
  "select_least_conn_locked p ub = (p', None) \<Longrightarrow> (\<forall>n \<in> set (pool_nodes p). \<not> eligible ub n) \<and> p' = p"
  by (auto simp: select_least_conn_locked_def least_conn_loop_scan scan_best_None
      split: option.splits)

interpretation lc: node_selector "\<lambda>p ub. Inr (select_least_conn_locked p ub)" "\<lambda>k p. True"
proof (unfold_locales, goal_cases)
  case (1 k p ub)
  then show ?case by (metis surj_pair)
next
  case (2 k p ub p' r)
  then show ?case
    by (cases r) (auto simp: select_choice_def dest: select_least_conn_None select_least_conn_Some)
next
  case (3 k p ub p' r)
  then show ?case
    by (cases r) (auto dest: select_least_conn_None select_least_conn_Some(1,3) intro: take_idx_frame)
qed simp

subsection \<open>Address hashing\<close>

lemma candidates_mem: "i \<in> set (candidates ub p) \<longleftrightarrow> i < length (pool_nodes p) \<and> eligible ub (pool_nodes p ! i)"
  by (auto simp: candidates_def)

lemma select_ip_hash_Some:
  assumes "select_ip_hash_locked p ip ub = (p', Some i)"
  shows "i \<in> set (candidates ub p)" "p' = take_idx i p"
  using assms by (auto simp: select_ip_hash_locked_def Let_def split: if_splits)

interpretation iph: node_selector "\<lambda>p ub. Inr (select_ip_hash_locked p ip ub)" "\<lambda>k p. True" for ip
proof (unfold_locales, goal_cases)
  case (1 k p ub)
  then show ?case by (metis surj_pair)
next
  case (2 k p ub p' r)
  show ?case
  proof (cases r)
    case None
    with 2 have "candidates ub p = []"
      by (simp add: select_ip_hash_locked_def Let_def split: if_splits)
    then have "\<And>i. i < length (pool_nodes p) \<Longrightarrow> \<not> eligible ub (pool_nodes p ! i)"
      using candidates_mem[of _ ub p] by simp
    then show ?thesis unfolding None select_choice_def
      by (simp add: all_set_conv_all_nth)
  next
    case (Some i)
    with 2 have "select_ip_hash_locked p ip ub = (p', Some i)" by simp
    then have "i \<in> set (candidates ub p)" by (rule select_ip_hash_Some)
    then show ?thesis unfolding Some candidates_mem by (simp add: select_choice_def)
  qed
next
  case (3 k p ub p' r)
  then show ?case
  proof (cases r)
    case None
    with 3 show ?thesis by (auto simp: select_ip_hash_locked_def Let_def split: if_splits)
  next
    case (Some i)
    with 3 have s: "select_ip_hash_locked p ip ub = (p', Some i)" by simp
    then have "i \<in> set (candidates ub p)" by (rule select_ip_hash_Some)
    then show ?thesis unfolding Some candidates_mem select_ip_hash_Some(2)[OF s]
      by (simp add: take_idx_frame)
  qed
qed simp


subsection \<open>Round-robin\<close>

text \<open>The loop visits the indices \<open>rr_index\<close>, \<open>rr_index + 1\<close>, ... modulo the node count and
  stops at the first eligible one.\<close>

definition rr_slot :: "ArwsUpstreamPool \<Rightarrow> nat \<Rightarrow> nat" where
  "rr_slot p j = nat ((rr_index p + int j) mod int (length (pool_nodes p)))"

definition rr_room :: "nat \<Rightarrow> ArwsUpstreamPool \<Rightarrow> bool" where
  "rr_room k p \<longleftrightarrow> 0 \<le> rr_index p \<and> rr_index p + int (k * length (pool_nodes p)) < 2 ^ 31"

lemma rr_slot_less: "i < length (pool_nodes p) \<Longrightarrow> rr_slot p j < length (pool_nodes p)"
  by (cases "pool_nodes p = []") (simp_all add: rr_slot_def nat_less_iff)

lemma rr_slot_surj:
  assumes "i < length (pool_nodes p)"
  shows "\<exists>j < length (pool_nodes p). rr_slot p j = i"
proof -
  let ?n = "int (length (pool_nodes p))" and ?r = "rr_index p"
  have n: "0 < ?n" using assms by auto
  define j where "j = nat ((int i - ?r) mod ?n)"
  have "(?r + int j) mod ?n = (?r + (int i - ?r)) mod ?n"
    using n by (simp add: j_def mod_add_right_eq)
  also have "\<dots> = int i" using assms by simp
  finally have "rr_slot p j = i" by (simp add: rr_slot_def)
  moreover have "j < length (pool_nodes p)" using n by (simp add: j_def nat_less_iff)
  ultimately show ?thesis by blast
qed

lemma rr_loop_char:
  assumes "0 \<le> rr_index p" "rr_index p + int a < 2 ^ 31" "pool_nodes p \<noteq> []"
  shows "(\<exists>j < a. eligible ub (pool_nodes p ! rr_slot p j) \<and>
            (\<forall>j' < j. \<not> eligible ub (pool_nodes p ! rr_slot p j')) \<and>
            rr_loop a p ub = Inr (take_idx (rr_slot p j) (p\<lparr>rr_index := rr_index p + int j + 1\<rparr>),
                                  Some (rr_slot p j))) \<or>
         ((\<forall>j < a. \<not> eligible ub (pool_nodes p ! rr_slot p j)) \<and>
          rr_loop a p ub = Inr (p\<lparr>rr_index := rr_index p + int a\<rparr>, None))"
  using assms
proof (induction a arbitrary: p)
  case 0
  then show ?case by simp
next
  case (Suc a)
  let ?n = "int (length (pool_nodes p))"
  have n: "0 < ?n" using Suc.prems by simp
  define p' where "p' = p\<lparr>rr_index := rr_index p + 1\<rparr>"
  have ci: "cinc32 (rr_index p) = rr_index p + 1" using Suc.prems by simp
  have idx: "nat (crem (rr_index p) ?n) = rr_slot p 0" "\<not> crem (rr_index p) ?n < 0"
      "\<not> ?n \<le> crem (rr_index p) ?n"
    using crem_bounds[OF Suc.prems(1) n] crem_nonneg[OF Suc.prems(1) n]
    by (auto simp: rr_slot_def)
  have unfold: "rr_loop (Suc a) p ub =
      (if eligible ub (pool_nodes p ! rr_slot p 0) then Inr (take_idx (rr_slot p 0) p', Some (rr_slot p 0))
       else rr_loop a p' ub)"
    using idx ci by (simp add: Let_def p'_def)
  have sl: "rr_slot p' j = rr_slot p (Suc j)" and nd: "pool_nodes p' = pool_nodes p" for j
    by (simp_all add: rr_slot_def p'_def algebra_simps)
  show ?case
  proof (cases "eligible ub (pool_nodes p ! rr_slot p 0)")
    case True
    with unfold show ?thesis by (intro disjI1 exI[of _ 0]) (simp add: p'_def)
  next
    case False
    have "0 \<le> rr_index p'" "rr_index p' + int a < 2 ^ 31" "pool_nodes p' \<noteq> []"
      using Suc.prems by (simp_all add: p'_def)
    from Suc.IH[OF this] consider
      (hit) j where "j < a" "eligible ub (pool_nodes p ! rr_slot p (Suc j))"
        "\<forall>j' < j. \<not> eligible ub (pool_nodes p ! rr_slot p (Suc j'))"
        "rr_loop a p' ub = Inr (take_idx (rr_slot p (Suc j)) (p\<lparr>rr_index := rr_index p + int (Suc j) + 1\<rparr>),
           Some (rr_slot p (Suc j)))"
      | (miss) "\<forall>j < a. \<not> eligible ub (pool_nodes p ! rr_slot p (Suc j))"
        "rr_loop a p' ub = Inr (p\<lparr>rr_index := rr_index p + int (Suc a)\<rparr>, None)"
      unfolding sl nd by (auto simp: p'_def algebra_simps)
    then show ?thesis
    proof cases
      case hit
      then have "\<forall>j' < Suc j. \<not> eligible ub (pool_nodes p ! rr_slot p j')"
        using False by (auto simp: less_Suc_eq_0_disj)
      with hit unfold False show ?thesis by (intro disjI1 exI[of _ "Suc j"]) simp
    next
      case miss
      then have "\<forall>j < Suc a. \<not> eligible ub (pool_nodes p ! rr_slot p j)"
        using False by (auto simp: less_Suc_eq_0_disj)
      with miss unfold False show ?thesis by (intro disjI2) simp
    qed
  qed
qed

lemma select_rr_char:
  assumes "rr_room (Suc k) p"
  shows "(\<exists>j < length (pool_nodes p). eligible ub (pool_nodes p ! rr_slot p j) \<and>
            (\<forall>j' < j. \<not> eligible ub (pool_nodes p ! rr_slot p j')) \<and>
            select_rr_locked p ub = Inr (take_idx (rr_slot p j) (p\<lparr>rr_index := rr_index p + int j + 1\<rparr>),
                                         Some (rr_slot p j))) \<or>
         ((\<forall>n \<in> set (pool_nodes p). \<not> eligible ub n) \<and>
          select_rr_locked p ub = Inr (p\<lparr>rr_index := rr_index p + int (length (pool_nodes p))\<rparr>, None))"
proof (cases "pool_nodes p = []")
  case True
  then show ?thesis by (simp add: select_rr_locked_def)
next
  case False
  have "int (length (pool_nodes p)) \<le> int (Suc k * length (pool_nodes p))" by simp
  then have "0 \<le> rr_index p" "rr_index p + int (length (pool_nodes p)) < 2 ^ 31"
    using assms unfolding rr_room_def by linarith+
  from rr_loop_char[OF this False, of ub] show ?thesis
    unfolding select_rr_locked_def by (metis in_set_conv_nth rr_slot_surj)
qed

interpretation rr: node_selector select_rr_locked rr_room
proof (unfold_locales, goal_cases)
  case (1 k p ub)
  from select_rr_char[OF this, of ub] show ?case by auto
next
  case (2 k p ub p' r)
  from select_rr_char[OF 2(1), of ub] 2(2) show ?case
    by (auto simp: select_choice_def intro: rr_slot_less)
next
  case (3 k p ub p' r)
  from select_rr_char[OF 3(1), of ub] show ?case
  proof
    assume "\<exists>j < length (pool_nodes p). eligible ub (pool_nodes p ! rr_slot p j) \<and>
            (\<forall>j' < j. \<not> eligible ub (pool_nodes p ! rr_slot p j')) \<and>
            select_rr_locked p ub = Inr (take_idx (rr_slot p j) (p\<lparr>rr_index := rr_index p + int j + 1\<rparr>),
                                         Some (rr_slot p j))"
    then obtain j where j: "j < length (pool_nodes p)" "p' = take_idx (rr_slot p j) (p\<lparr>rr_index := rr_index p + int j + 1\<rparr>)"
        "r = Some (rr_slot p j)"
      using 3(2) by auto
    then have "rr_slot p j < length (pool_nodes (p\<lparr>rr_index := rr_index p + int j + 1\<rparr>))"
      using rr_slot_less by auto
    from take_idx_frame[OF this] j show ?case by simp
  qed (use 3(2) in auto)
next
  case (4 k p ub p')
  from select_rr_char[OF 4(1), of ub] 4 show ?case
    by (auto simp: rr_room_def algebra_simps)
qed


section \<open>Selection over the whole balancer\<close>

definition select_room :: "ArwsUpstreamPool \<Rightarrow> bool" where
  "select_room p \<longleftrightarrow> (pool_algo p = ARWS_LB_ROUND_ROBIN \<longrightarrow> rr_room 2 p)"

definition select_result :: "ArwsUpstreamPool \<Rightarrow> nat option \<Rightarrow> bool" where
  "select_result p r \<longleftrightarrow>
     select_choice 0 p r \<and> r \<noteq> None \<or> select_choice 0 p None \<and> select_choice 1 p r"

lemma select_locked_sound:
  assumes "select_room p"
  shows "\<exists>p' r. select_locked ip p = Inr (p', r) \<and> select_frame p p' r \<and> select_result p r"
proof -
  have same: "pool_algo p' = pool_algo p"
    if "select_frame p p' r" for p' r
    using that by (simp add: select_frame_def)
  have eq: "select_locked ip p =
      (case sel p 0 of Inl e \<Rightarrow> Inl e | Inr (p1, Some i) \<Rightarrow> Inr (p1, Some i) | Inr (p1, None) \<Rightarrow> sel p1 1)"
    if "\<And>q ub. pool_algo q = pool_algo p \<Longrightarrow> select_algo ip q ub = sel q ub"
       "\<And>p' r. sel p 0 = Inr (p', r) \<Longrightarrow> select_frame p p' r" for sel
    using that same unfolding select_locked_def
    by (auto split: sum.splits option.splits prod.splits)
  show ?thesis
  proof (cases "pool_algo p")
    case ARWS_LB_ROUND_ROBIN
    then have room: "rr_room 2 p" using assms by (simp add: select_room_def)
    with rr.two_phase[OF this] show ?thesis unfolding select_result_def
      by (subst eq[of select_rr_locked])
         (use ARWS_LB_ROUND_ROBIN rr.frames[of 1] in \<open>auto simp: select_algo_def numeral_2_eq_2\<close>)
  next
    case ARWS_LB_LEAST_CONN
    with lc.two_phase[of p] show ?thesis unfolding select_result_def
      by (subst eq[of "\<lambda>p ub. Inr (select_least_conn_locked p ub)"])
         (use ARWS_LB_LEAST_CONN lc.frames in \<open>auto simp: select_algo_def\<close>)
  next
    case ARWS_LB_IP_HASH
    with iph.two_phase[of ip p] show ?thesis unfolding select_result_def
      by (subst eq[of "\<lambda>p ub. Inr (select_ip_hash_locked p ip ub)"])
         (use ARWS_LB_IP_HASH iph.frames in \<open>auto simp: select_algo_def\<close>)
  next
    case ARWS_LB_WEIGHTED_ROUND_ROBIN
    with wrr.two_phase[of p] show ?thesis unfolding select_result_def
      by (subst eq[of "\<lambda>p ub. Inr (select_wrr_locked p ub)"])
         (use ARWS_LB_WEIGHTED_ROUND_ROBIN wrr.frames in \<open>auto simp: select_algo_def\<close>)
  qed
qed

section \<open>Fairness of smooth weighted round-robin\<close>

text \<open>\<open>t\<close> selections in a row, with the list of their results.\<close>

fun wrr_picks :: "nat \<Rightarrow> int \<Rightarrow> ArwsUpstreamPool \<Rightarrow> ArwsUpstreamPool \<times> nat option list" where
  "wrr_picks 0 ub p = (p, [])"
| "wrr_picks (Suc t) ub p =
     (let (p1, ps) = wrr_picks t ub p; (p2, r) = select_wrr_locked p1 ub in (p2, ps @ [r]))"

definition wrr_fresh :: "int \<Rightarrow> ArwsUpstreamPool \<Rightarrow> bool" where
  "wrr_fresh ub p \<longleftrightarrow> (\<forall>n \<in> set (pool_nodes p). eligible ub n \<longrightarrow>
     current_weight n = 0 \<and> effective_weight n = weight n \<and> 1 \<le> weight n)"

definition eligible_idx :: "int \<Rightarrow> ArwsUpstreamPool \<Rightarrow> nat set" where
  "eligible_idx ub p = {i. i < length (pool_nodes p) \<and> eligible ub (pool_nodes p ! i)}"

lemma finite_eligible_idx [simp]: "finite (eligible_idx ub p)"
  by (simp add: eligible_idx_def)

lemma sum_filter_idx:
  "(\<Sum>x \<leftarrow> filter P xs. f x) = (\<Sum>i \<in> {i. i < length xs \<and> P (xs ! i)}. (f (xs ! i) :: int))"
proof -
  have "(\<Sum>x \<leftarrow> filter P xs. f x) = (\<Sum>x \<leftarrow> xs. if P x then f x else 0)"
    by (simp add: sum_list_map_filter')
  also have "\<dots> = (\<Sum>i = 0..<length xs. if P (xs ! i) then f (xs ! i) else 0)"
    by (simp add: sum_list_sum_nth)
  also have "\<dots> = (\<Sum>i \<in> {i \<in> {0..<length xs}. P (xs ! i)}. f (xs ! i))"
    by (rule sum.inter_filter[symmetric]) simp
  finally show ?thesis by simp
qed

lemma wrr_total_sum: "wrr_total ub p = (\<Sum>i \<in> eligible_idx ub p. effective_weight (pool_nodes p ! i))"
  by (simp add: wrr_total_def eligible_idx_def sum_filter_idx)

lemma sum_count_list_subset:
  "finite A \<Longrightarrow> set xs \<subseteq> A \<Longrightarrow> (\<Sum>a \<in> A. count_list xs a) = length xs"
  by (metis (no_types, lifting) count_list_0_iff sum.mono_neutral_right sum_count_set DiffE)

text \<open>After \<open>t\<close> selections every eligible node has accumulated \<open>t\<close> times its weight and paid the
  total weight once per selection, and nobody is further behind than one total weight.\<close>

definition wrr_ledger :: "int \<Rightarrow> ArwsUpstreamPool \<Rightarrow> nat \<Rightarrow> ArwsUpstreamPool \<Rightarrow> nat option list \<Rightarrow> bool" where
  "wrr_ledger ub p t q ps \<longleftrightarrow>
     map node_static (pool_nodes q) = map node_static (pool_nodes p) \<and> length ps = t \<and>
     set ps \<subseteq> Some ` eligible_idx ub p \<and>
     (\<forall>i \<in> eligible_idx ub p.
        effective_weight (pool_nodes q ! i) = weight (pool_nodes p ! i) \<and>
        current_weight (pool_nodes q ! i) =
          int t * weight (pool_nodes p ! i) - wrr_total ub p * int (count_list ps (Some i)) \<and>
        - wrr_total ub p < current_weight (pool_nodes q ! i))"

lemma sum_picks:
  assumes "set ps \<subseteq> Some ` eligible_idx ub p"
  shows "(\<Sum>i \<in> eligible_idx ub p. count_list ps (Some i)) = length ps"
proof -
  have "(\<Sum>i \<in> eligible_idx ub p. count_list ps (Some i)) =
        (\<Sum>r \<in> Some ` eligible_idx ub p. count_list ps r)"
    by (simp add: sum.reindex)
  also have "\<dots> = length ps" using assms by (simp add: sum_count_list_subset)
  finally show ?thesis .
qed

lemma eligible_idx_static:
  assumes "map node_static (pool_nodes q) = map node_static (pool_nodes p)"
  shows "eligible_idx ub q = eligible_idx ub p"
    and "i < length (pool_nodes p) \<Longrightarrow> weight (pool_nodes q ! i) = weight (pool_nodes p ! i)"
proof -
  have len: "length (pool_nodes q) = length (pool_nodes p)"
    using assms by (metis length_map)
  have st: "i < length (pool_nodes p) \<Longrightarrow> node_static (pool_nodes q ! i) = node_static (pool_nodes p ! i)" for i
    using assms len by (metis nth_map)
  have "i < length (pool_nodes p) \<Longrightarrow> eligible ub (pool_nodes q ! i) = eligible ub (pool_nodes p ! i)" for i
    by (rule eligible_static) (rule st)
  then show "eligible_idx ub q = eligible_idx ub p"
    unfolding eligible_idx_def len by (intro Collect_cong conj_cong refl)
  show "i < length (pool_nodes p) \<Longrightarrow> weight (pool_nodes q ! i) = weight (pool_nodes p ! i)"
    using st[of i] by (simp add: node_static_def)
qed


lemma wrr_ledger_step:
  assumes led: "wrr_ledger ub p t q ps" and ne: "eligible_idx ub p \<noteq> {}"
    and pos: "\<forall>i \<in> eligible_idx ub p. 1 \<le> weight (pool_nodes p ! i)"
    and tot: "wrr_total ub p = (\<Sum>i \<in> eligible_idx ub p. weight (pool_nodes p ! i))"
    and sel: "select_wrr_locked q ub = (q', r)"
  shows "wrr_ledger ub p (Suc t) q' (ps @ [r])"
proof -
  let ?E = "eligible_idx ub p" and ?W = "wrr_total ub p"
  let ?w = "\<lambda>i. weight (pool_nodes p ! i)" and ?c = "\<lambda>i. int (count_list ps (Some i))"
  from led have st: "map node_static (pool_nodes q) = map node_static (pool_nodes p)"
    and len: "length ps = t" and sub: "set ps \<subseteq> Some ` ?E"
    and eff: "\<And>i. i \<in> ?E \<Longrightarrow> effective_weight (pool_nodes q ! i) = ?w i"
    and cw: "\<And>i. i \<in> ?E \<Longrightarrow> current_weight (pool_nodes q ! i) = int t * ?w i - ?W * ?c i"
    and low: "\<And>i. i \<in> ?E \<Longrightarrow> - ?W < current_weight (pool_nodes q ! i)"
    by (auto simp: wrr_ledger_def)
  note E_q = eligible_idx_static(1)[OF st, of ub]
  have mem_q: "i \<in> ?E \<longleftrightarrow> i < length (pool_nodes q) \<and> eligible ub (pool_nodes q ! i)" for i
    unfolding E_q[symmetric] by (simp add: eligible_idx_def)
  have W_q: "wrr_total ub q = ?W" using eff tot by (simp add: wrr_total_sum E_q)
  have "\<exists>n \<in> set (pool_nodes q). eligible ub n"
    using ne unfolding E_q[symmetric] by (auto simp: eligible_idx_def)
  then obtain b where r: "r = Some b"
    using sel select_wrr_None[of q ub q'] by (cases r) auto
  note s = select_wrr_Some[OF sel[unfolded r]]
  have bE: "b \<in> ?E" unfolding mem_q using s(1,2) by blast
  let ?key = "\<lambda>i. wrr_key (pool_nodes q ! i)"
  have key: "?key i = int t * ?w i - ?W * ?c i + ?w i" if "i \<in> ?E" for i
    using that eff cw by (simp add: wrr_key_def)
  have "(\<Sum>i \<in> ?E. ?key i) = (\<Sum>i \<in> ?E. int t * ?w i - ?W * ?c i + ?w i)"
    using key by simp
  also have "\<dots> = int t * ?W - ?W * int (\<Sum>i \<in> ?E. count_list ps (Some i)) + ?W"
    by (simp add: sum.distrib sum_subtractf tot sum_distrib_left)
  also have "\<dots> = ?W" using sum_picks[OF sub] len by simp
  finally have sumkey: "(\<Sum>i \<in> ?E. ?key i) = ?W" .
  have "0 < ?w i" if "i \<in> ?E" for i using pos that by force
  then have Wpos: "0 < ?W" unfolding tot using ne by (intro sum_pos) simp_all
  have keyb: "0 < ?key b"
  proof (rule ccontr)
    assume "\<not> 0 < ?key b"
    then have "?key i \<le> 0" if "i \<in> ?E" for i
      using s(3)[of i] that[unfolded mem_q] by linarith
    then have "(\<Sum>i \<in> ?E. ?key i) \<le> 0" by (rule sum_nonpos)
    with sumkey Wpos show False by simp
  qed
  have node: "pool_nodes q' ! i = (if i = b then take_node ((wrr_bump ub (pool_nodes q ! b))
      \<lparr>current_weight := ?key b - ?W\<rparr>) else wrr_bump ub (pool_nodes q ! i))"
    if "i \<in> ?E" for i
    using that[unfolded mem_q] s(1) by (simp add: s(4) W_q nth_list_update)
  have ew: "effective_weight (wrr_bump ub (pool_nodes q ! i)) = ?w i"
    and cwb: "current_weight (wrr_bump ub (pool_nodes q ! i)) = ?key i" if "i \<in> ?E" for i
  proof -
    have "i < length (pool_nodes p)" using that by (simp add: eligible_idx_def)
    moreover have "eligible ub (pool_nodes q ! i)" using that[unfolded mem_q] by blast
    ultimately show "effective_weight (wrr_bump ub (pool_nodes q ! i)) = ?w i"
      "current_weight (wrr_bump ub (pool_nodes q ! i)) = ?key i"
      using eff[OF that] eligible_idx_static(2)[OF st, of i] by (auto simp: wrr_bump_def wrr_key_def)
  qed
  have frame: "map node_static (pool_nodes q') = map node_static (pool_nodes p)"
    using wrr.frames[OF TrueI, of q ub q' r] sel st by (simp add: select_frame_def)
  have "effective_weight (pool_nodes q' ! i) = ?w i \<and>
        current_weight (pool_nodes q' ! i) = int (Suc t) * ?w i - ?W * int (count_list (ps @ [r]) (Some i)) \<and>
        - ?W < current_weight (pool_nodes q' ! i)" if "i \<in> ?E" for i
  proof (cases "i = b")
    case True
    with node[OF that] ew[OF that] key[OF that] keyb r show ?thesis
      by (simp add: take_node_def algebra_simps)
  next
    case False
    have "- ?W < ?key i" using low[OF that] pos that by (force simp: wrr_key_def eff)
    with False node[OF that] ew[OF that] cwb[OF that] key[OF that] r show ?thesis
      by (simp add: algebra_simps)
  qed
  moreover have "set (ps @ [r]) \<subseteq> Some ` ?E" "length (ps @ [r]) = Suc t"
    using sub bE r len by simp_all
  ultimately show ?thesis using frame unfolding wrr_ledger_def by blast
qed

lemma wrr_picks_ledger:
  assumes "wrr_fresh ub p" "eligible_idx ub p \<noteq> {}" "wrr_picks t ub p = (q, ps)"
  shows "wrr_ledger ub p t q ps"
  using assms(3)
proof (induction t arbitrary: q ps)
  case 0
  have fresh: "current_weight (pool_nodes p ! i) = 0" "1 \<le> weight (pool_nodes p ! i)"
      "effective_weight (pool_nodes p ! i) = weight (pool_nodes p ! i)" if "i \<in> eligible_idx ub p" for i
    using assms(1) that by (auto simp: wrr_fresh_def eligible_idx_def)
  have "0 < wrr_total ub p"
    unfolding wrr_total_sum using assms(2) fresh(2,3)
    by (intro sum_pos) (simp_all add: zero_less_iff_neq_zero int_one_le_iff_zero_less)
  with 0 fresh show ?case by (auto simp: wrr_ledger_def)
next
  case (Suc t)
  obtain q1 ps1 where s1: "wrr_picks t ub p = (q1, ps1)" by fastforce
  obtain q2 r where s2: "select_wrr_locked q1 ub = (q2, r)" by fastforce
  have q: "q = q2" "ps = ps1 @ [r]" using Suc.prems s1 s2 by auto
  have fresh: "1 \<le> weight (pool_nodes p ! i)"
      "effective_weight (pool_nodes p ! i) = weight (pool_nodes p ! i)" if "i \<in> eligible_idx ub p" for i
    using assms(1) that by (auto simp: wrr_fresh_def eligible_idx_def)
  have tot: "wrr_total ub p = (\<Sum>i \<in> eligible_idx ub p. weight (pool_nodes p ! i))"
    by (simp add: wrr_total_sum fresh(2))
  show ?case
    unfolding q using Suc.IH[OF s1] assms(2) _ tot s2
    by (rule wrr_ledger_step) (use fresh in blast)
qed


lemma wrr_ledger_cycle:
  assumes led: "wrr_ledger ub p (nat (wrr_total ub p)) q ps" and i: "i \<in> eligible_idx ub p"
    and tot: "wrr_total ub p = (\<Sum>i \<in> eligible_idx ub p. weight (pool_nodes p ! i))"
    and pos: "0 < wrr_total ub p"
  shows "int (count_list ps (Some i)) = weight (pool_nodes p ! i)"
proof -
  let ?E = "eligible_idx ub p" and ?W = "wrr_total ub p"
  let ?c = "\<lambda>i. int (count_list ps (Some i))" and ?w = "\<lambda>i. weight (pool_nodes p ! i)"
  have le: "?c j \<le> ?w j" if "j \<in> ?E" for j
  proof -
    from led that have "- ?W < int (nat ?W) * ?w j - ?W * ?c j"
      by (auto simp: wrr_ledger_def)
    then have "?W * (?c j - ?w j) < ?W * 1" using pos by (simp add: algebra_simps)
    then show ?thesis using pos by (simp add: mult_less_cancel_left)
  qed
  from led have "(\<Sum>j \<in> ?E. ?c j) = int (length ps)"
    using sum_picks[of ps ub p] by (simp add: wrr_ledger_def flip: of_nat_sum)
  also have "\<dots> = (\<Sum>j \<in> ?E. ?w j)" using led pos tot by (simp add: wrr_ledger_def)
  finally show ?thesis using le i by (intro sum_mono_inv[of ?c ?E ?w]) auto
qed

section \<open>Properties: selection\<close>

text \<open>C1: Smooth weighted round-robin is fair. Starting from settled weights, a full cycle of
  as many selections as the total weight of the eligible nodes picks every eligible node
  exactly as often as its configured weight, and brings its accumulated weight back to 0.\<close>

theorem wrr_cycle_fair:
  assumes "wrr_fresh ub p" and "i < length (pool_nodes p)" and "eligible ub (pool_nodes p ! i)"
    and "wrr_picks (nat (wrr_total ub p)) ub p = (q, ps)"
  shows "int (count_list ps (Some i)) = weight (pool_nodes p ! i) \<and>
         current_weight (pool_nodes q ! i) = 0"
proof -
  have i: "i \<in> eligible_idx ub p" using assms(2,3) by (simp add: eligible_idx_def)
  then have led: "wrr_ledger ub p (nat (wrr_total ub p)) q ps"
    using wrr_picks_ledger[OF assms(1) _ assms(4)] by blast
  have fresh: "1 \<le> weight (pool_nodes p ! j)"
      "effective_weight (pool_nodes p ! j) = weight (pool_nodes p ! j)" if "j \<in> eligible_idx ub p" for j
    using assms(1) that by (auto simp: wrr_fresh_def eligible_idx_def)
  have tot: "wrr_total ub p = (\<Sum>i \<in> eligible_idx ub p. weight (pool_nodes p ! i))"
    by (simp add: wrr_total_sum fresh(2))
  have pos: "0 < wrr_total ub p"
    unfolding tot using i fresh(1) by (intro sum_pos) (auto simp: int_one_le_iff_zero_less)
  have c: "int (count_list ps (Some i)) = weight (pool_nodes p ! i)"
    by (rule wrr_ledger_cycle[OF led i tot pos])
  moreover have "current_weight (pool_nodes q ! i) =
      int (nat (wrr_total ub p)) * weight (pool_nodes p ! i) - wrr_total ub p * int (count_list ps (Some i))"
    using led i by (auto simp: wrr_ledger_def)
  ultimately show ?thesis using pos by simp
qed

definition demo_pool :: ArwsUpstreamPool where
  "demo_pool = zero_pool\<lparr>pool_name := ''api'', pool_active := True,
     pool_algo := ARWS_LB_WEIGHTED_ROUND_ROBIN, fall_threshold := 3, rise_threshold := 2,
     pool_nodes := [new_node ''a'' 80 2 0, new_node ''b'' 80 1 0, new_node ''c'' 80 1 1]\<rparr>"

lemma demo_pool_simps [simp]:
  "pool_nodes demo_pool = [new_node ''a'' 80 2 0, new_node ''b'' 80 1 0, new_node ''c'' 80 1 1]"
  "pool_algo demo_pool = ARWS_LB_WEIGHTED_ROUND_ROBIN"
  "fall_threshold demo_pool = 3" "rise_threshold demo_pool = 2" "rr_index demo_pool = 0"
  by (simp_all add: demo_pool_def zero_pool_def)

lemma new_node_simps [simp]:
  "eligible ub (new_node h q w k) = (k = ub)" "current_weight (new_node h q w k) = 0"
  "effective_weight (new_node h q w k) = w" "weight (new_node h q w k) = w"
  "active_conns (new_node h q w k) = 0" "is_alive (new_node h q w k)"
  "fail_count (new_node h q w k) = 0" "pass_count (new_node h q w k) = 0"
  by (auto simp: new_node_def eligible_def)

theorem wrr_cycle_fair_witness:
  "int (count_list (snd (wrr_picks 3 0 demo_pool)) (Some 0)) = 2"
proof -
  have t: "wrr_total 0 demo_pool = 3" by (simp add: wrr_total_def)
  have "wrr_fresh 0 demo_pool" by (simp add: wrr_fresh_def)
  moreover obtain q ps where "wrr_picks 3 0 demo_pool = (q, ps)" by fastforce
  ultimately show ?thesis using wrr_cycle_fair[of 0 demo_pool 0 q ps] t by simp
qed

lemma select_spec:
  assumes "arws_upstream_get_pool name st = (st1, Some k)"
    and "select_room (g_pools st1 ! k)"
  obtains p' r where "arws_upstream_select name ip st = Inr (upd_pool k (\<lambda>_. p') st1, map_option (\<lambda>i. (k, i)) r)"
    "select_frame (g_pools st1 ! k) p' r" "select_result (g_pools st1 ! k) r"
proof (cases "pool_nodes (g_pools st1 ! k) = []")
  case True
  then have "arws_upstream_select name ip st = Inr (upd_pool k (\<lambda>_. g_pools st1 ! k) st1, None)"
    using assms(1) by (simp add: arws_upstream_select_def upd_pool_def)
  moreover have "select_result (g_pools st1 ! k) None"
    using True by (simp add: select_result_def select_choice_def)
  ultimately show ?thesis using that by (metis option.map(1) select_frame_refl)
next
  case False
  from select_locked_sound[OF assms(2), of ip] obtain p' r where
    "select_locked ip (g_pools st1 ! k) = Inr (p', r)"
    "select_frame (g_pools st1 ! k) p' r" "select_result (g_pools st1 ! k) r" by blast
  with False assms(1) show ?thesis using that by (auto simp: arws_upstream_select_def)
qed


definition demo_state :: upstream_state where
  "demo_state = \<lparr>g_pools = demo_pool # replicate 63 zero_pool, g_upstream_initialized = True\<rparr>"

lemma demo_state_get: "arws_upstream_get_pool ''api'' demo_state = (demo_state, Some 0)"
  by (simp add: arws_upstream_get_pool_def demo_state_def arws_upstream_init_def pool_named_def
      demo_pool_def)


end
