(* ===== verification/Health.thy ===== *)
theory Health
  imports Upstream
begin

text \<open>
  The active health checker, \<open>src/src/arws_health.c\<close>. The socket calls of a probe are
  parameters (\<open>os_net\<close>); a round of the worker reads a snapshot of the pools and updates the
  live nodes one by one. The volatile flag \<open>g_health_running\<close> and the clock are read once per
  node: they are parameters indexed by the position in the round.
\<close>

record os_net =
  os_getaddrinfo :: "string \<Rightarrow> string \<Rightarrow> bool"
  os_socket :: int
  os_connect :: "string \<Rightarrow> string \<Rightarrow> int"
  os_select_write :: "int \<Rightarrow> int \<Rightarrow> int"
  os_so_error :: "int option"

definition probe_tcp_node :: "os_net \<Rightarrow> string \<Rightarrow> int \<Rightarrow> int \<Rightarrow> bool" where
  "probe_tcp_node os h p timeout_ms =
     (if p \<le> 0 then False
      else let port_str = buf_copy 16 (dec_int p) in
        if \<not> os_getaddrinfo os h port_str then False
        else if os_socket os < 0 then False
        else if os_connect os h port_str = 0 then True
        else if os_select_write os (sgn timeout_ms * (\<bar>timeout_ms\<bar> div 1000))
                  (crem timeout_ms 1000 * 1000) > 0
        then (case os_so_error os of None \<Rightarrow> False | Some err \<Rightarrow> err = 0)
        else False)"

text \<open>The update of one live node after its probe.\<close>

definition health_update ::
  "ArwsUpstreamPool \<Rightarrow> bool \<Rightarrow> uint64 \<Rightarrow> ArwsBackendNode \<Rightarrow> ArwsBackendNode" where
  "health_update live_pool alive now tgt0 =
     (let tgt = tgt0\<lparr>last_check_ms := now\<rparr> in
      if alive
      then (let t1 = tgt\<lparr>pass_count := pass_count tgt + 1, fail_count := 0\<rparr>
            in if pass_count t1 \<ge> rise_threshold live_pool \<and> \<not> is_alive t1
               then t1\<lparr>is_alive := True, effective_weight := weight t1\<rparr> else t1)
      else (let t1 = tgt\<lparr>fail_count := fail_count tgt + 1, pass_count := 0\<rparr>
            in if fail_count t1 \<ge> fall_threshold live_pool \<and> is_alive t1
               then t1\<lparr>is_alive := False\<rparr> else t1))"

definition health_apply ::
  "nat \<Rightarrow> string \<Rightarrow> int \<Rightarrow> bool \<Rightarrow> uint64 \<Rightarrow> upstream_state \<Rightarrow> upstream_state" where
  "health_apply k h p alive now st =
     (case first_idx (node_at h p) (pool_nodes (g_pools st ! k)) of
        None \<Rightarrow> st
      | Some ln \<Rightarrow> upd_pool k (\<lambda>pool. pool\<lparr>pool_nodes := (pool_nodes pool)[ln :=
            health_update pool alive now (pool_nodes pool ! ln)]\<rparr>) st)"

text \<open>The inner loop over the snapshot of one pool, from node \<open>n\<close> on.\<close>

fun health_nodes ::
  "(nat \<Rightarrow> bool) \<Rightarrow> (nat \<Rightarrow> os_net) \<Rightarrow> (nat \<Rightarrow> uint64) \<Rightarrow> int \<Rightarrow> nat \<Rightarrow> nat
    \<Rightarrow> ArwsBackendNode list \<Rightarrow> upstream_state \<Rightarrow> upstream_state" where
  "health_nodes running os clk timeout_ms k n [] st = st"
| "health_nodes running os clk timeout_ms k n (node # rest) st =
     (if \<not> running n then st
      else if is_draining node then health_nodes running os clk timeout_ms k (Suc n) rest st
      else health_nodes running os clk timeout_ms k (Suc n) rest
             (health_apply k (node_host node) (node_port node)
                (probe_tcp_node (os n) (node_host node) (node_port node) timeout_ms) (clk n) st))"

fun health_pools ::
  "(nat \<Rightarrow> nat \<Rightarrow> bool) \<Rightarrow> (nat \<Rightarrow> nat \<Rightarrow> os_net) \<Rightarrow> (nat \<Rightarrow> nat \<Rightarrow> uint64) \<Rightarrow> nat
    \<Rightarrow> ArwsUpstreamPool list \<Rightarrow> upstream_state \<Rightarrow> upstream_state" where
  "health_pools running os clk i [] st = st"
| "health_pools running os clk i (p # ps) st =
     health_pools running os clk (Suc i) ps
       (case arws_upstream_get_pool (pool_name p) st of
          (st1, None) \<Rightarrow> st1
        | (st1, Some k) \<Rightarrow>
            health_nodes (running i) (os i) (clk i) (check_timeout_ms p) k 0 (pool_nodes p) st1)"

record health_env =
  he_running :: "nat \<Rightarrow> nat \<Rightarrow> bool"
  he_os :: "nat \<Rightarrow> nat \<Rightarrow> os_net"
  he_clk :: "nat \<Rightarrow> nat \<Rightarrow> uint64"

definition health_round :: "health_env \<Rightarrow> upstream_state \<Rightarrow> upstream_state" where
  "health_round e st =
     (case arws_upstream_get_all_pools (int ARWS_MAX_POOLS) st of
        (st1, pools) \<Rightarrow> health_pools (he_running e) (he_os e) (he_clk e) 0 pools st1)"

text \<open>The worker: one environment per round until the flag stops the loop.\<close>

definition health_check_worker :: "health_env list \<Rightarrow> upstream_state \<Rightarrow> upstream_state" where
  "health_check_worker rounds st = fold health_round rounds st"

section \<open>Start and stop\<close>

record health_state =
  g_health_running :: bool
  g_health_thread :: bool

definition arws_health_start :: "bool \<Rightarrow> health_state \<Rightarrow> int \<times> health_state" where
  "arws_health_start thread_created h =
     (if g_health_running h then (0, h)
      else (if thread_created then 0 else -1,
            h\<lparr>g_health_running := True, g_health_thread := thread_created\<rparr>))"

definition arws_health_stop :: "health_state \<Rightarrow> health_state" where
  "arws_health_stop h =
     (if \<not> g_health_running h then h
      else h\<lparr>g_health_running := False, g_health_thread := False\<rparr>)"

section \<open>The balancer as a transition system\<close>

text \<open>One rule per critical section on the pool table: the operations of \<open>arws_upstream.c\<close>
  and the update of one node by the health checker. Steps of different threads interleave
  freely; the caller's names fit the fields of the table.\<close>

inductive balancer_step :: "upstream_state \<Rightarrow> upstream_state \<Rightarrow> bool" where
  step_init: "balancer_step st (arws_upstream_init st)"
| step_cleanup: "balancer_step st (arws_upstream_cleanup st)"
| step_create: "length name < 64 \<Longrightarrow> arws_upstream_create_pool name algo st = (rc, st')
    \<Longrightarrow> balancer_step st st'"
| step_params: "arws_upstream_set_health_params name path a b c d st = (rc, st')
    \<Longrightarrow> balancer_step st st'"
| step_add: "length name < 64 \<Longrightarrow> length h < 128
    \<Longrightarrow> arws_upstream_add_node name h p w backup st = (rc, st') \<Longrightarrow> balancer_step st st'"
| step_remove: "arws_upstream_remove_node name h p st = (rc, st') \<Longrightarrow> balancer_step st st'"
| step_drain: "arws_upstream_set_node_drain name h p drain st = (rc, st') \<Longrightarrow> balancer_step st st'"
| step_select: "arws_upstream_select name ip st = Inr (st', r) \<Longrightarrow> balancer_step st st'"
| step_release: "balancer_step st (arws_upstream_release name node code st)"
| step_health: "balancer_step st (health_apply k h p alive now st)"

definition zero_upstream :: upstream_state where
  "zero_upstream = \<lparr>g_pools = replicate ARWS_MAX_POOLS zero_pool, g_upstream_initialized = False\<rparr>"

text \<open>A run of probe results on one node.\<close>

definition health_run ::
  "ArwsUpstreamPool \<Rightarrow> (bool \<times> uint64) list \<Rightarrow> ArwsBackendNode \<Rightarrow> ArwsBackendNode" where
  "health_run pool rs n = foldl (\<lambda>n (alive, now). health_update pool alive now n) n rs"

end
