(* ===== verification/Balancer_Laws.thy ===== *)
theory Balancer_Laws
  imports Upstream_Laws Health
begin

text \<open>
  The load balancer together with its health checker: the invariant of the pool table over
  every interleaving of operations, the hysteresis of the active checks and of the passive
  circuit breaker, and the corner cases of the index arithmetic and of the fixed-size names.
\<close>

section \<open>The invariant is kept by every operation\<close>

lemma wf_pool_update:
  assumes "wf_pool p" "i < length (pool_nodes p) \<Longrightarrow> wf_node n \<and> node_key n = node_key (pool_nodes p ! i)"
  shows "wf_pool (p\<lparr>pool_nodes := (pool_nodes p)[i := n]\<rparr>)"
proof (cases "i < length (pool_nodes p)")
  case True
  have "map node_key ((pool_nodes p)[i := n]) = map node_key (pool_nodes p)"
    using assms(2)[OF True] True by (simp add: map_update list_update_same_conv)
  moreover have "\<forall>m \<in> set ((pool_nodes p)[i := n]). wf_node m"
    using assms True set_update_subset_insert[of "pool_nodes p" i n] by (auto simp: wf_pool_def)
  ultimately show ?thesis using assms(1) by (simp add: wf_pool_def)
next
  case False
  with assms(1) show ?thesis by (simp add: wf_pool_def list_update_beyond)
qed

lemma wf_pool_nth: "wf_pool p \<Longrightarrow> i < length (pool_nodes p) \<Longrightarrow> wf_node (pool_nodes p ! i)"
  by (simp add: wf_pool_def)

lemma wf_pool_take_idx [intro]: "wf_pool p \<Longrightarrow> wf_pool (take_idx i p)"
  unfolding take_idx_def
  by (rule wf_pool_update) (auto dest: wf_pool_nth simp: wf_node_def take_node_def node_key_def)

lemma wf_pool_rr_index [simp]: "wf_pool (p\<lparr>rr_index := x\<rparr>) = wf_pool p"
  by (simp add: wf_pool_def)

lemma wf_rr_loop: "wf_pool p \<Longrightarrow> rr_loop a p ub = Inr (p', r) \<Longrightarrow> wf_pool p'"
  by (induction a p ub rule: rr_loop.induct) (auto simp: Let_def split: if_splits)

lemma wf_node_bump: "wf_node n \<Longrightarrow> wf_node (wrr_bump ub n)"
  by (auto simp: wf_node_def wrr_bump_def)

lemma wf_select_wrr: "wf_pool p \<Longrightarrow> select_wrr_locked p ub = (p', r) \<Longrightarrow> wf_pool p'"
proof (cases r)
  case None
  then show "wf_pool p \<Longrightarrow> select_wrr_locked p ub = (p', r) \<Longrightarrow> wf_pool p'"
    by (auto dest: select_wrr_None)
next
  case (Some b)
  assume wf: "wf_pool p" and sel: "select_wrr_locked p ub = (p', r)"
  note s = select_wrr_Some[OF sel[unfolded Some]]
  let ?q = "p\<lparr>pool_nodes := map (wrr_bump ub) (pool_nodes p)\<rparr>"
  have "node_key \<circ> wrr_bump ub = node_key"
    by (rule ext) (simp add: node_key_def wrr_bump_def)
  then have q: "wf_pool ?q" using wf wf_node_bump by (simp add: wf_pool_def)
  have "wf_pool (?q\<lparr>pool_nodes := (pool_nodes ?q)[b := take_node
        ((wrr_bump ub (pool_nodes p ! b))\<lparr>current_weight :=
           wrr_key (pool_nodes p ! b) - wrr_total ub p\<rparr>)]\<rparr>)"
    using wf_pool_nth[OF q, of b] s(1)
    by (intro wf_pool_update[OF q]) (auto simp: wf_node_def take_node_def node_key_def)
  then show "wf_pool p'" using s(4) by simp
qed

lemma wf_select_algo:
  assumes "wf_pool p" "select_algo ip p ub = Inr (p', r)"
  shows "wf_pool p'"
proof (cases "pool_algo p")
  case ARWS_LB_ROUND_ROBIN
  with assms show ?thesis by (auto simp: select_algo_def select_rr_locked_def intro: wf_rr_loop)
next
  case ARWS_LB_WEIGHTED_ROUND_ROBIN
  with assms show ?thesis by (auto simp: select_algo_def intro: wf_select_wrr)
next
  case ARWS_LB_LEAST_CONN
  with assms show ?thesis
    by (auto simp: select_algo_def select_least_conn_locked_def split: option.splits)
next
  case ARWS_LB_IP_HASH
  with assms show ?thesis
    by (auto simp: select_algo_def select_ip_hash_locked_def Let_def split: if_splits)
qed

lemma wf_select_locked:
  assumes "wf_pool p" "select_locked ip p = Inr (p', r)"
  shows "wf_pool p'"
proof -
  from assms(2) obtain p1 r1 where "select_algo ip p 0 = Inr (p1, r1)"
      "(r1 = None \<and> select_algo ip p1 1 = Inr (p', r)) \<or> (r1 \<noteq> None \<and> p' = p1)"
    by (auto simp: select_locked_def split: sum.splits option.splits)
  then show ?thesis using wf_select_algo[OF assms(1)] wf_select_algo by blast
qed

lemma wf_release_node:
  "wf_node n \<Longrightarrow> wf_node (release_node pool c n) \<and> node_key (release_node pool c n) = node_key n"
  by (auto simp: release_node_def wf_node_def node_key_def Let_def)

lemma wf_health_update:
  "wf_node n \<Longrightarrow> wf_node (health_update pool a now n) \<and> node_key (health_update pool a now n) = node_key n"
  by (auto simp: health_update_def wf_node_def node_key_def Let_def)

lemma wf_upd_pool:
  assumes "wf_upstream st" "k < length (g_pools st) \<Longrightarrow> wf_pool (f (g_pools st ! k))"
    "pool_name (f (g_pools st ! k)) = pool_name (g_pools st ! k)"
    "pool_active (f (g_pools st ! k)) = pool_active (g_pools st ! k)"
  shows "wf_upstream (upd_pool k f st)"
proof (cases "k < length (g_pools st)")
  case True
  have "\<forall>p \<in> set ((g_pools st)[k := f (g_pools st ! k)]). wf_pool p"
    using assms(1,2) True set_update_subset_insert[of "g_pools st" k] by (auto simp: wf_upstream_def)
  moreover have "pool_name ((g_pools st)[k := f (g_pools st ! k)] ! i) = pool_name (g_pools st ! i)"
    "pool_active ((g_pools st)[k := f (g_pools st ! k)] ! i) = pool_active (g_pools st ! i)" for i
    using assms(3,4) True by (cases "i = k"; simp)+
  ultimately show ?thesis using assms(1) unfolding wf_upstream_def upd_pool_def by simp
next
  case False
  with assms(1) show ?thesis by (simp add: upd_pool_def list_update_beyond wf_upstream_def)
qed


lemma wf_init [intro]: "wf_upstream st \<Longrightarrow> wf_upstream (arws_upstream_init st)"
  by (auto simp: arws_upstream_init_def wf_upstream_def zero_pool_def wf_pool_def nth_replicate)

lemma init_idem [simp]:
  "arws_upstream_init (arws_upstream_init st) = arws_upstream_init st"
  by (simp add: arws_upstream_init_def)

lemma wf_cleanup: "wf_upstream st \<Longrightarrow> wf_upstream (arws_upstream_cleanup st)"
  by (auto simp: arws_upstream_cleanup_def wf_upstream_def wf_pool_def)

lemma get_pool_wf:
  "wf_upstream st \<Longrightarrow> arws_upstream_get_pool name st = (st1, r) \<Longrightarrow> wf_upstream st1"
  by (auto simp: arws_upstream_get_pool_def Let_def split: if_splits)

lemma get_pool_SomeD:
  assumes "arws_upstream_get_pool name st = (st1, Some k)"
  shows "k < length (g_pools st1)" "pool_active (g_pools st1 ! k)" "pool_name (g_pools st1 ! k) = name"
  using assms first_idx_SomeD(1,2)
  by (fastforce simp: arws_upstream_get_pool_def Let_def pool_named_def split: if_splits)+

lemma wf_upstream_nth: "wf_upstream st \<Longrightarrow> k < length (g_pools st) \<Longrightarrow> wf_pool (g_pools st ! k)"
  by (simp add: wf_upstream_def)

lemma wf_new_node:
  "length h < 128 \<Longrightarrow> wf_node (new_node h p (clamp_weight w) b)"
  by (auto simp: wf_node_def new_node_def clamp_weight_def Let_def)

lemma wf_add_node_locked:
  assumes "wf_pool p" "length h < 128" "add_node_locked h q (clamp_weight w) b p = (rc, p')"
  shows "wf_pool p'" "pool_name p' = pool_name p" "pool_active p' = pool_active p"
proof -
  have cl: "1 \<le> clamp_weight w" "clamp_weight w \<le> 100" by (auto simp: clamp_weight_def Let_def)
  show "pool_name p' = pool_name p" "pool_active p' = pool_active p"
    using assms(3) by (auto simp: add_node_locked_def split: option.splits if_splits)
  show "wf_pool p'"
  proof (cases "first_idx (node_at h q) (pool_nodes p)")
    case (Some i)
    with assms(3) have "p' = p\<lparr>pool_nodes := (pool_nodes p)[i := (pool_nodes p ! i)
             \<lparr>weight := clamp_weight w, effective_weight := clamp_weight w, is_backup := b\<rparr>]\<rparr>"
      by (simp add: add_node_locked_def)
    then show ?thesis using wf_pool_nth[OF assms(1)] cl
      by (auto intro!: wf_pool_update[OF assms(1)] simp: wf_node_def node_key_def)
  next
    case None
    then have "(h, q) \<notin> set (map node_key (pool_nodes p))"
      by (auto simp: first_idx_None_iff node_at_def node_key_def)
    moreover have "node_key (new_node h q (clamp_weight w) b) = (h, q)"
      using assms(2) by (simp add: node_key_def new_node_def)
    ultimately show ?thesis using None assms wf_new_node[OF assms(2)]
      by (auto simp: add_node_locked_def wf_pool_def split: if_splits)
  qed
qed

lemma wf_activate:
  assumes wf: "wf_upstream st"
    and fresh: "\<forall>j < length (g_pools st). pool_active (g_pools st ! j) \<longrightarrow> pool_name (g_pools st ! j) \<noteq> name"
    and st': "g_pools st' = (g_pools st)[i := q]" and q: "pool_name q = name" "wf_pool q"
  shows "wf_upstream st'"
proof -
  have "\<forall>p \<in> set (g_pools st'). wf_pool p"
    using wf q(2) set_update_subset_insert[of "g_pools st" i q] unfolding st'
    by (auto simp: wf_upstream_def)
  moreover have "a = b" if "a < length (g_pools st')" "b < length (g_pools st')"
    "pool_active (g_pools st' ! a)" "pool_active (g_pools st' ! b)"
    "pool_name (g_pools st' ! a) = pool_name (g_pools st' ! b)" for a b
    using that fresh wf q(1) unfolding st'
    by (cases "a = i"; cases "b = i") (auto simp: wf_upstream_def)
  ultimately show ?thesis using wf unfolding wf_upstream_def by (simp add: st')
qed

lemma wf_create_pool:
  assumes "wf_upstream st" "length name < 64" "arws_upstream_create_pool name algo st = (rc, st')"
  shows "wf_upstream st'"
proof -
  let ?st = "arws_upstream_init st"
  have wf: "wf_upstream ?st" using assms(1) by blast
  show ?thesis
  proof (cases "name = []")
    case True
    with assms show ?thesis by (simp add: arws_upstream_create_pool_def)
  next
    case ne: False
    show ?thesis
    proof (cases "first_idx (pool_named name) (g_pools ?st)")
      case (Some i)
      with assms(3) ne have "st' = upd_pool i (\<lambda>p. p\<lparr>pool_algo := algo\<rparr>) ?st"
        by (simp add: arws_upstream_create_pool_def Let_def upd_pool_def)
      then show ?thesis
        by (simp, intro wf_upd_pool[OF wf]) (use wf_upstream_nth[OF wf, of i] in \<open>auto simp: wf_pool_def\<close>)
    next
      case none: None
      show ?thesis
      proof (cases "first_idx (\<lambda>p. \<not> pool_active p) (g_pools ?st)")
        case None
        with none ne assms(3) wf show ?thesis by (simp add: arws_upstream_create_pool_def Let_def)
      next
        case (Some i)
        with none ne assms(3) have st': "g_pools st' = (g_pools ?st)[i := (g_pools ?st ! i)
                  \<lparr>pool_active := True, pool_name := buf_copy 64 name, pool_algo := algo,
                   pool_nodes := [], rr_index := 0, health_path := ''/healthz'',
                   check_interval_ms := 5000, check_timeout_ms := 2000,
                   fall_threshold := 3, rise_threshold := 2\<rparr>]"
          by (auto simp: arws_upstream_create_pool_def Let_def)
        have "\<forall>j < length (g_pools ?st). pool_active (g_pools ?st ! j) \<longrightarrow> pool_name (g_pools ?st ! j) \<noteq> name"
          using none by (auto simp: first_idx_None_iff pool_named_def)
        from wf_activate[OF wf this st'] assms(2) show ?thesis by (simp add: wf_pool_def)
      qed
    qed
  qed
qed


lemma wf_add_node_slot:
  assumes "wf_upstream st" "length h < 128" "add_node_slot k h p w b st = (rc, st')"
  shows "wf_upstream st'"
proof -
  obtain pool where l: "add_node_locked h p (clamp_weight w) b (g_pools st ! k) = (rc, pool)"
      and st': "st' = upd_pool k (\<lambda>_. pool) st"
    using assms(3) by (auto simp: add_node_slot_def split: prod.splits)
  have "pool_name pool = pool_name (g_pools st ! k)" "pool_active pool = pool_active (g_pools st ! k)"
    using l by (auto simp: add_node_locked_def split: option.splits if_splits)
  moreover have "wf_pool pool" if "k < length (g_pools st)"
    using wf_add_node_locked(1)[OF wf_upstream_nth[OF assms(1) that] assms(2) l] .
  ultimately show ?thesis unfolding st' by (intro wf_upd_pool[OF assms(1)])
qed

lemma wf_add_node:
  assumes wf: "wf_upstream st" and len: "length name < 64" "length h < 128"
    and add: "arws_upstream_add_node name h p w b st = (rc, st')"
  shows "wf_upstream st'"
proof (cases "p \<le> 0")
  case True
  with wf add show ?thesis by (simp add: arws_upstream_add_node_def)
next
  case pos: False
  obtain st1 r1 where g1: "arws_upstream_get_pool name st = (st1, r1)" by fastforce
  note wf1 = get_pool_wf[OF wf g1]
  show ?thesis
  proof (cases r1)
    case (Some k)
    with pos g1 add have "add_node_slot k h p w b st1 = (rc, st')"
      by (simp add: arws_upstream_add_node_def)
    with wf1 len(2) show ?thesis by (rule wf_add_node_slot)
  next
    case None
    obtain rc2 st2 where c: "arws_upstream_create_pool name ARWS_LB_WEIGHTED_ROUND_ROBIN st1 = (rc2, st2)"
      by fastforce
    note wf2 = wf_create_pool[OF wf1 len(1) c]
    obtain st3 r3 where g3: "arws_upstream_get_pool name st2 = (st3, r3)" by fastforce
    note wf3 = get_pool_wf[OF wf2 g3]
    from None pos g1 c g3 add show ?thesis using wf2 wf3 wf_add_node_slot[OF wf3 len(2)]
      by (auto simp: arws_upstream_add_node_def split: if_splits option.splits)
  qed
qed

lemma wf_upd_nodes:
  assumes "wf_upstream st"
    and "k < length (g_pools st) \<Longrightarrow> wf_pool (g_pools st ! k) \<Longrightarrow> wf_pool ((g_pools st ! k)\<lparr>pool_nodes := ns\<rparr>)"
  shows "wf_upstream (upd_pool k (\<lambda>p. p\<lparr>pool_nodes := ns\<rparr>) st)"
  using wf_upstream_nth[OF assms(1)] assms(2) by (intro wf_upd_pool[OF assms(1)]) auto

lemma upd_pool_at: "upd_pool k f st = upd_pool k (\<lambda>_. f (g_pools st ! k)) st"
  by (simp add: upd_pool_def)

lemma wf_upd_node:
  assumes "wf_upstream st"
    and "\<And>n. wf_node n \<Longrightarrow> wf_node (g n) \<and> node_key (g n) = node_key n"
  shows "wf_upstream (upd_pool k (\<lambda>p. p\<lparr>pool_nodes := (pool_nodes p)[i := g (pool_nodes p ! i)]\<rparr>) st)"
proof (rule wf_upd_pool[OF assms(1)])
  assume k: "k < length (g_pools st)"
  note wf = wf_upstream_nth[OF assms(1) k]
  show "wf_pool ((g_pools st ! k)\<lparr>pool_nodes := (pool_nodes (g_pools st ! k))[i := g (pool_nodes (g_pools st ! k) ! i)]\<rparr>)"
    using wf_pool_update[OF wf] assms(2) wf_pool_nth[OF wf] by blast
qed simp_all

lemma subseq_distinct: "subseq xs ys \<Longrightarrow> distinct ys \<Longrightarrow> distinct xs"
  by (metis subseq_conv_nths distinct_nthsI)

lemma subseq_cut: "subseq (take i xs @ drop (Suc i) xs) xs"
proof -
  have "subseq (take i xs @ drop (Suc i) xs) (take i xs @ drop i xs)"
    by (rule list_emb_append_mono) (auto intro: list_emb_append2 simp: suffix_imp_subseq suffix_drop drop_Suc tl_drop[symmetric] suffix_tl)
  then show ?thesis by simp
qed

lemma wf_remove_node:
  assumes wf: "wf_upstream st" and "arws_upstream_remove_node name h p st = (rc, st')"
  shows "wf_upstream st'"
proof -
  obtain st1 r1 where g1: "arws_upstream_get_pool name st = (st1, r1)" by fastforce
  note wf1 = get_pool_wf[OF wf g1]
  have "wf_pool (q\<lparr>pool_nodes := take i (pool_nodes q) @ drop (Suc i) (pool_nodes q)\<rparr>)" if q: "wf_pool q" for q i
  proof -
    let ?ns = "take i (pool_nodes q) @ drop (Suc i) (pool_nodes q)"
    have "subseq ?ns (pool_nodes q)" by (rule subseq_cut)
    then have "distinct (map node_key ?ns)" "set ?ns \<subseteq> set (pool_nodes q)" "length ?ns \<le> length (pool_nodes q)"
      using q subseq_map[of ?ns "pool_nodes q" node_key] unfolding wf_pool_def
      by (blast intro: subseq_distinct, blast dest: list_emb_set[of "(=)"], auto dest: list_emb_length)
    then show ?thesis using q unfolding wf_pool_def by simp blast
  qed
  then show ?thesis using assms(2) g1 wf1
    by (auto simp: arws_upstream_remove_node_def wf_upstream_nth split: option.splits intro!: wf_upd_pool)
qed

lemma wf_set_drain:
  assumes wf: "wf_upstream st" and "arws_upstream_set_node_drain name h p d st = (rc, st')"
  shows "wf_upstream st'"
proof -
  obtain st1 r1 where g1: "arws_upstream_get_pool name st = (st1, r1)" by fastforce
  show ?thesis using assms(2) g1 get_pool_wf[OF wf g1]
    by (auto simp: arws_upstream_set_node_drain_def split: option.splits intro!: wf_upd_node)
       (auto simp: wf_node_def node_key_def)
qed

lemma wf_set_health_params:
  assumes wf: "wf_upstream st" and "arws_upstream_set_health_params name hp a b c d st = (rc, st')"
  shows "wf_upstream st'"
proof -
  obtain st1 r1 where g1: "arws_upstream_get_pool name st = (st1, r1)" by fastforce
  show ?thesis using assms(2) g1 get_pool_wf[OF wf g1]
    by (auto simp: arws_upstream_set_health_params_def set_health_params_locked_def wf_pool_def
        wf_upstream_nth split: option.splits intro!: wf_upd_pool dest: wf_upstream_nth)
qed

lemma select_locked_names:
  assumes "select_locked ip p = Inr (p', r)"
  shows "pool_name p' = pool_name p \<and> pool_active p' = pool_active p"
proof -
  have rr: "rr_loop a q ub = Inr (q', r') \<Longrightarrow> pool_name q' = pool_name q \<and> pool_active q' = pool_active q" for a q ub q' r'
    by (induction a q ub rule: rr_loop.induct) (auto simp: Let_def take_idx_def split: if_splits)
  have "select_algo ip q ub = Inr (q', r') \<Longrightarrow> pool_name q' = pool_name q \<and> pool_active q' = pool_active q" for q ub q' r'
    by (cases "pool_algo q")
       (auto simp: select_algo_def select_rr_locked_def select_wrr_locked_def select_least_conn_locked_def
        select_ip_hash_locked_def Let_def take_idx_def dest: rr split: option.splits if_splits prod.splits)
  with assms show ?thesis
    by (auto simp: select_locked_def split: sum.splits option.splits)
qed

lemma wf_select:
  assumes wf: "wf_upstream st" and "arws_upstream_select name ip st = Inr (st', r)"
  shows "wf_upstream st'"
proof -
  obtain st1 r1 where g1: "arws_upstream_get_pool name st = (st1, r1)" by fastforce
  note wf1 = get_pool_wf[OF wf g1]
  show ?thesis
  proof (cases "\<exists>k p rr. r1 = Some k \<and> pool_nodes (g_pools st1 ! k) \<noteq> [] \<and>
      select_locked ip (g_pools st1 ! k) = Inr (p, rr)")
    case True
    then obtain k p rr where k: "r1 = Some k" "pool_nodes (g_pools st1 ! k) \<noteq> []"
      "select_locked ip (g_pools st1 ! k) = Inr (p, rr)" by blast
    with assms(2) g1 have "st' = upd_pool k (\<lambda>_. p) st1" by (simp add: arws_upstream_select_def)
    then show ?thesis using wf_select_locked[OF wf_upstream_nth[OF wf1] k(3)] select_locked_names[OF k(3)]
      by (auto intro: wf_upd_pool[OF wf1])
  next
    case False
    with assms(2) g1 wf1 show ?thesis
      by (auto simp: arws_upstream_select_def split: option.splits if_splits sum.splits)
  qed
qed

lemma wf_release: "wf_upstream st \<Longrightarrow> wf_upstream (arws_upstream_release name node c st)"
  by (auto simp: arws_upstream_release_def split: option.splits prod.splits
      intro!: wf_upd_node wf_release_node dest: get_pool_wf)

lemma wf_health_apply: "wf_upstream st \<Longrightarrow> wf_upstream (health_apply k h p a now st)"
proof (cases "first_idx (node_at h p) (pool_nodes (g_pools st ! k))")
  case (Some ln)
  assume wf: "wf_upstream st"
  note nd = wf_pool_nth[OF wf_upstream_nth[OF wf]]
  show ?thesis unfolding health_apply_def Some
    by (simp, rule wf_upd_pool[OF wf])
       (use nd in \<open>auto intro!: wf_pool_update wf_health_update[THEN conjunct1] wf_health_update[THEN conjunct2]
          simp: wf_upstream_nth[OF wf]\<close>)
qed (simp add: health_apply_def)

lemma wf_health_nodes: "wf_upstream st \<Longrightarrow> wf_upstream (health_nodes run os clk t k n ns st)"
  by (induction run os clk t k n ns st rule: health_nodes.induct) (auto intro: wf_health_apply)

lemma wf_health_pools: "wf_upstream st \<Longrightarrow> wf_upstream (health_pools run os clk i ps st)"
proof (induction run os clk i ps st rule: health_pools.induct)
  case (2 run os clk i p ps st)
  obtain st1 r1 where g1: "arws_upstream_get_pool (pool_name p) st = (st1, r1)" by fastforce
  from get_pool_wf[OF 2(2) g1] show ?case
    using 2(1) g1 wf_health_nodes by (auto split: option.splits)
qed simp

lemma wf_health_round: "wf_upstream st \<Longrightarrow> wf_upstream (health_round e st)"
  by (auto simp: health_round_def arws_upstream_get_all_pools_def Let_def intro: wf_health_pools)

lemma wf_zero_upstream: "wf_upstream zero_upstream"
  by (simp add: wf_upstream_def zero_upstream_def zero_pool_def wf_pool_def)

lemma balancer_step_wf: "balancer_step st st' \<Longrightarrow> wf_upstream st \<Longrightarrow> wf_upstream st'"
  by (induction rule: balancer_step.induct)
     (blast intro: wf_init wf_cleanup wf_create_pool wf_set_health_params wf_add_node wf_remove_node
        wf_set_drain wf_select wf_release wf_health_apply)+

section \<open>Health checks as runs of probe results\<close>

text \<open>The number of equal results at the end of a run.\<close>

definition trailing :: "bool \<Rightarrow> bool list \<Rightarrow> nat" where
  "trailing b rs = length (takeWhile (\<lambda>r. r = b) (rev rs))"

lemma trailing_snoc [simp]:
  "trailing b [] = 0" "trailing b (rs @ [r]) = (if r = b then Suc (trailing b rs) else 0)"
  by (simp_all add: trailing_def)

lemma suffix_trailing: "suffix (replicate (trailing b rs) b) rs"
proof -
  have "rev (takeWhile (\<lambda>r. r = b) (rev rs)) = replicate (trailing b rs) b"
    unfolding trailing_def by (rule replicate_eqI) (auto dest: set_takeWhileD)
  moreover have "prefix (takeWhile (\<lambda>r. r = b) (rev rs)) (rev rs)"
    by (metis prefixI takeWhile_dropWhile_id)
  ultimately show ?thesis by (metis suffix_to_prefix rev_rev_ident)
qed

lemma trailing_bounded:
  assumes "\<not> sublist (replicate k b) rs"
  shows "trailing b rs < k"
proof (rule ccontr)
  assume "\<not> trailing b rs < k"
  then have "replicate (trailing b rs) b = replicate (trailing b rs - k) b @ replicate k b"
    by (simp flip: replicate_add)
  then have "suffix (replicate k b) rs" using suffix_trailing[of b rs] suffix_order.trans suffixI by metis
  with assms show False by blast
qed

lemma health_run_snoc [simp]:
  "health_run pool [] n = n"
  "health_run pool (rs @ [r]) n = health_update pool (fst r) (snd r) (health_run pool rs n)"
  by (simp_all add: health_run_def split: prod.split)

lemma health_run_append: "health_run pool (rs @ ss) n = health_run pool ss (health_run pool rs n)"
  by (simp add: health_run_def)

lemma health_update_simps [simp]:
  "is_alive (health_update pool a now n) =
     (if a then is_alive n \<or> rise_threshold pool \<le> pass_count n + 1
      else is_alive n \<and> fail_count n + 1 < fall_threshold pool)"
  "fail_count (health_update pool a now n) = (if a then 0 else fail_count n + 1)"
  "pass_count (health_update pool a now n) = (if a then pass_count n + 1 else 0)"
  by (auto simp: health_update_def Let_def)

lemma health_run_counts:
  "fail_count (health_run pool rs n) =
     (if trailing False (map fst rs) = length rs then fail_count n else 0) + int (trailing False (map fst rs))"
  "pass_count (health_run pool rs n) =
     (if trailing True (map fst rs) = length rs then pass_count n else 0) + int (trailing True (map fst rs))"
  by (induction rs rule: rev_induct) auto

lemma health_run_stays_up:
  assumes "is_alive n" "fail_count n = 0" "\<not> sublist (replicate (nat (fall_threshold pool)) False) (map fst rs)"
  shows "is_alive (health_run pool rs n)"
  using assms(3)
proof (induction rs rule: rev_induct)
  case (snoc r rs)
  from snoc.prems have "\<not> sublist (replicate (nat (fall_threshold pool)) False) (map fst rs)"
    by (auto simp: sublist_append)
  with snoc.IH have up: "is_alive (health_run pool rs n)" by blast
  have "int (trailing False (map fst (rs @ [r]))) < fall_threshold pool"
    using trailing_bounded[OF snoc.prems] by linarith
  then have "fail_count (health_run pool (rs @ [r]) n) < fall_threshold pool"
    using assms(2) unfolding health_run_counts by simp
  with up show ?case by (auto split: if_splits)
qed (use assms in simp)

lemma health_run_stays_down:
  assumes "\<not> is_alive n" "pass_count n = 0" "\<not> sublist (replicate (nat (rise_threshold pool)) True) (map fst rs)"
  shows "\<not> is_alive (health_run pool rs n)"
  using assms(3)
proof (induction rs rule: rev_induct)
  case (snoc r rs)
  from snoc.prems have "\<not> sublist (replicate (nat (rise_threshold pool)) True) (map fst rs)"
    by (auto simp: sublist_append)
  with snoc.IH have dn: "\<not> is_alive (health_run pool rs n)" by blast
  have "int (trailing True (map fst (rs @ [r]))) < rise_threshold pool"
    using trailing_bounded[OF snoc.prems] by linarith
  then have "pass_count (health_run pool (rs @ [r]) n) < rise_threshold pool"
    using assms(2) unfolding health_run_counts by simp
  with dn show ?case by (auto split: if_splits)
qed (use assms in simp)

lemma trailing_replicate [simp]: "trailing b (replicate k b) = k"
  by (simp add: trailing_def)

lemma health_run_decides:
  assumes "map fst rs = replicate k b" "0 < k"
    "if b then 0 \<le> pass_count n \<and> rise_threshold pool \<le> int k
     else 0 \<le> fail_count n \<and> fall_threshold pool \<le> int k"
  shows "is_alive (health_run pool rs n) = b"
proof (cases rs rule: rev_exhaust)
  case Nil
  with assms show ?thesis by simp
next
  case (snoc ss r)
  then have r: "fst r = b" using assms(1) by (metis last_map last_replicate last_snoc assms(2) snoc_eq_iff_butlast less_irrefl)
  have len: "length rs = k" using assms(1) by (metis length_map length_replicate)
  have "if b then rise_threshold pool \<le> pass_count (health_run pool rs n)
        else fall_threshold pool \<le> fail_count (health_run pool rs n)"
    using assms(3) len unfolding health_run_counts assms(1) by (cases b) auto
  with r show ?thesis unfolding snoc by (cases b) auto
qed

section \<open>Properties: the balancer with its health checker\<close>



text \<open>C36: Active health checks have hysteresis. A live node with no pending failure survives
  every run of probe results that has no \<open>fall_threshold\<close> consecutive failures, a dead node
  with no pending success stays dead over every run that has no \<open>rise_threshold\<close> consecutive
  successes; and \<open>fall_threshold\<close> failures (\<open>rise_threshold\<close> successes) at the end of a run
  always take the node down (bring it up).\<close>

theorem health_hysteresis:
  shows "(is_alive n \<and> fail_count n = 0 \<and>
            \<not> sublist (replicate (nat (fall_threshold pool)) False) (map fst rs)
          \<longrightarrow> is_alive (health_run pool rs n)) \<and>
         (\<not> is_alive n \<and> pass_count n = 0 \<and>
            \<not> sublist (replicate (nat (rise_threshold pool)) True) (map fst rs)
          \<longrightarrow> \<not> is_alive (health_run pool rs n)) \<and>
         (0 \<le> fail_count n \<and> 0 < fall_threshold pool \<and>
            map fst ss = replicate (nat (fall_threshold pool)) False
          \<longrightarrow> \<not> is_alive (health_run pool (rs @ ss) n)) \<and>
         (0 \<le> pass_count n \<and> 0 < rise_threshold pool \<and>
            map fst ss = replicate (nat (rise_threshold pool)) True
          \<longrightarrow> is_alive (health_run pool (rs @ ss) n))"
proof -
  have c: "0 \<le> fail_count n \<Longrightarrow> 0 \<le> fail_count (health_run pool rs n)"
      "0 \<le> pass_count n \<Longrightarrow> 0 \<le> pass_count (health_run pool rs n)"
    by (simp_all add: health_run_counts)
  have "0 \<le> fail_count n \<and> 0 < fall_threshold pool \<and>
     map fst ss = replicate (nat (fall_threshold pool)) False \<longrightarrow> \<not> is_alive (health_run pool (rs @ ss) n)"
    using health_run_decides[of ss "nat (fall_threshold pool)" False] c(1) by (simp add: health_run_append)
  moreover have "0 \<le> pass_count n \<and> 0 < rise_threshold pool \<and>
     map fst ss = replicate (nat (rise_threshold pool)) True \<longrightarrow> is_alive (health_run pool (rs @ ss) n)"
    using health_run_decides[of ss "nat (rise_threshold pool)" True] c(2) by (simp add: health_run_append)
  ultimately show ?thesis using health_run_stays_up health_run_stays_down by blast
qed

theorem health_hysteresis_witness:
  "is_alive (health_run demo_pool [(False, 0), (False, 1), (True, 2), (False, 3), (False, 4)]
      (new_node ''a'' 80 1 0)) \<and>
   \<not> is_alive (health_run demo_pool [(False, 0), (False, 1), (False, 2)] (new_node ''a'' 80 1 0))"
proof -
  have "\<not> sublist (replicate (nat (fall_threshold demo_pool)) False)
      (map fst [(False, 0::uint64), (False, 1), (True, 2), (False, 3), (False, 4)])"
    by (simp add: numeral_3_eq_3 sublist_Cons_right)
  moreover have "map fst [(False, 0::uint64), (False, 1), (False, 2)] = replicate (nat (fall_threshold demo_pool)) False"
    by (simp add: numeral_3_eq_3)
  ultimately show ?thesis
    using health_hysteresis[of "new_node ''a'' 80 1 0" demo_pool
        "[(False, 0), (False, 1), (True, 2), (False, 3), (False, 4)]"]
      health_hysteresis[of "new_node ''a'' 80 1 0" demo_pool "[]" "[(False, 0), (False, 1), (False, 2)]"]
    by simp
qed

section \<open>Passive circuit breaking and the corner cases of selection\<close>

lemma release_node_simps:
  "fail_count (release_node pool c n) = (if c \<ge> 500 \<or> c < 0 then fail_count n + 1 else 0)"
  "pass_count (release_node pool c n) = (if c \<ge> 500 \<or> c < 0 then pass_count n else pass_count n + 1)"
  "is_alive (release_node pool c n) =
     (if c \<ge> 500 \<or> c < 0 then is_alive n \<and> fail_count n + 1 < fall_threshold pool
      else is_alive n \<or> rise_threshold pool \<le> pass_count n + 1)"
  by (auto simp: release_node_def Let_def)

lemma release_failures:
  assumes "\<forall>c \<in> set cs. c \<ge> 500 \<or> c < 0"
  shows "fail_count (fold (release_node pool) cs n) = fail_count n + int (length cs) \<and>
         pass_count (fold (release_node pool) cs n) = pass_count n \<and>
         is_alive (fold (release_node pool) cs n) =
           (is_alive n \<and> (cs = [] \<or> fail_count n + int (length cs) < fall_threshold pool))"
  using assms by (induction cs arbitrary: n) (auto simp: release_node_simps)

text \<open>C7: The passive circuit breaker opens after exactly \<open>fall_threshold\<close> failures in a row. A
  live node whose last result was a success stays eligible for fewer than \<open>fall_threshold\<close>
  failing releases (status 500 or more, or negative) and is dead from that number on.\<close>

theorem release_trips_exactly:
  assumes "is_alive n" and "fail_count n = 0" and "\<forall>c \<in> set cs. c \<ge> 500 \<or> c < 0" and "cs \<noteq> []"
  shows "is_alive (fold (release_node pool) cs n) \<longleftrightarrow> int (length cs) < fall_threshold pool"
  using release_failures[OF assms(3)] assms by simp

theorem release_trips_exactly_witness:
  "\<not> is_alive (fold (release_node demo_pool) [502, 500, -1] (new_node ''a'' 80 4 0))"
  using release_trips_exactly[of "new_node ''a'' 80 4 0" "[502, 500, -1]" demo_pool] by simp

text \<open>Successes counted by the circuit breaker need not be consecutive. Whatever failing
  releases come between, they leave the success count as it is, so a node that has answered
  \<open>rise_threshold\<close> requests since it was added is brought back by the first success after
  any number of failures.\<close>

theorem release_recovery_not_consecutive:
  assumes "rise_threshold pool \<le> pass_count n + 1" and "\<forall>c \<in> set cs. c \<ge> 500 \<or> c < 0"
    and "0 \<le> ok" and "ok < 500"
  shows "is_alive (release_node pool ok (fold (release_node pool) cs n))"
  using release_failures[OF assms(2)] assms(1,3,4) by (simp add: release_node_simps)

theorem release_recovery_not_consecutive_witness:
  "is_alive (release_node demo_pool 200 (fold (release_node demo_pool) [500, 500, 500]
      (release_node demo_pool 200 (new_node ''a'' 80 4 0))))"
  using release_recovery_not_consecutive[of demo_pool "release_node demo_pool 200 (new_node ''a'' 80 4 0)"
      "[500, 500, 500]" 200] by (simp add: release_node_simps)

text \<open>Least connections and address hashing choose as documented. The least-connection
  algorithm returns an eligible node none of the eligible nodes is less loaded than, and
  address hashing sends a client to the same node as long as the set of eligible nodes is
  the same, whatever the load.\<close>

theorem selection_policy:
  shows "(select_least_conn_locked p ub = (p', Some b) \<longrightarrow>
            eligible ub (pool_nodes p ! b) \<and>
            (\<forall>n \<in> set (pool_nodes p). eligible ub n \<longrightarrow> active_conns (pool_nodes p ! b) \<le> active_conns n)) \<and>
         (candidates ub p = candidates ub q \<longrightarrow>
            snd (select_ip_hash_locked p ip ub) = snd (select_ip_hash_locked q ip ub))"
  using select_least_conn_Some[of p ub p' b]
  by (auto simp: select_ip_hash_locked_def Let_def)

theorem selection_policy_witness:
  "snd (select_ip_hash_locked demo_pool (Some ''10.0.0.7'') 0) =
     snd (select_ip_hash_locked (take_idx 0 demo_pool) (Some ''10.0.0.7'') 0) \<and>
   eligible 0 (pool_nodes demo_pool ! 0)"
proof -
  have "candidates 0 demo_pool = candidates 0 (take_idx 0 demo_pool)"
    by (simp add: candidates_def take_idx_def take_node_def new_node_def eligible_def)
  moreover have "select_least_conn_locked demo_pool 0 = (take_idx 0 demo_pool, Some 0)"
    by (simp add: select_least_conn_locked_def)
  ultimately show ?thesis
    using selection_policy[of demo_pool 0 "take_idx 0 demo_pool" 0 "take_idx 0 demo_pool" "Some ''10.0.0.7''"]
    by simp
qed

lemma crem_min_neg: "0 < n \<Longrightarrow> \<not> n dvd 2 ^ 31 \<Longrightarrow> crem (- (2 ^ 31)) n < 0"
  by (simp add: crem_def dvd_eq_mod_eq_0)
     (metis (no_types) le_less mod_int_pos_iff dvd_eq_mod_eq_0)

text \<open>Plain round-robin breaks when its counter wraps. Once \<open>rr_index\<close> has run past
  \<open>INT_MAX\<close>, the next selection in a pool whose node count is no power of two computes a
  negative index and reads outside the node array.\<close>

theorem rr_index_overflow:
  assumes "rr_index p = 2 ^ 31 - 1" and "\<not> int (length (pool_nodes p)) dvd 2 ^ 31"
    and "\<not> eligible ub (pool_nodes p ! nat ((2 ^ 31 - 1) mod int (length (pool_nodes p))))"
    and "2 \<le> length (pool_nodes p)"
  shows "select_rr_locked p ub = Inl OutOfBounds"
proof -
  obtain m where m: "length (pool_nodes p) = Suc (Suc m)"
    using assms(4) by (metis add_2_eq_Suc le_Suc_ex)
  have n: "0 < int (length (pool_nodes p))" using m by simp
  have c: "cinc32 (2 ^ 31 - 1) = - (2 ^ 31)" by (simp add: cinc32_def wrap32_def)
  have i0: "crem (2 ^ 31 - 1) (int (length (pool_nodes p))) = (2 ^ 31 - 1) mod int (length (pool_nodes p))"
    using n by (intro crem_nonneg) simp_all
  have i1: "crem (- (2 ^ 31)) (int (length (pool_nodes p))) < 0" by (rule crem_min_neg[OF n assms(2)])
  have "rr_loop (Suc m) (p\<lparr>rr_index := - (2 ^ 31)\<rparr>) ub = Inl OutOfBounds"
    using i1 by (simp add: Let_def)
  moreover have "\<not> (2 ^ 31 - 1) mod int (length (pool_nodes p)) < 0"
    "\<not> int (length (pool_nodes p)) \<le> (2 ^ 31 - 1) mod int (length (pool_nodes p))"
    using pos_mod_bound[OF n] pos_mod_sign[OF n] by (simp_all add: not_less not_le)
  ultimately show ?thesis
    unfolding select_rr_locked_def m rr_loop.simps(2) Let_def assms(1) i0 c using assms(3) m by simp
qed

theorem rr_index_overflow_witness:
  "select_rr_locked (demo_pool\<lparr>rr_index := 2 ^ 31 - 1\<rparr>) 1 = Inl OutOfBounds"
proof -
  have "\<not> (3::int) dvd 2 ^ 31" by (simp add: dvd_eq_mod_eq_0)
  then show ?thesis using rr_index_overflow[of "demo_pool\<lparr>rr_index := 2 ^ 31 - 1\<rparr>" 1] by simp
qed

end
