(* ===== verification/Cache.thy ===== *)
theory Cache
  imports Arws_Prelude
begin

text \<open>
  The response cache, \<open>src/src/arws_cache.c\<close>: an open-addressing table of 256 entries with
  linear probing, a time to live per entry, and eviction of the oldest entry when the table
  is full. \<open>ar_time_ms\<close> is a parameter (one value per call of the source; the eviction loop
  reads it once per entry) and so is the success of \<open>ar_mem_alloc\<close>. The \<open>data\<close> pointer of an
  entry is an option: \<open>None\<close> is NULL.
\<close>

section \<open>Data\<close>

record CacheEntry =
  ce_key :: string
  ce_data :: "string option"
  ce_len :: int
  stored_at :: uint64
  ce_ttl :: int
  in_use :: bool

record cache_state =
  cache :: "CacheEntry list"
  cache_ttl :: int

abbreviation (input) ARWS_CACHE_MAX_ENTRIES :: nat where "ARWS_CACHE_MAX_ENTRIES \<equiv> 256"
abbreviation (input) CACHE_SHARDS :: nat where "CACHE_SHARDS \<equiv> 16"

definition zero_entry :: CacheEntry where
  "zero_entry = \<lparr>ce_key = [], ce_data = None, ce_len = 0, stored_at = 0, ce_ttl = 0, in_use = False\<rparr>"

section \<open>Slots\<close>

definition cache_hash :: "string \<Rightarrow> uint32" where
  "cache_hash key = djb2 key"

definition get_shard :: "string \<Rightarrow> nat" where
  "get_shard key = unat (cache_hash key) mod CACHE_SHARDS"

text \<open>The slots in the order the loop of \<open>find_slot\<close> visits them.\<close>

definition probe_seq :: "string \<Rightarrow> nat list" where
  "probe_seq key =
     map (\<lambda>i. (unat (cache_hash key) mod ARWS_CACHE_MAX_ENTRIES + i) mod ARWS_CACHE_MAX_ENTRIES)
       [0..<ARWS_CACHE_MAX_ENTRIES]"

definition slot_stops :: "CacheEntry list \<Rightarrow> string \<Rightarrow> nat \<Rightarrow> bool" where
  "slot_stops cs key s \<longleftrightarrow> \<not> in_use (cs ! s) \<or> ce_key (cs ! s) = key"

definition find_slot :: "CacheEntry list \<Rightarrow> string \<Rightarrow> nat option" where
  "find_slot cs key =
     map_option (\<lambda>i. probe_seq key ! i) (first_idx (slot_stops cs key) (probe_seq key))"

definition expired :: "uint64 \<Rightarrow> CacheEntry \<Rightarrow> bool" where
  "expired now e \<longleftrightarrow> ce_ttl e > 0 \<and> now - stored_at e > word_of_int (ce_ttl e) * 1000"

fun evict_loop ::
  "(nat \<Rightarrow> uint64) \<Rightarrow> nat \<Rightarrow> (nat \<times> uint64) option \<Rightarrow> CacheEntry list \<Rightarrow> nat option" where
  "evict_loop clk i oldest [] = map_option fst oldest"
| "evict_loop clk i oldest (e # es) =
     (if \<not> in_use e then evict_loop clk (Suc i) oldest es
      else if expired (clk i) e then Some i
      else evict_loop clk (Suc i)
             (case oldest of
                None \<Rightarrow> Some (i, stored_at e)
              | Some (s, t) \<Rightarrow> if stored_at e < t then Some (i, stored_at e) else oldest) es)"

definition evict_one ::
  "(nat \<Rightarrow> uint64) \<Rightarrow> CacheEntry list \<Rightarrow> (nat \<times> CacheEntry list) option" where
  "evict_one clk cs = map_option (\<lambda>s. (s, cs[s := zero_entry])) (evict_loop clk 0 None cs)"

section \<open>Operations\<close>

definition arws_cache_init :: "cache_state \<Rightarrow> cache_state" where
  "arws_cache_init st = st\<lparr>cache := replicate ARWS_CACHE_MAX_ENTRIES zero_entry\<rparr>"

definition arws_cache_set_ttl :: "int \<Rightarrow> cache_state \<Rightarrow> cache_state" where
  "arws_cache_set_ttl seconds st = st\<lparr>cache_ttl := (if seconds > 0 then seconds else 0)\<rparr>"

definition arws_cache_get_ttl :: "cache_state \<Rightarrow> int" where
  "arws_cache_get_ttl st = cache_ttl st"

text \<open>The result is the copied data, or \<open>None\<close> for the return code \<open>-1\<close>.\<close>

definition arws_cache_get ::
  "(int \<Rightarrow> bool) \<Rightarrow> uint64 \<Rightarrow> string \<Rightarrow> cache_state \<Rightarrow> mem_error + (cache_state \<times> string option)" where
  "arws_cache_get mem_alloc now key st =
     (case find_slot (cache st) key of
        None \<Rightarrow> Inr (st, None)
      | Some slot \<Rightarrow>
          let e = cache st ! slot in
          if \<not> in_use e then Inr (st, None)
          else if expired now e
          then Inr (st\<lparr>cache := (cache st)[slot := zero_entry]\<rparr>, None)
          else if \<not> mem_alloc (ce_len e) then Inr (st, None)
          else (case ce_data e of
                  None \<Rightarrow> Inl NullDeref
                | Some d \<Rightarrow> Inr (st, Some (take (nat (ce_len e)) d))))"

text \<open>\<open>data\<close> is the buffer of \<open>len\<close> bytes the caller passes.\<close>

definition cache_store ::
  "bool \<Rightarrow> uint64 \<Rightarrow> string \<Rightarrow> string \<Rightarrow> nat \<Rightarrow> cache_state \<Rightarrow> int \<times> cache_state" where
  "cache_store allocated now key data slot st =
     (let e = cache st ! slot in
      if \<not> allocated then (-1, st\<lparr>cache := (cache st)[slot := e\<lparr>ce_data := None\<rparr>]\<rparr>)
      else (0, st\<lparr>cache := (cache st)[slot :=
              e\<lparr>ce_data := Some data, ce_key := buf_copy 512 key, ce_len := int (length data),
                stored_at := now, ce_ttl := cache_ttl st, in_use := True\<rparr>]\<rparr>))"

definition arws_cache_set ::
  "(int \<Rightarrow> bool) \<Rightarrow> (nat \<Rightarrow> uint64) \<Rightarrow> uint64 \<Rightarrow> string \<Rightarrow> string \<Rightarrow> cache_state \<Rightarrow> int \<times> cache_state" where
  "arws_cache_set mem_alloc clk now key data st =
     (if data = [] then (-1, st)
      else if cache_ttl st \<le> 0 then (-1, st)
      else (case find_slot (cache st) key of
              Some slot \<Rightarrow> cache_store (mem_alloc (int (length data))) now key data slot st
            | None \<Rightarrow>
                (case evict_one clk (cache st) of
                   None \<Rightarrow> (-1, st)
                 | Some (slot, cs) \<Rightarrow>
                     cache_store (mem_alloc (int (length data))) now key data slot (st\<lparr>cache := cs\<rparr>))))"

definition arws_cache_clear :: "cache_state \<Rightarrow> cache_state" where
  "arws_cache_clear st = st\<lparr>cache := replicate ARWS_CACHE_MAX_ENTRIES zero_entry\<rparr>"

definition arws_cache_cleanup :: "uint64 \<Rightarrow> cache_state \<Rightarrow> cache_state" where
  "arws_cache_cleanup now st =
     st\<lparr>cache := map (\<lambda>e. if in_use e \<and> expired now e then zero_entry else e) (cache st)\<rparr>"

definition arws_cache_make_key ::
  "nat \<Rightarrow> string option \<Rightarrow> string option \<Rightarrow> string option \<Rightarrow> string option \<Rightarrow> string" where
  "arws_cache_make_key out_size method host path query =
     buf_copy out_size
       ((case method of Some s \<Rightarrow> s | None \<Rightarrow> ''*'') @ ''|'' @
        (case host of Some s \<Rightarrow> s | None \<Rightarrow> ''*'') @ ''|'' @
        (case path of Some s \<Rightarrow> s | None \<Rightarrow> ''/'') @ ''|'' @
        (case query of Some s \<Rightarrow> s | None \<Rightarrow> ''*''))"

section \<open>Histories\<close>

text \<open>A history of the cache: operations at increasing times, with the value of the last
  successful store of each key kept beside the table.\<close>

datatype cache_op =
    CGet string "int \<Rightarrow> bool"
  | CSet string string "nat \<Rightarrow> uint64"
  | CClear
  | CCleanup

type_synonym latest = "string \<Rightarrow> (string \<times> uint64) option"

fun cache_exec :: "uint64 \<Rightarrow> cache_op \<Rightarrow> cache_state \<times> latest \<Rightarrow> cache_state \<times> latest" where
  "cache_exec now (CGet key mem) (st, lt) =
     (case arws_cache_get mem now key st of Inl _ \<Rightarrow> (st, lt) | Inr (st', _) \<Rightarrow> (st', lt))"
| "cache_exec now (CSet key data clk) (st, lt) =
     (case arws_cache_set (\<lambda>_. True) clk now key data st of
        (rc, st') \<Rightarrow> (st', if rc = 0 then lt(key \<mapsto> (data, now)) else lt))"
| "cache_exec now CClear (st, lt) = (arws_cache_clear st, lt)"
| "cache_exec now CCleanup (st, lt) = (arws_cache_cleanup now st, lt)"

text \<open>The operation takes place at a later time than everything before it, its key fits the
  field, and the clock readings of the eviction loop are between the two.\<close>

fun op_ok :: "uint64 \<Rightarrow> uint64 \<Rightarrow> cache_op \<Rightarrow> bool" where
  "op_ok before now (CSet key data clk) \<longleftrightarrow>
     before < now \<and> length key < 512 \<and> (\<forall>i. before \<le> clk i \<and> clk i \<le> now)"
| "op_ok before now _ \<longleftrightarrow> before < now"

inductive cache_history :: "int \<Rightarrow> uint64 \<Rightarrow> cache_state \<Rightarrow> latest \<Rightarrow> bool" for T :: int where
  hist_init: "0 < T \<Longrightarrow> cache_history T 0 (arws_cache_init \<lparr>cache = [], cache_ttl = T\<rparr>) (\<lambda>_. None)"
| hist_step: "cache_history T before st lt \<Longrightarrow> op_ok before now op
    \<Longrightarrow> cache_exec now op (st, lt) = (st', lt') \<Longrightarrow> cache_history T now st' lt'"

end
