(* ===== verification/Cache_Laws.thy ===== *)
theory Cache_Laws
  imports Cache
begin

text \<open>
  Correctness of the response cache: what a store followed by a lookup returns, and over whole
  histories that a hit never returns anything but the value stored last under the key. Entries
  are deleted without leaving a marker, so one key may occupy several slots; the invariant
  orders them by age along the probe sequence.
\<close>

section \<open>The probe sequence\<close>

lemma length_probe_seq [simp]: "length (probe_seq k) = 256"
  by (simp add: probe_seq_def)

lemma nth_probe_seq: "i < 256 \<Longrightarrow> probe_seq k ! i = (unat (cache_hash k) mod 256 + i) mod 256"
  by (simp add: probe_seq_def)

lemma probe_seq_less [simp]: "i < 256 \<Longrightarrow> probe_seq k ! i < 256"
  by (simp add: nth_probe_seq)

lemma probe_seq_inj:
  assumes "i < 256" "j < 256" "probe_seq k ! i = probe_seq k ! j"
  shows "i = j"
proof -
  define h where "h = unat (cache_hash k) mod 256"
  have "h < 256" by (simp add: h_def)
  then have wrap: "(h + n) mod 256 = (if h + n < 256 then h + n else h + n - 256)" if "n < 256" for n
    using that by (simp add: mod_if)
  have "(h + i) mod 256 = (h + j) mod 256" using assms by (simp add: nth_probe_seq h_def)
  then show ?thesis unfolding wrap[OF assms(1)] wrap[OF assms(2)] using \<open>h < 256\<close> assms(1,2)
    by (simp split: if_splits)
qed

lemma probe_seq_surj:
  assumes "s < 256"
  obtains i where "i < 256" "probe_seq k ! i = s"
proof -
  have "inj_on ((!) (probe_seq k)) {..<256}" using probe_seq_inj by (auto simp: inj_on_def)
  then have "(!) (probe_seq k) ` {..<256} = {..<256}"
    by (intro endo_inj_surj) auto
  then show ?thesis using assms that by (metis imageE lessThan_iff)
qed

lemma find_slot_SomeD:
  assumes "find_slot cs k = Some s"
  obtains i where "i < 256" "s = probe_seq k ! i" "slot_stops cs k s" "\<And>j. j < i \<Longrightarrow> \<not> slot_stops cs k (probe_seq k ! j)"
proof -
  from assms obtain i where i: "first_idx (slot_stops cs k) (probe_seq k) = Some i" "s = probe_seq k ! i"
    by (auto simp: find_slot_def)
  from first_idx_SomeD[OF i(1)] i(2) show ?thesis using that by simp
qed

lemma find_slot_NoneD:
  assumes "find_slot cs k = None" "s < 256"
  shows "in_use (cs ! s) \<and> ce_key (cs ! s) \<noteq> k"
proof -
  obtain i where "i < 256" "probe_seq k ! i = s" using probe_seq_surj[OF assms(2)] by metis
  then have "s \<in> set (probe_seq k)" by (metis length_probe_seq nth_mem)
  with assms(1) show ?thesis by (auto simp: find_slot_def first_idx_None_iff slot_stops_def)
qed

lemma find_slotI:
  assumes "i < 256" "slot_stops cs k (probe_seq k ! i)" "\<And>j. j < i \<Longrightarrow> \<not> slot_stops cs k (probe_seq k ! j)"
  shows "find_slot cs k = Some (probe_seq k ! i)"
proof -
  have "first_idx (slot_stops cs k) (probe_seq k) = Some i"
    using assms by (simp add: first_idx_Some_iff)
  then show ?thesis by (simp add: find_slot_def)
qed

section \<open>Expiry and eviction\<close>

lemma expired_later:
  assumes "expired t e" "stored_at e \<le> t" "t \<le> u"
  shows "expired u e"
proof -
  have "t - stored_at e \<le> u - stored_at e" using assms(2,3) by (metis word_le_minus_mono_left)
  with assms(1) show ?thesis unfolding expired_def by (metis order_less_le_trans)
qed

lemma expired_older:
  assumes "expired t e" "stored_at e' \<le> stored_at e" "stored_at e \<le> t" "ce_ttl e' = ce_ttl e"
  shows "expired t e'"
proof -
  have "t - stored_at e \<le> t - stored_at e'"
    using assms(2,3) by (meson dual_order.trans order_refl word_le_minus_mono word_sub_le)
  with assms(1,4) show ?thesis unfolding expired_def by (metis order_less_le_trans)
qed

lemma evict_loop_cases:
  assumes "evict_loop clk i old es = Some s"
  shows "(\<exists>j < length es. s = i + j \<and> in_use (es ! j) \<and> expired (clk s) (es ! j)) \<or>
         (\<exists>t. scan_best in_use stored_at i old es = Some (s, t))"
  using assms
proof (induction es arbitrary: i old)
  case Nil
  then show ?case by auto
next
  case (Cons e es)
  have sh: "(\<exists>j < length es. s = Suc i + j \<and> in_use (es ! j) \<and> expired (clk s) (es ! j)) \<Longrightarrow>
      (\<exists>j < length (e # es). s = i + j \<and> in_use ((e # es) ! j) \<and> expired (clk s) ((e # es) ! j))"
    by (metis add_Suc_right add_Suc length_Cons not_less_eq nth_Cons_Suc)
  consider "\<not> in_use e" | "in_use e" "expired (clk i) e" | "in_use e" "\<not> expired (clk i) e" by blast
  then show ?case
  proof cases
    case 1
    with Cons.prems have "evict_loop clk (Suc i) old es = Some s"
      and "scan_best in_use stored_at i old (e # es) = scan_best in_use stored_at (Suc i) old es" by simp_all
    with Cons.IH sh show ?thesis by metis
  next
    case 2
    with Cons.prems show ?thesis by (intro disjI1 exI[of _ 0]) simp
  next
    case 3
    define new where "new = (case old of None \<Rightarrow> Some (i, stored_at e)
        | Some (b, t) \<Rightarrow> if stored_at e < t then Some (i, stored_at e) else old)"
    from 3 Cons.prems have "evict_loop clk (Suc i) new es = Some s"
      and "scan_best in_use stored_at i old (e # es) = scan_best in_use stored_at (Suc i) new es"
      by (simp_all add: new_def)
    with Cons.IH sh show ?thesis by metis
  qed
qed

text \<open>The evicted entry is expired or the oldest one.\<close>

lemma evict_oneD:
  assumes "evict_one clk cs = Some (s, cs')"
  shows "s < length cs" "in_use (cs ! s)" "cs' = cs[s := zero_entry]"
    "expired (clk s) (cs ! s) \<or> (\<forall>j < length cs. in_use (cs ! j) \<longrightarrow> stored_at (cs ! s) \<le> stored_at (cs ! j))"
proof -
  from assms have e: "evict_loop clk 0 None cs = Some s" and "cs' = cs[s := zero_entry]"
    by (auto simp: evict_one_def)
  then show "cs' = cs[s := zero_entry]" by blast
  have "s < length cs \<and> in_use (cs ! s) \<and> (expired (clk s) (cs ! s) \<or>
      (\<forall>j < length cs. in_use (cs ! j) \<longrightarrow> stored_at (cs ! s) \<le> stored_at (cs ! j)))"
    using evict_loop_cases[OF e]
  proof
    assume "\<exists>t. scan_best in_use stored_at 0 None cs = Some (s, t)"
    then obtain t where "scan_best in_use stored_at 0 None cs = Some (s, t)" by blast
    from scan_best_SomeD[OF this] show ?thesis by auto
  qed auto
  then show "s < length cs" "in_use (cs ! s)"
    "expired (clk s) (cs ! s) \<or> (\<forall>j < length cs. in_use (cs ! j) \<longrightarrow> stored_at (cs ! s) \<le> stored_at (cs ! j))"
    by blast+
qed

lemma evict_one_total:
  assumes "s < length cs" "in_use (cs ! s)"
  shows "\<exists>r. evict_one clk cs = Some r"
proof -
  have "evict_loop clk i old es \<noteq> None" if "old \<noteq> None \<or> (\<exists>e \<in> set es. in_use e)" for i old es
    using that
  proof (induction es arbitrary: i old)
    case (Cons e es)
    show ?case
    proof (cases "in_use e \<and> \<not> expired (clk i) e")
      case True
      then show ?thesis using Cons.IH[of _ "Suc i"] by (auto simp del: not_None_eq split: option.splits)
    next
      case False
      with Cons show ?thesis by (auto simp del: not_None_eq)
    qed
  qed simp
  moreover have "\<exists>e \<in> set cs. in_use e" using assms by auto
  ultimately have "evict_loop clk 0 None cs \<noteq> None" by blast
  then show ?thesis by (auto simp: evict_one_def)
qed

section \<open>The invariant of a history\<close>

definition holds :: "CacheEntry list \<Rightarrow> string \<Rightarrow> nat \<Rightarrow> bool" where
  "holds cs k s \<longleftrightarrow> s < 256 \<and> in_use (cs ! s) \<and> ce_key (cs ! s) = k"

definition entries_ok :: "int \<Rightarrow> uint64 \<Rightarrow> CacheEntry list \<Rightarrow> bool" where
  "entries_ok T now cs \<longleftrightarrow> (\<forall>k s. holds cs k s \<longrightarrow> stored_at (cs ! s) \<le> now \<and> ce_ttl (cs ! s) = T \<and>
     (\<exists>d. ce_data (cs ! s) = Some d \<and> ce_len (cs ! s) = int (length d)))"

definition age_ordered :: "CacheEntry list \<Rightarrow> bool" where
  "age_ordered cs \<longleftrightarrow> (\<forall>k a b. a < b \<and> b < 256 \<and> holds cs k (probe_seq k ! a) \<and> holds cs k (probe_seq k ! b)
     \<longrightarrow> stored_at (cs ! (probe_seq k ! b)) < stored_at (cs ! (probe_seq k ! a)))"

definition tracks :: "CacheEntry list \<Rightarrow> latest \<Rightarrow> bool" where
  "tracks cs lt \<longleftrightarrow> (\<forall>k s. holds cs k s \<longrightarrow> (\<exists>d t. lt k = Some (d, t) \<and> stored_at (cs ! s) \<le> t \<and>
     (stored_at (cs ! s) = t \<longrightarrow> ce_data (cs ! s) = Some d)))"

definition latest_kept :: "uint64 \<Rightarrow> CacheEntry list \<Rightarrow> latest \<Rightarrow> bool" where
  "latest_kept now cs lt \<longleftrightarrow> (\<forall>k d t. lt k = Some (d, t) \<longrightarrow> t \<le> now \<and>
     ((\<exists>s. holds cs k s \<and> stored_at (cs ! s) = t) \<or> (\<forall>s. holds cs k s \<longrightarrow> expired now (cs ! s))))"

definition cache_inv :: "int \<Rightarrow> uint64 \<Rightarrow> CacheEntry list \<Rightarrow> latest \<Rightarrow> bool" where
  "cache_inv T now cs lt \<longleftrightarrow> length cs = 256 \<and> entries_ok T now cs \<and> age_ordered cs \<and>
     tracks cs lt \<and> latest_kept now cs lt"

lemma zero_entry_free [simp]: "\<not> in_use zero_entry"
  by (simp add: zero_entry_def)

lemma holds_distinct_age:
  assumes "age_ordered cs" "holds cs k s" "holds cs k s'" "s \<noteq> s'"
  shows "stored_at (cs ! s) \<noteq> stored_at (cs ! s')"
proof -
  have "s < 256" "s' < 256" using assms(2,3) by (simp_all add: holds_def)
  from probe_seq_surj[OF this(1)] obtain a where a: "a < 256" "probe_seq k ! a = s" .
  from probe_seq_surj[OF \<open>s' < 256\<close>] obtain b where b: "b < 256" "probe_seq k ! b = s'" .
  note ab = a b
  with assms(4) have "a < b \<or> b < a" by (metis nat_neq_iff)
  then show ?thesis
  proof
    assume "a < b"
    with ab assms(1-3) have "stored_at (cs ! s') < stored_at (cs ! s)" unfolding age_ordered_def by blast
    then show ?thesis by simp
  next
    assume "b < a"
    with ab assms(1-3) have "stored_at (cs ! s) < stored_at (cs ! s')" unfolding age_ordered_def by blast
    then show ?thesis by simp
  qed
qed

lemma cache_inv_later:
  assumes "cache_inv T now cs lt" "now \<le> now'"
  shows "cache_inv T now' cs lt"
proof -
  have ok: "entries_ok T now cs" using assms(1) by (simp add: cache_inv_def)
  then have "entries_ok T now' cs" using assms(2) unfolding entries_ok_def by (meson order_trans)
  moreover have "expired now' (cs ! s)" if "holds cs k s" "expired now (cs ! s)" for k s
    using that ok assms(2) unfolding entries_ok_def by (metis expired_later)
  then have "latest_kept now' cs lt"
    using assms unfolding cache_inv_def latest_kept_def by (meson order_trans)
  ultimately show ?thesis using assms(1) by (simp add: cache_inv_def)
qed

text \<open>Entries that are expired, or older than all others, may be dropped.\<close>

lemma cache_inv_drop:
  assumes inv: "cache_inv T now cs lt" and len: "length cs' = 256"
    and drop: "\<And>s. s < 256 \<Longrightarrow> in_use (cs' ! s) \<Longrightarrow> cs' ! s = cs ! s"
    and gone: "\<And>s. s < 256 \<Longrightarrow> in_use (cs ! s) \<Longrightarrow> \<not> in_use (cs' ! s) \<Longrightarrow>
      expired now (cs ! s) \<or> (\<forall>j < 256. in_use (cs ! j) \<longrightarrow> stored_at (cs ! s) \<le> stored_at (cs ! j))"
  shows "cache_inv T now cs' lt"
proof -
  have h: "holds cs k s \<and> cs' ! s = cs ! s" if "holds cs' k s" for k s
    using that drop by (auto simp: holds_def)
  have ok: "entries_ok T now cs" and ord: "age_ordered cs" and tr: "tracks cs lt" and lk: "latest_kept now cs lt"
    using inv by (simp_all add: cache_inv_def)
  have "entries_ok T now cs'" using ok h unfolding entries_ok_def by metis
  moreover have "age_ordered cs'" using ord h unfolding age_ordered_def by metis
  moreover have "tracks cs' lt" using tr h unfolding tracks_def by metis
  moreover have "latest_kept now cs' lt"
    unfolding latest_kept_def
  proof (intro allI impI conjI)
    fix k d t assume l: "lt k = Some (d, t)"
    then show "t \<le> now" using lk by (auto simp: latest_kept_def)
    show "(\<exists>s. holds cs' k s \<and> stored_at (cs' ! s) = t) \<or> (\<forall>s. holds cs' k s \<longrightarrow> expired now (cs' ! s))"
    proof (cases "\<exists>s. holds cs k s \<and> stored_at (cs ! s) = t")
      case False
      with lk l h show ?thesis unfolding latest_kept_def by metis
    next
      case True
      then obtain s where s: "holds cs k s" "stored_at (cs ! s) = t" by blast
      show ?thesis
      proof (cases "in_use (cs' ! s)")
        case True
        with s drop have "holds cs' k s" "stored_at (cs' ! s) = t" by (auto simp: holds_def)
        then show ?thesis by blast
      next
        case False
        with s gone have g: "expired now (cs ! s) \<or> (\<forall>j < 256. in_use (cs ! j) \<longrightarrow> t \<le> stored_at (cs ! j))"
          by (auto simp: holds_def)
        have "expired now (cs' ! j)" if j: "holds cs' k j" for j
        proof -
          have hj: "holds cs k j" "cs' ! j = cs ! j" using h[OF j] by simp_all
          then have "j \<noteq> s" using False j by (auto simp: holds_def)
          then have "stored_at (cs ! j) \<noteq> t" using holds_distinct_age[OF ord hj(1) s(1)] s(2) by simp
          moreover have "stored_at (cs ! j) \<le> t" using tr hj(1) l unfolding tracks_def by fastforce
          ultimately have lt: "stored_at (cs ! j) < t" by simp
          with g hj have "expired now (cs ! s)" by (metis holds_def leD)
          with lt s hj ok show ?thesis
            unfolding entries_ok_def by (metis expired_older order_less_imp_le)
        qed
        then show ?thesis by blast
      qed
    qed
  qed
  ultimately show ?thesis using len by (simp add: cache_inv_def)
qed

text \<open>A store puts the newest entry before every older one of the same key.\<close>

definition stored_entry :: "uint64 \<Rightarrow> int \<Rightarrow> string \<Rightarrow> string \<Rightarrow> CacheEntry" where
  "stored_entry now T k data = \<lparr>ce_key = k, ce_data = Some data, ce_len = int (length data),
     stored_at = now, ce_ttl = T, in_use = True\<rparr>"

lemma cache_inv_store:
  assumes inv': "cache_inv T now cs lt" and old: "\<And>k' j. holds cs k' j \<Longrightarrow> stored_at (cs ! j) < now" and i: "i < 256" "s = probe_seq k ! i"
    and slot: "\<not> in_use (cs ! s) \<or> ce_key (cs ! s) = k"
    and first: "\<And>j. j < i \<Longrightarrow> \<not> holds cs k (probe_seq k ! j)"
  shows "cache_inv T now (cs[s := stored_entry now T k data]) (lt(k \<mapsto> (data, now)))"
proof -
  let ?e = "stored_entry now T k data" and ?lt = "lt(k \<mapsto> (data, now))"
  let ?cs = "cs[s := ?e]"
  have s: "s < 256" using i by simp
  have len: "length cs = 256" and ok: "entries_ok T now cs" and ord: "age_ordered cs"
    and tr: "tracks cs lt" and lk: "latest_kept now cs lt"
    using inv' by (simp_all add: cache_inv_def)
  have at_s: "?cs ! s = ?e" and at: "j \<noteq> s \<Longrightarrow> ?cs ! j = cs ! j" for j using s len by simp_all
  have h: "(k' = k \<and> j = s) \<or> (j \<noteq> s \<and> holds cs k' j \<and> ?cs ! j = cs ! j)" if "holds ?cs k' j" for k' j
    using that at at_s by (cases "j = s") (auto simp: holds_def stored_entry_def)
  have "entries_ok T now ?cs"
    unfolding entries_ok_def using h ok at_s unfolding entries_ok_def
    by (metis CacheEntry.select_convs(2,3,4,5) order_refl stored_entry_def)
  moreover have "age_ordered ?cs"
    unfolding age_ordered_def
  proof (intro allI impI, elim conjE)
    fix k' a b assume ab: "a < b" "b < 256" "holds ?cs k' (probe_seq k' ! a)" "holds ?cs k' (probe_seq k' ! b)"
    have na: "probe_seq k' ! b \<noteq> probe_seq k' ! a" using ab probe_seq_inj[of a b k'] by auto
    consider "k' = k" "probe_seq k' ! a = s" | "k' = k" "probe_seq k' ! b = s"
      | "probe_seq k' ! a \<noteq> s" "probe_seq k' ! b \<noteq> s" using h[OF ab(3)] h[OF ab(4)] by blast
    then show "stored_at (?cs ! (probe_seq k' ! b)) < stored_at (?cs ! (probe_seq k' ! a))"
    proof cases
      case 1
      then have "probe_seq k' ! b \<noteq> s" using na by simp
      with h[OF ab(4)] old at_s 1 show ?thesis by (auto simp: stored_entry_def)
    next
      case 2
      then have "b = i" using i ab(2) probe_seq_inj by metis
      moreover have "holds cs k (probe_seq k ! a)" using h[OF ab(3)] 2 na by metis
      ultimately show ?thesis using first ab(1) by blast
    next
      case 3
      then have "holds cs k' (probe_seq k' ! a)" "holds cs k' (probe_seq k' ! b)" using h ab by blast+
      with 3 ord ab at show ?thesis unfolding age_ordered_def by simp
    qed
  qed
  moreover have "tracks ?cs ?lt"
    unfolding tracks_def
  proof (intro allI impI)
    fix k' j assume j: "holds ?cs k' j"
    from h[OF j] show "\<exists>d t. ?lt k' = Some (d, t) \<and> stored_at (?cs ! j) \<le> t \<and>
        (stored_at (?cs ! j) = t \<longrightarrow> ce_data (?cs ! j) = Some d)"
    proof
      assume "k' = k \<and> j = s"
      then show ?thesis using at_s by (simp add: stored_entry_def)
    next
      assume jj: "j \<noteq> s \<and> holds cs k' j \<and> ?cs ! j = cs ! j"
      then show ?thesis using old[of k' j] tr unfolding tracks_def by (cases "k' = k") auto
    qed
  qed
  moreover have "latest_kept now ?cs ?lt"
    unfolding latest_kept_def
  proof (intro allI impI conjI)
    fix k' d t assume l: "?lt k' = Some (d, t)"
    show "t \<le> now" using l lk by (cases "k' = k") (auto simp: latest_kept_def)
    show "(\<exists>j. holds ?cs k' j \<and> stored_at (?cs ! j) = t) \<or> (\<forall>j. holds ?cs k' j \<longrightarrow> expired now (?cs ! j))"
    proof (cases "k' = k")
      case True
      then have "holds ?cs k' s \<and> stored_at (?cs ! s) = t"
        using l at_s s by (simp add: holds_def stored_entry_def)
      then show ?thesis by blast
    next
      case False
      then have "lt k' = Some (d, t)" using l by simp
      moreover have "holds cs k' j \<longleftrightarrow> holds ?cs k' j" "holds cs k' j \<Longrightarrow> ?cs ! j = cs ! j" for j
        using False slot at at_s by (cases "j = s"; auto simp: holds_def stored_entry_def)+
      ultimately show ?thesis using lk unfolding latest_kept_def by metis
    qed
  qed
  ultimately show ?thesis using len by (simp add: cache_inv_def)
qed

lemma cache_store_entry:
  assumes "length k < 512"
  shows "cache_store True now k data s st =
     (0, st\<lparr>cache := (cache st)[s := stored_entry now (cache_ttl st) k data]\<rparr>)"
proof -
  have "(cache st ! s)\<lparr>ce_data := Some data, ce_key := k, ce_len := int (length data),
      stored_at := now, ce_ttl := cache_ttl st, in_use := True\<rparr> = stored_entry now (cache_ttl st) k data"
    by (rule CacheEntry.equality) (simp_all add: stored_entry_def)
  with assms show ?thesis by (simp add: cache_store_def Let_def)
qed

lemma find_slot_first:
  assumes "find_slot cs k = Some s"
  obtains i where "i < 256" "s = probe_seq k ! i" "\<not> in_use (cs ! s) \<or> ce_key (cs ! s) = k"
    "\<And>j. j < i \<Longrightarrow> \<not> holds cs k (probe_seq k ! j)"
  using assms
proof (rule find_slot_SomeD)
  fix i assume "i < 256" "s = probe_seq k ! i" "slot_stops cs k s" "\<And>j. j < i \<Longrightarrow> \<not> slot_stops cs k (probe_seq k ! j)"
  then show thesis using that by (auto simp: slot_stops_def holds_def)
qed

lemma cache_inv_set:
  assumes inv: "cache_inv (cache_ttl st) before (cache st) lt" and ok: "op_ok before now (CSet k data clk)"
    and ex: "arws_cache_set (\<lambda>_. True) clk now k data st = (rc, st')"
  shows "cache_ttl st' = cache_ttl st \<and>
    cache_inv (cache_ttl st) now (cache st') (if rc = 0 then lt(k \<mapsto> (data, now)) else lt)"
proof -
  have len: "length (cache st) = 256" using inv by (simp add: cache_inv_def)
  have k: "length k < 512" and now: "before < now" using ok by simp_all
  note keep = cache_inv_later[OF inv order_less_imp_le[OF now]]
  have strict: "stored_at (cache st ! j) < now" if "holds (cache st) k' j" for k' j
    using inv that now unfolding cache_inv_def entries_ok_def by (meson order_le_less_trans)
  consider "data = [] \<or> cache_ttl st \<le> 0" | s where "data \<noteq> []" "\<not> cache_ttl st \<le> 0" "find_slot (cache st) k = Some s"
    | "data \<noteq> []" "\<not> cache_ttl st \<le> 0" "find_slot (cache st) k = None" by (cases "find_slot (cache st) k") auto
  then show ?thesis
  proof cases
    case 1
    then have "rc = -1" "st' = st" using ex by (auto simp: arws_cache_set_def split: if_splits)
    then show ?thesis using keep by simp
  next
    case 2
    then have "rc = 0" "st' = st\<lparr>cache := (cache st)[s := stored_entry now (cache_ttl st) k data]\<rparr>"
      using ex k by (simp_all add: arws_cache_set_def cache_store_entry)
    moreover obtain i where "i < 256" "s = probe_seq k ! i" "\<not> in_use (cache st ! s) \<or> ce_key (cache st ! s) = k"
      "\<And>j. j < i \<Longrightarrow> \<not> holds (cache st) k (probe_seq k ! j)" using find_slot_first[OF 2(3)] by metis
    ultimately show ?thesis using cache_inv_store[OF keep strict] by simp
  next
    case 3
    have full: "in_use (cache st ! j) \<and> ce_key (cache st ! j) \<noteq> k" if "j < 256" for j
      using find_slot_NoneD[OF 3(3) that] .
    then obtain s cs where ev: "evict_one clk (cache st) = Some (s, cs)"
      using evict_one_total[of 0 "cache st" clk] len by (metis surj_pair zero_less_numeral)
    note e = evict_oneD[OF ev]
    have res: "rc = 0" "st' = st\<lparr>cache := cs[s := stored_entry now (cache_ttl st) k data]\<rparr>"
      using ex k 3 ev cache_store_entry[OF k, of now data s "st\<lparr>cache := cs\<rparr>"]
      by (simp_all add: arws_cache_set_def)
    have s: "s < 256" using e(1) len by simp
    have st: "stored_at (cache st ! s) \<le> before"
      using inv full[OF s] s unfolding cache_inv_def entries_ok_def by (metis holds_def)
    have exp: "expired now (cache st ! s) \<or>
        (\<forall>j < 256. in_use (cache st ! j) \<longrightarrow> stored_at (cache st ! s) \<le> stored_at (cache st ! j))"
      using e(4)
    proof
      assume "expired (clk s) (cache st ! s)"
      then have "expired now (cache st ! s)" using st ok by (meson expired_later op_ok.simps(1) order_trans)
      then show ?thesis by blast
    qed (simp add: len)
    obtain i where i: "i < 256" "probe_seq k ! i = s" using probe_seq_surj[OF s] .
    have drop: "cache_inv (cache_ttl st) now cs lt"
    proof (rule cache_inv_drop[OF keep])
      show "length cs = 256" using e(3) len by simp
      show "cs ! j = cache st ! j" if "j < 256" "in_use (cs ! j)" for j
        using that e(3) len by (cases "j = s") simp_all
      show "expired now (cache st ! j) \<or>
          (\<forall>j' < 256. in_use (cache st ! j') \<longrightarrow> stored_at (cache st ! j) \<le> stored_at (cache st ! j'))"
        if "j < 256" "in_use (cache st ! j)" "\<not> in_use (cs ! j)" for j
        using that e(3) len exp by (cases "j = s") simp_all
    qed
    have sub: "holds (cache st) k' j \<and> cs ! j = cache st ! j" if "holds cs k' j" for k' j
      using that e(3) len by (cases "j = s") (auto simp: holds_def)
    then have "\<not> holds cs k j" for j using full by (auto simp: holds_def)
    moreover have "\<not> in_use (cs ! s)" using e(3) len s by simp
    moreover have "stored_at (cs ! j) < now" if "holds cs k' j" for k' j
      using sub[OF that] strict[of k' j] by simp
    ultimately have "cache_inv (cache_ttl st) now (cs[s := stored_entry now (cache_ttl st) k data])
        (lt(k \<mapsto> (data, now)))"
      using cache_inv_store[OF drop _ i(1) i(2)[symmetric]] by blast
    with res show ?thesis by simp
  qed
qed

lemma cache_get_cases:
  assumes "arws_cache_get mem now k st = res"
  obtains (miss) "res = Inr (st, None)"
  | (stale) s where "holds (cache st) k s" "expired now (cache st ! s)"
      "res = Inr (st\<lparr>cache := (cache st)[s := zero_entry]\<rparr>, None)"
  | (hit) s where "find_slot (cache st) k = Some s" "holds (cache st) k s" "\<not> expired now (cache st ! s)"
      "res = (case ce_data (cache st ! s) of None \<Rightarrow> Inl NullDeref
              | Some d \<Rightarrow> Inr (st, Some (take (nat (ce_len (cache st ! s))) d)))"
proof (cases "find_slot (cache st) k")
  case None
  then show ?thesis using assms miss by (simp add: arws_cache_get_def)
next
  case (Some s)
  from find_slot_first[OF Some] have h: "holds (cache st) k s" if "in_use (cache st ! s)"
    using that by (metis holds_def probe_seq_less)
  show ?thesis using assms Some miss stale[OF h] hit[OF Some h]
    by (auto simp: arws_cache_get_def Let_def split: if_splits)
qed

lemma cache_inv_get:
  assumes inv: "cache_inv T now (cache st) lt" and ex: "arws_cache_get mem now k st = Inr (st', r)"
  shows "cache_ttl st' = cache_ttl st \<and> cache_inv T now (cache st') lt"
proof -
  from ex show ?thesis
  proof (cases rule: cache_get_cases)
    case (stale s)
    have len: "length (cache st) = 256" using inv by (simp add: cache_inv_def)
    have "cache_inv T now ((cache st)[s := zero_entry]) lt"
    proof (rule cache_inv_drop[OF inv])
      show "(cache st)[s := zero_entry] ! j = cache st ! j" if "in_use ((cache st)[s := zero_entry] ! j)" "j < 256" for j
        using that len by (cases "j = s") simp_all
      show "expired now (cache st ! j) \<or> (\<forall>j' < 256. in_use (cache st ! j') \<longrightarrow> stored_at (cache st ! j) \<le> stored_at (cache st ! j'))"
        if "j < 256" "in_use (cache st ! j)" "\<not> in_use ((cache st)[s := zero_entry] ! j)" for j
        using that stale(2) len by (cases "j = s") simp_all
    qed (simp add: len)
    with stale(3) show ?thesis by simp
  qed (use inv in \<open>auto split: option.splits\<close>)
qed

lemma cache_inv_cleanup:
  assumes "cache_inv T now (cache st) lt"
  shows "cache_inv T now (cache (arws_cache_cleanup now st)) lt"
  by (rule cache_inv_drop[OF assms])
     (use assms in \<open>auto simp: arws_cache_cleanup_def cache_inv_def split: if_splits\<close>)

lemma cache_inv_empty:
  assumes "\<forall>k d t. lt k = Some (d, t) \<longrightarrow> t \<le> now"
  shows "cache_inv T now (replicate 256 zero_entry) lt"
proof -
  have "\<not> holds (replicate 256 zero_entry) k s" for k s
    by (cases "s < 256") (simp_all add: holds_def)
  then show ?thesis using assms
    by (simp add: cache_inv_def entries_ok_def age_ordered_def tracks_def latest_kept_def)
qed

lemma cache_history_inv:
  assumes "cache_history T now st lt"
  shows "0 < T \<and> cache_ttl st = T \<and> cache_inv T now (cache st) lt"
  using assms
proof (induction rule: cache_history.induct)
  case hist_init
  then show ?case by (simp add: arws_cache_init_def cache_inv_empty)
next
  case (hist_step before st lt now op st' lt')
  have lt: "before \<le> now" using hist_step(2) by (cases op) auto
  have inv: "cache_inv T now (cache st) lt" using hist_step.IH lt cache_inv_later by blast
  show ?case
  proof (cases op)
    case (CGet key mem)
    with hist_step.hyps hist_step.IH inv show ?thesis
      by (auto split: sum.splits dest: cache_inv_get)
  next
    case (CSet key data clk)
    with hist_step show ?thesis
      using cache_inv_set[of st before lt now key data clk] by (auto split: prod.splits)
  next
    case CClear
    have "\<forall>k d t. lt k = Some (d, t) \<longrightarrow> t \<le> now"
      using inv by (auto simp: cache_inv_def latest_kept_def)
    with CClear hist_step.hyps hist_step.IH show ?thesis
      by (auto simp: arws_cache_clear_def intro: cache_inv_empty)
  next
    case CCleanup
    with hist_step.hyps hist_step.IH cache_inv_cleanup[OF inv] show ?thesis
      by (auto simp: arws_cache_cleanup_def)
  qed
qed

lemma cache_inv_hit:
  assumes inv: "cache_inv T now cs lt" and slot: "find_slot cs k = Some s" "holds cs k s" and live: "\<not> expired now (cs ! s)"
  shows "lt k = Some (the (ce_data (cs ! s)), stored_at (cs ! s)) \<and> ce_data (cs ! s) \<noteq> None"
proof -
  have ok: "entries_ok T now cs" and ord: "age_ordered cs" and tr: "tracks cs lt" and lk: "latest_kept now cs lt"
    using inv by (simp_all add: cache_inv_def)
  obtain i where i: "i < 256" "s = probe_seq k ! i" "\<And>j. j < i \<Longrightarrow> \<not> holds cs k (probe_seq k ! j)"
    using find_slot_first[OF slot(1)] by metis
  from tr slot(2) obtain d t where l: "lt k = Some (d, t)" "stored_at (cs ! s) \<le> t"
      "stored_at (cs ! s) = t \<longrightarrow> ce_data (cs ! s) = Some d" unfolding tracks_def by blast
  from lk l(1) live slot(2) obtain s' where s': "holds cs k s'" "stored_at (cs ! s') = t"
    unfolding latest_kept_def by blast
  have "s' < 256" using s'(1) by (simp add: holds_def)
  then obtain j where j: "j < 256" "probe_seq k ! j = s'" using probe_seq_surj by blast
  have "j = i"
  proof (rule ccontr)
    assume "j \<noteq> i"
    then have "i < j" using i(3) j s'(1) by (metis nat_neq_iff)
    then have "stored_at (cs ! s') < stored_at (cs ! s)"
      using ord i(2) j slot(2) s'(1) unfolding age_ordered_def by blast
    with s'(2) l(2) show False by simp
  qed
  with j i s' l show ?thesis by simp
qed

section \<open>Properties: the cache\<close>


text \<open>What is stored is found. After a store that returned 0, a lookup of the same key
  within the time to live returns the stored data and leaves the table as it is, also when the
  store had to evict an entry to make room.\<close>

theorem cache_set_get:
  assumes "length (cache st) = 256" and "length key < 512"
    and "arws_cache_set mem clk t key data st = (0, st')"
    and "now - t \<le> word_of_int (cache_ttl st) * 1000" and "mem' (int (length data))"
  shows "arws_cache_get mem' now key st' = Inr (st', Some data)"
proof -
  from assms(3) obtain slot cs where cs: "length cs = 256"
      "cache_store (mem (int (length data))) t key data slot (st\<lparr>cache := cs\<rparr>) = (0, st')"
      "\<exists>i < 256. slot = probe_seq key ! i \<and> (\<forall>j < i. \<not> slot_stops (cs[slot := x]) key (probe_seq key ! j))" for x
  proof (cases "find_slot (cache st) key")
    case (Some s)
    with assms(3) have e: "cache_store (mem (int (length data))) t key data s (st\<lparr>cache := cache st\<rparr>) = (0, st')"
      by (auto simp: arws_cache_set_def split: if_splits)
    from Some obtain i where i: "i < 256" "s = probe_seq key ! i"
        "\<And>j. j < i \<Longrightarrow> \<not> slot_stops (cache st) key (probe_seq key ! j)" by (rule find_slot_SomeD) blast
    have "\<not> slot_stops ((cache st)[s := x]) key (probe_seq key ! j)" if "j < i" for j x
    proof -
      have "s \<noteq> probe_seq key ! j" using probe_seq_inj[of j i key] that i by auto
      then show ?thesis using i(3)[OF that] by (simp add: slot_stops_def)
    qed
    with e i assms(1) show ?thesis using that by blast
  next
    case None
    note full = find_slot_NoneD[OF None]
    from assms(3) None obtain s cs where ev: "evict_one clk (cache st) = Some (s, cs)"
      and e: "cache_store (mem (int (length data))) t key data s (st\<lparr>cache := cs\<rparr>) = (0, st')"
      by (auto simp: arws_cache_set_def split: if_splits option.splits)
    note ev' = evict_oneD[OF ev]
    obtain i where i: "i < 256" "probe_seq key ! i = s" using probe_seq_surj ev'(1) assms(1) by metis
    have "\<not> slot_stops (cs[s := x]) key (probe_seq key ! j)" if "j < i" for j x
    proof -
      have "s \<noteq> probe_seq key ! j" "probe_seq key ! j < 256" using probe_seq_inj[of j i key] that i by auto
      then show ?thesis using full[of "probe_seq key ! j"] ev'(3) by (simp add: slot_stops_def)
    qed
    with e i ev'(3) assms(1) show ?thesis using that by (metis length_list_update)
  qed
  have len: "slot < 256" using cs(3) probe_seq_less by blast
  from cs(2) assms(2) have st': "st' = st\<lparr>cache := cs[slot := stored_entry t (cache_ttl st) key data]\<rparr>"
    using cache_store_entry[OF assms(2), of t data slot "st\<lparr>cache := cs\<rparr>"]
    by (cases "mem (int (length data))") (auto simp: cache_store_def Let_def)
  have at: "cache st' ! slot = stored_entry t (cache_ttl st) key data" using st' cs(1) len by simp
  have "find_slot (cache st') key = Some slot"
  proof -
    from cs(3)[of "stored_entry t (cache_ttl st) key data"] obtain i where
      i: "i < 256" "slot = probe_seq key ! i" "\<forall>j < i. \<not> slot_stops (cache st') key (probe_seq key ! j)"
      using st' by auto
    moreover have "slot_stops (cache st') key (probe_seq key ! i)"
      using at i(2) by (simp add: slot_stops_def stored_entry_def)
    ultimately show ?thesis using find_slotI by blast
  qed
  with at assms(4,5) show ?thesis
    by (simp add: arws_cache_get_def Let_def stored_entry_def expired_def not_less)
qed

definition demo_cache :: cache_state where
  "demo_cache = arws_cache_init \<lparr>cache = [], cache_ttl = 60\<rparr>"

lemma demo_cache_simps [simp]:
  "length (cache demo_cache) = 256" "cache_ttl demo_cache = 60"
  "s < 256 \<Longrightarrow> \<not> in_use (cache demo_cache ! s)"
  by (simp_all add: demo_cache_def arws_cache_init_def zero_entry_def)

lemma find_slot_free_start:
  "\<not> in_use (cs ! (unat (cache_hash k) mod 256)) \<Longrightarrow> find_slot cs k = Some (unat (cache_hash k) mod 256)"
  using find_slotI[of 0 cs k] by (simp add: slot_stops_def nth_probe_seq)

lemma demo_cache_set:
  "\<exists>st'. arws_cache_set (\<lambda>_. True) clk t ''GET|h|/|'' ''ok'' demo_cache = (0, st')"
  by (simp add: arws_cache_set_def find_slot_free_start cache_store_def Let_def)

theorem cache_set_get_witness:
  "\<exists>st'. arws_cache_set (\<lambda>_. True) (\<lambda>_. 0) 1000 ''GET|h|/|'' ''ok'' demo_cache = (0, st') \<and>
     arws_cache_get (\<lambda>_. True) 2000 ''GET|h|/|'' st' = Inr (st', Some ''ok'')"
proof -
  obtain st' where "arws_cache_set (\<lambda>_. True) (\<lambda>_. 0) 1000 ''GET|h|/|'' ''ok'' demo_cache = (0, st')"
    using demo_cache_set by blast
  with cache_set_get[OF _ _ this, of 2000 "\<lambda>_. True"] show ?thesis by simp
qed


text \<open>A failed allocation leaves a dangling entry. When storing over an entry that is in use
  and the allocation of the new copy fails, the store returns \<open>-1\<close> but the entry stays in use
  with a NULL data pointer and its old length, and the next lookup before the entry expires
  copies from NULL.\<close>

theorem cache_alloc_failure_null:
  assumes "find_slot (cache st) key = Some s" and "s < length (cache st)" and "in_use (cache st ! s)"
    and "data \<noteq> []" and "0 < cache_ttl st" and "\<not> mem (int (length data))"
    and "\<not> expired now (cache st ! s)" and "mem' (ce_len (cache st ! s))"
  shows "\<exists>st'. arws_cache_set mem clk t key data st = (-1, st') \<and>
           arws_cache_get mem' now key st' = Inl NullDeref"
proof -
  let ?e = "(cache st ! s)\<lparr>ce_data := None\<rparr>"
  let ?st = "st\<lparr>cache := (cache st)[s := ?e]\<rparr>"
  have set: "arws_cache_set mem clk t key data st = (-1, ?st)"
    using assms by (simp add: arws_cache_set_def cache_store_def Let_def)
  have "slot_stops (cache ?st) key j = slot_stops (cache st) key j" for j
    using assms(2) by (cases "j = s") (simp_all add: slot_stops_def)
  then have "find_slot (cache ?st) key = Some s"
    using assms(1) by (simp add: find_slot_def cong: first_idx_cong)
  with set assms show ?thesis
    by (simp add: arws_cache_get_def Let_def expired_def)
qed

theorem cache_alloc_failure_null_witness:
  "\<exists>st' st2. arws_cache_set (\<lambda>_. True) (\<lambda>_. 0) 1000 ''GET|h|/|'' ''ok'' demo_cache = (0, st') \<and>
     arws_cache_set (\<lambda>_. False) (\<lambda>_. 0) 1500 ''GET|h|/|'' ''new'' st' = (-1, st2) \<and>
     arws_cache_get (\<lambda>_. True) 2000 ''GET|h|/|'' st2 = Inl NullDeref"
proof -
  let ?k = "''GET|h|/|''"
  let ?s = "unat (cache_hash ?k) mod 256"
  define st' where "st' = snd (arws_cache_set (\<lambda>_. True) (\<lambda>_. 0) 1000 ?k ''ok'' demo_cache)"
  have st': "st' = demo_cache\<lparr>cache := (cache demo_cache)[?s := stored_entry 1000 60 ?k ''ok'']\<rparr>"
    unfolding st'_def by (simp add: arws_cache_set_def find_slot_free_start cache_store_entry)
  then have e: "cache st' ! ?s = stored_entry 1000 60 ?k ''ok''" by simp
  then have "slot_stops (cache st') ?k (probe_seq ?k ! 0)"
    by (simp add: slot_stops_def nth_probe_seq stored_entry_def)
  then have "find_slot (cache st') ?k = Some ?s" using find_slotI[of 0 "cache st'" ?k] by (simp add: nth_probe_seq)
  moreover have "?s < length (cache st')" "0 < cache_ttl st'" by (simp_all add: st')
  ultimately obtain st2 where "arws_cache_set (\<lambda>_. False) (\<lambda>_. 0) 1500 ?k ''new'' st' = (-1, st2)"
      "arws_cache_get (\<lambda>_. True) 2000 ?k st2 = Inl NullDeref"
    using cache_alloc_failure_null[of st' ?k ?s "''new''" "\<lambda>_. False" 2000 "\<lambda>_. True" "\<lambda>_. 0" 1500] e
    by (auto simp: stored_entry_def expired_def)
  then show ?thesis using demo_cache_set[of "\<lambda>_. 0" 1000] st'_def by (metis snd_conv)
qed

text \<open>The shard mutexes do not protect the slots. Two keys of different shards, hence
  guarded by different mutexes, can have the same slot: with the first choice of one of them
  taken, two concurrent stores pick the same free slot and both write it.\<close>

theorem cache_shards_share_slots:
  shows "get_shard ''a'' \<noteq> get_shard ''b'' \<and>
         (let cs = (replicate 256 zero_entry)[6 := stored_entry 1 60 ''x'' ''data'']
          in find_slot cs ''a'' = find_slot cs ''b'' \<and> find_slot cs ''b'' = Some 7)"
proof -
  have ha: "unat (cache_hash ''a'') = 177670" and hb: "unat (cache_hash ''b'') = 177671"
    by (simp_all add: cache_hash_def arws_eval)
  let ?cs = "(replicate 256 zero_entry)[6 := stored_entry 1 60 ''x'' ''data'']"
  have "find_slot ?cs ''b'' = Some 7"
    using find_slotI[of 0 ?cs "''b''"] hb by (simp add: slot_stops_def nth_probe_seq)
  moreover have "find_slot ?cs ''a'' = Some 7"
    using find_slotI[of 1 ?cs "''a''"] ha by (simp add: slot_stops_def nth_probe_seq stored_entry_def)
  ultimately show ?thesis by (simp add: get_shard_def ha hb Let_def)
qed

end
