(* ===== verification/Ip_Table.thy ===== *)
theory Ip_Table
  imports Arws_Prelude
begin

text \<open>
  What the two rate limiters (\<open>src/src/arws_ratelimit.c\<close>, \<open>src/src/ratelimit.c\<close>) have in common:
  the scan of a fixed table for the entry of an address, the first empty slot and the oldest
  slot, and the fixed-window counter. The locale \<open>ip_limiter\<close> states what a limiter
  promises and proves from it that a window admits exactly the configured number of requests.
\<close>

section \<open>The scan and the counter\<close>

text \<open>The loop that looks for \<open>ip\<close>: it stops at the entry of the address, remembers the first
  empty slot and the leftmost slot with the smallest window start below \<open>oldest_time\<close>.\<close>

fun slot_scan ::
  "('e \<Rightarrow> string) \<Rightarrow> ('e \<Rightarrow> uint64) \<Rightarrow> string \<Rightarrow> nat \<Rightarrow> nat option \<Rightarrow> nat \<Rightarrow> uint64 \<Rightarrow> 'e list
    \<Rightarrow> nat option \<times> nat option \<times> nat" where
  "slot_scan ip_of win_of ip i empty_idx oldest_idx oldest_time [] = (None, empty_idx, oldest_idx)"
| "slot_scan ip_of win_of ip i empty_idx oldest_idx oldest_time (e # es) =
     (if ip_of e = []
      then slot_scan ip_of win_of ip (Suc i) (if empty_idx = None then Some i else empty_idx)
             oldest_idx oldest_time es
      else if ip_of e = ip then (Some i, empty_idx, oldest_idx)
      else if win_of e < oldest_time
      then slot_scan ip_of win_of ip (Suc i) empty_idx i (win_of e) es
      else slot_scan ip_of win_of ip (Suc i) empty_idx oldest_idx oldest_time es)"

text \<open>The slot used for \<open>ip\<close> and the table with the slot taken over when the address is new:
  an empty slot if there is one, else the oldest.\<close>

definition claim_slot ::
  "('e \<Rightarrow> string) \<Rightarrow> ('e \<Rightarrow> uint64) \<Rightarrow> (string \<Rightarrow> uint64 \<Rightarrow> 'e \<Rightarrow> 'e) \<Rightarrow> string \<Rightarrow> uint64 \<Rightarrow> 'e list
    \<Rightarrow> nat \<times> 'e list" where
  "claim_slot ip_of win_of fresh ip now es =
     (case slot_scan ip_of win_of ip 0 None 0 now es of
        (Some i, _, _) \<Rightarrow> (i, es)
      | (None, empty_idx, oldest_idx) \<Rightarrow>
          (let i = (case empty_idx of Some j \<Rightarrow> j | None \<Rightarrow> oldest_idx)
           in (i, es[i := fresh ip now (es ! i)])))"

text \<open>The fixed window: \<open>(allowed, count, window_start)\<close> after one more request.\<close>

definition window_bump :: "int \<Rightarrow> uint64 \<Rightarrow> uint64 \<Rightarrow> int \<times> uint64 \<Rightarrow> bool \<times> int \<times> uint64" where
  "window_bump max_req window now cw =
     (if now - snd cw \<ge> window then (True, 1, now)
      else (cinc32 (fst cw) \<le> max_req, cinc32 (fst cw), snd cw))"

text \<open>A sequence of requests.\<close>

fun run_checks :: "('r \<Rightarrow> 's \<Rightarrow> bool \<times> 's) \<Rightarrow> 'r list \<Rightarrow> 's \<Rightarrow> bool list \<times> 's" where
  "run_checks check [] s = ([], s)"
| "run_checks check (r # rs) s =
     (let (a, s') = check r s; (as, s'') = run_checks check rs s' in (a # as, s''))"

definition allowed_of :: "('r \<Rightarrow> 'k) \<Rightarrow> 'k \<Rightarrow> 'r list \<Rightarrow> bool list \<Rightarrow> nat" where
  "allowed_of key k rs as = length (filter (\<lambda>(r, a). key r = k \<and> a) (zip rs as))"

definition asked_of :: "('r \<Rightarrow> 'k) \<Rightarrow> 'k \<Rightarrow> 'r list \<Rightarrow> nat" where
  "asked_of key k rs = length (filter (\<lambda>r. key r = k) rs)"

section \<open>Tables of addresses\<close>

definition ips_distinct :: "('e \<Rightarrow> string) \<Rightarrow> 'e list \<Rightarrow> bool" where
  "ips_distinct ip_of es \<longleftrightarrow> (\<forall>i < length es. \<forall>j < length es.
     ip_of (es ! i) = ip_of (es ! j) \<and> ip_of (es ! i) \<noteq> [] \<longrightarrow> i = j)"

definition empties :: "('e \<Rightarrow> string) \<Rightarrow> 'e list \<Rightarrow> nat" where
  "empties ip_of es = length (filter (\<lambda>e. ip_of e = []) es)"

text \<open>The entry of an address.\<close>

definition entry_of :: "('e \<Rightarrow> string) \<Rightarrow> string \<Rightarrow> 'e list \<Rightarrow> 'e option" where
  "entry_of ip_of ip es = map_option ((!) es) (first_idx (\<lambda>e. ip_of e = ip) es)"

lemma map_option_shift [simp]:
  "map_option ((+) (Suc i)) x = map_option (\<lambda>j. Suc (i + j)) x"
  "map_option ((+) (0::nat)) x = x"
  by (cases x; simp)+

lemma slot_scan_spec:
  assumes "ip \<noteq> []"
  shows "fst (slot_scan ip_of win_of ip i em oi ot es) =
    map_option (\<lambda>j. i + j) (first_idx (\<lambda>e. ip_of e = ip) es)"
  using assms
  by (induction es arbitrary: i em oi ot) (auto simp: option.map_comp comp_def)

lemma slot_scan_empty:
  assumes "ip \<noteq> []" "first_idx (\<lambda>e. ip_of e = ip) es = None"
  shows "fst (snd (slot_scan ip_of win_of ip i em oi ot es)) =
    (case em of Some j \<Rightarrow> Some j | None \<Rightarrow> map_option (\<lambda>j. i + j) (first_idx (\<lambda>e. ip_of e = []) es))"
  using assms(2)
proof (induction es arbitrary: i em oi ot)
  case Nil
  then show ?case by (simp split: option.split)
next
  case (Cons e es)
  then have n: "ip_of e \<noteq> ip" "first_idx (\<lambda>e. ip_of e = ip) es = None"
    by (auto split: if_splits)
  show ?case using Cons.IH[OF n(2)] n(1) assms(1)
    by (auto simp: option.map_comp comp_def split: option.splits)
qed

lemma slot_scan_oldest_less:
  "oi < i + length es \<Longrightarrow> snd (snd (slot_scan ip_of win_of ip i em oi ot es)) < i + length es"
proof (induction es arbitrary: i em oi ot)
  case (Cons e es)
  show ?case using Cons.IH[of _ "Suc i"] Cons.prems by (simp split: if_split)
qed simp

text \<open>A fresh entry carries the address; the rest of the interface follows.\<close>

locale ip_table =
  fixes ip_of :: "'e \<Rightarrow> string" and win_of :: "'e \<Rightarrow> uint64" and fresh :: "string \<Rightarrow> uint64 \<Rightarrow> 'e \<Rightarrow> 'e"
  assumes fresh_ip: "length ip < 64 \<Longrightarrow> ip_of (fresh ip now e) = ip"
begin

lemma claim_known:
  assumes "ip \<noteq> []" "first_idx (\<lambda>e. ip_of e = ip) es = Some i"
  shows "claim_slot ip_of win_of fresh ip now es = (i, es)"
  using assms slot_scan_spec[OF assms(1), of ip_of win_of 0 None 0 now es]
  by (cases "slot_scan ip_of win_of ip 0 None 0 now es") (simp add: claim_slot_def option.map_ident)

lemma claim_new:
  assumes "ip \<noteq> []" "first_idx (\<lambda>e. ip_of e = ip) es = None" "first_idx (\<lambda>e. ip_of e = []) es = Some i"
  shows "claim_slot ip_of win_of fresh ip now es = (i, es[i := fresh ip now (es ! i)])"
  using slot_scan_spec[OF assms(1), of ip_of win_of 0 None 0 now es]
    slot_scan_empty[OF assms(1,2), of win_of 0 None 0 now] assms
  by (cases "slot_scan ip_of win_of ip 0 None 0 now es") (auto simp: claim_slot_def option.map_ident)

lemma claim_evict:
  assumes "ip \<noteq> []" "first_idx (\<lambda>e. ip_of e = ip) es = None" "first_idx (\<lambda>e. ip_of e = []) es = None" "es \<noteq> []"
  obtains i where "i < length es" "claim_slot ip_of win_of fresh ip now es = (i, es[i := fresh ip now (es ! i)])"
proof -
  have "snd (snd (slot_scan ip_of win_of ip 0 None 0 now es)) < 0 + length es"
    using slot_scan_oldest_less[of 0 0 es] assms(4) by simp
  then show ?thesis
    using slot_scan_spec[OF assms(1), of ip_of win_of 0 None 0 now es]
      slot_scan_empty[OF assms(1,2), of win_of 0 None 0 now] assms(2,3) that
    by (cases "slot_scan ip_of win_of ip 0 None 0 now es") (auto simp: claim_slot_def option.map_ident)
qed

text \<open>Whatever the table, the claimed slot is in range, belongs to the address, and no other
  slot changes.\<close>

lemma claim_spec:
  assumes "ip \<noteq> []" "length ip < 64" "es \<noteq> []" "claim_slot ip_of win_of fresh ip now es = (i, es')"
  shows "i < length es" "length es' = length es" "ip_of (es' ! i) = ip" "\<And>j. j \<noteq> i \<Longrightarrow> es' ! j = es ! j"
    "ips_distinct ip_of es \<Longrightarrow> ips_distinct ip_of es'"
proof -
  have "i < length es \<and> length es' = length es \<and> ip_of (es' ! i) = ip \<and> (\<forall>j. j \<noteq> i \<longrightarrow> es' ! j = es ! j) \<and>
    (es' = es \<or> first_idx (\<lambda>e. ip_of e = ip) es = None)"
  proof (cases "first_idx (\<lambda>e. ip_of e = ip) es")
    case (Some k)
    with claim_known[OF assms(1) Some] assms(4) show ?thesis by (auto dest: first_idx_SomeD)
  next
    case None
    show ?thesis
    proof (cases "first_idx (\<lambda>e. ip_of e = []) es")
      case (Some k)
      with claim_new[OF assms(1) None Some] assms(2,4) None show ?thesis
        by (auto simp: fresh_ip dest: first_idx_SomeD)
    next
      case n: None
      from claim_evict[OF assms(1) None n assms(3)] obtain k where
        "k < length es" "claim_slot ip_of win_of fresh ip now es = (k, es[k := fresh ip now (es ! k)])" .
      with assms(2,4) None show ?thesis by (auto simp: fresh_ip)
    qed
  qed
  note r = this
  then show i: "i < length es" and l: "length es' = length es" and own: "ip_of (es' ! i) = ip"
    and oth: "\<And>j. j \<noteq> i \<Longrightarrow> es' ! j = es ! j" by blast+
  show "ips_distinct ip_of es'" if d: "ips_distinct ip_of es"
  proof (cases "es' = es")
    case False
    with r have "\<forall>j < length es. ip_of (es ! j) \<noteq> ip" by (auto simp: first_idx_None_iff)
    then have "a = b" if "a < length es'" "b < length es'" "ip_of (es' ! a) = ip_of (es' ! b)" "ip_of (es' ! a) \<noteq> []" for a b
      using that d l own oth unfolding ips_distinct_def by (cases "a = i"; cases "b = i") auto
    then show ?thesis unfolding ips_distinct_def by blast
  qed (use d in simp)
qed

end

lemma entry_of_claimed:
  assumes "ips_distinct ip_of es" "i < length es" "ip_of (es ! i) = ip" "ip \<noteq> []"
  shows "first_idx (\<lambda>e. ip_of e = ip) es = Some i" "entry_of ip_of ip es = Some (es ! i)"
proof -
  show "first_idx (\<lambda>e. ip_of e = ip) es = Some i"
    using assms by (intro first_idx_unique) (auto simp: ips_distinct_def)
  then show "entry_of ip_of ip es = Some (es ! i)" by (simp add: entry_of_def)
qed

lemma entry_of_SomeD:
  assumes "entry_of ip_of ip es = Some e"
  obtains i where "i < length es" "es ! i = e" "ip_of e = ip" "first_idx (\<lambda>e. ip_of e = ip) es = Some i"
  using assms by (auto simp: entry_of_def dest: first_idx_SomeD)

lemma entry_of_None_iff: "entry_of ip_of ip es = None \<longleftrightarrow> (\<forall>e \<in> set es. ip_of e \<noteq> ip)"
  by (simp add: entry_of_def first_idx_None_iff)

lemma empties_pos:
  assumes "0 < empties ip_of es"
  obtains i where "first_idx (\<lambda>e. ip_of e = []) es = Some i"
proof (cases "first_idx (\<lambda>e. ip_of e = []) es")
  case None
  then have "filter (\<lambda>e. ip_of e = []) es = []" by (simp add: first_idx_None_iff filter_empty_conv)
  with assms show ?thesis by (simp add: empties_def)
qed (use that in blast)

lemma empties_update: "empties ip_of es \<le> Suc (empties ip_of (es[i := e]))"
proof (cases "i < length es")
  case True
  let ?E = "\<lambda>xs :: 'a list. {j. j < length xs \<and> ip_of (xs ! j) = []}"
  have "?E es \<subseteq> insert i (?E (es[i := e]))" by (auto simp: nth_list_update)
  then have "card (?E es) \<le> card (insert i (?E (es[i := e])))" by (intro card_mono) simp_all
  also have "\<dots> \<le> Suc (card (?E (es[i := e])))" by (rule card_insert_le_m1) simp_all
  finally show ?thesis by (simp add: empties_def length_filter_conv_card)
next
  case False
  then show ?thesis by (simp add: list_update_beyond)
qed

lemma first_idx_pointwise:
  assumes "length xs = length ys" "\<And>j. j < length xs \<Longrightarrow> P (xs ! j) = Q (ys ! j)"
  shows "first_idx P xs = first_idx Q ys"
proof (cases "first_idx P xs")
  case None
  then have "first_idx Q ys = None" using assms by (metis first_idx_None_iff in_set_conv_nth)
  with None show ?thesis by simp
next
  case (Some i)
  then have "first_idx Q ys = Some i" using assms by (auto simp: first_idx_Some_iff)
  with Some show ?thesis by simp
qed

lemma entry_of_other:
  assumes "length es' = length es" "\<And>j. j \<noteq> i \<Longrightarrow> es' ! j = es ! j" "ip_of (es ! i) \<noteq> k" "ip_of (es' ! i) \<noteq> k"
  shows "entry_of ip_of k es' = entry_of ip_of k es"
proof -
  have "first_idx (\<lambda>e. ip_of e = k) es' = first_idx (\<lambda>e. ip_of e = k) es"
  proof (rule first_idx_pointwise)
    show "(ip_of (es' ! j) = k) = (ip_of (es ! j) = k)" for j using assms(2-4) by (cases "j = i") auto
  qed (rule assms(1))
  moreover have "es' ! j = es ! j" if "first_idx (\<lambda>e. ip_of e = k) es = Some j" for j
    using first_idx_SomeD(2)[OF that] assms(2,3) by metis
  ultimately show ?thesis unfolding entry_of_def by (cases "first_idx (\<lambda>e. ip_of e = k) es") auto
qed

text \<open>Changing the entry of an address without touching the address.\<close>

lemma entry_update:
  assumes d: "ips_distinct ip_of es" and i: "i < length es" "ip_of (es ! i) = ip" "ip \<noteq> []" and e: "ip_of e = ip"
  shows "ips_distinct ip_of (es[i := e])" "empties ip_of (es[i := e]) = empties ip_of es"
    "entry_of ip_of ip (es[i := e]) = Some e" "\<And>k. k \<noteq> ip \<Longrightarrow> entry_of ip_of k (es[i := e]) = entry_of ip_of k es"
proof -
  have same: "ip_of (es[i := e] ! j) = ip_of (es ! j)" for j
    using i e by (cases "j = i") auto
  show d': "ips_distinct ip_of (es[i := e])" using d by (simp add: ips_distinct_def same)
  have "map ip_of (es[i := e]) = map ip_of es" using same by (auto intro: nth_equalityI)
  moreover have "empties ip_of xs = length (filter (\<lambda>s. s = []) (map ip_of xs))" for xs
    by (simp add: empties_def filter_map comp_def)
  ultimately show "empties ip_of (es[i := e]) = empties ip_of es" by metis
  show "entry_of ip_of ip (es[i := e]) = Some e"
    using entry_of_claimed(2)[OF d', of i ip] i e by simp
  show "entry_of ip_of k (es[i := e]) = entry_of ip_of k es" if "k \<noteq> ip" for k
    by (rule entry_of_other[of _ _ i]) (use i e that in auto)
qed

context ip_table
begin

text \<open>With an empty slot left, claiming a slot keeps every other entry.\<close>

lemma claim_room:
  assumes "ips_distinct ip_of es" "ip \<noteq> []" "length ip < 64" "Suc n \<le> empties ip_of es"
    and cl: "claim_slot ip_of win_of fresh ip now es = (i, es')"
  shows "i < length es'" "ip_of (es' ! i) = ip" "ips_distinct ip_of es'" "n \<le> empties ip_of es'"
    "\<And>k. k \<noteq> ip \<Longrightarrow> k \<noteq> [] \<Longrightarrow> entry_of ip_of k es' = entry_of ip_of k es"
    "case entry_of ip_of ip es of Some e \<Rightarrow> es' ! i = e | None \<Rightarrow> \<exists>e0. es' ! i = fresh ip now e0"
proof -
  have ne: "es \<noteq> []" using assms(4) by (auto simp: empties_def)
  note c = claim_spec[OF assms(2,3) ne cl]
  show "i < length es'" "ip_of (es' ! i) = ip" "ips_distinct ip_of es'" using c assms(1) by simp_all
  have "n \<le> empties ip_of es' \<and> (\<forall>k. k \<noteq> ip \<longrightarrow> k \<noteq> [] \<longrightarrow> entry_of ip_of k es' = entry_of ip_of k es) \<and>
    (case entry_of ip_of ip es of Some e \<Rightarrow> es' ! i = e | None \<Rightarrow> \<exists>e0. es' ! i = fresh ip now e0)"
  proof (cases "first_idx (\<lambda>e. ip_of e = ip) es")
    case (Some j)
    with claim_known[OF assms(2) Some] cl assms(4) show ?thesis by (auto simp: entry_of_def)
  next
    case None
    obtain j where j: "first_idx (\<lambda>e. ip_of e = []) es = Some j"
      using empties_pos[of ip_of es] assms(4) by auto
    with claim_new[OF assms(2) None j] cl have r: "i = j" "es' = es[i := fresh ip now (es ! i)]" by auto
    have "n \<le> empties ip_of es'" using empties_update[of ip_of es i] assms(4) unfolding r(2) by (meson Suc_le_mono order_trans)
    moreover have "entry_of ip_of k es' = entry_of ip_of k es" if "k \<noteq> ip" "k \<noteq> []" for k
      by (rule entry_of_other[of _ _ i]) (use c that first_idx_SomeD(2)[OF j] r(1) in auto)
    ultimately show ?thesis using None c(1) by (auto simp: entry_of_def r(2))
  qed
  then show "n \<le> empties ip_of es'"
    "\<And>k. k \<noteq> ip \<Longrightarrow> k \<noteq> [] \<Longrightarrow> entry_of ip_of k es' = entry_of ip_of k es"
    "case entry_of ip_of ip es of Some e \<Rightarrow> es' ! i = e | None \<Rightarrow> \<exists>e0. es' ! i = fresh ip now e0" by blast+
qed

end

lemma allowed_of_simps [simp]:
  "allowed_of key k [] as = 0"
  "allowed_of key k (r # rs) (a # as) = (if key r = k \<and> a then 1 else 0) + allowed_of key k rs as"
  by (simp_all add: allowed_of_def)

lemma asked_of_simps [simp]:
  "asked_of key k [] = 0"
  "asked_of key k (r # rs) = (if key r = k then 1 else 0) + asked_of key k rs"
  by (simp_all add: asked_of_def)

section \<open>The contract of a limiter\<close>

text \<open>\<open>room n s\<close>: the table takes \<open>n\<close> further requests without giving up an entry. \<open>barred k s\<close>:
  requests of \<open>k\<close> are refused whatever the counter.\<close>

locale ip_limiter =
  fixes check :: "'r \<Rightarrow> 's \<Rightarrow> bool \<times> 's" and key :: "'r \<Rightarrow> 'k"
    and counter :: "'k \<Rightarrow> 's \<Rightarrow> (int \<times> uint64) option" and barred :: "'k \<Rightarrow> 's \<Rightarrow> bool"
    and limit :: "'r \<Rightarrow> 's \<Rightarrow> int \<times> uint64" and time_of :: "'r \<Rightarrow> uint64"
    and room :: "nat \<Rightarrow> 's \<Rightarrow> bool" and ok :: "'r \<Rightarrow> bool"
  assumes own: "room (Suc n) s \<Longrightarrow> ok r \<Longrightarrow> \<not> barred (key r) s \<Longrightarrow> check r s = (a, s') \<Longrightarrow>
      \<exists>cw'. window_bump (fst (limit r s)) (snd (limit r s)) (time_of r)
              (case counter (key r) s of Some cw \<Rightarrow> cw | None \<Rightarrow> (0, time_of r)) = (a, cw') \<and>
            counter (key r) s' = Some cw'"
    and other: "room (Suc n) s \<Longrightarrow> ok r \<Longrightarrow> k \<noteq> key r \<Longrightarrow> counter k s = Some cw \<Longrightarrow> \<not> barred k s
      \<Longrightarrow> check r s = (a, s') \<Longrightarrow> counter k s' = Some cw"
    and not_barred: "room (Suc n) s \<Longrightarrow> ok r \<Longrightarrow> \<not> barred k s \<Longrightarrow> check r s = (a, s') \<Longrightarrow> \<not> barred k s'"
    and room_step: "room (Suc n) s \<Longrightarrow> ok r \<Longrightarrow> check r s = (a, s') \<Longrightarrow> room n s'"
    and limit_const: "check r s = (a, s') \<Longrightarrow> limit r' s' = limit r' s"
begin

text \<open>Within a window that has counted \<open>c\<close> requests, exactly the next \<open>m - c\<close> are allowed,
  whatever requests with other keys come between.\<close>

lemma window_exact:
  assumes "room (length rs) s" "\<forall>r \<in> set rs. ok r"
    and "\<forall>r \<in> set rs. key r = k \<longrightarrow> limit r s = (m, win) \<and> time_of r - w < win"
    and "counter k s = Some (c, w)" "\<not> barred k s" "0 \<le> c" "c + int (length rs) < 2 ^ 31"
    and "run_checks check rs s = (as, s')"
  shows "allowed_of key k rs as = min (asked_of key k rs) (nat (m - c))"
  using assms
proof (induction rs arbitrary: s c as)
  case Nil
  then show ?case by simp
next
  case (Cons r rs)
  obtain a s1 as1 where st: "check r s = (a, s1)" "run_checks check rs s1 = (as1, s')" "as = a # as1"
    using Cons.prems(8) by (auto split: prod.splits)
  have rm: "room (Suc (length rs)) s" and okr: "ok r" using Cons.prems(1,2) by simp_all
  note nb = not_barred[OF rm okr Cons.prems(5) st(1)]
  note rm1 = room_step[OF rm okr st(1)]
  have lim: "\<forall>r \<in> set rs. key r = k \<longrightarrow> limit r s1 = (m, win) \<and> time_of r - w < win"
    using Cons.prems(3) limit_const[OF st(1)] by simp
  show ?case
  proof (cases "key r = k")
    case True
    have "\<not> win \<le> time_of r - w" and l: "limit r s = (m, win)" using Cons.prems(3) True by auto
    moreover have "cinc32 c = c + 1" using Cons.prems(6,7) by simp
    ultimately have b: "a = (c + 1 \<le> m)" "counter k s1 = Some (c + 1, w)"
      using own[OF rm okr _ st(1)] Cons.prems(4,5) True by (auto simp: window_bump_def)
    from Cons.IH[OF rm1 _ lim b(2) nb _ _ st(2)] Cons.prems(2,6,7)
    have "allowed_of key k rs as1 = min (asked_of key k rs) (nat (m - (c + 1)))" by simp
    moreover have "(if c + 1 \<le> m then 1 else 0) + min n (nat (m - (c + 1))) = min (1 + n) (nat (m - c))" for n
      by (auto simp: min_def)
    ultimately show ?thesis using True b(1) unfolding st(3) by simp
  next
    case False
    have "counter k s1 = Some (c, w)" using other[OF rm okr _ Cons.prems(4,5) st(1)] False by simp
    from Cons.IH[OF rm1 _ lim this nb Cons.prems(6) _ st(2)] Cons.prems(2,7)
    have "allowed_of key k rs as1 = min (asked_of key k rs) (nat (m - c))" by simp
    with False show ?thesis unfolding st(3) by simp
  qed
qed

text \<open>From the first request of an unknown key on, a window admits exactly \<open>m\<close> requests.\<close>

lemma fresh_window_exact:
  assumes "room (Suc (length rs)) s" "ok r" "key r = k" "\<forall>r \<in> set rs. ok r"
    and "limit r s = (m, win)" "0 < win" "0 \<le> m"
    and "\<forall>r' \<in> set rs. key r' = k \<longrightarrow> limit r' s = (m, win) \<and> time_of r' - time_of r < win"
    and "counter k s = None" "\<not> barred k s" "int (length rs) + 1 < 2 ^ 31"
    and "run_checks check (r # rs) s = (as, s')"
  shows "allowed_of key k (r # rs) as = min (Suc (asked_of key k rs)) (nat m)"
proof -
  obtain a s1 as1 where st: "check r s = (a, s1)" "run_checks check rs s1 = (as1, s')" "as = a # as1"
    using assms(12) by (auto split: prod.splits)
  have b: "a = (1 \<le> m)" "counter k s1 = Some (1, time_of r)"
    using own[OF assms(1,2) _ st(1)] assms(3,5,6,9,10) by (auto simp: window_bump_def not_le word_gt_0)
  have lim: "\<forall>r' \<in> set rs. key r' = k \<longrightarrow> limit r' s1 = (m, win) \<and> time_of r' - time_of r < win"
    using assms(8) limit_const[OF st(1)] by simp
  from window_exact[OF room_step[OF assms(1,2) st(1)] assms(4) lim b(2) not_barred[OF assms(1,2,10) st(1)] _ _ st(2)] assms(11)
  have "allowed_of key k rs as1 = min (asked_of key k rs) (nat (m - 1))" by simp
  moreover have "(if 1 \<le> m then 1 else 0) + min n (nat (m - 1)) = min (Suc n) (nat m)" for n
    using assms(7) by (auto simp: min_def)
  ultimately show ?thesis using b(1) assms(3) unfolding st(3) by simp
qed

end

end
