(* ===== verification/Rate_Limit.thy ===== *)
theory Rate_Limit
  imports Ip_Table
begin

text \<open>
  The gateway's rate limiter, \<open>src/src/arws_ratelimit.c\<close>, and the older limiter of the manager,
  \<open>src/src/ratelimit.c\<close>. Both keep a fixed table with one entry per client address. Every call
  of \<open>ar_time_ms\<close> is a parameter; \<open>arws_ratelimit_check\<close> reads the clock twice, once for the
  block list and once for the counter. The request counters are C ints and wrap.
\<close>

section \<open>The gateway's limiter\<close>

record RlEntry =
  rl_ip :: string
  rl_count :: int
  window_start :: uint64
  blocked :: bool
  blocked_until :: uint64

record RlRule =
  rule_host :: string
  path_pattern :: string
  max_requests :: int
  window_seconds :: int

record rl_state =
  rl_entries :: "RlEntry list"
  rl_rules :: "RlRule list"

abbreviation (input) ARWS_RL_MAX_IPS :: nat where "ARWS_RL_MAX_IPS \<equiv> 2000"
abbreviation (input) ARWS_RL_MAX_RULES :: nat where "ARWS_RL_MAX_RULES \<equiv> 64"
abbreviation (input) ARWS_RL_DEFAULT_MAX :: int where "ARWS_RL_DEFAULT_MAX \<equiv> 5000"
abbreviation (input) ARWS_RL_DEFAULT_WINDOW :: int where "ARWS_RL_DEFAULT_WINDOW \<equiv> 60"

definition zero_rl_entry :: RlEntry where
  "zero_rl_entry = \<lparr>rl_ip = [], rl_count = 0, window_start = 0, blocked = False, blocked_until = 0\<rparr>"

definition arws_ratelimit_init :: "rl_state \<Rightarrow> rl_state" where
  "arws_ratelimit_init st = \<lparr>rl_entries = replicate ARWS_RL_MAX_IPS zero_rl_entry, rl_rules = []\<rparr>"

definition rule_named :: "string \<Rightarrow> string \<Rightarrow> RlRule \<Rightarrow> bool" where
  "rule_named h pat r \<longleftrightarrow> rule_host r = h \<and> path_pattern r = pat"

definition arws_ratelimit_set_rule ::
  "string option \<Rightarrow> string \<Rightarrow> int \<Rightarrow> int \<Rightarrow> rl_state \<Rightarrow> rl_state" where
  "arws_ratelimit_set_rule host pat max_req window_sec st =
     (let h = (case host of Some s \<Rightarrow> s | None \<Rightarrow> ''*'') in
      case first_idx (rule_named h pat) (rl_rules st) of
        Some i \<Rightarrow> st\<lparr>rl_rules := (rl_rules st)[i := (rl_rules st ! i)
                     \<lparr>max_requests := max_req, window_seconds := window_sec\<rparr>]\<rparr>
      | None \<Rightarrow>
          if length (rl_rules st) \<ge> ARWS_RL_MAX_RULES then st
          else st\<lparr>rl_rules := rl_rules st @
                  [\<lparr>rule_host = buf_copy 256 h, path_pattern = buf_copy 128 pat,
                    max_requests = max_req, window_seconds = window_sec\<rparr>]\<rparr>)"

definition path_matches :: "string \<Rightarrow> string \<Rightarrow> bool" where
  "path_matches pattern path =
     (let plen = length pattern in
      if plen = 0 \<or> pattern = ''*'' then True
      else let plen' = (if plen \<ge> 2 \<and> pattern ! (plen - 2) = CHR ''/'' \<and> pattern ! (plen - 1) = CHR ''*''
                        then plen - 2 else plen)
           in if plen' = 0 then True else strneq pattern path plen')"

definition rule_matches :: "RlRule \<Rightarrow> string option \<Rightarrow> string \<Rightarrow> bool" where
  "rule_matches r host path =
     (if rule_host r \<noteq> [] \<and> rule_host r \<noteq> ''*'' \<and> host \<noteq> Some (rule_host r) then False
      else path_matches (path_pattern r) path)"

definition rl_limits :: "RlRule list \<Rightarrow> string option \<Rightarrow> string \<Rightarrow> int \<times> int" where
  "rl_limits rules host path =
     (case first_idx (\<lambda>r. rule_matches r host path) rules of
        Some i \<Rightarrow> (max_requests (rules ! i), window_seconds (rules ! i))
      | None \<Rightarrow> (ARWS_RL_DEFAULT_MAX, ARWS_RL_DEFAULT_WINDOW))"

definition rl_entry_named :: "string \<Rightarrow> RlEntry \<Rightarrow> bool" where
  "rl_entry_named ip e \<longleftrightarrow> rl_ip e \<noteq> [] \<and> rl_ip e = ip"

definition arws_ratelimit_is_blocked :: "uint64 \<Rightarrow> string \<Rightarrow> rl_state \<Rightarrow> bool \<times> rl_state" where
  "arws_ratelimit_is_blocked time_ms ip st =
     (let now = time_ms div 1000 in
      case first_idx (rl_entry_named ip) (rl_entries st) of
        None \<Rightarrow> (False, st)
      | Some i \<Rightarrow>
          (let e = rl_entries st ! i in
           if \<not> blocked e then (False, st)
           else if now \<ge> blocked_until e
           then (False, st\<lparr>rl_entries := (rl_entries st)[i := e\<lparr>blocked := False, rl_count := 0\<rparr>]\<rparr>)
           else (True, st)))"

definition rl_fresh :: "string \<Rightarrow> uint64 \<Rightarrow> RlEntry \<Rightarrow> RlEntry" where
  "rl_fresh ip now e = e\<lparr>rl_ip := buf_copy 64 ip, rl_count := 0, window_start := now,
                         blocked := False, blocked_until := 0\<rparr>"

definition rl_count_request :: "uint64 \<Rightarrow> string \<Rightarrow> string option \<Rightarrow> string \<Rightarrow> rl_state \<Rightarrow> bool \<times> rl_state" where
  "rl_count_request now ip host path st =
     (let (i, es) = claim_slot rl_ip window_start rl_fresh ip now (rl_entries st);
          (max_req, window) = rl_limits (rl_rules st) host path;
          (ok, c, w) = window_bump max_req (word_of_int window) now
                         (rl_count (es ! i), window_start (es ! i))
      in (ok, st\<lparr>rl_entries := es[i := (es ! i)\<lparr>rl_count := c, window_start := w\<rparr>]\<rparr>))"

definition arws_ratelimit_check ::
  "uint64 \<Rightarrow> uint64 \<Rightarrow> string \<Rightarrow> string option \<Rightarrow> string \<Rightarrow> rl_state \<Rightarrow> bool \<times> rl_state" where
  "arws_ratelimit_check time1_ms time2_ms ip host path st =
     (case arws_ratelimit_is_blocked time1_ms ip st of
        (True, st1) \<Rightarrow> (False, st1)
      | (False, st1) \<Rightarrow> rl_count_request (time2_ms div 1000) ip host path st1)"

definition arws_ratelimit_check_ip :: "uint64 \<Rightarrow> uint64 \<Rightarrow> string \<Rightarrow> rl_state \<Rightarrow> bool \<times> rl_state" where
  "arws_ratelimit_check_ip time1_ms time2_ms ip st = arws_ratelimit_check time1_ms time2_ms ip None ''/'' st"

definition arws_ratelimit_block_ip :: "uint64 \<Rightarrow> string \<Rightarrow> int \<Rightarrow> rl_state \<Rightarrow> rl_state" where
  "arws_ratelimit_block_ip time_ms ip seconds st =
     (let now = time_ms div 1000; es = rl_entries st in
      case first_idx (rl_entry_named ip) es of
        Some i \<Rightarrow> st\<lparr>rl_entries := es[i := (es ! i)\<lparr>blocked := True,
                    blocked_until := now + word_of_int seconds\<rparr>]\<rparr>
      | None \<Rightarrow>
          (case first_idx (\<lambda>e. rl_ip e = []) es of
             Some i \<Rightarrow> st\<lparr>rl_entries := es[i := (es ! i)\<lparr>rl_ip := buf_copy 64 ip, blocked := True,
                         blocked_until := now + word_of_int seconds, rl_count := 0,
                         window_start := now\<rparr>]\<rparr>
           | None \<Rightarrow> st))"

section \<open>The manager's limiter\<close>

record RateLimitEntry =
  rt_ip :: string
  login_count :: int
  login_window :: uint64
  general_count :: int
  general_window :: uint64

abbreviation (input) MAX_IPS :: nat where "MAX_IPS \<equiv> 1000"

definition zero_rt_entry :: RateLimitEntry where
  "zero_rt_entry = \<lparr>rt_ip = [], login_count = 0, login_window = 0, general_count = 0, general_window = 0\<rparr>"

definition ratelimit_init :: "RateLimitEntry list" where
  "ratelimit_init = replicate MAX_IPS zero_rt_entry"

definition rt_fresh :: "string \<Rightarrow> uint64 \<Rightarrow> RateLimitEntry \<Rightarrow> RateLimitEntry" where
  "rt_fresh ip now e = e\<lparr>rt_ip := buf_copy 64 ip, login_count := 0, login_window := now,
                         general_count := 0, general_window := now\<rparr>"

definition is_login :: "string \<Rightarrow> bool" where
  "is_login path \<longleftrightarrow> strneq path ''/manager/api/login'' 18"

definition ratelimit_check ::
  "uint64 \<Rightarrow> string \<Rightarrow> string \<Rightarrow> RateLimitEntry list \<Rightarrow> bool \<times> RateLimitEntry list" where
  "ratelimit_check time_ms ip path rl_table =
     (let now = time_ms div 1000;
          (i, es) = claim_slot rt_ip general_window rt_fresh ip now rl_table; e = es ! i
      in if is_login path
         then (let (ok, c, w) = window_bump 5 60 now (login_count e, login_window e)
               in (ok, es[i := e\<lparr>login_count := c, login_window := w\<rparr>]))
         else (let (ok, c, w) = window_bump 100 60 now (general_count e, general_window e)
               in (ok, es[i := e\<lparr>general_count := c, general_window := w\<rparr>])))"

end
