(* ===== verification/Rate_Laws.thy ===== *)
theory Rate_Laws
  imports Rate_Limit
begin

text \<open>
  The two rate limiters satisfy the contract \<open>ip_limiter\<close>; exactness of their windows follows
  from it. Blocking an address and the limits of the fixed table are treated on the gateway's
  limiter.
\<close>

section \<open>The gateway's limiter\<close>

interpretation rl_table: ip_table rl_ip window_start rl_fresh
  by unfold_locales (simp add: rl_fresh_def)

type_synonym rl_request = "uint64 \<times> uint64 \<times> string \<times> string option \<times> string"

fun rl_check :: "rl_request \<Rightarrow> rl_state \<Rightarrow> bool \<times> rl_state" where
  "rl_check (t1, t2, ip, host, path) st = arws_ratelimit_check t1 t2 ip host path st"

fun rl_key :: "rl_request \<Rightarrow> string" where
  "rl_key (t1, t2, ip, host, path) = ip"

fun rl_time :: "rl_request \<Rightarrow> uint64" where
  "rl_time (t1, t2, ip, host, path) = t2 div 1000"

fun rl_limit :: "rl_request \<Rightarrow> rl_state \<Rightarrow> int \<times> uint64" where
  "rl_limit (t1, t2, ip, host, path) st =
     (fst (rl_limits (rl_rules st) host path), word_of_int (snd (rl_limits (rl_rules st) host path)))"

definition rl_counter :: "string \<Rightarrow> rl_state \<Rightarrow> (int \<times> uint64) option" where
  "rl_counter k st = (if k = [] then None
     else map_option (\<lambda>e. (rl_count e, window_start e)) (entry_of rl_ip k (rl_entries st)))"

definition rl_barred :: "string \<Rightarrow> rl_state \<Rightarrow> bool" where
  "rl_barred k st \<longleftrightarrow> k = [] \<or> (\<exists>e. entry_of rl_ip k (rl_entries st) = Some e \<and> blocked e)"

definition rl_room :: "nat \<Rightarrow> rl_state \<Rightarrow> bool" where
  "rl_room n st \<longleftrightarrow> ips_distinct rl_ip (rl_entries st) \<and> n \<le> empties rl_ip (rl_entries st)"

definition rl_ok :: "rl_request \<Rightarrow> bool" where
  "rl_ok r \<longleftrightarrow> rl_key r \<noteq> [] \<and> length (rl_key r) < 64"

lemma rl_entry_named: "ip \<noteq> [] \<Longrightarrow> rl_entry_named ip = (\<lambda>e. rl_ip e = ip)"
  by (auto simp: rl_entry_named_def)

text \<open>What the block-list test leaves of the table.\<close>

lemma is_blocked_effect:
  assumes "ips_distinct rl_ip (rl_entries st)" "ip \<noteq> []" "arws_ratelimit_is_blocked t ip st = (b, st1)"
  shows "rl_rules st1 = rl_rules st" "ips_distinct rl_ip (rl_entries st1)"
    "empties rl_ip (rl_entries st1) = empties rl_ip (rl_entries st)"
    "\<And>k. k \<noteq> ip \<Longrightarrow> entry_of rl_ip k (rl_entries st1) = entry_of rl_ip k (rl_entries st)"
    "\<not> rl_barred ip st \<Longrightarrow> \<not> b \<and> st1 = st"
    "\<not> b \<Longrightarrow> \<not> rl_barred ip st1"
proof -
  let ?es = "rl_entries st"
  have "rl_rules st1 = rl_rules st \<and> ips_distinct rl_ip (rl_entries st1) \<and>
    empties rl_ip (rl_entries st1) = empties rl_ip ?es \<and>
    (\<forall>k. k \<noteq> ip \<longrightarrow> entry_of rl_ip k (rl_entries st1) = entry_of rl_ip k ?es) \<and>
    (\<not> rl_barred ip st \<longrightarrow> \<not> b \<and> st1 = st) \<and> (\<not> b \<longrightarrow> \<not> rl_barred ip st1)"
  proof (cases "first_idx (\<lambda>e. rl_ip e = ip) ?es")
    case None
    with assms show ?thesis
      by (auto simp: arws_ratelimit_is_blocked_def rl_entry_named rl_barred_def entry_of_def)
  next
    case (Some i)
    note i = first_idx_SomeD(1,2)[OF Some]
    have en: "entry_of rl_ip ip ?es = Some (?es ! i)" using Some by (simp add: entry_of_def)
    note up = entry_update[OF assms(1) i assms(2), of "(?es ! i)\<lparr>blocked := False, rl_count := 0\<rparr>"]
    show ?thesis
    proof (cases "blocked (?es ! i) \<and> blocked_until (?es ! i) \<le> t div 1000")
      case True
      with assms Some have r: "b = False" "st1 = st\<lparr>rl_entries := ?es[i := (?es ! i)\<lparr>blocked := False, rl_count := 0\<rparr>]\<rparr>"
        by (simp_all add: arws_ratelimit_is_blocked_def rl_entry_named Let_def)
      then show ?thesis using up i True en assms(2) by (simp add: rl_barred_def)
    next
      case False
      with assms Some have r: "b = blocked (?es ! i)" "st1 = st"
        by (auto simp: arws_ratelimit_is_blocked_def rl_entry_named Let_def split: if_splits)
      then show ?thesis using assms(1,2) en by (simp add: rl_barred_def)
    qed
  qed
  then show "rl_rules st1 = rl_rules st" "ips_distinct rl_ip (rl_entries st1)"
    "empties rl_ip (rl_entries st1) = empties rl_ip (rl_entries st)"
    "\<And>k. k \<noteq> ip \<Longrightarrow> entry_of rl_ip k (rl_entries st1) = entry_of rl_ip k (rl_entries st)"
    "\<not> rl_barred ip st \<Longrightarrow> \<not> b \<and> st1 = st"
    "\<not> b \<Longrightarrow> \<not> rl_barred ip st1" by blast+
qed

lemma count_request_effect:
  assumes room: "rl_room (Suc n) st" and ip: "ip \<noteq> []" "length ip < 64"
    and ex: "rl_count_request now ip host path st = (a, st')"
  shows "rl_rules st' = rl_rules st" "rl_room n st'"
    "\<And>k. k \<noteq> ip \<Longrightarrow> k \<noteq> [] \<Longrightarrow> entry_of rl_ip k (rl_entries st') = entry_of rl_ip k (rl_entries st)"
    "\<exists>cw. window_bump (fst (rl_limits (rl_rules st) host path)) (word_of_int (snd (rl_limits (rl_rules st) host path)))
        now (case rl_counter ip st of Some cw \<Rightarrow> cw | None \<Rightarrow> (0, now)) = (a, cw) \<and> rl_counter ip st' = Some cw"
    "\<not> rl_barred ip st \<Longrightarrow> \<not> rl_barred ip st'"
proof -
  obtain i es where cl: "claim_slot rl_ip window_start rl_fresh ip now (rl_entries st) = (i, es)" by fastforce
  obtain c w where wb: "window_bump (fst (rl_limits (rl_rules st) host path))
      (word_of_int (snd (rl_limits (rl_rules st) host path))) now (rl_count (es ! i), window_start (es ! i)) = (a, c, w)"
    and st': "st' = st\<lparr>rl_entries := es[i := (es ! i)\<lparr>rl_count := c, window_start := w\<rparr>]\<rparr>"
    using ex cl by (auto simp: rl_count_request_def split: prod.splits)
  have rm: "ips_distinct rl_ip (rl_entries st)" "Suc n \<le> empties rl_ip (rl_entries st)"
    using room by (simp_all add: rl_room_def)
  note c = rl_table.claim_room[OF rm(1) ip rm(2) cl]
  note up = entry_update[OF c(3,1,2) ip(1), of "(es ! i)\<lparr>rl_count := c, window_start := w\<rparr>"]
  show "rl_rules st' = rl_rules st" by (simp add: st')
  show "rl_room n st'" using up c(2,4) by (simp add: rl_room_def st')
  show "entry_of rl_ip k (rl_entries st') = entry_of rl_ip k (rl_entries st)" if "k \<noteq> ip" "k \<noteq> []" for k
    using up(4)[OF _ that(1)] c(2,5) that by (simp add: st')
  have en: "entry_of rl_ip ip (rl_entries st') = Some ((es ! i)\<lparr>rl_count := c, window_start := w\<rparr>)"
    using up(3) c(2) by (simp add: st')
  have cw: "(case rl_counter ip st of Some cw \<Rightarrow> cw | None \<Rightarrow> (0, now)) = (rl_count (es ! i), window_start (es ! i))"
    and bl: "\<not> rl_barred ip st \<Longrightarrow> \<not> blocked (es ! i)"
    using c(6) ip(1) by (cases "entry_of rl_ip ip (rl_entries st)";
        auto simp: rl_counter_def rl_fresh_def rl_barred_def)+
  show "\<exists>cw. window_bump (fst (rl_limits (rl_rules st) host path)) (word_of_int (snd (rl_limits (rl_rules st) host path)))
        now (case rl_counter ip st of Some cw \<Rightarrow> cw | None \<Rightarrow> (0, now)) = (a, cw) \<and> rl_counter ip st' = Some cw"
    unfolding cw using wb en ip(1) by (simp add: rl_counter_def)
  show "\<not> rl_barred ip st \<Longrightarrow> \<not> rl_barred ip st'" using bl en ip(1) by (simp add: rl_barred_def)
qed

lemma rl_check_cases:
  assumes "rl_room (Suc n) st" "rl_ok r" "rl_check r st = (a, st')"
  obtains (refused) st1 where "\<not> a" "st' = st1" "rl_barred (rl_key r) st"
      "arws_ratelimit_is_blocked (fst r) (rl_key r) st = (True, st1)"
    | (counted) st1 where "arws_ratelimit_is_blocked (fst r) (rl_key r) st = (False, st1)"
      "rl_count_request (rl_time r) (rl_key r) (fst (snd (snd (snd r)))) (snd (snd (snd (snd r)))) st1 = (a, st')"
proof -
  obtain t1 t2 ip host path where r: "r = (t1, t2, ip, host, path)" by (metis prod_cases5)
  obtain b st1 where b: "arws_ratelimit_is_blocked t1 ip st = (b, st1)" by fastforce
  have ib: "ips_distinct rl_ip (rl_entries st)" "ip \<noteq> []" using assms(1,2) by (auto simp: rl_room_def rl_ok_def r)
  show ?thesis
  proof (cases b)
    case True
    then have "rl_barred ip st" using is_blocked_effect(5)[OF ib b] by blast
    with True b assms(3) show ?thesis by (intro refused) (auto simp: r arws_ratelimit_check_def)
  next
    case False
    with b assms(3) show ?thesis by (intro counted) (auto simp: r arws_ratelimit_check_def)
  qed
qed

interpretation rl: ip_limiter rl_check rl_key rl_counter rl_barred rl_limit rl_time rl_room rl_ok
proof
  fix n st r a st' k
  assume room: "rl_room (Suc n) st" and ok: "rl_ok r" and ex: "rl_check r st = (a, st')"
  obtain t1 t2 ip host path where r: "r = (t1, t2, ip, host, path)" by (metis prod_cases5)
  have ip: "ip \<noteq> []" "length ip < 64" using ok by (simp_all add: rl_ok_def r)
  have dist: "ips_distinct rl_ip (rl_entries st)" using room by (simp add: rl_room_def)
  have eff: "rl_room n st' \<and>
      (k \<noteq> ip \<longrightarrow> k \<noteq> [] \<longrightarrow> entry_of rl_ip k (rl_entries st') = entry_of rl_ip k (rl_entries st)) \<and>
      (\<not> rl_barred ip st \<longrightarrow> \<not> rl_barred ip st' \<and>
        (\<exists>cw. window_bump (fst (rl_limit r st)) (snd (rl_limit r st)) (rl_time r)
            (case rl_counter ip st of Some cw \<Rightarrow> cw | None \<Rightarrow> (0, rl_time r)) = (a, cw) \<and> rl_counter ip st' = Some cw))"
    using room ok ex
  proof (cases rule: rl_check_cases)
    case (refused st1)
    note b = is_blocked_effect[OF dist ip(1), of t1 True st1]
    from refused have "arws_ratelimit_is_blocked t1 ip st = (True, st1)" "rl_barred ip st" by (simp_all add: r)
    with b(2,3,4) refused(2) room show ?thesis by (simp add: rl_room_def)
  next
    case (counted st1)
    then have bl: "arws_ratelimit_is_blocked t1 ip st = (False, st1)"
      and cr: "rl_count_request (t2 div 1000) ip host path st1 = (a, st')" by (simp_all add: r)
    note b = is_blocked_effect[OF dist ip(1) bl]
    have rm1: "rl_room (Suc n) st1" using room b(2,3) by (simp add: rl_room_def)
    note c = count_request_effect[OF rm1 ip cr]
    show ?thesis unfolding r rl_time.simps using b c(2,3,4) c(5)[OF b(6)] by auto
  qed
  show "rl_room n st'" using eff by blast
  have frame: "k \<noteq> ip \<Longrightarrow> k \<noteq> [] \<Longrightarrow> entry_of rl_ip k (rl_entries st') = entry_of rl_ip k (rl_entries st)"
    and own: "\<not> rl_barred ip st \<Longrightarrow> \<not> rl_barred ip st'" using eff by blast+
  show "\<not> rl_barred k st \<Longrightarrow> \<not> rl_barred k st'"
    using own frame unfolding rl_barred_def by metis
  show "k \<noteq> rl_key r \<Longrightarrow> rl_counter k st = Some cw \<Longrightarrow> \<not> rl_barred k st \<Longrightarrow> rl_counter k st' = Some cw" for cw
    using frame by (simp add: rl_counter_def r split: if_splits)
  show "\<not> rl_barred (rl_key r) st \<Longrightarrow>
      \<exists>cw'. window_bump (fst (rl_limit r st)) (snd (rl_limit r st)) (rl_time r)
              (case rl_counter (rl_key r) st of Some cw \<Rightarrow> cw | None \<Rightarrow> (0, rl_time r)) = (a, cw') \<and>
            rl_counter (rl_key r) st' = Some cw'"
    using eff by (simp add: r)
next
  fix r st a st' r'
  assume "rl_check r st = (a, st')"
  then have "rl_rules st' = rl_rules st"
    by (cases r) (auto simp: arws_ratelimit_check_def arws_ratelimit_is_blocked_def rl_count_request_def Let_def
        split: prod.splits option.splits if_splits bool.splits)
  then show "rl_limit r' st' = rl_limit r' st" by (cases r') simp
qed

section \<open>The manager's limiter\<close>

interpretation rt_table: ip_table rt_ip general_window rt_fresh
  by unfold_locales (simp add: rt_fresh_def)

type_synonym rt_request = "uint64 \<times> string \<times> string"

fun rt_check :: "rt_request \<Rightarrow> RateLimitEntry list \<Rightarrow> bool \<times> RateLimitEntry list" where
  "rt_check (t, ip, path) es = ratelimit_check t ip path es"

fun rt_key :: "rt_request \<Rightarrow> string \<times> bool" where
  "rt_key (t, ip, path) = (ip, is_login path)"

fun rt_time :: "rt_request \<Rightarrow> uint64" where
  "rt_time (t, ip, path) = t div 1000"

fun rt_limit :: "rt_request \<Rightarrow> RateLimitEntry list \<Rightarrow> int \<times> uint64" where
  "rt_limit (t, ip, path) es = (if is_login path then (5, 60) else (100, 60))"

fun rt_counter :: "string \<times> bool \<Rightarrow> RateLimitEntry list \<Rightarrow> (int \<times> uint64) option" where
  "rt_counter (ip, login) es = (if ip = [] then None else map_option
     (\<lambda>e. if login then (login_count e, login_window e) else (general_count e, general_window e))
     (entry_of rt_ip ip es))"

definition rt_room :: "nat \<Rightarrow> RateLimitEntry list \<Rightarrow> bool" where
  "rt_room n es \<longleftrightarrow> ips_distinct rt_ip es \<and> n \<le> empties rt_ip es"

fun rt_ok :: "rt_request \<Rightarrow> bool" where
  "rt_ok (t, ip, path) \<longleftrightarrow> ip \<noteq> [] \<and> length ip < 64"

lemma ratelimit_check_effect:
  assumes room: "rt_room (Suc n) tab" and ip: "ip \<noteq> []" "length ip < 64"
    and ex: "ratelimit_check t ip path tab = (a, tab')"
  shows "rt_room n tab'"
    "\<And>k. k \<noteq> ip \<Longrightarrow> k \<noteq> [] \<Longrightarrow> entry_of rt_ip k tab' = entry_of rt_ip k tab"
    "\<exists>e cw. (case entry_of rt_ip ip tab of Some e0 \<Rightarrow> e0 = e | None \<Rightarrow> \<exists>e0. e = rt_fresh ip (t div 1000) e0) \<and>
       (if is_login path
        then window_bump 5 60 (t div 1000) (login_count e, login_window e) = (a, cw) \<and>
          entry_of rt_ip ip tab' = Some (e\<lparr>login_count := fst cw, login_window := snd cw\<rparr>)
        else window_bump 100 60 (t div 1000) (general_count e, general_window e) = (a, cw) \<and>
          entry_of rt_ip ip tab' = Some (e\<lparr>general_count := fst cw, general_window := snd cw\<rparr>))"
proof -
  let ?now = "t div 1000"
  obtain i es where cl: "claim_slot rt_ip general_window rt_fresh ip ?now tab = (i, es)" by fastforce
  define m :: int where "m = (if is_login path then 5 else 100)"
  define old where "old = (if is_login path then (login_count (es ! i), login_window (es ! i))
    else (general_count (es ! i), general_window (es ! i)))"
  obtain a' cw where wb: "window_bump m 60 ?now old = (a', cw)" by (metis surj_pair)
  define e' where "e' = (if is_login path then (es ! i)\<lparr>login_count := fst cw, login_window := snd cw\<rparr>
    else (es ! i)\<lparr>general_count := fst cw, general_window := snd cw\<rparr>)"
  have res: "a' = a" "tab' = es[i := e']"
    using ex cl wb by (cases cw; auto simp: ratelimit_check_def Let_def m_def old_def e'_def split: if_splits)+
  have rm: "ips_distinct rt_ip tab" "Suc n \<le> empties rt_ip tab" using room by (simp_all add: rt_room_def)
  note c = rt_table.claim_room[OF rm(1) ip rm(2) cl]
  have ip': "rt_ip e' = ip" using c(2) by (simp add: e'_def)
  note up = entry_update[OF c(3,1,2) ip(1) ip']
  show "rt_room n tab'" using up c(4) by (simp add: rt_room_def res)
  show "entry_of rt_ip k tab' = entry_of rt_ip k tab" if "k \<noteq> ip" "k \<noteq> []" for k
    using up(4)[OF that(1)] c(5)[OF that] by (simp add: res)
  show "\<exists>e cw. (case entry_of rt_ip ip tab of Some e0 \<Rightarrow> e0 = e | None \<Rightarrow> \<exists>e0. e = rt_fresh ip ?now e0) \<and>
       (if is_login path
        then window_bump 5 60 ?now (login_count e, login_window e) = (a, cw) \<and>
          entry_of rt_ip ip tab' = Some (e\<lparr>login_count := fst cw, login_window := snd cw\<rparr>)
        else window_bump 100 60 ?now (general_count e, general_window e) = (a, cw) \<and>
          entry_of rt_ip ip tab' = Some (e\<lparr>general_count := fst cw, general_window := snd cw\<rparr>))"
    using c(6) wb up(3) unfolding res(2) res(1)
    by (intro exI[of _ "es ! i"] exI[of _ cw]) (auto simp: m_def old_def e'_def res(1) split: option.splits)
qed

interpretation rt: ip_limiter rt_check rt_key rt_counter "\<lambda>_ _. False" rt_limit rt_time rt_room rt_ok
proof
  fix n tab r a tab' k
  assume room: "rt_room (Suc n) tab" and ok: "rt_ok r" and ex: "rt_check r tab = (a, tab')"
  obtain t ip path where r: "r = (t, ip, path)" by (metis prod_cases3)
  have ip: "ip \<noteq> []" "length ip < 64" using ok by (simp_all add: r)
  note eff = ratelimit_check_effect[OF room ip, of t path a tab'] 
  have ex': "ratelimit_check t ip path tab = (a, tab')" using ex by (simp add: r)
  show "rt_room n tab'" by (rule eff(1)[OF ex'])
  obtain e cw where e: "case entry_of rt_ip ip tab of Some e0 \<Rightarrow> e0 = e | None \<Rightarrow> \<exists>e0. e = rt_fresh ip (t div 1000) e0"
    and b: "if is_login path
        then window_bump 5 60 (t div 1000) (login_count e, login_window e) = (a, cw) \<and>
          entry_of rt_ip ip tab' = Some (e\<lparr>login_count := fst cw, login_window := snd cw\<rparr>)
        else window_bump 100 60 (t div 1000) (general_count e, general_window e) = (a, cw) \<and>
          entry_of rt_ip ip tab' = Some (e\<lparr>general_count := fst cw, general_window := snd cw\<rparr>)"
    using eff(3)[OF ex'] by blast
  show "\<exists>cw'. window_bump (fst (rt_limit r tab)) (snd (rt_limit r tab)) (rt_time r)
              (case rt_counter (rt_key r) tab of Some cw \<Rightarrow> cw | None \<Rightarrow> (0, rt_time r)) = (a, cw') \<and>
            rt_counter (rt_key r) tab' = Some cw'"
    unfolding r rt_time.simps rt_key.simps rt_limit.simps
    using e b ip by (cases "entry_of rt_ip ip tab"; cases cw) (auto simp: rt_fresh_def split: if_splits)
  show "k \<noteq> rt_key r \<Longrightarrow> rt_counter k tab = Some cw' \<Longrightarrow> rt_counter k tab' = Some cw'" for cw'
    using e b eff(2)[OF ex', of "fst k"]
    by (cases k; cases "fst k = ip") (auto simp: r split: if_splits)
qed (auto, (case_tac r'; simp)?)

section \<open>Properties: rate limiting\<close>


definition demo_rl :: rl_state where
  "demo_rl = \<lparr>rl_entries = replicate 8 zero_rl_entry,
     rl_rules = [\<lparr>rule_host = ''*'', path_pattern = ''/api/*'', max_requests = 2, window_seconds = 10\<rparr>]\<rparr>"

lemma demo_rl_limits: "rl_limits (rl_rules demo_rl) h ''/api/v1'' = (2, 10)"
  by (simp add: rl_limits_def demo_rl_def rule_matches_def path_matches_def strneq_def Let_def)

lemma demo_rl_room: "rl_room 8 demo_rl"
proof -
  have "ips_distinct rl_ip (replicate n zero_rl_entry)" for n
    by (auto simp: ips_distinct_def zero_rl_entry_def)
  then show ?thesis by (simp add: rl_room_def demo_rl_def empties_def zero_rl_entry_def)
qed

lemma demo_rl_free [simp]: "rl_counter ''1.2.3.4'' demo_rl = None" "\<not> rl_barred ''1.2.3.4'' demo_rl"
proof -
  have "entry_of rl_ip ''1.2.3.4'' (rl_entries demo_rl) = None"
    by (simp add: entry_of_None_iff demo_rl_def zero_rl_entry_def)
  then show "rl_counter ''1.2.3.4'' demo_rl = None" "\<not> rl_barred ''1.2.3.4'' demo_rl"
    by (simp_all add: rl_counter_def rl_barred_def)
qed

lemma rl_room_mono: "rl_room n st \<Longrightarrow> k \<le> n \<Longrightarrow> rl_room k st"
  by (auto simp: rl_room_def)


text \<open>The manager's limiter admits exactly five logins per minute and address, counted apart
  from the other requests of the address.\<close>

theorem login_window_exact:
  assumes "rt_room (Suc (length rs)) tab" and "rt_ok (t, ip, path)" and "\<forall>r \<in> set rs. rt_ok r"
    and "is_login path" and "entry_of rt_ip ip tab = None"
    and "\<forall>r \<in> set rs. rt_key r = (ip, True) \<longrightarrow> rt_time r - t div 1000 < 60"
    and "int (length rs) + 1 < 2 ^ 31" and "run_checks rt_check ((t, ip, path) # rs) tab = (as, tab')"
  shows "allowed_of rt_key (ip, True) ((t, ip, path) # rs) as = min (Suc (asked_of rt_key (ip, True) rs)) 5"
proof -
  have lim: "\<forall>r \<in> set rs. rt_key r = (ip, True) \<longrightarrow> rt_limit r tab = (5, 60) \<and> rt_time r - rt_time (t, ip, path) < 60"
    using assms(6) by auto
  have "rt_key (t, ip, path) = (ip, True)" "rt_limit (t, ip, path) tab = (5, 60)" "rt_counter (ip, True) tab = None"
    using assms(4,5) by simp_all
  from rt.fresh_window_exact[OF assms(1,2) this(1) assms(3) this(2) _ _ lim this(3) _ assms(7,8)]
  show ?thesis by simp
qed

theorem login_window_exact_witness:
  "let r = (1000, ''1.2.3.4'', ''/manager/api/login'') in
   allowed_of rt_key (''1.2.3.4'', True) (replicate 7 r)
     (fst (run_checks rt_check (replicate 7 r) (replicate 8 zero_rt_entry))) = 5"
proof -
  let ?r = "(1000, ''1.2.3.4'', ''/manager/api/login'') :: rt_request" and ?tab = "replicate 8 zero_rt_entry"
  obtain as tab' where run: "run_checks rt_check (?r # replicate 6 ?r) ?tab = (as, tab')" by (metis surj_pair)
  have "ips_distinct rt_ip ?tab" by (auto simp: ips_distinct_def zero_rt_entry_def)
  then have "rt_room 7 ?tab" by (simp add: rt_room_def empties_def zero_rt_entry_def)
  moreover have "entry_of rt_ip ''1.2.3.4'' ?tab = None" by (simp add: entry_of_None_iff zero_rt_entry_def)
  moreover have "is_login ''/manager/api/login''" by (simp add: is_login_def)
  moreover have "asked_of rt_key (''1.2.3.4'', True) (replicate 6 ?r) = 6"
    using \<open>is_login ''/manager/api/login''\<close> by (simp add: asked_of_def)
  ultimately have "allowed_of rt_key (''1.2.3.4'', True) (?r # replicate 6 ?r) as = 5"
    using login_window_exact[of "replicate 6 ?r" ?tab 1000 "''1.2.3.4''" "''/manager/api/login''" as tab'] run
    by simp
  moreover have "replicate 7 ?r = ?r # replicate 6 ?r" by (simp add: eval_nat_numeral)
  ultimately show ?thesis using run by (simp add: Let_def)
qed

text \<open>Blocking an address. If the table has an entry for the address or an empty slot, every
  check of the address before the given number of seconds has passed is refused and changes
  nothing, and the first check afterwards finds it unblocked. If the table is full and has no
  entry for the address, the block is silently lost.\<close>

theorem block_ip_effect:
  assumes "ips_distinct rl_ip (rl_entries st)" and "ip \<noteq> []" and "length ip < 64"
    and "st' = arws_ratelimit_block_ip t ip seconds st"
  shows "((\<exists>e \<in> set (rl_entries st). rl_ip e = ip \<or> rl_ip e = []) \<longrightarrow>
            (t1 div 1000 < t div 1000 + word_of_int seconds \<longrightarrow>
               arws_ratelimit_check t1 t2 ip host path st' = (False, st')) \<and>
            (t div 1000 + word_of_int seconds \<le> t1 div 1000 \<longrightarrow>
               \<not> fst (arws_ratelimit_is_blocked t1 ip st'))) \<and>
         ((\<forall>e \<in> set (rl_entries st). rl_ip e \<noteq> ip \<and> rl_ip e \<noteq> []) \<longrightarrow> st' = st)"
proof -
  let ?es = "rl_entries st" and ?until = "t div 1000 + word_of_int seconds"
  have "\<exists>i. first_idx (rl_entry_named ip) (rl_entries st') = Some i \<and> blocked (rl_entries st' ! i) \<and>
      blocked_until (rl_entries st' ! i) = ?until" if ex: "\<exists>e \<in> set ?es. rl_ip e = ip \<or> rl_ip e = []"
  proof (cases "first_idx (\<lambda>e. rl_ip e = ip) ?es")
    case (Some i)
    note i = first_idx_SomeD(1,2)[OF Some]
    let ?e = "(?es ! i)\<lparr>blocked := True, blocked_until := ?until\<rparr>"
    have st': "rl_entries st' = ?es[i := ?e]"
      using Some assms(2,4) by (simp add: arws_ratelimit_block_ip_def rl_entry_named Let_def)
    have "first_idx (\<lambda>e. rl_ip e = ip) (rl_entries st') = Some i"
      using entry_of_claimed(1)[OF entry_update(1)[OF assms(1) i assms(2), of ?e], of i ip] i assms(2) by (simp add: st')
    with i st' assms(2) show ?thesis by (simp add: rl_entry_named)
  next
    case None
    then obtain i where i: "first_idx (\<lambda>e. rl_ip e = []) ?es = Some i"
      using ex by (metis (mono_tags, lifting) first_idx_None_iff not_Some_eq)
    let ?e = "(?es ! i)\<lparr>rl_ip := ip, blocked := True, blocked_until := ?until, rl_count := 0, window_start := t div 1000\<rparr>"
    have st': "rl_entries st' = ?es[i := ?e]"
      using None i assms(2,3,4) by (simp add: arws_ratelimit_block_ip_def rl_entry_named Let_def)
    have il: "i < length ?es" using first_idx_SomeD(1)[OF i] .
    have no: "\<And>j. j < length ?es \<Longrightarrow> rl_ip (?es ! j) \<noteq> ip" using None by (simp add: first_idx_None_iff)
    have "first_idx (\<lambda>e. rl_ip e = ip) (rl_entries st') = Some i"
      unfolding st' by (rule first_idx_unique) (use il no in \<open>auto simp: nth_list_update split: if_splits\<close>)
    with il st' assms(2) show ?thesis by (simp add: rl_entry_named)
  qed
  then have a: "(t1 div 1000 < ?until \<longrightarrow> arws_ratelimit_check t1 t2 ip host path st' = (False, st')) \<and>
      (?until \<le> t1 div 1000 \<longrightarrow> \<not> fst (arws_ratelimit_is_blocked t1 ip st'))"
    if "\<exists>e \<in> set ?es. rl_ip e = ip \<or> rl_ip e = []"
    using that by (auto simp: arws_ratelimit_check_def arws_ratelimit_is_blocked_def Let_def not_le)
  have b: "st' = st" if "\<forall>e \<in> set ?es. rl_ip e \<noteq> ip \<and> rl_ip e \<noteq> []"
  proof -
    have "first_idx (\<lambda>e. rl_ip e = ip) ?es = None" "first_idx (\<lambda>e. rl_ip e = []) ?es = None"
      using that by (simp_all add: first_idx_None_iff)
    then show ?thesis using assms(2,4) by (simp add: arws_ratelimit_block_ip_def rl_entry_named Let_def)
  qed
  from a b show ?thesis by blast
qed

theorem block_ip_effect_witness:
  "let st' = arws_ratelimit_block_ip 0 ''1.2.3.4'' 60 demo_rl
   in arws_ratelimit_check 30000 30001 ''1.2.3.4'' None ''/'' st' = (False, st')"
proof -
  have "ips_distinct rl_ip (rl_entries demo_rl)" using demo_rl_room by (simp add: rl_room_def)
  moreover have "\<exists>e \<in> set (rl_entries demo_rl). rl_ip e = ''1.2.3.4'' \<or> rl_ip e = []"
    by (simp add: demo_rl_def zero_rl_entry_def)
  ultimately show ?thesis
    using block_ip_effect[of demo_rl "''1.2.3.4''" _ 0 60 30000 30001 None "''/''"] by (simp add: Let_def)
qed

end
