(* ===== verification/Session.thy ===== *)
theory Session
  imports Arws_Prelude
begin

text \<open>
  Sessions, \<open>src/src/arws_session.c\<close>: a fixed table of 1024 sessions looked up by a random
  token that is compared in constant time. \<open>RAND_bytes\<close> and the clock are parameters; a session
  pointer is the index of its slot.
\<close>

section \<open>Token comparison\<close>

definition ct_compare :: "string \<Rightarrow> string \<Rightarrow> nat \<Rightarrow> uint32" where
  "ct_compare a b len = foldl (\<lambda>diff i. diff OR (of_char (a ! i) XOR of_char (b ! i))) 0 [0..<len]"

definition tokens_match :: "string \<Rightarrow> string \<Rightarrow> bool" where
  "tokens_match a b = (if length a \<noteq> length b then False else ct_compare a b (length a) = 0)"

section \<open>Sessions\<close>

record ArwsSession =
  se_token :: string
  se_user :: string
  se_ip :: string
  se_role :: int
  created_at :: uint64
  expires_at :: uint64
  valid :: bool

record session_state =
  sessions :: "ArwsSession list"
  session_count :: int

abbreviation (input) ARWS_MAX_SESSIONS :: nat where "ARWS_MAX_SESSIONS \<equiv> 1024"

definition zero_session :: ArwsSession where
  "zero_session = \<lparr>se_token = [], se_user = [], se_ip = [], se_role = 0, created_at = 0,
     expires_at = 0, valid = False\<rparr>"

definition arws_session_init :: session_state where
  "arws_session_init = \<lparr>sessions = replicate ARWS_MAX_SESSIONS zero_session, session_count = 0\<rparr>"

definition token_chars :: string where
  "token_chars = ''abcdefghijklmnopqrstuvwxyzABCDEFGHIJKLMNOPQRSTUVWXYZ0123456789''"

text \<open>\<open>rand n\<close> is the buffer \<open>RAND_bytes\<close> fills, or \<open>None\<close> when it fails; then the low byte of the
  clock is used, read once per character.\<close>

definition generate_random_token ::
  "(nat \<Rightarrow> 8 word list option) \<Rightarrow> (nat \<Rightarrow> uint64) \<Rightarrow> nat \<Rightarrow> string" where
  "generate_random_token rand clk len =
     (let token_len = min (len - 1) 128;
          raw = (case rand token_len of
                   Some bs \<Rightarrow> bs
                 | None \<Rightarrow> map (\<lambda>i. ucast (clk i AND 0xFF)) [0..<token_len])
      in map (\<lambda>i. token_chars ! (unat (raw ! i) mod 62)) [0..<token_len])"

definition arws_session_create ::
  "(nat \<Rightarrow> 8 word list option) \<Rightarrow> (nat \<Rightarrow> uint64) \<Rightarrow> uint64 \<Rightarrow> string \<Rightarrow> string \<Rightarrow> int \<Rightarrow> int
    \<Rightarrow> session_state \<Rightarrow> nat option \<times> session_state" where
  "arws_session_create rand clk time_ms user ip role ttl_seconds st =
     (case first_idx (\<lambda>s. \<not> valid s) (sessions st) of
        None \<Rightarrow> (None, st)
      | Some idx \<Rightarrow>
          (let token = generate_random_token rand clk 128;
               created = time_ms div 1000
           in (Some idx,
               st\<lparr>sessions := (sessions st)[idx := (sessions st ! idx)
                    \<lparr>se_token := buf_copy 128 token, se_user := buf_copy 64 user,
                     se_ip := buf_copy 64 ip, se_role := role, created_at := created,
                     expires_at := created + word_of_int ttl_seconds, valid := True\<rparr>],
                  session_count := session_count st + 1\<rparr>)))"

definition invalidate :: "nat \<Rightarrow> session_state \<Rightarrow> session_state" where
  "invalidate i st = st\<lparr>sessions := (sessions st)[i := (sessions st ! i)\<lparr>valid := False\<rparr>],
                        session_count := session_count st - 1\<rparr>"

definition session_matches :: "string \<Rightarrow> ArwsSession \<Rightarrow> bool" where
  "session_matches token s \<longleftrightarrow> valid s \<and> tokens_match (se_token s) token"

definition arws_session_verify ::
  "uint64 \<Rightarrow> string \<Rightarrow> string option \<Rightarrow> session_state \<Rightarrow> nat option \<times> session_state" where
  "arws_session_verify time_ms token ip st =
     (let now = time_ms div 1000 in
      case first_idx (session_matches token) (sessions st) of
        None \<Rightarrow> (None, st)
      | Some i \<Rightarrow>
          (let s = sessions st ! i in
           if now \<ge> expires_at s then (None, invalidate i st)
           else (case ip of
                   Some a \<Rightarrow> if a \<noteq> [] \<and> se_ip s \<noteq> a then (None, st) else (Some i, st)
                 | None \<Rightarrow> (Some i, st))))"

definition arws_session_destroy :: "string \<Rightarrow> session_state \<Rightarrow> int \<times> session_state" where
  "arws_session_destroy token st =
     (case first_idx (\<lambda>s. valid s \<and> se_token s = token) (sessions st) of
        Some i \<Rightarrow> (0, invalidate i st)
      | None \<Rightarrow> (-1, st))"

definition session_expired :: "uint64 \<Rightarrow> ArwsSession \<Rightarrow> bool" where
  "session_expired now s \<longleftrightarrow> valid s \<and> now \<ge> expires_at s"

definition arws_session_cleanup :: "uint64 \<Rightarrow> session_state \<Rightarrow> session_state" where
  "arws_session_cleanup time_ms st =
     (let now = time_ms div 1000
      in st\<lparr>sessions := map (\<lambda>s. if session_expired now s then s\<lparr>valid := False\<rparr> else s) (sessions st),
            session_count := session_count st - int (length (filter (session_expired now) (sessions st)))\<rparr>)"

section \<open>Sequences of operations\<close>

inductive session_step :: "session_state \<Rightarrow> session_state \<Rightarrow> bool" where
  "arws_session_create rand clk t user ip role ttl st = (r, st') \<Longrightarrow> session_step st st'"
| "arws_session_verify t token ipo st = (r, st') \<Longrightarrow> session_step st st'"
| "arws_session_destroy token st = (rc, st') \<Longrightarrow> session_step st st'"
| "session_step st (arws_session_cleanup t st)"

definition wf_sessions :: "session_state \<Rightarrow> bool" where
  "wf_sessions st \<longleftrightarrow> length (sessions st) = ARWS_MAX_SESSIONS \<and>
     session_count st = int (length (filter valid (sessions st))) \<and>
     (\<forall>s \<in> set (sessions st). length (se_token s) < 128 \<and> length (se_ip s) < 64)"

section \<open>Lemmas\<close>

lemma of_char_inj32: "(of_char c :: uint32) = of_char d \<longleftrightarrow> c = d"
proof
  assume a: "(of_char c :: uint32) = of_char d"
  have "unat (of_char x :: uint32) = of_char x" for x
  proof -
    have "(of_char x :: nat) < 2 ^ LENGTH(32)" by (rule less_trans[OF nat_of_char_less_256]) simp
    then have "unat (of_nat (of_char x :: nat) :: uint32) = of_char x"
      by (simp only: unsigned_of_nat take_bit_nat_eq_self of_nat_id)
    then show ?thesis by (simp only: of_nat_of_char)
  qed
  with a have "(of_char c :: nat) = of_char d" by metis
  then show "c = d" by (simp only: of_char_eq_iff)
qed simp

lemma xor_eq_zero: "(a :: uint32) XOR b = 0 \<longleftrightarrow> a = b"
  by (auto simp: bit_eq_iff bit_xor_iff)

lemma ct_compare_zero: "ct_compare a b len = 0 \<longleftrightarrow> (\<forall>i < len. a ! i = b ! i)"
proof (induction len)
  case (Suc n)
  have "ct_compare a b (Suc n) = ct_compare a b n OR (of_char (a ! n) XOR of_char (b ! n))"
    by (simp add: ct_compare_def)
  with Suc show ?case by (auto simp: or_eq_0_iff xor_eq_zero of_char_inj32 less_Suc_eq)
qed (simp add: ct_compare_def)

lemma tokens_match_iff: "tokens_match a b \<longleftrightarrow> a = b"
  by (auto simp: tokens_match_def ct_compare_zero intro: nth_equalityI)

lemma session_matches_iff: "session_matches token s \<longleftrightarrow> valid s \<and> se_token s = token"
  by (simp add: session_matches_def tokens_match_iff)

lemma session_matches_fun: "session_matches token = (\<lambda>s. valid s \<and> se_token s = token)"
  by (simp add: fun_eq_iff session_matches_iff)

lemma count_filter_update:
  assumes "i < length xs"
  shows "int (length (filter P (xs[i := x]))) =
    int (length (filter P xs)) + (if P x then 1 else 0) - (if P (xs ! i) then 1 else 0)"
proof -
  have x: "xs = take i xs @ xs ! i # drop (Suc i) xs" using assms by (simp add: id_take_nth_drop)
  have "length (filter P xs) = length (filter P (take i xs @ xs ! i # drop (Suc i) xs))" using x by simp
  then show ?thesis using assms by (simp add: upd_conv_take_nth_drop)
qed

lemma length_token [simp]: "length (generate_random_token rand clk len) = min (len - 1) 128"
  by (simp add: generate_random_token_def Let_def)

lemma wf_invalidate:
  assumes "wf_sessions st" "i < length (sessions st)" "valid (sessions st ! i)"
  shows "wf_sessions (invalidate i st)"
proof -
  have "\<forall>s \<in> set ((sessions st)[i := (sessions st ! i)\<lparr>valid := False\<rparr>]). length (se_token s) < 128 \<and> length (se_ip s) < 64"
    using assms set_update_subset_insert[of "sessions st" i "(sessions st ! i)\<lparr>valid := False\<rparr>"]
    by (auto simp: wf_sessions_def)
  then show ?thesis using assms count_filter_update[OF assms(2), of valid "(sessions st ! i)\<lparr>valid := False\<rparr>"]
    by (simp add: wf_sessions_def invalidate_def)
qed

lemma wf_create:
  assumes "wf_sessions st" "arws_session_create rand clk t user ip role ttl st = (r, st')"
  shows "wf_sessions st'"
proof (cases "first_idx (\<lambda>s. \<not> valid s) (sessions st)")
  case None
  with assms show ?thesis by (simp add: arws_session_create_def)
next
  case (Some idx)
  note i = first_idx_SomeD(1,2)[OF Some]
  define s where "s = (sessions st ! idx)\<lparr>se_token := buf_copy 128 (generate_random_token rand clk 128),
      se_user := buf_copy 64 user, se_ip := buf_copy 64 ip, se_role := role, created_at := t div 1000,
      expires_at := t div 1000 + word_of_int ttl, valid := True\<rparr>"
  have st': "st' = st\<lparr>sessions := (sessions st)[idx := s], session_count := session_count st + 1\<rparr>"
    using assms(2) Some by (simp add: arws_session_create_def Let_def s_def)
  have "length (se_token s) < 128" "length (se_ip s) < 64" "valid s"
    by (simp_all add: s_def length_buf_copy)
  moreover from this have "\<forall>x \<in> set ((sessions st)[idx := s]). length (se_token x) < 128 \<and> length (se_ip x) < 64"
    using assms(1) set_update_subset_insert[of "sessions st" idx s] by (auto simp: wf_sessions_def)
  ultimately show ?thesis
    using assms(1) count_filter_update[OF i(1), of valid s] i(2) by (simp add: wf_sessions_def st')
qed

lemma wf_verify:
  assumes "wf_sessions st" "arws_session_verify t token ipo st = (r, st')"
  shows "wf_sessions st'"
proof (cases "first_idx (session_matches token) (sessions st)")
  case None
  with assms show ?thesis by (simp add: arws_session_verify_def)
next
  case (Some i)
  note i = first_idx_SomeD(1,2)[OF Some]
  then have "wf_sessions (invalidate i st)" using assms(1) by (intro wf_invalidate) (auto simp: session_matches_def)
  moreover have "st' = st \<or> st' = invalidate i st"
    using assms(2) Some by (auto simp: arws_session_verify_def Let_def split: if_splits option.splits)
  ultimately show ?thesis using assms(1) by auto
qed

lemma wf_destroy:
  assumes "wf_sessions st" "arws_session_destroy token st = (rc, st')"
  shows "wf_sessions st'"
proof (cases "first_idx (\<lambda>s. valid s \<and> se_token s = token) (sessions st)")
  case None
  with assms show ?thesis by (simp add: arws_session_destroy_def)
next
  case (Some i)
  then show ?thesis using assms first_idx_SomeD(1,2)[OF Some]
    by (auto simp: arws_session_destroy_def intro: wf_invalidate)
qed

lemma wf_session_cleanup: "wf_sessions st \<Longrightarrow> wf_sessions (arws_session_cleanup t st)"
proof -
  have "int (length (filter valid (map (\<lambda>s. if session_expired now s then s\<lparr>valid := False\<rparr> else s) xs))) =
      int (length (filter valid xs)) - int (length (filter (session_expired now) xs))" for now xs
    by (induction xs) (auto simp: session_expired_def)
  then show "wf_sessions st \<Longrightarrow> ?thesis"
    by (auto simp: wf_sessions_def arws_session_cleanup_def Let_def)
qed

lemma wf_session_step: "session_step st st' \<Longrightarrow> wf_sessions st \<Longrightarrow> wf_sessions st'"
  by (induction rule: session_step.induct) (blast intro: wf_create wf_verify wf_destroy wf_session_cleanup)+

section \<open>Properties: sessions\<close>

text \<open>The constant-time comparison is string equality: \<open>tokens_match\<close> accepts exactly equal
  tokens.\<close>

theorem tokens_match_correct: "tokens_match a b \<longleftrightarrow> a = b"
  by (rule tokens_match_iff)

text \<open>C37: The session counter is right. In every state reached from initialisation by any
  sequence of creations, verifications, destructions and cleanups, \<open>session_count\<close> is the
  number of valid sessions and the table keeps its size.\<close>

theorem sessions_reachable_wf:
  assumes "session_step\<^sup>*\<^sup>* arws_session_init st"
  shows "wf_sessions st"
  using assms
proof (induction rule: rtranclp_induct)
  case base
  show ?case by (simp add: wf_sessions_def arws_session_init_def zero_session_def)
qed (blast intro: wf_session_step)

theorem sessions_reachable_wf_witness:
  "wf_sessions (snd (arws_session_create (\<lambda>n. Some (replicate n 0)) (\<lambda>_. 0) 1000 ''u'' ''1.2.3.4'' 1 60 arws_session_init))"
proof -
  let ?c = "arws_session_create (\<lambda>n. Some (replicate n 0)) (\<lambda>_. 0) 1000 ''u'' ''1.2.3.4'' 1 60 arws_session_init"
  have "session_step arws_session_init (snd ?c)" by (rule session_step.intros(1)[of _ _ _ _ _ _ _ _ "fst ?c"]) simp
  then show ?thesis using sessions_reachable_wf by blast
qed

text \<open>C9: Authentication is sound and complete. A token is accepted if and only if the first
  valid session that carries it has not expired and, when the caller gives an address, was
  created from that address; the returned session is that one. A session found expired is
  invalidated, and nothing else ever changes.\<close>

theorem session_verify_spec:
  shows "(fst (arws_session_verify t token ipo st) = Some i \<longleftrightarrow>
            first_idx (\<lambda>s. valid s \<and> se_token s = token) (sessions st) = Some i \<and>
            t div 1000 < expires_at (sessions st ! i) \<and>
            (\<forall>a. ipo = Some a \<longrightarrow> a = [] \<or> se_ip (sessions st ! i) = a)) \<and>
         (snd (arws_session_verify t token ipo st) = st \<or>
            (\<exists>i. first_idx (\<lambda>s. valid s \<and> se_token s = token) (sessions st) = Some i \<and>
               expires_at (sessions st ! i) \<le> t div 1000 \<and>
               snd (arws_session_verify t token ipo st) = invalidate i st))"
proof -
  note m = session_matches_fun
  show ?thesis
  proof (cases "first_idx (\<lambda>s. valid s \<and> se_token s = token) (sessions st)")
    case None
    then show ?thesis by (simp add: arws_session_verify_def m)
  next
    case (Some j)
    show ?thesis
      by (cases ipo; cases "expires_at (sessions st ! j) \<le> t div 1000")
         (auto simp: arws_session_verify_def m Some Let_def not_le)
  qed
qed

theorem session_verify_spec_witness:
  "fst (arws_session_verify 5000 ''tok'' (Some ''1.2.3.4'')
      \<lparr>sessions = [zero_session\<lparr>se_token := ''tok'', se_ip := ''1.2.3.4'', expires_at := 10, valid := True\<rparr>],
       session_count = 1\<rparr>) = Some 0"
  using session_verify_spec[of 5000 "''tok''" "Some ''1.2.3.4''"
      "\<lparr>sessions = [zero_session\<lparr>se_token := ''tok'', se_ip := ''1.2.3.4'', expires_at := 10, valid := True\<rparr>],
       session_count = 1\<rparr>" 0] by simp

lemma token_alphabet: "set (generate_random_token rand clk len) \<subseteq> set token_chars"
proof -
  have "length token_chars = 62" by (simp add: token_chars_def)
  then have "token_chars ! (n mod 62) \<in> set token_chars" for n by (metis mod_less_divisor nth_mem zero_less_numeral)
  then show ?thesis by (auto simp: generate_random_token_def Let_def)
qed

text \<open>A session lives from its creation to its destruction or expiry. The token of a created
  session has 127 letters and digits; provided no valid session already has it, verifying it
  from the creating address before the expiry returns the new session, and after destroying it
  no verification succeeds.\<close>

theorem session_lifecycle:
  assumes "arws_session_create rand clk t user ip role ttl st = (Some i, st')"
    and "\<forall>s \<in> set (sessions st). valid s \<longrightarrow> se_token s \<noteq> generate_random_token rand clk 128"
    and "length ip < 64"
  shows "let token = generate_random_token rand clk 128 in
         length token = 127 \<and> set token \<subseteq> set token_chars \<and>
         (t2 div 1000 < t div 1000 + word_of_int ttl \<longrightarrow>
            arws_session_verify t2 token (Some ip) st' = (Some i, st')) \<and>
         fst (arws_session_destroy token st') = 0 \<and>
         fst (arws_session_verify t3 token ipo (snd (arws_session_destroy token st'))) = None"
proof -
  let ?tok = "generate_random_token rand clk 128"
  have f: "first_idx (\<lambda>s. \<not> valid s) (sessions st) = Some i"
    using assms(1) by (auto simp: arws_session_create_def Let_def split: option.splits)
  have il: "i < length (sessions st)" using first_idx_SomeD(1)[OF f] .
  define s where "s = (sessions st ! i)\<lparr>se_token := ?tok, se_user := buf_copy 64 user, se_ip := ip, se_role := role,
      created_at := t div 1000, expires_at := t div 1000 + word_of_int ttl, valid := True\<rparr>"
  have st': "sessions st' = (sessions st)[i := s]"
    using assms(1,3) f by (auto simp: arws_session_create_def Let_def s_def)
  have only: "j = i" if "j < length (sessions st')" "valid (sessions st' ! j)" "se_token (sessions st' ! j) = ?tok" for j
    using that assms(2) by (cases "j = i") (auto simp: st')
  have fi: "first_idx (\<lambda>s. valid s \<and> se_token s = ?tok) (sessions st') = Some i"
  proof (rule first_idx_unique)
    show "i < length (sessions st')" "valid (sessions st' ! i) \<and> se_token (sessions st' ! i) = ?tok"
      using il by (simp_all add: st' s_def)
  qed (use only in blast)
  have v: "arws_session_verify t2 ?tok (Some ip) st' = (Some i, st')" if "t2 div 1000 < t div 1000 + word_of_int ttl"
    using that fi il by (simp add: arws_session_verify_def session_matches_fun Let_def st' s_def not_le)
  have d: "arws_session_destroy ?tok st' = (0, invalidate i st')" using fi by (simp add: arws_session_destroy_def)
  have "first_idx (\<lambda>s. valid s \<and> se_token s = ?tok) (sessions (invalidate i st')) = None"
    unfolding first_idx_None_iff
  proof
    fix x assume "x \<in> set (sessions (invalidate i st'))"
    then obtain j where j: "j < length (sessions st')" "x = sessions (invalidate i st') ! j"
      by (auto simp: in_set_conv_nth invalidate_def)
    show "\<not> (valid x \<and> se_token x = ?tok)"
    proof (cases "j = i")
      case True
      then show ?thesis using j by (simp add: invalidate_def)
    next
      case False
      then have "x = sessions st' ! j" using j by (simp add: invalidate_def)
      then show ?thesis using only[OF j(1)] False by metis
    qed
  qed
  then have "fst (arws_session_verify t3 ?tok ipo (invalidate i st')) = None"
    by (simp add: arws_session_verify_def session_matches_fun)
  with v d token_alphabet show ?thesis by (simp add: Let_def)
qed

theorem session_lifecycle_witness:
  "\<exists>st'. arws_session_verify 5000 (replicate 127 CHR ''a'') (Some ''1.2.3.4'') st' = (Some 0, st')"
proof -
  let ?rand = "\<lambda>n. Some (replicate n 0) :: 8 word list option"
  let ?init = "\<lparr>sessions = [zero_session], session_count = 0\<rparr>"
  obtain st' where c: "arws_session_create ?rand (\<lambda>_. 0) 1000 ''u'' ''1.2.3.4'' 1 60 ?init = (Some 0, st')"
    by (simp add: arws_session_create_def zero_session_def Let_def)
  have tok: "generate_random_token ?rand (\<lambda>_. 0) 128 = replicate 127 CHR ''a''"
    by (rule nth_equalityI) (simp_all add: generate_random_token_def token_chars_def del: upt_Suc)
  have "arws_session_verify 5000 (generate_random_token ?rand (\<lambda>_. 0) 128) (Some ''1.2.3.4'') st' = (Some 0, st')"
    using session_lifecycle[OF c, of 5000] by (simp add: zero_session_def Let_def)
  then show ?thesis unfolding tok by blast
qed

end
