(* ===== verification/Registry.thy ===== *)
theory Registry
  imports Arws_Prelude
begin

text \<open>
  The backend registry, \<open>src/src/registry.c\<close>: backends register over IPC with a name and a
  file descriptor and get an identifier. \<open>backends\<close> is the list of the first \<open>backend_count\<close>
  array elements. Socket calls are parameters; the frames sent on shutdown are returned as a
  list of descriptors.
\<close>

section \<open>Backends\<close>

record ArwsBackend =
  be_id :: int
  be_fd :: int
  be_pid :: int
  be_name :: string
  registered :: bool

record registry_state =
  backends :: "ArwsBackend list"
  next_backend_id :: int

abbreviation (input) ARWS_MAX_BACKENDS :: nat where "ARWS_MAX_BACKENDS \<equiv> 64"

definition arws_registry_init :: registry_state where
  "arws_registry_init = \<lparr>backends = [], next_backend_id = 1\<rparr>"

definition arws_backend_count :: "registry_state \<Rightarrow> int" where
  "arws_backend_count st = int (length (backends st))"

definition arws_register_backend :: "string \<Rightarrow> int \<Rightarrow> registry_state \<Rightarrow> int \<times> registry_state" where
  "arws_register_backend name fd st =
     (if fd < 0 then (-1, st)
      else case first_idx (\<lambda>b. registered b \<and> be_name b = name) (backends st) of
        Some i \<Rightarrow> (be_id (backends st ! i),
                   st\<lparr>backends := (backends st)[i := (backends st ! i)\<lparr>be_fd := fd\<rparr>]\<rparr>)
      | None \<Rightarrow>
          if length (backends st) \<ge> ARWS_MAX_BACKENDS then (-1, st)
          else (next_backend_id st,
                \<lparr>backends = backends st @
                   [\<lparr>be_id = next_backend_id st, be_fd = fd, be_pid = 0, be_name = buf_copy 64 name,
                     registered = True\<rparr>],
                 next_backend_id = next_backend_id st + 1\<rparr>))"

definition arws_unregister_backend :: "int \<Rightarrow> registry_state \<Rightarrow> int \<times> registry_state" where
  "arws_unregister_backend backend_id st =
     (case first_idx (\<lambda>b. be_id b = backend_id) (backends st) of
        Some i \<Rightarrow> (0, st\<lparr>backends := swap_remove (backends st) i\<rparr>)
      | None \<Rightarrow> (-1, st))"

definition arws_close_all_backends :: "registry_state \<Rightarrow> int list \<times> registry_state" where
  "arws_close_all_backends st =
     (map be_fd (filter (\<lambda>b. be_fd b > 0) (backends st)), \<lparr>backends = [], next_backend_id = 1\<rparr>)"

definition arws_get_backend :: "int \<Rightarrow> registry_state \<Rightarrow> ArwsBackend option" where
  "arws_get_backend backend_id st =
     map_option ((!) (backends st)) (first_idx (\<lambda>b. be_id b = backend_id) (backends st))"

definition arws_find_backend_id_by_fd :: "int \<Rightarrow> registry_state \<Rightarrow> int" where
  "arws_find_backend_id_by_fd fd st =
     (case first_idx (\<lambda>b. be_fd b = fd \<and> registered b) (backends st) of
        Some i \<Rightarrow> be_id (backends st ! i) | None \<Rightarrow> -1)"

definition arws_find_backend_by_name :: "string \<Rightarrow> registry_state \<Rightarrow> int" where
  "arws_find_backend_by_name name st =
     (case first_idx (\<lambda>b. be_name b = name) (backends st) of
        Some i \<Rightarrow> be_fd (backends st ! i) | None \<Rightarrow> -1)"

definition arws_get_backend_fd :: "int \<Rightarrow> registry_state \<Rightarrow> int" where
  "arws_get_backend_fd backend_id st =
     (case first_idx (\<lambda>b. be_id b = backend_id) (backends st) of
        Some i \<Rightarrow> be_fd (backends st ! i) | None \<Rightarrow> -1)"

text \<open>\<open>ar_ipc_send_raw\<close> is a parameter.\<close>

definition arws_backend_send_request ::
  "(int \<Rightarrow> string \<Rightarrow> int) \<Rightarrow> int \<Rightarrow> string \<Rightarrow> registry_state \<Rightarrow> int" where
  "arws_backend_send_request send_raw backend_id raw_req st =
     (let fd = arws_get_backend_fd backend_id st in
      if fd < 0 then -1 else send_raw fd raw_req)"

section \<open>Reading a response\<close>

abbreviation (input) CRLF2 :: string where
  "CRLF2 \<equiv> [CHR 0x0D, CHR 0x0A, CHR 0x0D, CHR 0x0A]"

text \<open>The search for the end of the headers starts at \<open>total - 4\<close>.\<close>

definition scan_header_end :: "string \<Rightarrow> nat option" where
  "scan_header_end buf =
     (let total_n = length buf;
          lo = (if total_n > 4 then total_n - 4 else 0)
      in map_option (\<lambda>k. lo + k + 4)
           (first_idx (\<lambda>i. take 4 (drop i buf) = CRLF2) [lo..<total_n - 3]))"

definition content_length_at :: "string \<Rightarrow> string option" where
  "content_length_at s =
     (case strstr s ''Content-Length: '' of
        Some t \<Rightarrow> Some t
      | None \<Rightarrow> (case strstr s ''content-length: '' of
                   Some t \<Rightarrow> Some t
                 | None \<Rightarrow> strstr s ''Content-length: ''))"

text \<open>Whether the data so far is a complete response, given the end of its headers.\<close>

definition response_complete :: "nat \<Rightarrow> string \<Rightarrow> bool" where
  "response_complete header_end buf =
     (case content_length_at (cstr buf) of
        None \<Rightarrow> True
      | Some cl \<Rightarrow>
          if length (cstr buf) - length cl < header_end
          then int (length buf) - int header_end \<ge> atoi (drop 16 cl)
          else True)"

text \<open>The receive loop. \<open>recv i n\<close> is what the \<open>i\<close>-th call with a limit of \<open>n\<close> bytes delivers,
  empty at the end of the stream or on error; the result is the data and the number of calls
  made.\<close>

function read_loop ::
  "(nat \<Rightarrow> nat \<Rightarrow> string) \<Rightarrow> nat \<Rightarrow> nat \<Rightarrow> string \<Rightarrow> nat option \<Rightarrow> string \<times> nat" where
  "read_loop recv maxlen i buf header_end =
     (if \<not> length buf < maxlen then (buf, i)
      else let chunk = take (maxlen - length buf) (recv i (maxlen - length buf)) in
        if chunk = [] then (buf, Suc i)
        else let buf' = buf @ chunk;
                 he = (case header_end of Some h \<Rightarrow> Some h | None \<Rightarrow> scan_header_end buf')
             in (case he of
                   Some h \<Rightarrow> if response_complete h buf' then (buf', Suc i)
                              else read_loop recv maxlen (Suc i) buf' he
                 | None \<Rightarrow> read_loop recv maxlen (Suc i) buf' he))"
  by pat_completeness auto
termination
  by (relation "measure (\<lambda>(recv, maxlen, i, buf, he). maxlen - length buf)")
     (auto simp: length_greater_0_conv[symmetric] simp del: length_greater_0_conv)

declare read_loop.simps [simp del]

definition read_http_response :: "(nat \<Rightarrow> nat \<Rightarrow> string) \<Rightarrow> nat \<Rightarrow> string \<times> nat" where
  "read_http_response recv maxlen = read_loop recv maxlen 0 [] None"

definition arws_backend_read_response ::
  "(int \<Rightarrow> nat \<Rightarrow> nat \<Rightarrow> string) \<Rightarrow> int \<Rightarrow> nat \<Rightarrow> registry_state \<Rightarrow> string option" where
  "arws_backend_read_response recv backend_id maxlen st =
     (let fd = arws_get_backend_fd backend_id st in
      if fd < 0 then None else Some (fst (read_http_response (recv fd) maxlen)))"

section \<open>Sequences of operations\<close>

inductive registry_step :: "registry_state \<Rightarrow> registry_state \<Rightarrow> bool" where
  "length name < 64 \<Longrightarrow> arws_register_backend name fd st = (bid, st') \<Longrightarrow> registry_step st st'"
| "arws_unregister_backend bid st = (rc, st') \<Longrightarrow> registry_step st st'"
| "arws_close_all_backends st = (fds, st') \<Longrightarrow> registry_step st st'"

definition wf_registry :: "registry_state \<Rightarrow> bool" where
  "wf_registry st \<longleftrightarrow> length (backends st) \<le> ARWS_MAX_BACKENDS \<and> 1 \<le> next_backend_id st \<and>
     distinct (map be_id (backends st)) \<and> distinct (map be_name (backends st)) \<and>
     (\<forall>b \<in> set (backends st). registered b \<and> 1 \<le> be_id b \<and> be_id b < next_backend_id st \<and>
        length (be_name b) < 64 \<and> 0 \<le> be_fd b)"

section \<open>The registry as a finite map\<close>

lemma get_backend_iff:
  assumes "distinct (map be_id (backends st))"
  shows "arws_get_backend k st = Some b \<longleftrightarrow> b \<in> set (backends st) \<and> be_id b = k"
proof
  assume "arws_get_backend k st = Some b"
  then show "b \<in> set (backends st) \<and> be_id b = k"
    by (auto simp: arws_get_backend_def dest: first_idx_SomeD)
next
  assume b: "b \<in> set (backends st) \<and> be_id b = k"
  then obtain i where i: "i < length (backends st)" "backends st ! i = b" by (auto simp: in_set_conv_nth)
  have "first_idx (\<lambda>b. be_id b = k) (backends st) = Some i"
  proof (rule first_idx_unique)
    show "j = i" if "j < length (backends st)" "be_id (backends st ! j) = k" for j
      using assms that i b by (metis distinct_conv_nth length_map nth_map)
  qed (use i b in auto)
  with i show "arws_get_backend k st = Some b" by (simp add: arws_get_backend_def)
qed

lemma get_backend_fd_map:
  "arws_get_backend_fd k st = (case arws_get_backend k st of Some b \<Rightarrow> be_fd b | None \<Rightarrow> -1)"
  by (simp add: arws_get_backend_fd_def arws_get_backend_def split: option.split)

text \<open>Two states whose backend sets agree away from one identifier.\<close>

lemma get_backend_ext:
  assumes "distinct (map be_id (backends st))" "distinct (map be_id (backends st'))"
    and "\<And>b. be_id b = k \<Longrightarrow> b \<in> set (backends st) \<longleftrightarrow> b \<in> set (backends st')"
  shows "arws_get_backend k st' = arws_get_backend k st"
proof (rule option.expand)
  have "arws_get_backend k st' = Some b \<longleftrightarrow> arws_get_backend k st = Some b" for b
    using assms by (auto simp: get_backend_iff)
  then show "(arws_get_backend k st' = None) = (arws_get_backend k st = None)"
    "arws_get_backend k st' \<noteq> None \<Longrightarrow> arws_get_backend k st \<noteq> None \<Longrightarrow> the (arws_get_backend k st') = the (arws_get_backend k st)"
    by (metis option.exhaust, metis option.collapse)
qed

lemma wf_unregister:
  assumes "wf_registry st" "arws_unregister_backend k st = (rc, st')"
  shows "wf_registry st'" "(\<lambda>j. arws_get_backend j st') = (\<lambda>j. arws_get_backend j st)(k := None)"
proof -
  have d: "distinct (map be_id (backends st))" "distinct (map be_name (backends st))"
    using assms(1) by (simp_all add: wf_registry_def)
  have "wf_registry st' \<and> (\<lambda>j. arws_get_backend j st') = (\<lambda>j. arws_get_backend j st)(k := None)"
  proof (cases "first_idx (\<lambda>b. be_id b = k) (backends st)")
    case None
    with assms have "st' = st" by (simp add: arws_unregister_backend_def)
    then show ?thesis using None assms(1) by (auto simp: arws_get_backend_def)
  next
    case (Some i)
    note i = first_idx_SomeD(1,2)[OF Some]
    from Some assms have st': "st' = st\<lparr>backends := swap_remove (backends st) i\<rparr>"
      by (simp add: arws_unregister_backend_def)
    note di = distinct_map_swap_remove[OF d(1) i(1)] and dn = distinct_map_swap_remove(1)[OF d(2) i(1)]
    have wf': "wf_registry st'"
      using assms(1) di(1) dn set_swap_remove[OF i(1)] unfolding wf_registry_def st' by auto
    have "arws_get_backend j st' = arws_get_backend j st" if "j \<noteq> k" for j
    proof (rule get_backend_ext)
      fix b :: ArwsBackend assume b: "be_id b = j"
      have "mset (backends st') = mset (backends st) - {#backends st ! i#}"
        by (simp add: st' mset_swap_remove i(1))
      moreover have "backends st ! i \<noteq> b" using b that i(2) by auto
      ultimately show "b \<in> set (backends st) \<longleftrightarrow> b \<in> set (backends st')"
        by (metis in_diff_count count_diff count_greater_zero_iff diff_zero count_single set_mset_mset)
    qed (use d(1) di(1) st' in simp_all)
    moreover have "k \<notin> be_id ` set (backends st')" using di(2) i(2) by (simp add: st')
    then have "arws_get_backend k st' = None"
      using get_backend_iff[of st' k] di(1) by (cases "arws_get_backend k st'") (auto simp: st')
    ultimately show ?thesis using wf' by (auto simp: fun_eq_iff)
  qed
  then show "wf_registry st'" "(\<lambda>j. arws_get_backend j st') = (\<lambda>j. arws_get_backend j st)(k := None)" by blast+
qed

lemma registry_update_fd:
  assumes wf: "wf_registry st" and i: "i < length (backends st)" and fd: "0 \<le> fd"
    and st': "st' = st\<lparr>backends := (backends st)[i := (backends st ! i)\<lparr>be_fd := fd\<rparr>]\<rparr>"
  shows "wf_registry st'"
proof -
  have "map be_id (backends st') = map be_id (backends st)" "map be_name (backends st') = map be_name (backends st)"
    using i by (auto simp: st' map_update list_update_same_conv)
  moreover have "set (backends st') \<subseteq> insert ((backends st ! i)\<lparr>be_fd := fd\<rparr>) (set (backends st))"
    unfolding st' by (simp add: set_update_subset_insert)
  moreover have "backends st ! i \<in> set (backends st)" using i by simp
  ultimately show ?thesis using wf fd unfolding wf_registry_def by (auto simp: st')
qed

lemma wf_register:
  assumes wf: "wf_registry st" and "length name < 64" and ex: "arws_register_backend name fd st = (k, st')"
  shows "wf_registry st'"
    "k \<noteq> -1 \<Longrightarrow> 1 \<le> k \<and> arws_find_backend_by_name name st' = fd \<and>
       (\<exists>b. (\<lambda>j. arws_get_backend j st') = (\<lambda>j. arws_get_backend j st)(k \<mapsto> b) \<and> be_name b = name \<and> be_fd b = fd)"
proof -
  have d: "distinct (map be_id (backends st))" using wf by (simp add: wf_registry_def)
  have reg: "registered b" if "b \<in> set (backends st)" for b using wf that by (simp add: wf_registry_def)
  consider (neg) "fd < 0" | (old) i where "0 \<le> fd" "first_idx (\<lambda>b. be_name b = name) (backends st) = Some i"
    | (full) "0 \<le> fd" "first_idx (\<lambda>b. be_name b = name) (backends st) = None" "64 \<le> length (backends st)"
    | (new) "0 \<le> fd" "first_idx (\<lambda>b. be_name b = name) (backends st) = None" "length (backends st) < 64"
    by (cases "first_idx (\<lambda>b. be_name b = name) (backends st)") force+
  then have "wf_registry st' \<and> (k \<noteq> -1 \<longrightarrow> 1 \<le> k \<and> arws_find_backend_by_name name st' = fd \<and>
       (\<exists>b. (\<lambda>j. arws_get_backend j st') = (\<lambda>j. arws_get_backend j st)(k \<mapsto> b) \<and> be_name b = name \<and> be_fd b = fd))"
  proof cases
    case neg
    with ex wf show ?thesis by (simp add: arws_register_backend_def)
  next
    case full
    then have "first_idx (\<lambda>b. registered b \<and> be_name b = name) (backends st) = None" by (simp add: first_idx_None_iff)
    with full ex wf show ?thesis by (simp add: arws_register_backend_def)
  next
    case (old i)
    note i = first_idx_SomeD(1,2)[OF old(2)]
    have "first_idx (\<lambda>b. registered b \<and> be_name b = name) (backends st) = Some i"
      using old(2) reg first_idx_cong[of "backends st" "\<lambda>b. registered b \<and> be_name b = name" "\<lambda>b. be_name b = name"] by simp
    with old ex have k: "k = be_id (backends st ! i)" and
      st': "st' = st\<lparr>backends := (backends st)[i := (backends st ! i)\<lparr>be_fd := fd\<rparr>]\<rparr>"
      by (simp_all add: arws_register_backend_def)
    note wf' = registry_update_fd[OF wf i(1) old(1) st']
    have d': "distinct (map be_id (backends st'))" using wf' by (simp add: wf_registry_def)
    let ?b = "(backends st ! i)\<lparr>be_fd := fd\<rparr>"
    have bi: "?b \<in> set (backends st')" using i(1) by (auto simp: st' set_update_memI)
    then have "arws_get_backend k st' = Some ?b" using get_backend_iff[OF d'] by (simp add: k)
    moreover have "arws_get_backend j st' = arws_get_backend j st" if "j \<noteq> k" for j
    proof (rule get_backend_ext[OF d d'])
      fix b :: ArwsBackend assume b: "be_id b = j"
      have "b \<in> set (backends st) \<Longrightarrow> b \<in> set (backends st')"
        using b that by (auto simp: in_set_conv_nth st' k) (metis nth_list_update_neq)
      moreover have "b \<in> set (backends st') \<Longrightarrow> b \<in> set (backends st)"
        using b that set_update_subset_insert[of "backends st" i ?b] by (auto simp: st' k)
      ultimately show "b \<in> set (backends st) \<longleftrightarrow> b \<in> set (backends st')" by blast
    qed
    moreover have "first_idx (\<lambda>b. be_name b = name) (backends st') = Some i"
      using old(2) unfolding first_idx_Some_iff by (auto simp: st' nth_list_update)
    then have "arws_find_backend_by_name name st' = fd" using i by (simp add: arws_find_backend_by_name_def st')
    moreover have "1 \<le> k" using wf i(1) by (auto simp: wf_registry_def k)
    ultimately show ?thesis using wf' i(2) by (auto simp: fun_eq_iff intro!: exI[of _ ?b])
  next
    case new
    let ?b = "\<lparr>be_id = next_backend_id st, be_fd = fd, be_pid = 0, be_name = name, registered = True\<rparr>"
    have no: "\<forall>b \<in> set (backends st). be_name b \<noteq> name" using new(2) by (simp add: first_idx_None_iff)
    then have "first_idx (\<lambda>b. registered b \<and> be_name b = name) (backends st) = None" by (simp add: first_idx_None_iff)
    with new ex assms(2) have k: "k = next_backend_id st" and
      st': "st' = \<lparr>backends = backends st @ [?b], next_backend_id = next_backend_id st + 1\<rparr>"
      by (auto simp: arws_register_backend_def)
    have wf': "wf_registry st'" using wf new(1,3) no assms(2) by (fastforce simp: wf_registry_def st')
    have d': "distinct (map be_id (backends st'))" using wf' by (simp add: wf_registry_def)
    have "arws_get_backend k st' = Some ?b" using get_backend_iff[OF d'] by (simp add: k st')
    moreover have "arws_get_backend j st' = arws_get_backend j st" if "j \<noteq> k" for j
      by (rule get_backend_ext[OF d d']) (use that in \<open>auto simp: st' k\<close>)
    moreover have "arws_find_backend_by_name name st' = fd"
      using new(2) by (simp add: arws_find_backend_by_name_def st' first_idx_append nth_append)
    moreover have "1 \<le> k" using wf by (simp add: wf_registry_def k)
    ultimately show ?thesis using wf' by (auto simp: fun_eq_iff intro!: exI[of _ ?b])
  qed
  then show "wf_registry st'" "k \<noteq> -1 \<Longrightarrow> 1 \<le> k \<and> arws_find_backend_by_name name st' = fd \<and>
       (\<exists>b. (\<lambda>j. arws_get_backend j st') = (\<lambda>j. arws_get_backend j st)(k \<mapsto> b) \<and> be_name b = name \<and> be_fd b = fd)" by blast+
qed

lemma wf_registry_step: "registry_step st st' \<Longrightarrow> wf_registry st \<Longrightarrow> wf_registry st'"
proof (induction rule: registry_step.induct)
  case (3 st fds st')
  then show ?case by (auto simp: arws_close_all_backends_def wf_registry_def)
qed (auto intro: wf_register(1) wf_unregister(1))

section \<open>Reading a response\<close>

lemma scan_header_end_iff:
  "scan_header_end buf = (if suffix CRLF2 buf then Some (length buf) else None)"
proof (cases "length buf \<ge> 4")
  case True
  then have lo: "(if length buf > 4 then length buf - 4 else 0) = length buf - 4" and
    r: "[length buf - 4..<length buf - 3] = [length buf - 4]" using upt_rec[of "length buf - 4"] by auto
  have "take 4 (drop (length buf - 4) buf) = CRLF2 \<longleftrightarrow> suffix CRLF2 buf"
  proof
    assume "take 4 (drop (length buf - 4) buf) = CRLF2"
    then have "drop (length buf - 4) buf = CRLF2" using True by simp
    then show "suffix CRLF2 buf" by (metis suffix_drop)
  qed (auto simp: suffix_def)
  then show ?thesis unfolding scan_header_end_def Let_def lo r using True by simp
next
  case False
  then have "\<not> suffix CRLF2 buf" by (auto dest: suffix_length_le)
  with False show ?thesis by (simp add: scan_header_end_def Let_def)
qed

section \<open>Properties: the registry\<close>

text \<open>The registry stays consistent. In every state reachable by registrations,
  unregistrations and shutdowns there are at most 64 backends, their identifiers are positive,
  pairwise different and below the next identifier, and their names are pairwise different.\<close>

theorem registry_reachable_wf:
  assumes "registry_step\<^sup>*\<^sup>* arws_registry_init st"
  shows "wf_registry st"
  using assms
proof (induction rule: rtranclp_induct)
  case base
  show ?case by (simp add: wf_registry_def arws_registry_init_def)
qed (blast intro: wf_registry_step)

theorem registry_reachable_wf_witness:
  "wf_registry (snd (arws_register_backend ''api'' 7 arws_registry_init))"
proof -
  have "registry_step arws_registry_init (snd (arws_register_backend ''api'' 7 arws_registry_init))"
    by (rule registry_step.intros(1)[of "''api''" 7 _ "fst (arws_register_backend ''api'' 7 arws_registry_init)"]) simp_all
  then show ?thesis using registry_reachable_wf by blast
qed

text \<open>C33: The array with removal by swapping implements a finite map from identifiers to backends:
  a successful registration maps the returned identifier to a backend with the given name and
  descriptor, which is then found by name; unregistering removes exactly that identifier; every
  other identifier keeps its backend.\<close>

theorem registry_refines_map:
  assumes "wf_registry st"
  shows "(length name < 64 \<and> arws_register_backend name fd st = (k, st') \<and> k \<noteq> -1 \<longrightarrow>
            1 \<le> k \<and> arws_find_backend_by_name name st' = fd \<and> arws_get_backend_fd k st' = fd \<and>
            (\<exists>b. (\<lambda>j. arws_get_backend j st') = (\<lambda>j. arws_get_backend j st)(k \<mapsto> b) \<and>
                 be_name b = name \<and> be_fd b = fd)) \<and>
         (\<lambda>j. arws_get_backend j (snd (arws_unregister_backend u st))) =
            (\<lambda>j. arws_get_backend j st)(u := None)"
proof -
  have "1 \<le> k \<and> arws_find_backend_by_name name st' = fd \<and> arws_get_backend_fd k st' = fd \<and>
       (\<exists>b. (\<lambda>j. arws_get_backend j st') = (\<lambda>j. arws_get_backend j st)(k \<mapsto> b) \<and> be_name b = name \<and> be_fd b = fd)"
    if "length name < 64" "arws_register_backend name fd st = (k, st')" "k \<noteq> -1"
  proof -
    from wf_register(2)[OF assms that] obtain b where
      b: "(\<lambda>j. arws_get_backend j st') = (\<lambda>j. arws_get_backend j st)(k \<mapsto> b)" "be_name b = name" "be_fd b = fd"
      and r: "1 \<le> k" "arws_find_backend_by_name name st' = fd" by blast
    have "arws_get_backend k st' = Some b" using fun_cong[OF b(1), of k] by simp
    then have "arws_get_backend_fd k st' = fd" using b(3) by (simp add: get_backend_fd_map)
    with b r show ?thesis by blast
  qed
  moreover obtain rc st2 where "arws_unregister_backend u st = (rc, st2)" by fastforce
  ultimately show ?thesis using wf_unregister(2)[OF assms] by auto
qed

theorem registry_refines_map_witness:
  "arws_get_backend_fd 1 (snd (arws_register_backend ''api'' 7 arws_registry_init)) = 7"
proof -
  have "arws_register_backend ''api'' 7 arws_registry_init = (1, snd (arws_register_backend ''api'' 7 arws_registry_init))"
    by (simp add: arws_register_backend_def arws_registry_init_def)
  moreover have "wf_registry arws_registry_init" by (simp add: wf_registry_def arws_registry_init_def)
  ultimately show ?thesis using registry_refines_map[of arws_registry_init "''api''" 7 1] by auto
qed

text \<open>A response that arrives with its body in one piece is not recognised as complete. The
  end of the headers is searched only in the last four bytes received, so after a first chunk
  with headers and body the loop calls \<open>recv\<close> again, whatever the Content-Length says; a
  backend that keeps the connection open leaves the reader waiting.\<close>

theorem read_response_overlooks_headers:
  assumes "recv 0 maxlen = hdr @ CRLF2 @ body" and "body \<noteq> []" and "\<not> suffix CRLF2 (hdr @ CRLF2 @ body)"
    and "length (hdr @ CRLF2 @ body) < maxlen"
  shows "2 \<le> snd (read_http_response recv maxlen)"
proof -
  let ?c = "hdr @ CRLF2 @ body"
  have mono: "i \<le> snd (read_loop recv maxlen i buf he)" for i buf he
  proof (induction recv maxlen i buf he rule: read_loop.induct)
    case (1 recv maxlen i buf he)
    show ?case
      by (subst read_loop.simps) (use 1 in \<open>auto simp: Let_def split: option.splits intro: Suc_leD\<close>)
  qed
  have "read_http_response recv maxlen = read_loop recv maxlen 1 ?c None"
    unfolding read_http_response_def
    by (subst read_loop.simps) (use assms in \<open>simp add: Let_def scan_header_end_iff\<close>)
  moreover have "2 \<le> snd (read_loop recv maxlen 1 ?c None)"
    by (subst read_loop.simps) (use assms(4) mono[of 2] in \<open>auto simp: Let_def numeral_2_eq_2 split: option.splits\<close>)
  ultimately show ?thesis by simp
qed

theorem read_response_overlooks_headers_witness:
  "2 \<le> snd (read_http_response (\<lambda>i n. if i = 0 then ''HTTP/1.1 200 OK'' @ CRLF2 @ ''hi'' else []) 4096)"
  using read_response_overlooks_headers[of "\<lambda>i n. if i = 0 then ''HTTP/1.1 200 OK'' @ CRLF2 @ ''hi'' else []" 4096
      "''HTTP/1.1 200 OK''" "''hi''"] by (simp add: suffix_Cons)

end
