(* ===== verification/Http_Types.thy ===== *)
theory Http_Types
  imports Arws_Prelude
begin

text \<open>
  The request as the server hands it to the gateway (\<open>HttpRequest\<close> of \<open>src/src/server.h\<close>). The
  arrays with their counters are lists; pointers that may be NULL are options.
\<close>

record HttpRequest =
  rq_method :: string
  rq_path :: string
  rq_query :: "string option"
  rq_cookies :: "string option"
  rq_body :: "string option"
  rq_headers :: "(string \<times> string) list"
  rq_path_params :: "(string \<times> string) list"
  rq_parsed_query :: "(string \<times> string) list"
  rq_host :: string

definition empty_request :: HttpRequest where
  "empty_request = \<lparr>rq_method = [], rq_path = [], rq_query = None, rq_cookies = None, rq_body = None,
     rq_headers = [], rq_path_params = [], rq_parsed_query = [], rq_host = []\<rparr>"

end
