(* ===== verification/Router_Ex.thy ===== *)
theory Router_Ex
  imports Http_Types
begin

text \<open>
  The gateway's route table, \<open>src/src/router_ex.c\<close>: 256 chains of routes, matching by method,
  host, path and mode, priorities, and rotation among equally good routes. The table is a list
  of chains, the head of a chain first. \<open>ar_mem_alloc\<close> is not part of the sources: the fields an
  operation does not write keep the contents of the new node, the parameter \<open>mem\<close>.
\<close>

section \<open>Data\<close>

record ArwsRoute =
  ro_prefix :: string
  ro_method :: string
  ro_host :: string
  ro_mode :: string
  ro_backend_id :: int
  use_handler :: bool
  use_stream :: bool
  use_redirect :: bool
  proxy_target :: string
  redirect_target :: string
  ro_handler :: "string option"

record route_state =
  route_table :: "ArwsRoute list list"
  rr_counter :: int

abbreviation (input) ROUTE_HASH_SIZE :: nat where "ROUTE_HASH_SIZE \<equiv> 256"
abbreviation (input) MAX_CANDIDATES :: nat where "MAX_CANDIDATES \<equiv> 64"

definition opt_str :: "string option \<Rightarrow> string" where
  "opt_str s = (case s of None \<Rightarrow> [] | Some t \<Rightarrow> t)"

definition hash_route ::
  "string \<Rightarrow> string \<Rightarrow> string option \<Rightarrow> string option \<Rightarrow> nat" where
  "hash_route pref method host mode =
     unat (djb2_from (djb2_from (djb2_from (djb2_from 5381 pref) method) (opt_str host)) (opt_str mode))
       mod ROUTE_HASH_SIZE"

definition arws_route_init :: "route_state \<Rightarrow> route_state" where
  "arws_route_init st = st\<lparr>route_table := replicate ROUTE_HASH_SIZE []\<rparr>"

section \<open>Adding and removing routes\<close>

definition normalize_prefix :: "string \<Rightarrow> string" where
  "normalize_prefix pref =
     (if pref = ''*'' then ''/*''
      else if pref = [] \<or> hd pref \<noteq> CHR ''/'' \<and> hd pref \<noteq> CHR ''*''
      then buf_copy 256 (CHR ''/'' # pref)
      else pref)"

text \<open>The fields every kind of route sets from its arguments.\<close>

definition route_node ::
  "ArwsRoute \<Rightarrow> string \<Rightarrow> string \<Rightarrow> string option \<Rightarrow> string option \<Rightarrow> ArwsRoute" where
  "route_node mem pref method host mode =
     mem\<lparr>ro_prefix := buf_copy 256 pref, ro_method := buf_copy 16 method,
         ro_host := buf_copy 256 (opt_str host), ro_mode := buf_copy 16 (opt_str mode)\<rparr>"

definition push_route :: "nat \<Rightarrow> ArwsRoute \<Rightarrow> route_state \<Rightarrow> route_state" where
  "push_route idx node st =
     st\<lparr>route_table := (route_table st)[idx := node # (route_table st ! idx)]\<rparr>"

definition arws_add_redirect_route ::
  "ArwsRoute option \<Rightarrow> string \<Rightarrow> string \<Rightarrow> string option \<Rightarrow> string option \<Rightarrow> string
    \<Rightarrow> route_state \<Rightarrow> int \<times> route_state" where
  "arws_add_redirect_route mem pref method host mode target_url st =
     (case mem of None \<Rightarrow> (-1, st)
      | Some m \<Rightarrow>
          let p = normalize_prefix pref;
              node = (route_node m p method host mode)
                \<lparr>ro_backend_id := -1, use_handler := False, use_stream := False, use_redirect := True,
                 ro_handler := None, redirect_target := buf_copy 256 target_url\<rparr>
          in (0, push_route (hash_route p method host mode) node st))"

definition arws_add_route ::
  "ArwsRoute option \<Rightarrow> string \<Rightarrow> string \<Rightarrow> string option \<Rightarrow> string option \<Rightarrow> int
    \<Rightarrow> route_state \<Rightarrow> int \<times> route_state" where
  "arws_add_route mem pref method host mode backend_id st =
     (case mem of None \<Rightarrow> (-1, st)
      | Some m \<Rightarrow>
          let p = normalize_prefix pref;
              node = (route_node m p method host mode)
                \<lparr>ro_backend_id := backend_id, use_handler := False, use_stream := False,
                 use_redirect := False, ro_handler := None\<rparr>
          in (0, push_route (hash_route p method host mode) node st))"

definition arws_add_proxy_route ::
  "ArwsRoute option \<Rightarrow> string \<Rightarrow> string \<Rightarrow> string option \<Rightarrow> string option \<Rightarrow> string
    \<Rightarrow> route_state \<Rightarrow> int \<times> route_state" where
  "arws_add_proxy_route mem pref method host mode target_url st =
     (case mem of None \<Rightarrow> (-1, st)
      | Some m \<Rightarrow>
          let p = normalize_prefix pref;
              node = (route_node m p method host mode)
                \<lparr>ro_backend_id := -1, use_handler := False, use_stream := False, use_redirect := False,
                 ro_handler := None, proxy_target := buf_copy 256 target_url\<rparr>
          in (0, push_route (hash_route p method host mode) node st))"

definition arws_add_stream_route ::
  "ArwsRoute option \<Rightarrow> string \<Rightarrow> string \<Rightarrow> string option \<Rightarrow> string option \<Rightarrow> string
    \<Rightarrow> route_state \<Rightarrow> int \<times> route_state" where
  "arws_add_stream_route mem pref method host mode target_url st =
     (case mem of None \<Rightarrow> (-1, st)
      | Some m \<Rightarrow>
          let p = normalize_prefix pref;
              node = (route_node m p method host mode)
                \<lparr>ro_backend_id := -1, use_handler := False, use_stream := True, use_redirect := False,
                 ro_handler := None, proxy_target := buf_copy 256 target_url\<rparr>
          in (0, push_route (hash_route p method host mode) node st))"

text \<open>Handlers are C function pointers, here their names; their prefix is not normalised.\<close>

definition arws_add_handler ::
  "ArwsRoute option \<Rightarrow> string \<Rightarrow> string \<Rightarrow> string option \<Rightarrow> string option \<Rightarrow> string
    \<Rightarrow> route_state \<Rightarrow> int \<times> route_state" where
  "arws_add_handler mem pref method host mode handler st =
     (case mem of None \<Rightarrow> (-1, st)
      | Some m \<Rightarrow>
          let node = (route_node m pref method host mode)
                \<lparr>ro_backend_id := -1, use_handler := True, use_stream := False, use_redirect := False,
                 ro_handler := Some handler\<rparr>
          in (0, push_route (hash_route pref method host mode) node st))"

definition route_named :: "string \<Rightarrow> string \<Rightarrow> string option \<Rightarrow> ArwsRoute \<Rightarrow> bool" where
  "route_named pref method host r \<longleftrightarrow> ro_prefix r = pref \<and> ro_method r = method \<and>
     (host = None \<or> ro_host r = [] \<or> host = Some (ro_host r))"

definition arws_remove_route ::
  "string \<Rightarrow> string \<Rightarrow> string option \<Rightarrow> route_state \<Rightarrow> int \<times> route_state" where
  "arws_remove_route pref method host st =
     (let idx = hash_route pref method host None; chain = route_table st ! idx in
      case first_idx (route_named pref method host) chain of
        Some i \<Rightarrow> (0, st\<lparr>route_table := (route_table st)[idx := take i chain @ drop (Suc i) chain]\<rparr>)
      | None \<Rightarrow> (-1, st))"

definition arws_remove_routes_by_backend :: "int \<Rightarrow> route_state \<Rightarrow> nat \<times> route_state" where
  "arws_remove_routes_by_backend backend_id st =
     (sum_list (map (\<lambda>chain. length (filter (\<lambda>r. ro_backend_id r = backend_id) chain)) (route_table st)),
      st\<lparr>route_table := map (filter (\<lambda>r. ro_backend_id r \<noteq> backend_id)) (route_table st)\<rparr>)"

section \<open>Matching\<close>

definition is_loopback_host :: "string \<Rightarrow> bool" where
  "is_loopback_host host =
     (if host = [] then False
      else strcaseeq host ''localhost'' \<or> strcaseeq host ''0.0.0.0'' \<or>
           strcaseeq host ''::1'' \<or> strcaseeq host ''[::1]'' \<or> strneq host ''127.'' 4)"

definition route_host_matches :: "string \<Rightarrow> string \<Rightarrow> bool" where
  "route_host_matches route_host req_host =
     (if req_host = [] then route_host = [] \<or> route_host = ''*''
      else if route_host = [] \<or> route_host = ''*'' then True
      else if strcaseeq route_host req_host then True
      else if is_loopback_host route_host \<and> is_loopback_host req_host then True
      else if (case (strchr route_host CHR ''.'', strchr req_host CHR ''.'') of
                 (Some r_dot, Some q_dot) \<Rightarrow>
                   let r_len = length route_host - length r_dot; q_len = length req_host - length q_dot
                   in r_len = q_len \<and> strncaseeq route_host req_host r_len \<and>
                      is_loopback_host (tl r_dot) \<and> is_loopback_host (tl q_dot)
               | _ \<Rightarrow> False) then True
      else strncaseeq req_host ''www.'' 4 \<and> strcaseeq route_host (drop 4 req_host))"

definition route_path_matches :: "string \<Rightarrow> string \<Rightarrow> bool" where
  "route_path_matches pref req_path =
     (let n = length pref in
      if n = 0 then True
      else if last pref = CHR ''*'' then strneq pref req_path (n - 1)
      else if pref = req_path then True
      else if n > 1 \<and> strneq pref req_path n
      then length req_path = n \<or> req_path ! n = CHR ''/'' \<or> req_path ! n = CHR ''?'' \<or> last pref = CHR ''/''
      else False)"

definition route_effective :: "ArwsRoute \<Rightarrow> nat" where
  "route_effective r =
     (let plen = length (ro_prefix r)
      in if plen > 0 \<and> last (ro_prefix r) = CHR ''*'' then plen - 1 else plen)"

definition specific_host :: "ArwsRoute \<Rightarrow> bool" where
  "specific_host r \<longleftrightarrow> ro_host r \<noteq> [] \<and> ro_host r \<noteq> ''*''"

definition route_priority :: "ArwsRoute \<Rightarrow> string \<Rightarrow> int" where
  "route_priority r path =
     (let eff = route_effective r;
          is_exact = (eff = length path \<and> strneq (ro_prefix r) path eff)
      in int eff * 1000 + (if is_exact then 50000 else 0) + (if specific_host r then 100 else 0))"

definition route_mode_matches :: "string \<Rightarrow> ArwsRoute \<Rightarrow> bool" where
  "route_mode_matches effective_mode r \<longleftrightarrow>
     ro_mode r = [] \<or> use_stream r \<or> proxy_target r \<noteq> [] \<or> ro_mode r = effective_mode \<or> ro_mode r = ''*''"

definition route_applies :: "HttpRequest \<Rightarrow> string \<Rightarrow> ArwsRoute \<Rightarrow> bool" where
  "route_applies req effective_mode r \<longleftrightarrow>
     (ro_method r = rq_method req \<or> ro_method r = ''*'') \<and>
     route_host_matches (ro_host r) (rq_host req) \<and>
     route_path_matches (ro_prefix r) (rq_path req) \<and> route_mode_matches effective_mode r"

fun route_scan ::
  "HttpRequest \<Rightarrow> string \<Rightarrow> int \<Rightarrow> ArwsRoute list \<Rightarrow> ArwsRoute list \<Rightarrow> int \<times> ArwsRoute list" where
  "route_scan req mode best cands [] = (best, cands)"
| "route_scan req mode best cands (r # rs) =
     (if route_applies req mode r
      then let prio = route_priority r (rq_path req) in
        if prio > best then route_scan req mode prio [r] rs
        else if prio = best \<and> length cands < MAX_CANDIDATES
        then route_scan req mode best (cands @ [r]) rs
        else route_scan req mode best cands rs
      else route_scan req mode best cands rs)"

text \<open>The return code (0 no route, 1 a route, 2 a handler route) with the route.\<close>

definition arws_route_match ::
  "HttpRequest \<Rightarrow> string \<Rightarrow> route_state \<Rightarrow> mem_error + (int \<times> ArwsRoute option \<times> route_state)" where
  "arws_route_match req effective_mode st =
     (let cands = snd (route_scan req effective_mode (-1) [] (concat (route_table st))) in
      if cands = [] then Inr (0, None, st)
      else let idx = crem (rr_counter st) (int (length cands)) in
        if idx < 0 then Inl OutOfBounds
        else let r = cands ! nat idx
             in Inr (if use_handler r then 2 else 1, Some r, st\<lparr>rr_counter := cinc32 (rr_counter st)\<rparr>))"

end
