(* ===== verification/Route_Laws.thy ===== *)
theory Route_Laws
  imports Router_Ex
begin

text \<open>
  Correctness of the route table: the scan keeps the best candidates, priorities order routes by
  the length of the matched prefix, and removal by backend is complete.
\<close>

section \<open>Lemmas\<close>

lemma route_priority_nonneg: "0 \<le> route_priority r p"
  by (simp add: route_priority_def Let_def)

lemma route_scan_step:
  obtains best1 cands1 where "route_scan req m best cands (r # rs) = route_scan req m best1 cands1 rs"
    "best \<le> best1" "route_applies req m r \<longrightarrow> route_priority r (rq_path req) \<le> best1"
    "\<forall>x \<in> set cands1. (x \<in> set cands \<and> best1 = best) \<or>
       (x = r \<and> route_applies req m r \<and> route_priority r (rq_path req) = best1)"
    "cands1 = [] \<longrightarrow> cands = [] \<and> best1 = best"
proof -
  let ?p = "route_priority r (rq_path req)"
  consider (skip) "\<not> route_applies req m r \<or> ?p < best \<or> ?p = best \<and> \<not> length cands < 64"
    | (better) "route_applies req m r" "best < ?p"
    | (tie) "route_applies req m r" "?p = best" "length cands < 64" by force
  then show thesis
  proof cases
    case skip
    show ?thesis by (rule that[of best cands]) (use skip in \<open>auto simp: Let_def\<close>)
  next
    case better
    show ?thesis by (rule that[of ?p "[r]"]) (use better in \<open>auto simp: Let_def\<close>)
  next
    case tie
    show ?thesis by (rule that[of best "cands @ [r]"]) (use tie in \<open>auto simp: Let_def\<close>)
  qed
qed

lemma route_scan_spec:
  "route_scan req m best cands rs = (b, c) \<Longrightarrow>
     best \<le> b \<and> (\<forall>r \<in> set rs. route_applies req m r \<longrightarrow> route_priority r (rq_path req) \<le> b) \<and>
     (\<forall>r \<in> set c. (r \<in> set cands \<and> b = best) \<or>
       (r \<in> set rs \<and> route_applies req m r \<and> route_priority r (rq_path req) = b)) \<and>
     (c = [] \<longrightarrow> cands = [] \<and> b = best)"
proof (induction rs arbitrary: best cands)
  case (Cons r rs)
  obtain best1 cands1 where st: "route_scan req m best cands (r # rs) = route_scan req m best1 cands1 rs"
    "best \<le> best1" "route_applies req m r \<longrightarrow> route_priority r (rq_path req) \<le> best1"
    "\<forall>x \<in> set cands1. (x \<in> set cands \<and> best1 = best) \<or>
       (x = r \<and> route_applies req m r \<and> route_priority r (rq_path req) = best1)"
    "cands1 = [] \<longrightarrow> cands = [] \<and> best1 = best" by (rule route_scan_step)
  from Cons.IH[of best1 cands1] Cons.prems st(1) have ih: "best1 \<le> b"
    "\<forall>r \<in> set rs. route_applies req m r \<longrightarrow> route_priority r (rq_path req) \<le> b"
    "\<forall>x \<in> set c. (x \<in> set cands1 \<and> b = best1) \<or> (x \<in> set rs \<and> route_applies req m x \<and> route_priority x (rq_path req) = b)"
    "c = [] \<longrightarrow> cands1 = [] \<and> b = best1" by auto
  show ?case
  proof (intro conjI ballI)
    show "best \<le> b" using ih(1) st(2) by simp
    show "route_applies req m x \<longrightarrow> route_priority x (rq_path req) \<le> b" if "x \<in> set (r # rs)" for x
      using that ih(1,2) st(3) by auto
    show "(x \<in> set cands \<and> b = best) \<or> (x \<in> set (r # rs) \<and> route_applies req m x \<and> route_priority x (rq_path req) = b)"
      if "x \<in> set c" for x using ih(3) st(4) that by fastforce
    show "c = [] \<longrightarrow> cands = [] \<and> b = best" using ih(4) st(5) by simp
  qed
qed simp

lemma route_scan_inv:
  assumes "route_scan req m best cands rs = (b, c)"
  shows "best \<le> b" "\<And>r. r \<in> set rs \<Longrightarrow> route_applies req m r \<Longrightarrow> route_priority r (rq_path req) \<le> b"
    "\<And>r. r \<in> set c \<Longrightarrow> (r \<in> set cands \<and> b = best) \<or>
       (r \<in> set rs \<and> route_applies req m r \<and> route_priority r (rq_path req) = b)"
    "c = [] \<Longrightarrow> cands = [] \<and> b = best"
  using route_scan_spec[OF assms] by auto

lemma path_match_prefix:
  assumes "route_path_matches (ro_prefix r) p"
  shows "route_effective r \<le> length p" "strneq (ro_prefix r) p (route_effective r)"
proof -
  have len: "k \<le> length p" if "strneq (ro_prefix r) p k" "k \<le> length (ro_prefix r)" for k
    using that by (metis strneq_def length_take min.absorb2 min.cobounded1 min.commute)
  have "strneq (ro_prefix r) p (route_effective r)"
    using assms by (auto simp: route_path_matches_def route_effective_def Let_def strneq_def split: if_splits)
  then show "strneq (ro_prefix r) p (route_effective r)" "route_effective r \<le> length p"
    using len by (auto simp: route_effective_def Let_def)
qed

lemma route_priority_match:
  assumes "route_path_matches (ro_prefix r) p"
  shows "route_priority r p = int (route_effective r) * 1000 +
    (if route_effective r = length p then 50000 else 0) + (if specific_host r then 100 else 0)"
  using path_match_prefix[OF assms] by (simp add: route_priority_def Let_def)

lemma route_priority_order:
  assumes "route_path_matches (ro_prefix r) p" "route_path_matches (ro_prefix r') p"
    and "route_priority r' p \<le> route_priority r p"
  shows "route_effective r' \<le> route_effective r \<and>
    (route_effective r' = route_effective r \<and> specific_host r' \<longrightarrow> specific_host r)"
  using assms(3) path_match_prefix(1)[OF assms(1)] path_match_prefix(1)[OF assms(2)]
  unfolding route_priority_match[OF assms(1)] route_priority_match[OF assms(2)]
  by (auto split: if_splits)

section \<open>Properties: routing\<close>

text \<open>C5: Routing finds the most specific route. As long as the rotation counter has not
  wrapped, matching returns without a memory error; it reports no route only if no route
  applies to the request, and otherwise returns a route that applies, whose matched prefix is
  at least as long as that of every other applicable route, and which names a specific host
  if an equally long one does.\<close>

theorem route_match_longest:
  assumes "0 \<le> rr_counter st"
  shows "\<exists>code ro st'. arws_route_match req mode st = Inr (code, ro, st') \<and>
    (case ro of
       None \<Rightarrow> code = 0 \<and> (\<forall>r \<in> set (concat (route_table st)). \<not> route_applies req mode r)
     | Some r \<Rightarrow> r \<in> set (concat (route_table st)) \<and> route_applies req mode r \<and>
         code = (if use_handler r then 2 else 1) \<and>
         (\<forall>r' \<in> set (concat (route_table st)). route_applies req mode r' \<longrightarrow>
            route_effective r' \<le> route_effective r \<and>
            (route_effective r' = route_effective r \<and> specific_host r' \<longrightarrow> specific_host r)))"
proof -
  let ?rs = "concat (route_table st)"
  obtain b c where sc: "route_scan req mode (-1) [] ?rs = (b, c)" by fastforce
  note inv = route_scan_inv[OF sc]
  show ?thesis
  proof (cases "c = []")
    case True
    have "\<not> route_applies req mode r" if "r \<in> set ?rs" for r
      using inv(2)[OF that] inv(4)[OF True] route_priority_nonneg[of r "rq_path req"] by linarith
    then show ?thesis using True sc by (simp add: arws_route_match_def Let_def)
  next
    case False
    define r where "r = c ! nat (crem (rr_counter st) (int (length c)))"
    have "0 \<le> crem (rr_counter st) (int (length c))" "crem (rr_counter st) (int (length c)) < int (length c)"
      using crem_bounds[OF assms, of "int (length c)"] False by auto
    then have idx: "\<not> crem (rr_counter st) (int (length c)) < 0" and rc: "r \<in> set c"
      by (auto simp: r_def)
    have "r \<in> set ?rs \<and> route_applies req mode r \<and> route_priority r (rq_path req) = b"
      using inv(3)[OF rc] by simp
    moreover from this have "route_effective r' \<le> route_effective r \<and>
            (route_effective r' = route_effective r \<and> specific_host r' \<longrightarrow> specific_host r)"
      if "r' \<in> set ?rs" "route_applies req mode r'" for r'
      using route_priority_order[of r "rq_path req" r'] inv(2)[OF that] that(2) by (simp add: route_applies_def)
    moreover have "arws_route_match req mode st =
        Inr (if use_handler r then 2 else 1, Some r, st\<lparr>rr_counter := cinc32 (rr_counter st)\<rparr>)"
      using sc False idx by (simp add: arws_route_match_def Let_def r_def)
    ultimately show ?thesis by (simp del: set_concat)
  qed
qed

definition demo_route :: "string \<Rightarrow> int \<Rightarrow> ArwsRoute" where
  "demo_route pref b = \<lparr>ro_prefix = pref, ro_method = ''*'', ro_host = [], ro_mode = [], ro_backend_id = b,
     use_handler = False, use_stream = False, use_redirect = False, proxy_target = [], redirect_target = [],
     ro_handler = None\<rparr>"

theorem route_match_longest_witness:
  "\<exists>code st'. arws_route_match (empty_request\<lparr>rq_method := ''GET'', rq_path := ''/api/v1''\<rparr>) ''web''
     \<lparr>route_table = [[demo_route ''/*'' 1], [demo_route ''/api'' 2]], rr_counter = 0\<rparr> =
     Inr (code, Some (demo_route ''/api'' 2), st')"
proof -
  let ?st = "\<lparr>route_table = [[demo_route ''/*'' 1], [demo_route ''/api'' 2]], rr_counter = 0\<rparr>"
  let ?req = "empty_request\<lparr>rq_method := ''GET'', rq_path := ''/api/v1''\<rparr>"
  have a: "route_applies ?req ''web'' (demo_route ''/api'' 2)"
    by (simp add: route_applies_def demo_route_def empty_request_def route_host_matches_def
        route_path_matches_def route_mode_matches_def strneq_def Let_def)
  have e: "route_effective (demo_route ''/api'' 2) = 4" "route_effective (demo_route ''/*'' 1) = 1"
    by (simp_all add: route_effective_def demo_route_def Let_def)
  have "0 \<le> rr_counter ?st" by simp
  from route_match_longest[OF this, of ?req "''web''"] a e show ?thesis
    by (auto split: option.splits)
qed

text \<open>Removing the routes of a backend is complete. No route of that backend is left, all
  other routes stay in their order, the result counts the removed ones, and afterwards no
  request is routed to that backend.\<close>

theorem remove_by_backend_complete:
  assumes "arws_remove_routes_by_backend k st = (n, st')"
  shows "concat (route_table st') = filter (\<lambda>r. ro_backend_id r \<noteq> k) (concat (route_table st)) \<and>
         n = length (filter (\<lambda>r. ro_backend_id r = k) (concat (route_table st))) \<and>
         (\<forall>req mode code r st''. arws_route_match req mode st' = Inr (code, Some r, st'') \<longrightarrow> ro_backend_id r \<noteq> k)"
proof -
  have c: "concat (route_table st') = filter (\<lambda>r. ro_backend_id r \<noteq> k) (concat (route_table st))"
    using assms by (auto simp: arws_remove_routes_by_backend_def filter_concat)
  moreover have "n = length (filter (\<lambda>r. ro_backend_id r = k) (concat (route_table st)))"
    using assms by (auto simp: arws_remove_routes_by_backend_def filter_concat length_concat comp_def)
  moreover have "ro_backend_id r \<noteq> k" if m: "arws_route_match req mode st' = Inr (code, Some r, st'')"
    for req mode code r st''
  proof -
    obtain b cs where sc: "route_scan req mode (-1) [] (concat (route_table st')) = (b, cs)" by fastforce
    let ?i = "crem (rr_counter st') (int (length cs))"
    from m sc have r: "cs \<noteq> []" "\<not> ?i < 0" "r = cs ! nat ?i"
      by (auto simp: arws_route_match_def Let_def split: if_splits)
    have "?i < int (length cs)" using r(1) by (intro crem_less) simp
    then have "r \<in> set cs" using r by (simp add: nat_less_iff)
    then have "r \<in> set (concat (route_table st'))" using route_scan_inv(3)[OF sc] by auto
    then show ?thesis unfolding c by simp
  qed
  ultimately show ?thesis by blast
qed

theorem remove_by_backend_complete_witness:
  "concat (route_table (snd (arws_remove_routes_by_backend 2
      \<lparr>route_table = [[demo_route ''/*'' 1], [demo_route ''/api'' 2]], rr_counter = 0\<rparr>))) = [demo_route ''/*'' 1]"
proof -
  let ?st = "\<lparr>route_table = [[demo_route ''/*'' 1], [demo_route ''/api'' 2]], rr_counter = 0\<rparr>"
  obtain n st' where e: "arws_remove_routes_by_backend 2 ?st = (n, st')" by fastforce
  from remove_by_backend_complete[OF e] e show ?thesis by (simp add: demo_route_def)
qed

text \<open>Routes registered with a mode cannot be removed. \<open>arws_add_route\<close> files a route under a
  hash that includes its mode, \<open>arws_remove_route\<close> looks under the hash without it: whenever
  the two hashes differ and the other chain has no such route, the removal returns \<open>-1\<close> and
  the route stays.\<close>

theorem remove_route_misses_mode:
  assumes "arws_add_route (Some mem) pref method host (Some mode) k st = (0, st1)"
    and "hash_route pref method host (Some mode) \<noteq> hash_route pref method host None"
    and "normalize_prefix pref = pref"
    and "\<forall>r \<in> set (route_table st ! hash_route pref method host None). \<not> route_named pref method host r"
  shows "arws_remove_route pref method host st1 = (-1, st1)"
proof -
  have "route_table st1 ! hash_route pref method host None = route_table st ! hash_route pref method host None"
    using assms(1-3) by (auto simp: arws_add_route_def push_route_def Let_def)
  moreover have "first_idx (route_named pref method host) (route_table st ! hash_route pref method host None) = None"
    using assms(4) by (simp add: first_idx_None_iff)
  ultimately show ?thesis by (simp add: arws_remove_route_def Let_def)
qed

theorem remove_route_misses_mode_witness:
  "let st1 = snd (arws_add_route (Some (demo_route [] 0)) ''/a'' ''GET'' None (Some ''m'') 3
      \<lparr>route_table = replicate 256 [], rr_counter = 0\<rparr>)
   in arws_remove_route ''/a'' ''GET'' None st1 = (-1, st1)"
proof -
  let ?st = "\<lparr>route_table = replicate 256 [], rr_counter = 0\<rparr>"
  have n: "normalize_prefix ''/a'' = ''/a''" by (simp add: normalize_prefix_def)
  have h: "hash_route ''/a'' ''GET'' None (Some ''m'') \<noteq> hash_route ''/a'' ''GET'' None None"
    by (simp add: hash_route_def opt_str_def arws_eval)
  obtain rc st1 where a: "arws_add_route (Some (demo_route [] 0)) ''/a'' ''GET'' None (Some ''m'') 3 ?st = (rc, st1)"
    by fastforce
  then have "rc = 0" by (simp add: arws_add_route_def Let_def)
  with remove_route_misses_mode[of "demo_route [] 0" "''/a''" "''GET''" None "''m''" 3 ?st st1] a n h
  show ?thesis by (simp add: hash_route_def Let_def)
qed

end
