(* ===== verification/Ipc.thy ===== *)
theory Ipc
  imports Arws_Prelude
begin

text \<open>
  Framing of the inter-process protocol, \<open>src/src/ipc/ipc_pipe.c\<close>: a frame is a four byte
  big-endian length, a type byte and the payload. The socket may accept and deliver any number
  of bytes per call: \<open>snd i n\<close> is the result of the \<open>i\<close>-th \<open>ar_socket_send\<close> of \<open>n\<close> bytes, and
  \<open>ch i\<close> bounds what the \<open>i\<close>-th \<open>ar_socket_recv\<close> takes from the incoming stream, which ends
  with the stream.
\<close>

section \<open>Sending\<close>

text \<open>The write loop: the return code, the bytes handed to the socket, the number of calls.\<close>

function send_all :: "(nat \<Rightarrow> nat \<Rightarrow> int) \<Rightarrow> nat \<Rightarrow> string \<Rightarrow> int \<times> string \<times> nat" where
  "send_all snd_fn i data =
     (if data = [] then (0, [], i)
      else let n = snd_fn i (length data) in
        if n \<le> 0 then (-1, [], Suc i)
        else (case send_all snd_fn (Suc i) (drop (nat n) data) of
                (rc, out, j) \<Rightarrow> (rc, take (nat n) data @ out, j)))"
  by pat_completeness auto
termination
  by (relation "measure (\<lambda>(snd_fn, i, data). length data)") auto

declare send_all.simps [simp del]

definition frame_header :: "int \<Rightarrow> int \<Rightarrow> string" where
  "frame_header len typ =
     map char_of [len div 2 ^ 24, len div 2 ^ 16, len div 2 ^ 8, len, typ]"

definition ipc_send_raw :: "(nat \<Rightarrow> nat \<Rightarrow> int) \<Rightarrow> string \<Rightarrow> int \<times> string \<times> nat" where
  "ipc_send_raw snd_fn data = send_all snd_fn 0 data"

definition ipc_send_frame ::
  "(nat \<Rightarrow> nat \<Rightarrow> int) \<Rightarrow> int \<Rightarrow> string option \<Rightarrow> int \<Rightarrow> int \<times> string" where
  "ipc_send_frame snd_fn typ data len =
     (let header = frame_header len typ; n = snd_fn 0 5 in
      if n \<noteq> 5 then (-1, take (nat n) header)
      else (case data of
              None \<Rightarrow> (0, header)
            | Some d \<Rightarrow>
                if len > 0
                then (case send_all snd_fn 1 (take (nat len) d) of (rc, out, j) \<Rightarrow> (rc, header @ out))
                else (0, header)))"

section \<open>Receiving\<close>

text \<open>The read loop for exactly \<open>n\<close> bytes from the stream \<open>s\<close>: the bytes, the rest of the stream
  and the next call index, or \<open>None\<close> when the stream ends first.\<close>

function recv_all :: "(nat \<Rightarrow> nat) \<Rightarrow> nat \<Rightarrow> nat \<Rightarrow> string \<Rightarrow> (string \<times> string \<times> nat) option" where
  "recv_all ch i n s =
     (if n = 0 then Some ([], s, i)
      else let k = min (ch i) (min n (length s)) in
        if k = 0 then None
        else (case recv_all ch (Suc i) (n - k) (drop k s) of
                None \<Rightarrow> None
              | Some (d, s', j) \<Rightarrow> Some (take k s @ d, s', j)))"
  by pat_completeness auto
termination
  by (relation "measure (\<lambda>(ch, i, n, s). n)") auto

declare recv_all.simps [simp del]

record IpcFrame =
  fr_type :: int
  fr_length :: int
  fr_data :: "string option"

definition decode_length :: "string \<Rightarrow> int" where
  "decode_length h =
     wrap32 (of_char (h ! 0) * 2 ^ 24 + of_char (h ! 1) * 2 ^ 16 + of_char (h ! 2) * 2 ^ 8 + of_char (h ! 3))"

definition ipc_recv_frame ::
  "(int \<Rightarrow> bool) \<Rightarrow> (nat \<Rightarrow> nat) \<Rightarrow> nat \<Rightarrow> string \<Rightarrow> (IpcFrame \<times> string \<times> nat) option" where
  "ipc_recv_frame mem_alloc ch i s =
     (case recv_all ch i 5 s of
        None \<Rightarrow> None
      | Some (header, s1, j) \<Rightarrow>
          let len = decode_length header; typ = of_char (header ! 4) in
          if len > 0
          then if \<not> mem_alloc (len + 1) then None
               else (case recv_all ch j (nat len) s1 of
                       None \<Rightarrow> None
                     | Some (d, s2, k) \<Rightarrow>
                         Some (\<lparr>fr_type = typ, fr_length = len, fr_data = Some d\<rparr>, s2, k))
          else Some (\<lparr>fr_type = typ, fr_length = len, fr_data = None\<rparr>, s1, j))"

definition ipc_free_frame :: "IpcFrame \<Rightarrow> IpcFrame" where
  "ipc_free_frame f = f\<lparr>fr_data := None, fr_length := 0\<rparr>"

definition ipc_recv_raw :: "(nat \<Rightarrow> nat) \<Rightarrow> nat \<Rightarrow> nat \<Rightarrow> string \<Rightarrow> string \<times> string" where
  "ipc_recv_raw ch i maxlen s =
     (let k = min (ch i) (min maxlen (length s)) in (take k s, drop k s))"

section \<open>Streams of frames\<close>

text \<open>A message is a type with its payload.\<close>

type_synonym ipc_msg = "int \<times> string"

definition msg_ok :: "ipc_msg \<Rightarrow> bool" where
  "msg_ok m \<longleftrightarrow> 0 \<le> fst m \<and> fst m < 256 \<and> length (snd m) < 2 ^ 31"

definition send_msg :: "(nat \<Rightarrow> nat \<Rightarrow> int) \<Rightarrow> ipc_msg \<Rightarrow> int \<times> string" where
  "send_msg snd_fn m = ipc_send_frame snd_fn (fst m) (Some (snd m)) (int (length (snd m)))"

definition frame_msg :: "IpcFrame \<Rightarrow> ipc_msg" where
  "frame_msg f = (fr_type f, case fr_data f of Some d \<Rightarrow> d | None \<Rightarrow> [])"

fun recv_msgs :: "(nat \<Rightarrow> nat) \<Rightarrow> nat \<Rightarrow> nat \<Rightarrow> string \<Rightarrow> (ipc_msg list \<times> string) option" where
  "recv_msgs ch i 0 s = Some ([], s)"
| "recv_msgs ch i (Suc n) s =
     (case ipc_recv_frame (\<lambda>_. True) ch i s of
        None \<Rightarrow> None
      | Some (f, s', j) \<Rightarrow> map_option (\<lambda>(ms, r). (frame_msg f # ms, r)) (recv_msgs ch j n s'))"

section \<open>Lemmas\<close>

lemma send_all_complete: "send_all snd_fn i data = (0, out, j) \<Longrightarrow> out = data"
proof (induction snd_fn i data arbitrary: out j rule: send_all.induct)
  case (1 snd_fn i data)
  show ?case
  proof (cases "data = []")
    case True
    with "1.prems" show ?thesis by (simp add: send_all.simps[of snd_fn i])
  next
    case False
    let ?n = "snd_fn i (length data)"
    obtain rc out1 k where r: "send_all snd_fn (Suc i) (drop (nat ?n) data) = (rc, out1, k)" by (metis surj_pair)
    have "\<not> ?n \<le> 0" using "1.prems" False by (auto simp: send_all.simps[of snd_fn i] Let_def)
    with "1.prems" False r have "rc = 0" "out = take (nat ?n) data @ out1"
      by (auto simp: send_all.simps[of snd_fn i] Let_def)
    with "1.IH"[OF False refl \<open>\<not> ?n \<le> 0\<close>, of out1 k] r show ?thesis by simp
  qed
qed

lemma send_all_progress:
  assumes "\<And>i n. 0 < snd_fn i n"
  shows "fst (send_all snd_fn i d) = 0"
proof (induction "length d" arbitrary: i d rule: less_induct)
  case less
  show ?case
  proof (cases "d = []")
    case False
    have pos: "0 < snd_fn i (length d)" by (rule assms)
    with False have "length (drop (nat (snd_fn i (length d))) d) < length d" by simp
    from less.hyps[OF this, of "Suc i"] obtain out j where
      "send_all snd_fn (Suc i) (drop (nat (snd_fn i (length d))) d) = (0, out, j)" by (metis prod.collapse)
    with False pos show ?thesis by (subst send_all.simps) (simp add: Let_def)
  qed (simp add: send_all.simps)
qed

lemma recv_all_exact:
  assumes "\<And>i. 0 < ch i"
  shows "\<exists>j. recv_all ch i (length d) (d @ rest) = Some (d, rest, j)"
proof (induction "length d" arbitrary: d i rule: less_induct)
  case less
  show ?case
  proof (cases "d = []")
    case True
    then show ?thesis by (simp add: recv_all.simps[of ch i])
  next
    case False
    let ?k = "min (ch i) (min (length d) (length (d @ rest)))"
    have k: "0 < ?k" "?k \<le> length d" using assms[of i] False by auto
    have "length (drop ?k d) < length d" using k False by simp
    from less.hyps[OF this, of "Suc i"] obtain j where
      j: "recv_all ch (Suc i) (length (drop ?k d)) (drop ?k d @ rest) = Some (drop ?k d, rest, j)" by blast
    have "drop ?k (d @ rest) = drop ?k d @ rest" "take ?k (d @ rest) = take ?k d" using k(2) by simp_all
    with j k have "recv_all ch i (length d) (d @ rest) = Some (take ?k d @ drop ?k d, rest, j)"
      by (subst recv_all.simps) (simp add: Let_def False)
    then show ?thesis by (simp only: append_take_drop_id) blast
  qed
qed

lemma length_frame_header [simp]: "length (frame_header len typ) = 5"
  by (simp add: frame_header_def)

lemma decode_frame_header:
  assumes "0 \<le> len" "len < 2 ^ 31"
  shows "decode_length (frame_header len typ @ d) = len"
proof -
  have "len div 16777216 mod 256 * 16777216 + len div 65536 mod 256 * 65536 + len div 256 mod 256 * 256 + len mod 256 = len"
  proof -
    have d: "len div 65536 = len div 256 div 256" "len div 16777216 = len div 65536 div 256"
      using zdiv_zmult2_eq[of 256 len 256] zdiv_zmult2_eq[of 256 len 65536] by simp_all
    have "len div 16777216 mod 256 = len div 16777216" using assms by simp
    moreover have "len div 65536 = len div 65536 div 256 * 256 + len div 65536 mod 256"
      "len div 256 = len div 256 div 256 * 256 + len div 256 mod 256" "len = len div 256 * 256 + len mod 256"
      by (simp_all only: div_mult_mod_eq)
    ultimately show ?thesis using d by linarith
  qed
  moreover have p: "(2::int) ^ 24 = 16777216" "(2::int) ^ 16 = 65536" "(2::int) ^ 8 = 256" by simp_all
  moreover have "of_char ((frame_header len typ @ d) ! 0) = len div 16777216 mod 256"
    "of_char ((frame_header len typ @ d) ! 1) = len div 65536 mod 256"
    "of_char ((frame_header len typ @ d) ! 2) = len div 256 mod 256"
    "of_char ((frame_header len typ @ d) ! 3) = len mod 256"
    by (simp_all add: frame_header_def)
  ultimately have "decode_length (frame_header len typ @ d) = wrap32 len"
    unfolding decode_length_def p by (simp only:)
  then show ?thesis using assms by (simp add: wrap32_id)
qed

lemma header_type: "0 \<le> typ \<Longrightarrow> typ < 256 \<Longrightarrow> of_char ((frame_header len typ @ d) ! 4) = typ"
  by (simp add: frame_header_def)

lemma send_msg_bytes:
  assumes "send_msg snd_fn m = (0, out)"
  shows "out = frame_header (int (length (snd m))) (fst m) @ snd m"
proof (cases "snd m = []")
  case True
  with assms show ?thesis by (auto simp: send_msg_def ipc_send_frame_def Let_def split: if_splits)
next
  case False
  obtain rc o1 j where r: "send_all snd_fn 1 (snd m) = (rc, o1, j)" by (metis surj_pair)
  with assms False have "rc = 0" "out = frame_header (int (length (snd m))) (fst m) @ o1"
    by (auto simp: send_msg_def ipc_send_frame_def Let_def split: if_splits)
  with send_all_complete[of snd_fn 1 "snd m" o1 j] r show ?thesis by simp
qed

lemma recv_frame_encoded:
  assumes ch: "\<And>i. 0 < ch i" and m: "msg_ok m"
  shows "\<exists>j f. ipc_recv_frame (\<lambda>_. True) ch i (frame_header (int (length (snd m))) (fst m) @ snd m @ rest) =
     Some (f, rest, j) \<and> frame_msg f = m \<and> fr_length f = int (length (snd m))"
proof -
  let ?h = "frame_header (int (length (snd m))) (fst m)"
  have ok: "0 \<le> fst m" "fst m < 256" "int (length (snd m)) < 2 ^ 31" using m by (simp_all add: msg_ok_def)
  obtain j where j: "recv_all ch i 5 (?h @ snd m @ rest) = Some (?h, snd m @ rest, j)"
    using recv_all_exact[of ch i ?h "snd m @ rest"] ch by auto
  have len: "decode_length ?h = int (length (snd m))" using decode_frame_header[of _ _ "[]"] ok(3) by simp
  have tyb: "of_char (?h ! 4) = fst m" using header_type[of "fst m" _ "[]"] ok(1,2) by simp
  show ?thesis
  proof (cases "snd m = []")
    case True
    with j len tyb show ?thesis by (cases m) (simp add: ipc_recv_frame_def Let_def frame_msg_def)
  next
    case False
    obtain k where "recv_all ch j (length (snd m)) (snd m @ rest) = Some (snd m, rest, k)"
      using recv_all_exact[of ch j "snd m" rest] ch by blast
    with j len tyb False show ?thesis by (simp add: ipc_recv_frame_def Let_def frame_msg_def)
  qed
qed

section \<open>Properties: the protocol\<close>

text \<open>C11: Frames survive the pipe. Whatever parts of the data each send accepts, if the frames of
  a list of messages are sent successfully, then, however the stream is cut into pieces on
  delivery, receiving that many frames returns exactly the messages in their order and
  consumes exactly their bytes.\<close>

theorem ipc_stream_roundtrip:
  assumes "\<forall>m \<in> set ms. msg_ok m" and "\<forall>i. 0 < ch i"
    and "list_all2 (\<lambda>m out. \<exists>snd_fn. send_msg snd_fn m = (0, out)) ms outs"
  shows "recv_msgs ch i (length ms) (concat outs @ rest) = Some (ms, rest)"
  using assms(3,1)
proof (induction arbitrary: i rule: list_all2_induct)
  case Nil
  then show ?case by simp
next
  case (Cons m ms out outs)
  then have out: "out = frame_header (int (length (snd m))) (fst m) @ snd m" using send_msg_bytes by blast
  obtain j f where f: "ipc_recv_frame (\<lambda>_. True) ch i (out @ concat outs @ rest) = Some (f, concat outs @ rest, j)"
      "frame_msg f = m"
    using recv_frame_encoded[of ch m i "concat outs @ rest"] Cons.prems assms(2) unfolding out by auto
  with Cons.IH Cons.prems show ?case by simp
qed

theorem ipc_stream_roundtrip_witness:
  "recv_msgs (\<lambda>i. if i = 0 then 3 else 1) 0 2
     (concat [snd (send_msg (\<lambda>i n. if n = 5 then 5 else 1) (1, ''hello !'')),
              snd (send_msg (\<lambda>i n. int n) (5, []))] @ ''x'') =
   Some ([(1, ''hello !''), (5, [])], ''x'')"
proof -
  let ?f = "\<lambda>i n. if n = 5 then 5 else 1 :: int"
  have "fst (send_all ?f 1 ''hello !'') = 0" by (rule send_all_progress) simp
  then obtain out j where all: "send_all ?f (Suc 0) ''hello !'' = (0, out, j)" by (metis prod.collapse One_nat_def)
  have 1: "fst (send_msg ?f (1, ''hello !'')) = 0"
    by (simp add: send_msg_def ipc_send_frame_def Let_def all)
  have 2: "fst (send_msg (\<lambda>i n. int n) (5, [])) = 0"
    by (simp add: send_msg_def ipc_send_frame_def Let_def)
  have ex: "\<exists>g. send_msg g m = (0, snd (send_msg f m))" if "fst (send_msg f m) = 0" for f m
    using that by (metis prod.collapse)
  have la: "list_all2 (\<lambda>m out. \<exists>snd_fn. send_msg snd_fn m = (0, out)) [(1, ''hello !''), (5, [])]
      [snd (send_msg ?f (1, ''hello !'')), snd (send_msg (\<lambda>i n. int n) (5, []))]"
    using ex[OF 1] ex[OF 2] by (simp only: list_all2_Cons list_all2_Nil simp_thms)
  have ok: "\<forall>m \<in> set [(1, ''hello !''), (5, [])]. msg_ok m" "\<forall>i::nat. 0 < (if i = 0 then 3 else 1 :: nat)"
    by (simp_all add: msg_ok_def)
  have "length [(1 :: int, ''hello !''), (5, [])] = 2" by simp
  from ipc_stream_roundtrip[OF ok la, of 0 "''x''", unfolded this] show ?thesis .
qed

end
