(* ===== verification/Server_Http.thy ===== *)
theory Server_Http
  imports Http_Types
begin

text \<open>
  The HTTP front end, \<open>src/src/server.c\<close>: writing responses, decoding and vetting of paths,
  trusted proxies, and the parsing of a request by \<open>handle_client\<close>. A connection keeps the
  bytes written to it and the access log as lists; environment variables, random bytes, the
  file system, the allocator and the socket are parameters.
\<close>

section \<open>Connections\<close>

record ClientConnection =
  client_ip :: string
  current_path :: string
  response_headers :: string
  anon_id :: string
  conn_out :: string
  access_log :: "(string \<times> string \<times> int) list"

abbreviation (input) CRLF :: string where
  "CRLF \<equiv> [CHR 0x0D, CHR 0x0A]"

definition server_conn_write :: "string \<Rightarrow> ClientConnection \<Rightarrow> ClientConnection" where
  "server_conn_write buf conn = conn\<lparr>conn_out := conn_out conn @ buf\<rparr>"

definition track_access :: "int \<Rightarrow> ClientConnection \<Rightarrow> ClientConnection" where
  "track_access status conn =
     conn\<lparr>access_log := access_log conn @ [(client_ip conn, current_path conn, status)]\<rparr>"

section \<open>Decoding and vetting\<close>

definition is_xdigit :: "char \<Rightarrow> bool" where
  "is_xdigit c = (let n = of_char c :: nat in
     48 \<le> n \<and> n \<le> 57 \<or> 65 \<le> n \<and> n \<le> 70 \<or> 97 \<le> n \<and> n \<le> 102)"

definition hex_val :: "char \<Rightarrow> nat" where
  "hex_val c = (let n = of_char c :: nat; m = (if n \<ge> 97 then n - 32 else n)
                in if m \<ge> 65 then m - 65 + 10 else m - 48)"

fun url_decode :: "string \<Rightarrow> string" where
  "url_decode [] = []"
| "url_decode [c] = (if c = CHR ''+'' then '' '' else [c])"
| "url_decode [c, d] = (if c = CHR ''+'' then CHR '' '' else c) # url_decode [d]"
| "url_decode (c # a # b # s) =
     (if c = CHR ''%'' \<and> is_xdigit a \<and> is_xdigit b
      then (let v = hex_val a * 16 + hex_val b in
            (if v = 0 then CHR 0x01 else char_of v) # url_decode s)
      else (if c = CHR ''+'' then CHR '' '' else c) # url_decode (a # b # s))"

definition control_char :: "char \<Rightarrow> bool" where
  "control_char c \<longleftrightarrow> (of_char c :: nat) < 0x20"

definition server_path_safe :: "string \<Rightarrow> bool" where
  "server_path_safe path \<longleftrightarrow>
     path \<noteq> [] \<and> strstr path ''..'' = None \<and>
     strstr path ''%2e'' = None \<and> strstr path ''%2E'' = None \<and>
     strstr path ''%2f'' = None \<and> strstr path ''%2F'' = None \<and>
     strstr path ''%5c'' = None \<and> strstr path ''%5C'' = None \<and>
     strchr path (CHR 0x5C) = None \<and>
     list_all (\<lambda>c. \<not> control_char c \<and> c \<noteq> CHR 0x7F) path"

section \<open>Trusted proxies\<close>

text \<open>\<open>inet_pton\<close> for IPv4: four decimal octets without leading zeros.\<close>

fun split_on :: "char \<Rightarrow> string \<Rightarrow> string list" where
  "split_on d [] = [[]]"
| "split_on d (c # s) =
     (if c = d then [] # split_on d s
      else case split_on d s of [] \<Rightarrow> [[c]] | w # ws \<Rightarrow> (c # w) # ws)"

definition octet_ok :: "string \<Rightarrow> bool" where
  "octet_ok s \<longleftrightarrow> s \<noteq> [] \<and> length s \<le> 3 \<and> list_all is_digit s \<and> digits_val s \<le> 255 \<and>
     (length s > 1 \<longrightarrow> hd s \<noteq> CHR ''0'')"

definition inet_pton4 :: "string \<Rightarrow> uint32 option" where
  "inet_pton4 s =
     (case split_on CHR ''.'' s of
        [a, b, c, d] \<Rightarrow>
          if octet_ok a \<and> octet_ok b \<and> octet_ok c \<and> octet_ok d
          then Some (of_nat (((digits_val a * 256 + digits_val b) * 256 + digits_val c) * 256 + digits_val d))
          else None
      | _ \<Rightarrow> None)"

record TrustedNet =
  tn_net :: uint32
  tn_prefix :: int

abbreviation (input) ARWS_MAX_TRUSTED_PROXIES :: nat where "ARWS_MAX_TRUSTED_PROXIES \<equiv> 32"

definition blank :: "char \<Rightarrow> bool" where
  "blank c \<longleftrightarrow> c = CHR '' '' \<or> c = CHR 0x09"

definition trim_blanks :: "string \<Rightarrow> string" where
  "trim_blanks s = rev (dropWhile blank (rev (dropWhile blank s)))"

definition parse_trusted :: "string \<Rightarrow> TrustedNet option" where
  "parse_trusted tok =
     (let t = trim_blanks tok in
      if t = [] then None
      else let host = buf_copy 128 t;
               (h, p) = (case strchr host CHR ''/'' of
                           None \<Rightarrow> (host, 32)
                         | Some sl \<Rightarrow> (takeWhile (\<lambda>c. c \<noteq> CHR ''/'') host, atoi (tl sl)))
           in (case inet_pton4 h of
                 Some n \<Rightarrow> if 0 \<le> p \<and> p \<le> 32 then Some \<lparr>tn_net = n, tn_prefix = p\<rparr> else None
               | None \<Rightarrow> None))"

fun collect_trusted :: "nat \<Rightarrow> string list \<Rightarrow> TrustedNet list" where
  "collect_trusted n [] = []"
| "collect_trusted 0 (t # ts) = []"
| "collect_trusted (Suc n) (t # ts) =
     (case parse_trusted t of
        Some net \<Rightarrow> net # collect_trusted n ts
      | None \<Rightarrow> collect_trusted (Suc n) ts)"

definition trusted_proxies_parse :: "string option \<Rightarrow> TrustedNet list" where
  "trusted_proxies_parse env =
     (case env of
        None \<Rightarrow> []
      | Some e \<Rightarrow> if e = [] then []
                  else collect_trusted ARWS_MAX_TRUSTED_PROXIES
                         (filter (\<lambda>t. t \<noteq> []) (split_on CHR '','' (buf_copy 2048 e))))"

definition net_mask :: "int \<Rightarrow> uint32" where
  "net_mask p = (if p = 0 then 0 else push_bit (nat (32 - p)) 0xFFFFFFFF)"

definition ip_is_trusted_proxy :: "TrustedNet list \<Rightarrow> string \<Rightarrow> bool" where
  "ip_is_trusted_proxy nets peer_ip =
     (if peer_ip = [] then False
      else case inet_pton4 peer_ip of
        None \<Rightarrow> False
      | Some ip \<Rightarrow> list_ex (\<lambda>t. ip AND net_mask (tn_prefix t) = tn_net t AND net_mask (tn_prefix t)) nets)"

definition ip_looks_valid :: "string \<Rightarrow> bool" where
  "ip_looks_valid ip = (if ip = [] then False else inet_pton4 ip \<noteq> None)"

section \<open>Responses\<close>

definition response_head :: "int \<Rightarrow> string \<Rightarrow> int \<Rightarrow> string \<Rightarrow> string" where
  "response_head status content_type body_len extra =
     (let status_text = (if status = 404 then ''Not Found''
                         else if status = 500 then ''Internal Server Error'' else ''OK'')
      in ''HTTP/1.1 '' @ dec_int status @ '' '' @ status_text @ CRLF @
         ''Content-Type: '' @ content_type @ CRLF @
         ''Content-Length: '' @ dec_int body_len @ CRLF @ extra @ ''Connection: close'' @ CRLF @ CRLF)"

definition server_send_response ::
  "int \<Rightarrow> string \<Rightarrow> string option \<Rightarrow> ClientConnection \<Rightarrow> ClientConnection" where
  "server_send_response status content_type body conn =
     (let b = (case body of None \<Rightarrow> [] | Some s \<Rightarrow> s);
          headers = buf_copy 2048 (response_head status content_type (int (length b)) (response_headers conn));
          c1 = server_conn_write headers conn;
          c2 = (if body = None then c1 else server_conn_write b c1)
      in track_access status c2)"

definition sanitize_line :: "nat \<Rightarrow> string \<Rightarrow> string" where
  "sanitize_line n s = take n (filter (\<lambda>c. c \<noteq> CHR 0x0D \<and> c \<noteq> CHR 0x0A) s)"

definition server_add_header :: "string \<Rightarrow> ClientConnection \<Rightarrow> ClientConnection" where
  "server_add_header header_line conn =
     (let sanitized = sanitize_line 1022 header_line in
      if length (response_headers conn) + length sanitized + 3 < 1024
      then conn\<lparr>response_headers := response_headers conn @ sanitized @ CRLF\<rparr>
      else conn)"

definition server_redirect :: "string \<Rightarrow> ClientConnection \<Rightarrow> ClientConnection" where
  "server_redirect url conn =
     server_conn_write (buf_copy 1024
       (''HTTP/1.1 302 Found'' @ CRLF @ ''Location: '' @ sanitize_line 1023 url @ CRLF @
        ''Content-Length: 0'' @ CRLF @ response_headers conn @ ''Connection: close'' @ CRLF @ CRLF)) conn"

definition server_send_404 :: "ClientConnection \<Rightarrow> ClientConnection" where
  "server_send_404 conn = server_send_response 404 ''text/html'' (Some ''<h1>404 Not Found</h1>'') conn"

text \<open>\<open>fs\<close> gives the contents of the readable files. The header is printed into 1024 bytes, but as many bytes are
  written as \<open>snprintf\<close> reports; beyond 1024 they lie outside the buffer.\<close>

definition server_serve_file ::
  "(string \<Rightarrow> string option) \<Rightarrow> string \<Rightarrow> string \<Rightarrow> ClientConnection \<Rightarrow> mem_error + (bool \<times> ClientConnection)" where
  "server_serve_file fs filepath content_type conn =
     (if \<not> server_path_safe filepath then Inr (False, conn)
      else case fs filepath of
        None \<Rightarrow> Inr (False, conn)
      | Some data \<Rightarrow>
          (let c1 = server_add_header (''Cache-Control: public, max-age=3600'' @ CRLF) conn;
               text = ''HTTP/1.1 200 OK'' @ CRLF @ ''Content-Type: '' @ content_type @ CRLF @
                  ''Content-Length: '' @ dec_nat (length data) @ CRLF @ response_headers c1 @
                  ''Connection: close'' @ CRLF @ CRLF
           in if length text > 1024 then Inl OutOfBounds
              else Inr (True, track_access 200 (server_conn_write data
                     (server_conn_write (take (length text) (buf_copy 1024 text @ [NUL])) c1)))))"

section \<open>Access to the request\<close>

definition assoc_value :: "(string \<Rightarrow> bool) \<Rightarrow> (string \<times> string) list \<Rightarrow> string option" where
  "assoc_value P xs = map_option snd (find (\<lambda>x. P (fst x)) xs)"

definition get_header :: "HttpRequest \<Rightarrow> string \<Rightarrow> string option" where
  "get_header req name = assoc_value (\<lambda>n. strcaseeq n name) (rq_headers req)"

definition get_path_param :: "HttpRequest \<Rightarrow> string \<Rightarrow> string option" where
  "get_path_param req key = assoc_value (\<lambda>k. k = key) (rq_path_params req)"

definition get_query_param :: "HttpRequest \<Rightarrow> string \<Rightarrow> string option" where
  "get_query_param req key = assoc_value (\<lambda>k. k = key) (rq_parsed_query req)"

definition server_get_client_ip :: "ClientConnection \<Rightarrow> string" where
  "server_get_client_ip conn = client_ip conn"

section \<open>Parsing a request\<close>

text \<open>The text before the first occurrence of a pattern, and the text after it.\<close>

definition cut_at :: "string \<Rightarrow> string \<Rightarrow> (string \<times> string) option" where
  "cut_at pat s = map_option (\<lambda>t. (take (length s - length t) s, drop (length pat) t)) (strstr s pat)"

text \<open>\<open>strtok_r\<close> with the single delimiter blank.\<close>

definition strtok_sp :: "string \<Rightarrow> (string \<times> string) option" where
  "strtok_sp s =
     (let t = dropWhile (\<lambda>c. c = CHR '' '') s in
      if t = [] then None
      else Some (takeWhile (\<lambda>c. c \<noteq> CHR '' '') t, drop 1 (dropWhile (\<lambda>c. c \<noteq> CHR '' '') t)))"

text \<open>The request target: two decoding passes between two vetting passes. \<open>mem\<close> tells whether the
  buffer of the second pass could be allocated.\<close>

definition decode_target :: "bool \<Rightarrow> string \<Rightarrow> string + string" where
  "decode_target mem full_path =
     (if strstr full_path ''%00'' \<noteq> None \<or> \<not> server_path_safe full_path
      then Inl ''Bad Request (Null Byte / Malicious Path)''
      else let p1 = url_decode full_path;
               second = strchr p1 CHR ''%'' \<noteq> None \<and> mem;
               p2 = (if second then url_decode p1 else p1)
           in if second \<and> strchr p2 CHR ''%'' \<noteq> None then Inl ''Bad Request (Invalid Encoding)''
              else if list_ex control_char p2 then Inl ''Bad Request (Invalid Character)''
              else if \<not> server_path_safe p2
              then Inl ''Bad Request (Path Traversal / Malicious Characters)''
              else Inr p2)"

fun parse_query :: "nat \<Rightarrow> string \<Rightarrow> (string \<times> string) list" where
  "parse_query 0 q = []"
| "parse_query (Suc n) q =
     (if q = [] then []
      else let seg = takeWhile (\<lambda>c. c \<noteq> CHR ''&'') q;
               kv = (case strchr seg CHR ''='' of
                       None \<Rightarrow> (seg, [])
                     | Some t \<Rightarrow> (takeWhile (\<lambda>c. c \<noteq> CHR ''='') seg, tl t))
           in kv # (case strchr q CHR ''&'' of None \<Rightarrow> [] | Some t \<Rightarrow> parse_query n (tl t)))"

definition split_target :: "string \<Rightarrow> string \<times> string option" where
  "split_target p = (case strchr p CHR ''?'' of
                       None \<Rightarrow> (p, None)
                     | Some t \<Rightarrow> (takeWhile (\<lambda>c. c \<noteq> CHR ''?'') p, Some (tl t)))"

text \<open>The header loop; the test on the length of the next line, always true, shows the descent.\<close>

function parse_headers :: "nat \<Rightarrow> string \<Rightarrow> (string \<times> string) list" where
  "parse_headers n line =
     (if n = 0 \<or> line = [] \<or> hd line = CHR 0x0D \<or> hd line = CHR 0x0A then []
      else let (cur, next_line) = (case cut_at CRLF line of
                                     Some (a, b) \<Rightarrow> (a, Some b) | None \<Rightarrow> (line, None));
               rest = (\<lambda>k. case next_line of None \<Rightarrow> [] | Some l \<Rightarrow>
                          if length l < length line then parse_headers k l else [])
           in (case strchr cur CHR '':'' of
                 None \<Rightarrow> rest n
               | Some t \<Rightarrow> (takeWhile (\<lambda>c. c \<noteq> CHR '':'') cur,
                            dropWhile (\<lambda>c. c = CHR '' '') (tl t)) # rest (n - 1)))"
  by pat_completeness auto
termination
  by (relation "measure (\<lambda>(n, line). length line)") auto

declare parse_headers.simps [simp del]

definition parse_host :: "string option \<Rightarrow> string" where
  "parse_host host_header =
     (case host_header of
        None \<Rightarrow> []
      | Some h \<Rightarrow>
          (let s = take 255 (takeWhile (\<lambda>c. c \<noteq> CHR '':'') (dropWhile (\<lambda>c. c = CHR '' '') h))
           in rev (dropWhile (\<lambda>c. c = CHR ''.'') (rev s))))"

definition forwarded_ip :: "bool \<Rightarrow> HttpRequest \<Rightarrow> string option" where
  "forwarded_ip behind_cf req =
     (if behind_cf
      then (case get_header req ''CF-Connecting-IP'' of
              Some ip \<Rightarrow> if ip_looks_valid ip then Some (buf_copy 64 ip) else None
            | None \<Rightarrow> None)
      else (case get_header req ''X-Forwarded-For'' of
              None \<Rightarrow> None
            | Some xff \<Rightarrow>
                if xff = [] then None
                else let b = buf_copy 64 (dropWhile blank xff);
                         c = takeWhile (\<lambda>c. c \<noteq> CHR '','') b;
                         s = takeWhile (\<lambda>c. \<not> control_char c) c
                     in if s \<noteq> [] \<and> ip_looks_valid s then Some (buf_copy 64 s) else None))"

definition cookie_anon_id :: "HttpRequest \<Rightarrow> string option" where
  "cookie_anon_id req =
     (case get_header req ''Cookie'' of
        None \<Rightarrow> None
      | Some ck \<Rightarrow>
          (case strstr ck ''ARC_ANON_ID='' of
             None \<Rightarrow> None
           | Some t \<Rightarrow> Some (takeWhile (\<lambda>c. c \<noteq> CHR '';'') (take 64 (drop 12 t)))))"

definition hex_digit :: "nat \<Rightarrow> char" where
  "hex_digit d = (if d < 10 then char_of (48 + d) else char_of (87 + d))"

definition hex_bytes :: "8 word list \<Rightarrow> string" where
  "hex_bytes bs = concat (map (\<lambda>b. [hex_digit (unat b div 16), hex_digit (unat b mod 16)]) bs)"

definition assign_anon_id :: "8 word list option \<Rightarrow> HttpRequest \<Rightarrow> ClientConnection \<Rightarrow> ClientConnection" where
  "assign_anon_id random req conn =
     (let c1 = (case cookie_anon_id req of None \<Rightarrow> conn | Some a \<Rightarrow> conn\<lparr>anon_id := a\<rparr>) in
      if anon_id c1 \<noteq> [] then c1
      else (case random of
              None \<Rightarrow> c1
            | Some bs \<Rightarrow>
                (let a = hex_bytes bs in
                 c1\<lparr>anon_id := a,
                    response_headers := buf_copy 1024 (response_headers c1 @
                      ''Set-Cookie: ARC_ANON_ID='' @ a @ ''; Path=/; HttpOnly; SameSite=Lax; Secure'' @ CRLF)\<rparr>)))"

text \<open>What \<open>handle_client\<close> does with the received bytes.\<close>

datatype outcome =
    Drop
  | Reject int string
  | Handle ClientConnection HttpRequest

record http_env =
  env_nets :: "TrustedNet list"
  env_behind_cf :: bool
  env_random :: "8 word list option"
  env_mem :: bool

definition build_request ::
  "string \<Rightarrow> string \<Rightarrow> string option \<Rightarrow> string \<Rightarrow> HttpRequest" where
  "build_request method target headers body =
     (let (path, query) = split_target target;
          hs = (case headers of None \<Rightarrow> [] | Some h \<Rightarrow> parse_headers 100 h);
          req = \<lparr>rq_method = method, rq_path = path, rq_query = query, rq_cookies = None,
                 rq_body = Some body, rq_headers = hs, rq_path_params = [],
                 rq_parsed_query = (case query of None \<Rightarrow> [] | Some q \<Rightarrow> parse_query 50 q), rq_host = []\<rparr>
      in req\<lparr>rq_host := parse_host (get_header req ''Host'')\<rparr>)"

definition client_of_request :: "http_env \<Rightarrow> HttpRequest \<Rightarrow> ClientConnection \<Rightarrow> ClientConnection" where
  "client_of_request env req conn =
     (if ip_is_trusted_proxy (env_nets env) (client_ip conn)
      then (case forwarded_ip (env_behind_cf env) req of
              None \<Rightarrow> conn | Some ip \<Rightarrow> conn\<lparr>client_ip := ip\<rparr>)
      else conn)"

definition parse_client_request ::
  "http_env \<Rightarrow> string \<Rightarrow> int \<Rightarrow> ClientConnection \<Rightarrow> outcome" where
  "parse_client_request env raw content_length conn =
     (case cut_at (CRLF @ CRLF) (cstr raw) of
        None \<Rightarrow> Drop
      | Some (head, _) \<Rightarrow>
          (let data = drop (length head + 4) raw;
               body = cstr (if content_length > 0 \<and> nat content_length < length data
                            then take (nat content_length) data else data);
               (line, headers) = (case cut_at CRLF head of
                                    Some (l, h) \<Rightarrow> (l, Some h) | None \<Rightarrow> (head, None))
           in (case strtok_sp line of
                 None \<Rightarrow> Reject 400 ''Bad Request''
               | Some (method, rest) \<Rightarrow>
                   (case strtok_sp rest of
                      None \<Rightarrow> Reject 400 ''Bad Request''
                    | Some (full_path, _) \<Rightarrow>
                        (case decode_target (env_mem env) full_path of
                           Inl msg \<Rightarrow> Reject 400 msg
                         | Inr target \<Rightarrow>
                             (let req = build_request method target headers body;
                                  c1 = client_of_request env req (conn\<lparr>current_path := buf_copy 256 target\<rparr>)
                              in Handle (assign_anon_id (env_random env) req c1) req))))))"

definition body_429 :: string where
  "body_429 =
     ''<!DOCTYPE html><html><head><title>429 Too Many Requests</title></head>'' @
     ''<body style='' @ [CHR 0x27] @ ''font-family:sans-serif;text-align:center;padding:50px;'' @ [CHR 0x27] @ ''>'' @
     ''<h1>429 Too Many Requests</h1>'' @
     ''<p>Voce atingiu o limite de requisicoes. Por favor, aguarde alguns segundos.</p>'' @
     ''</body></html>''"

text \<open>The whole of \<open>handle_client\<close> after the data is read: the rate limiter and the handler of
  the application are parameters.\<close>

definition handle_parsed ::
  "http_env \<Rightarrow> (string \<Rightarrow> string \<Rightarrow> string \<Rightarrow> bool)
    \<Rightarrow> (ClientConnection \<Rightarrow> HttpRequest \<Rightarrow> ClientConnection) option \<Rightarrow> string \<Rightarrow> int
    \<Rightarrow> ClientConnection \<Rightarrow> ClientConnection" where
  "handle_parsed env allowed api_handler raw content_length conn =
     (case parse_client_request env raw content_length conn of
        Drop \<Rightarrow> conn
      | Reject status msg \<Rightarrow> server_send_response status ''text/plain'' (Some msg) conn
      | Handle c req \<Rightarrow>
          if \<not> allowed (client_ip c) (rq_host req) (rq_path req)
          then server_send_response 429 ''text/html'' (Some body_429) c
          else (case api_handler of
                  Some h \<Rightarrow> h c req
                | None \<Rightarrow> server_send_response 404 ''text/plain'' (Some ''Not Found'') c))"

end
