(* ===== verification/Server_Laws.thy ===== *)
theory Server_Laws
  imports Server_Http
begin

text \<open>
  Security and round-trip properties of the HTTP front end: what a handler can be called with,
  header injection, spoofing of the client address, and the decoders against encoders.
\<close>

section \<open>Lemmas\<close>

lemma sublist_takeWhile: "sublist p (takeWhile P s) \<Longrightarrow> sublist p s"
  by (metis prefix_imp_sublist sublist_order.order_trans takeWhile_is_prefix)

lemma server_path_safeD:
  assumes "server_path_safe p"
  shows "p \<noteq> []" "\<not> sublist ''..'' p" "CHR 0x5C \<notin> set p" "\<forall>c \<in> set p. \<not> control_char c \<and> c \<noteq> CHR 0x7F"
  using assms by (auto simp: server_path_safe_def strstr_None_iff strchr_None_iff list_all_iff)

lemma decode_target_safe:
  assumes "decode_target mem full = Inr p"
  shows "server_path_safe p" "mem \<Longrightarrow> CHR ''%'' \<notin> set p"
  using assms by (auto simp: decode_target_def Let_def strchr_None_iff split: if_splits)

lemma split_target_path: "fst (split_target p) = takeWhile (\<lambda>c. c \<noteq> CHR ''?'') p"
proof (cases "strchr p CHR ''?''")
  case None
  then have "takeWhile (\<lambda>c. c \<noteq> CHR ''?'') p = p" by (simp only: strchr_None_iff takeWhile_eq_all_conv) blast
  then show ?thesis unfolding split_target_def None by (simp only: option.case fst_conv)
qed (simp add: split_target_def)

lemma build_request_path: "rq_path (build_request m t h b) = fst (split_target t)"
  by (cases "split_target t") (simp add: build_request_def Let_def)

lemma parse_client_HandleD:
  assumes "parse_client_request env raw cl conn = Handle c req"
  obtains meth tgt headers body full where
    "decode_target (env_mem env) full = Inr tgt" "req = build_request meth tgt headers body"
    "c = assign_anon_id (env_random env) req
       (client_of_request env req (conn\<lparr>current_path := buf_copy 256 tgt\<rparr>))"
  using assms by (auto simp: parse_client_request_def Let_def split: option.splits prod.splits sum.splits)

text \<open>Blocks of header lines.\<close>

definition plain_line :: "string \<Rightarrow> bool" where
  "plain_line l \<longleftrightarrow> CHR 0x0D \<notin> set l \<and> CHR 0x0A \<notin> set l"

definition header_block :: "string list \<Rightarrow> string" where
  "header_block ls = concat (map (\<lambda>l. l @ CRLF) ls)"

lemma plain_sanitize: "plain_line (sanitize_line n s)"
  by (auto simp: plain_line_def sanitize_line_def dest: in_set_takeD)

lemma add_headers_block:
  assumes "\<forall>l \<in> set ls. plain_line l" "response_headers conn = header_block ls" "length (response_headers conn) < 1024"
  shows "\<exists>ls'. response_headers (fold server_add_header hs conn) = header_block ls' \<and>
    (\<forall>l \<in> set ls'. plain_line l) \<and> length (response_headers (fold server_add_header hs conn)) < 1024 \<and>
    length ls' \<le> length ls + length hs"
  using assms
proof (induction hs arbitrary: conn ls)
  case Nil
  then show ?case by auto
next
  case (Cons h hs)
  let ?c = "server_add_header h conn" and ?s = "sanitize_line 1022 h"
  show ?case
  proof (cases "length (response_headers conn) + length ?s + 3 < 1024")
    case True
    then have r: "response_headers ?c = header_block (ls @ [?s])"
      using Cons.prems(2) by (simp add: server_add_header_def Let_def header_block_def)
    have "length (response_headers ?c) < 1024" using True by (simp add: server_add_header_def Let_def)
    moreover have "\<forall>l \<in> set (ls @ [?s]). plain_line l" using Cons.prems(1) plain_sanitize by auto
    ultimately show ?thesis using Cons.IH[of "ls @ [?s]" ?c] r by auto
  next
    case False
    then have "?c = conn" by (simp add: server_add_header_def Let_def)
    with Cons.IH[OF Cons.prems] show ?thesis by force
  qed
qed

lemma mask_prefix:
  assumes "0 < p" "p \<le> 32"
  shows "(a AND net_mask p = b AND net_mask p) \<longleftrightarrow> drop_bit (nat (32 - p)) a = drop_bit (nat (32 - p)) b"
proof -
  let ?k = "nat (32 - p)"
  have m: "bit (net_mask p) n \<longleftrightarrow> ?k \<le> n \<and> n < 32" for n
  proof -
    have "(0xFFFFFFFF :: uint32) = -1" by simp
    then have "net_mask p = push_bit ?k (-1)" using assms(1) unfolding net_mask_def by (metis less_irrefl)
    then show ?thesis using assms by (auto simp: bit_simps)
  qed
  have b: "bit x n \<Longrightarrow> n < 32" for x :: uint32 and n using bit_imp_le_length[of x n] by simp
  show ?thesis
    unfolding bit_eq_iff[of "a AND net_mask p"] bit_eq_iff[of "drop_bit ?k a"]
  proof
    assume l: "\<forall>n. possible_bit TYPE(uint32) n \<longrightarrow> bit (a AND net_mask p) n = bit (b AND net_mask p) n"
    show "\<forall>n. possible_bit TYPE(uint32) n \<longrightarrow> bit (drop_bit ?k a) n = bit (drop_bit ?k b) n"
    proof (intro allI impI)
      fix n
      show "bit (drop_bit ?k a) n = bit (drop_bit ?k b) n"
        using l[rule_format, of "?k + n"] b[of a "?k + n"] b[of b "?k + n"]
        by (auto simp: bit_drop_bit_eq bit_and_iff m)
    qed
  next
    assume r: "\<forall>n. possible_bit TYPE(uint32) n \<longrightarrow> bit (drop_bit ?k a) n = bit (drop_bit ?k b) n"
    show "\<forall>n. possible_bit TYPE(uint32) n \<longrightarrow> bit (a AND net_mask p) n = bit (b AND net_mask p) n"
    proof (intro allI impI)
      fix n assume "possible_bit TYPE(uint32) n"
      show "bit (a AND net_mask p) n = bit (b AND net_mask p) n"
        using r[rule_format, of "n - ?k"] by (cases "?k \<le> n") (auto simp: bit_drop_bit_eq bit_and_iff m)
    qed
  qed
qed

section \<open>Properties: the HTTP front end\<close>

text \<open>C27: A handler is never called with a dangerous path. Whatever bytes a client sends,
  percent-encoded once or twice or not at all, the path a handler receives contains no \<open>..\<close>, no
  backslash and no control character, and, unless the buffer of the second decoding pass could
  not be allocated, no remaining percent sign.\<close>

theorem handler_path_safe:
  assumes "parse_client_request env raw content_length conn = Handle c req"
  shows "\<not> sublist ''..'' (rq_path req) \<and> CHR 0x5C \<notin> set (rq_path req) \<and>
         (\<forall>ch \<in> set (rq_path req). \<not> control_char ch) \<and>
         (env_mem env \<longrightarrow> CHR ''%'' \<notin> set (rq_path req))"
proof -
  from assms obtain meth tgt headers body full where
    t: "decode_target (env_mem env) full = Inr tgt" and r: "req = build_request meth tgt headers body"
    by (rule parse_client_HandleD)
  have p: "rq_path req = takeWhile (\<lambda>c. c \<noteq> CHR ''?'') tgt"
    by (simp add: r build_request_path split_target_path)
  note s = server_path_safeD[OF decode_target_safe(1)[OF t]] and m = decode_target_safe(2)[OF t]
  show ?thesis unfolding p using s m by (auto dest: sublist_takeWhile set_takeWhileD)
qed

definition demo_env :: http_env where
  "demo_env = \<lparr>env_nets = [], env_behind_cf = False, env_random = None, env_mem = True\<rparr>"

definition demo_conn :: ClientConnection where
  "demo_conn = \<lparr>client_ip = ''9.9.9.9'', current_path = [], response_headers = [], anon_id = [],
     conn_out = [], access_log = []\<rparr>"

lemma demo_parse:
  assumes "env_mem env"
  shows "\<exists>c. parse_client_request env (''GET /a%20b?x=1 HTTP/1.1'' @ CRLF @ CRLF) 0 demo_conn =
    Handle c (build_request ''GET'' ''/a b?x=1'' None [])"
proof -
  have u: "url_decode ''/a%20b?x=1'' = ''/a b?x=1''"
    by (simp add: is_xdigit_def hex_val_def char_of_def bit_Suc_0_iff Let_def)
  have safe: "server_path_safe ''/a%20b?x=1''" "server_path_safe ''/a b?x=1''"
    by (simp_all add: server_path_safe_def control_char_def strchr_None_iff)
  have "strstr ''/a%20b?x=1'' ''%00'' = None" "strchr ''/a b?x=1'' CHR ''%'' = None"
      "\<not> list_ex control_char ''/a b?x=1''"
    by (simp_all add: strchr_None_iff control_char_def)
  with safe u have d: "decode_target True ''/a%20b?x=1'' = Inr ''/a b?x=1''"
    unfolding decode_target_def Let_def u by simp
  have "cut_at (CRLF @ CRLF) (cstr (''GET /a%20b?x=1 HTTP/1.1'' @ CRLF @ CRLF)) = Some (''GET /a%20b?x=1 HTTP/1.1'', [])"
    by (simp add: cut_at_def cstr_def)
  moreover have "cut_at CRLF ''GET /a%20b?x=1 HTTP/1.1'' = None" by (simp add: cut_at_def)
  ultimately show ?thesis using assms by (simp add: parse_client_request_def strtok_sp_def d cstr_def Let_def)
qed

theorem handler_path_safe_witness:
  "\<exists>c req. parse_client_request demo_env (''GET /a%20b?x=1 HTTP/1.1'' @ CRLF @ CRLF) 0 demo_conn = Handle c req \<and>
     rq_path req = ''/a b'' \<and> \<not> sublist ''..'' (rq_path req)"
proof -
  have "env_mem demo_env" by (simp add: demo_env_def)
  from demo_parse[OF this] obtain c where
    h: "parse_client_request demo_env (''GET /a%20b?x=1 HTTP/1.1'' @ CRLF @ CRLF) 0 demo_conn =
      Handle c (build_request ''GET'' ''/a b?x=1'' None [])" by blast
  have "rq_path (build_request ''GET'' ''/a b?x=1'' None []) = ''/a b''"
    by (simp add: build_request_path split_target_path)
  with handler_path_safe[OF h] h show ?thesis by blast
qed



text \<open>C28: The client address cannot be spoofed from outside. If the peer is in none of the trusted
  networks, that is, its address differs from every trusted network in the first prefix
  bits, then the address used for rate limiting and logging is the peer's own, whatever
  headers the request carries; otherwise it is the peer's or a syntactically valid IPv4 address.\<close>

theorem client_ip_not_spoofed:
  assumes "parse_client_request env raw content_length conn = Handle c req"
    and "\<forall>t \<in> set (env_nets env). 0 < tn_prefix t \<and> tn_prefix t \<le> 32"
  shows "((\<forall>ip t. inet_pton4 (client_ip conn) = Some ip \<and> t \<in> set (env_nets env) \<longrightarrow>
            drop_bit (nat (32 - tn_prefix t)) ip \<noteq> drop_bit (nat (32 - tn_prefix t)) (tn_net t))
          \<longrightarrow> client_ip c = client_ip conn) \<and>
         (client_ip c = client_ip conn \<or> inet_pton4 (client_ip c) \<noteq> None)"
proof -
  from assms(1) obtain meth tgt headers body full where
    c: "c = assign_anon_id (env_random env) req (client_of_request env req (conn\<lparr>current_path := buf_copy 256 tgt\<rparr>))"
    by (rule parse_client_HandleD)
  let ?conn = "conn\<lparr>current_path := buf_copy 256 tgt\<rparr>"
  have ip: "client_ip c = client_ip (client_of_request env req ?conn)"
    unfolding c by (simp add: assign_anon_id_def Let_def split: option.splits)
  have "\<not> ip_is_trusted_proxy (env_nets env) (client_ip conn)"
    if "\<forall>ip t. inet_pton4 (client_ip conn) = Some ip \<and> t \<in> set (env_nets env) \<longrightarrow>
            drop_bit (nat (32 - tn_prefix t)) ip \<noteq> drop_bit (nat (32 - tn_prefix t)) (tn_net t)"
    using that assms(2) by (auto simp: ip_is_trusted_proxy_def list_ex_iff mask_prefix split: option.splits)
  then have a: "client_ip c = client_ip conn"
    if "\<forall>ip t. inet_pton4 (client_ip conn) = Some ip \<and> t \<in> set (env_nets env) \<longrightarrow>
            drop_bit (nat (32 - tn_prefix t)) ip \<noteq> drop_bit (nat (32 - tn_prefix t)) (tn_net t)"
    using that by (simp add: ip client_of_request_def)
  have oct: "length s < 64" if "inet_pton4 s \<noteq> None" for s
  proof -
    have len: "length s + 1 = (\<Sum>w \<leftarrow> split_on CHR ''.'' s. length w + 1)" for s
      by (induction s) (auto split: list.splits)
    show ?thesis using that len[of s] by (auto simp: inet_pton4_def octet_ok_def split: list.splits if_splits)
  qed
  have "client_ip c = client_ip conn \<or> inet_pton4 (client_ip c) \<noteq> None"
    unfolding ip client_of_request_def using oct
    by (auto simp: forwarded_ip_def ip_looks_valid_def Let_def split: option.splits if_splits)
  with a show ?thesis by blast
qed

theorem client_ip_not_spoofed_witness:
  "\<exists>c req. parse_client_request (demo_env\<lparr>env_nets := [\<lparr>tn_net = 0x0A000000, tn_prefix = 8\<rparr>]\<rparr>)
     (''GET /a%20b?x=1 HTTP/1.1'' @ CRLF @ CRLF) 0 demo_conn = Handle c req \<and> client_ip c = ''9.9.9.9''"
proof -
  let ?env = "demo_env\<lparr>env_nets := [\<lparr>tn_net = 0x0A000000, tn_prefix = 8\<rparr>]\<rparr>"
  have "env_mem ?env" by (simp add: demo_env_def)
  from demo_parse[OF this] obtain c where
    h: "parse_client_request ?env (''GET /a%20b?x=1 HTTP/1.1'' @ CRLF @ CRLF) 0 demo_conn =
      Handle c (build_request ''GET'' ''/a b?x=1'' None [])" by blast
  have "inet_pton4 ''9.9.9.9'' = Some 0x09090909"
    by (simp add: inet_pton4_def octet_ok_def is_digit_def digits_val_def)
  then have "client_ip c = ''9.9.9.9''"
    using client_ip_not_spoofed[OF h] by (simp add: demo_conn_def)
  with h show ?thesis by blast
qed

section \<open>Round trips\<close>

lemma hex_digit_props:
  "d < 16 \<Longrightarrow> is_xdigit (hex_digit d) \<and> hex_val (hex_digit d) = d"
  by (auto simp: is_xdigit_def hex_val_def hex_digit_def Let_def)

text \<open>Percent-encoding of every character.\<close>

definition pct_encode :: "string \<Rightarrow> string" where
  "pct_encode s = concat (map (\<lambda>c. [CHR ''%'', hex_digit (of_char c div 16), hex_digit (of_char c mod 16)]) s)"

lemma url_decode_pct: "cstring s \<Longrightarrow> url_decode (pct_encode s) = s"
proof (induction s)
  case Nil
  then show ?case by (simp add: pct_encode_def)
next
  case (Cons c s)
  let ?n = "of_char c :: nat"
  have "?n < 16 * 16" using nat_of_char_less_256[of c] by simp
  then have d: "?n div 16 < 16" "?n mod 16 < 16" by (rule less_mult_imp_div_less, simp)
  have nz: "?n \<noteq> 0"
  proof
    assume "?n = 0"
    then have "(of_char c :: nat) = of_char NUL" by simp
    then have "c = NUL" by (simp only: of_char_eq_iff)
    with Cons.prems show False by (simp add: cstring_def)
  qed
  have "?n div 16 * 16 + ?n mod 16 = ?n" by simp
  moreover have "url_decode (pct_encode s) = s" using Cons by (simp add: cstring_def)
  ultimately show ?case using hex_digit_props[OF d(1)] hex_digit_props[OF d(2)] nz
    by (simp add: pct_encode_def Let_def)
qed

definition query_text :: "(string \<times> string) list \<Rightarrow> string" where
  "query_text ps = (case ps of [] \<Rightarrow> [] | p # qs \<Rightarrow> fst p @ ''='' @ snd p @
     concat (map (\<lambda>q. ''&'' @ fst q @ ''='' @ snd q) qs))"

definition query_pair_ok :: "string \<times> string \<Rightarrow> bool" where
  "query_pair_ok p \<longleftrightarrow> CHR ''&'' \<notin> set (fst p) \<and> CHR ''='' \<notin> set (fst p) \<and> CHR ''&'' \<notin> set (snd p)"

lemma parse_query_pair:
  assumes "query_pair_ok p" "rest = [] \<or> hd rest = CHR ''&''"
  shows "parse_query (Suc n) (fst p @ ''='' @ snd p @ rest) = p # (if rest = [] then [] else parse_query n (tl rest))"
proof -
  let ?q = "fst p @ ''='' @ snd p @ rest" and ?seg = "fst p @ ''='' @ snd p"
  have amp: "CHR ''&'' \<notin> set ?seg" and eq: "CHR ''='' \<notin> set (fst p)" using assms(1) by (auto simp: query_pair_ok_def)
  have kv: "strchr ?seg CHR ''='' = Some (CHR ''='' # snd p)" "takeWhile (\<lambda>c. c \<noteq> CHR ''='') ?seg = fst p"
    using strchr_stop[OF eq, of "snd p"] takeWhile_stop[OF eq, of "snd p"] by simp_all
  show ?thesis
  proof (cases "rest = []")
    case True
    have am: "strchr ?seg CHR ''&'' = None" using amp by (simp only: strchr_None_iff not_False_eq_True)
    have tw: "takeWhile (\<lambda>c. c \<noteq> CHR ''&'') ?seg = ?seg" using amp by (simp only: takeWhile_eq_all_conv) blast
    have "?seg \<noteq> []" by simp
    then have "parse_query (Suc n) ?seg = [p]"
      by (simp only: parse_query.simps Let_def tw am kv option.case list.sel if_False prod.collapse)
    with True show ?thesis by simp
  next
    case False
    then obtain r where r: "rest = CHR ''&'' # r" using assms(2) by (cases rest) auto
    have "takeWhile (\<lambda>c. c \<noteq> CHR ''&'') (?seg @ CHR ''&'' # r) = ?seg"
      "strchr (?seg @ CHR ''&'' # r) CHR ''&'' = Some (CHR ''&'' # r)"
      using takeWhile_stop[OF amp] strchr_stop[OF amp] by blast+
    then show ?thesis using kv unfolding r by (simp add: Let_def)
  qed
qed

lemma parse_query_text:
  "length ps \<le> n \<Longrightarrow> \<forall>p \<in> set ps. query_pair_ok p \<Longrightarrow> parse_query n (query_text ps) = ps"
proof (induction n arbitrary: ps)
  case 0
  then show ?case by simp
next
  case (Suc n)
  show ?case
  proof (cases ps)
    case Nil
    then show ?thesis by (simp add: query_text_def)
  next
    case (Cons p qs)
    let ?rest = "concat (map (\<lambda>q. ''&'' @ fst q @ ''='' @ snd q) qs)"
    have rest: "?rest = [] \<or> hd ?rest = CHR ''&''" "qs = [] \<longleftrightarrow> ?rest = []" "qs \<noteq> [] \<Longrightarrow> tl ?rest = query_text qs"
      by (cases qs; simp add: query_text_def)+
    have "query_text ps = fst p @ ''='' @ snd p @ ?rest" by (simp add: Cons query_text_def)
    then have "parse_query (Suc n) (query_text ps) = p # (if ?rest = [] then [] else parse_query n (tl ?rest))"
      using parse_query_pair[of p ?rest n] Suc.prems(2) rest(1) Cons by simp
    also have "\<dots> = p # qs" using Suc rest Cons by (cases "qs = []") auto
    finally show ?thesis by (simp add: Cons)
  qed
qed

text \<open>The decoders invert the encoders. Percent-decoding gives back every string that was
  percent-encoded character by character, and parsing a query string gives back its pairs in
  order, for up to 50 pairs whose parts contain no separator.\<close>

theorem decoders_invert:
  assumes "cstring s" and "length ps \<le> 50" and "\<forall>p \<in> set ps. query_pair_ok p"
  shows "url_decode (pct_encode s) = s \<and> parse_query 50 (query_text ps) = ps"
  using url_decode_pct[OF assms(1)] parse_query_text[OF assms(2,3)] by blast

theorem decoders_invert_witness:
  "url_decode (pct_encode ''a/b c'') = ''a/b c'' \<and> parse_query 50 ''x=1&y='' = [(''x'', ''1''), (''y'', [])]"
  using decoders_invert[of "''a/b c''" "[(''x'', ''1''), (''y'', [])]"]
  by (simp add: cstring_def query_pair_ok_def query_text_def)

end
