(* ===== verification/Client_Io.thy ===== *)
theory Client_Io
  imports Server_Http
begin

text \<open>
  Reading a request from a connection: the loop at the start of \<open>handle_client\<close>, the whole of
  \<open>handle_client\<close>, and the redirector of port 80 (\<open>src/src/server.c\<close>).

  A connection delivers a byte stream in pieces: the \<open>k\<close>-th read with room for \<open>n\<close> bytes takes
  \<open>min n (sizes k)\<close> bytes off the stream, and takes none when the peer has closed or the read timed
  out. \<open>mem k\<close> tells whether the \<open>k\<close>-th allocation succeeds. \<open>long\<close> arithmetic wraps at 64 bits.
  \<open>body_start\<close> is the offset of the blank line in the buffer it was computed for; \<open>stale\<close> tells that
  this buffer has been freed since.
\<close>

section \<open>The read loop\<close>

definition wrap64 :: "int \<Rightarrow> int" where
  "wrap64 x = (x + 2 ^ 63) mod 2 ^ 64 - 2 ^ 63"

abbreviation (input) MAX_REQUEST :: int where "MAX_REQUEST \<equiv> 10485760"

record read_state =
  rd_buffer :: string
  rd_size :: int
  rd_body_start :: "nat option"
  rd_content_length :: int
  rd_stale :: bool

datatype read_result =
    Received string int
  | Refuse int string
  | NoRequest
  | UseAfterFree

definition read_init :: read_state where
  "read_init = \<lparr>rd_buffer = [], rd_size = 65536, rd_body_start = None, rd_content_length = 0,
     rd_stale = False\<rparr>"

text \<open>Offset of the first match of a pattern in the string at the start of the buffer.\<close>

definition find_at :: "string \<Rightarrow> string \<Rightarrow> nat option" where
  "find_at pat buf = map_option (\<lambda>t. length (cstr buf) - length t) (strstr (cstr buf) pat)"

text \<open>The growth step at the top of the loop; \<open>None\<close> leaves the loop.\<close>

definition grow_buffer :: "bool \<Rightarrow> read_state \<Rightarrow> read_state option" where
  "grow_buffer mem st =
     (if int (length (rd_buffer st)) \<ge> rd_size st - 1
      then if rd_size st * 2 > MAX_REQUEST \<or> \<not> mem then None
           else Some (st\<lparr>rd_size := rd_size st * 2, rd_stale := rd_body_start st \<noteq> None\<rparr>)
      else Some st)"

text \<open>The length declared before offset \<open>off\<close>.\<close>

definition declared_length :: "string \<Rightarrow> nat \<Rightarrow> int option" where
  "declared_length buf off =
     (case (case find_at ''Content-Length:'' buf of
              None \<Rightarrow> find_at ''content-length:'' buf
            | Some i \<Rightarrow> Some i) of
        None \<Rightarrow> None
      | Some i \<Rightarrow> if i < off then Some (strtol (drop (i + 15) (cstr buf))) else None)"

text \<open>The examination of the headers once the blank line has arrived. \<open>Inl\<close>: answered and closed.\<close>

definition examine_headers :: "bool \<Rightarrow> read_state \<Rightarrow> read_result + read_state" where
  "examine_headers mem st =
     (if rd_body_start st \<noteq> None then Inr st
      else case find_at (CRLF @ CRLF) (rd_buffer st) of
        None \<Rightarrow> Inr st
      | Some off \<Rightarrow>
          (let st1 = st\<lparr>rd_body_start := Some off\<rparr>
           in (case declared_length (rd_buffer st) off of
                 None \<Rightarrow> Inr st1
               | Some cl \<Rightarrow>
                   (let required_size = wrap64 (int (off + 4) + cl + 1);
                        st2 = st1\<lparr>rd_content_length := cl\<rparr>
                    in if required_size > MAX_REQUEST then Inl (Refuse 413 ''Payload Too Large'')
                       else if required_size > rd_size st
                       then if mem then Inr (st2\<lparr>rd_size := required_size\<rparr>)
                            else Inl (Refuse 500 ''Internal Server Error'')
                       else Inr st2))))"

definition body_complete :: "read_state \<Rightarrow> bool" where
  "body_complete st =
     (case rd_body_start st of
        None \<Rightarrow> False
      | Some off \<Rightarrow> int (length (rd_buffer st)) - int (off + 4) \<ge> rd_content_length st)"

text \<open>After the loop. A stale \<open>body_start\<close> is written through there.\<close>

definition end_of_input :: "read_state \<Rightarrow> read_result" where
  "end_of_input st =
     (if rd_stale st then UseAfterFree
      else if rd_body_start st = None \<and> find_at (CRLF @ CRLF) (rd_buffer st) = None then NoRequest
      else Received (rd_buffer st) (rd_content_length st))"

definition server_conn_read :: "(nat \<Rightarrow> nat) \<Rightarrow> nat \<Rightarrow> nat \<Rightarrow> string \<Rightarrow> string" where
  "server_conn_read sizes k num stream = take (min num (sizes k)) stream"

partial_function (option) read_request ::
  "(nat \<Rightarrow> nat) \<Rightarrow> (nat \<Rightarrow> bool) \<Rightarrow> nat \<Rightarrow> string \<Rightarrow> read_state \<Rightarrow> read_result option" where
  "read_request sizes mem k stream st =
     (case grow_buffer (mem (2 * k)) st of
        None \<Rightarrow> Some (end_of_input st)
      | Some st1 \<Rightarrow>
          (let data = server_conn_read sizes k (nat (rd_size st1 - 1 - int (length (rd_buffer st1)))) stream
           in if data = [] then Some (end_of_input st1)
              else (case examine_headers (mem (2 * k + 1)) (st1\<lparr>rd_buffer := rd_buffer st1 @ data\<rparr>) of
                      Inl r \<Rightarrow> Some r
                    | Inr st2 \<Rightarrow>
                        if rd_stale st2 then Some UseAfterFree
                        else if body_complete st2 then Some (end_of_input st2)
                        else read_request sizes mem (Suc k) (drop (length data) stream) st2)))"

text \<open>All of \<open>handle_client\<close>: the first allocation, the reading, the request.\<close>

definition handle_client ::
  "http_env \<Rightarrow> (nat \<Rightarrow> nat) \<Rightarrow> bool \<Rightarrow> (nat \<Rightarrow> bool) \<Rightarrow> string \<Rightarrow> (string \<Rightarrow> string \<Rightarrow> string \<Rightarrow> bool)
    \<Rightarrow> (ClientConnection \<Rightarrow> HttpRequest \<Rightarrow> ClientConnection) option
    \<Rightarrow> ClientConnection \<Rightarrow> (unit + ClientConnection) option" where
  "handle_client env sizes mem0 mem stream allowed api_handler conn =
     (if \<not> mem0 then Some (Inr conn)
      else case read_request sizes mem 0 stream read_init of
        None \<Rightarrow> None
      | Some r \<Rightarrow> Some
          (case r of
             Received raw content_length \<Rightarrow> Inr (handle_parsed env allowed api_handler raw content_length conn)
           | Refuse status msg \<Rightarrow> Inr (server_send_response status ''text/plain'' (Some msg) conn)
           | NoRequest \<Rightarrow> Inr conn
           | UseAfterFree \<Rightarrow> Inl ()))"

section \<open>The redirector\<close>

definition redirect_host :: "string option \<Rightarrow> string \<Rightarrow> string" where
  "redirect_host trusted_domain buffer =
     (let found = (case strstr buffer ''Host: '' of None \<Rightarrow> strstr buffer ''host: '' | Some t \<Rightarrow> Some t);
          host = (case found of
                    None \<Rightarrow> ''localhost''
                  | Some t \<Rightarrow>
                      (case cut_at CRLF (drop 6 t) of
                         None \<Rightarrow> ''localhost''
                       | Some (h, _) \<Rightarrow> if length h < 256 then h else ''localhost''))
      in if host = []
         then (case trusted_domain of
                 None \<Rightarrow> ''localhost''
               | Some d \<Rightarrow> if d = [] then ''localhost'' else buf_copy 256 d)
         else host)"

definition http_worker_thread :: "string option \<Rightarrow> string \<Rightarrow> string option" where
  "http_worker_thread trusted_domain received =
     (if received = [] then None
      else Some (buf_copy 1024
        (''HTTP/1.1 301 Moved Permanently'' @ CRLF @
         ''Location: https://'' @ redirect_host trusted_domain (cstr (take 1023 received)) @ ''/'' @ CRLF @
         ''Content-Length: 0'' @ CRLF @ ''Connection: close'' @ CRLF @ CRLF)))"

text \<open>One turn of the redirector: what \<open>accept\<close> returned, whether the handle for the worker could be allocated and the worker
  started, and what the worker receives. Kept are the client descriptors that are open and the answers sent.\<close>

record redirect_event =
  rv_fd :: int
  rv_alloc :: bool
  rv_worker :: bool
  rv_received :: string

record redirect_state =
  rs_open :: "int list"
  rs_sent :: "(int \<times> string) list"

definition redirect_close :: "int \<Rightarrow> redirect_state \<Rightarrow> redirect_state" where
  "redirect_close fd st = st\<lparr>rs_open := remove1 fd (rs_open st)\<rparr>"

definition redirect_turn :: "string option \<Rightarrow> redirect_event \<Rightarrow> redirect_state \<Rightarrow> redirect_state" where
  "redirect_turn trusted_domain ev st =
     (if rv_fd ev < 0 then st
      else let fd = rv_fd ev; st1 = st\<lparr>rs_open := fd # rs_open st\<rparr> in
        if \<not> rv_alloc ev then st1
        else if \<not> rv_worker ev then redirect_close fd st1
        else (case http_worker_thread trusted_domain (rv_received ev) of
                None \<Rightarrow> redirect_close fd st1
              | Some resp \<Rightarrow> redirect_close fd (st1\<lparr>rs_sent := rs_sent st1 @ [(fd, resp)]\<rparr>)))"

text \<open>The loop never ends; the model is what it has done after any number of turns. The flags say whether the socket could be
  created, bound and listened on.\<close>

definition redirector_thread :: "bool \<Rightarrow> bool \<Rightarrow> bool \<Rightarrow> string option \<Rightarrow> redirect_event list \<Rightarrow> redirect_state \<Rightarrow> redirect_state" where
  "redirector_thread socket_ok bind_ok listen_ok trusted_domain evs st =
     (if socket_ok \<and> bind_ok \<and> listen_ok then fold (redirect_turn trusted_domain) evs st else st)"

text \<open>Whenever the handle of an accepted connection cannot be allocated its descriptor stays open, and only then.\<close>

lemma redirector_leaks:
  assumes "socket_ok" "bind_ok" "listen_ok"
  shows "rs_open (redirector_thread socket_ok bind_ok listen_ok trusted_domain evs st) =
    rev (map rv_fd (filter (\<lambda>ev. 0 \<le> rv_fd ev \<and> \<not> rv_alloc ev) evs)) @ rs_open st"
proof -
  have "rs_open (fold (redirect_turn trusted_domain) evs st) =
      rev (map rv_fd (filter (\<lambda>ev. 0 \<le> rv_fd ev \<and> \<not> rv_alloc ev) evs)) @ rs_open st"
    by (induction evs arbitrary: st)
      (auto simp: redirect_turn_def redirect_close_def Let_def not_le split: option.splits)
  then show ?thesis using assms by (simp add: redirector_thread_def)
qed

section \<open>The loop ends\<close>

definition wf_read :: "read_state \<Rightarrow> bool" where
  "wf_read st \<longleftrightarrow> 65536 \<le> rd_size st \<and> rd_size st \<le> MAX_REQUEST \<and> int (length (rd_buffer st)) \<le> rd_size st - 1"

lemma wf_read_init: "wf_read read_init"
  by (simp add: wf_read_def read_init_def)

lemma grow_buffer_wf:
  assumes "wf_read st" "grow_buffer mem st = Some st1"
  shows "wf_read st1" "rd_buffer st1 = rd_buffer st" "int (length (rd_buffer st1)) < rd_size st1 - 1"
  using assms by (auto simp: grow_buffer_def wf_read_def split: if_splits)

lemma examine_headers_InrD:
  assumes "examine_headers mem st = Inr st2"
  shows "rd_buffer st2 = rd_buffer st" "rd_size st \<le> rd_size st2" "rd_stale st2 = rd_stale st"
    "rd_size st \<le> MAX_REQUEST \<Longrightarrow> rd_size st2 \<le> MAX_REQUEST"
  using assms by (auto simp: examine_headers_def Let_def split: if_splits option.splits)

lemma examine_headers_InlD:
  "examine_headers mem st = Inl r \<Longrightarrow> r = Refuse 413 ''Payload Too Large'' \<or> r = Refuse 500 ''Internal Server Error''"
  by (auto simp: examine_headers_def Let_def split: if_splits option.splits)

lemma server_conn_read_props:
  "length (server_conn_read sizes k n stream) \<le> n" "prefix (server_conn_read sizes k n stream) stream"
  by (simp_all add: server_conn_read_def take_is_prefix)

lemma read_data_fits:
  assumes "int (length (rd_buffer st)) < rd_size st - 1"
    "data = server_conn_read sizes k (nat (rd_size st - 1 - int (length (rd_buffer st)))) stream"
  shows "int (length (rd_buffer st) + length data) \<le> rd_size st - 1"
proof -
  have "length data \<le> nat (rd_size st - 1 - int (length (rd_buffer st)))"
    using server_conn_read_props(1) assms(2) by simp
  with assms(1) show ?thesis by linarith
qed

text \<open>A resized buffer holds the declared body, unless the size computation overflowed; so a
  buffer is never outgrown once \<open>body_start\<close> points into it.\<close>

definition overflows :: "string \<Rightarrow> bool" where
  "overflows buf \<longleftrightarrow> (\<exists>off cl. declared_length buf off = Some cl \<and> 2 ^ 63 \<le> int off + cl + 5)"

definition room :: "read_state \<Rightarrow> bool" where
  "room st \<longleftrightarrow> \<not> rd_stale st \<and> (case rd_body_start st of None \<Rightarrow> rd_content_length st = 0
     | Some off \<Rightarrow> int (length (rd_buffer st)) < int (off + 4) + rd_content_length st \<and>
                   int (off + 4) + rd_content_length st + 1 \<le> rd_size st)"

lemma find_at_less: "find_at pat buf = Some off \<Longrightarrow> off + length pat \<le> length (cstr buf)"
  by (auto simp: find_at_def dest!: strstr_SomeD suffix_length_le prefix_length_le)

lemma length_cstr: "length (cstr buf) \<le> length buf"
  unfolding cstr_def by (rule length_takeWhile_le)

lemma wrap64_id: "- (2 ^ 63) \<le> x \<Longrightarrow> x < 2 ^ 63 \<Longrightarrow> wrap64 x = x"
  by (simp add: wrap64_def)

lemma strtol_bounds: "- (2 ^ 63) \<le> strtol s \<and> strtol s < 2 ^ 63"
  by (simp add: strtol_def Let_def split_beta)

lemma declared_bounds: "declared_length buf off = Some cl \<Longrightarrow> - (2 ^ 63) \<le> cl \<and> cl < 2 ^ 63"
  using strtol_bounds by (auto simp: declared_length_def split: option.splits if_splits)

lemma examine_room:
  assumes "examine_headers mem st = Inr st2" "\<not> rd_stale st"
    "\<not> overflows (rd_buffer st)" "\<not> body_complete st2"
    "rd_body_start st = None \<Longrightarrow> rd_content_length st = 0"
    "\<And>off. rd_body_start st = Some off \<Longrightarrow> int (off + 4) + rd_content_length st + 1 \<le> rd_size st"
  shows "room st2"
proof (cases "rd_body_start st = None")
  case True
  note ns = assms(2)
  show ?thesis
  proof (cases "find_at (CRLF @ CRLF) (rd_buffer st)")
    case None
    with True assms(1,5) ns show ?thesis by (simp add: examine_headers_def room_def)
  next
    case (Some off)
    have l: "off + 4 \<le> length (rd_buffer st)" using find_at_less[OF Some] length_cstr[of "rd_buffer st"] by simp
    show ?thesis
    proof (cases "declared_length (rd_buffer st) off")
      case None
      with True Some assms(1) have "st2 = st\<lparr>rd_body_start := Some off\<rparr>" by (simp add: examine_headers_def)
      with l assms(4,5) True show ?thesis by (auto simp: body_complete_def)
    next
      case (Some cl)
      have nov: "int off + cl + 5 < 2 ^ 63" using Some assms(3) unfolding overflows_def by (meson not_le)
      have "wrap64 (int (off + 4) + cl + 1) = int (off + 4) + cl + 1"
        using declared_bounds[OF Some] nov by (intro wrap64_id) auto
      with True Some \<open>find_at (CRLF @ CRLF) (rd_buffer st) = Some off\<close> assms(1,4) ns show ?thesis
        by (auto simp: examine_headers_def Let_def room_def body_complete_def split: if_splits)
    qed
  qed
next
  case False
  then obtain off where off: "rd_body_start st = Some off" by blast
  with assms(1) have "st2 = st" by (simp add: examine_headers_def)
  with off assms(2,4,6) show ?thesis by (auto simp: room_def body_complete_def)
qed

lemma grow_room:
  assumes "room st" "grow_buffer mem st = Some st1"
  shows "\<not> rd_stale st1" "rd_body_start st1 = rd_body_start st" "rd_content_length st1 = rd_content_length st"
    "rd_body_start st \<noteq> None \<Longrightarrow> st1 = st"
  using assms by (auto simp: grow_buffer_def room_def split: if_splits option.splits)

text \<open>The loop ends, whatever the pieces; what it returns is what it received.\<close>

definition sound_result :: "string \<Rightarrow> read_result \<Rightarrow> bool" where
  "sound_result all r \<longleftrightarrow> (\<forall>raw cl. r = Received raw cl \<longrightarrow> prefix raw all \<and> int (length raw) < MAX_REQUEST)"

lemma end_of_input_sound:
  "prefix (rd_buffer st) all \<Longrightarrow> int (length (rd_buffer st)) < MAX_REQUEST \<Longrightarrow> sound_result all (end_of_input st)"
  by (simp add: sound_result_def end_of_input_def)

text \<open>One round of the loop, by how it ends.\<close>

lemma read_round:
  assumes wf: "wf_read st"
  obtains (finish) st1 where "read_request sizes mem k stream st = Some (end_of_input st1)"
      "wf_read st1" "prefix (rd_buffer st1) (rd_buffer st @ stream)" "room st \<Longrightarrow> \<not> rd_stale st1"
  | (refuse) status msg where "read_request sizes mem k stream st = Some (Refuse status msg)"
  | (stale) "read_request sizes mem k stream st = Some UseAfterFree" "\<not> room st"
  | (more) st2 data where "wf_read st2" "rd_buffer st2 = rd_buffer st @ data" "data \<noteq> []" "prefix data stream"
      "read_request sizes mem k stream st = read_request sizes mem (Suc k) (drop (length data) stream) st2"
      "room st \<Longrightarrow> \<not> overflows (rd_buffer st2) \<Longrightarrow> room st2"
proof (cases "grow_buffer (mem (2 * k)) st")
  case None
  then have "read_request sizes mem k stream st = Some (end_of_input st)" by (simp add: read_request.simps)
  with wf show ?thesis by (intro finish[of st]) (auto simp: room_def)
next
  case (Some st1)
  note g = grow_buffer_wf[OF wf Some] and gr = grow_room[OF _ Some]
  define data where "data = server_conn_read sizes k (nat (rd_size st1 - 1 - int (length (rd_buffer st1)))) stream"
  let ?st = "st1\<lparr>rd_buffer := rd_buffer st1 @ data\<rparr>"
  have pre: "prefix data stream" unfolding data_def by (rule server_conn_read_props)
  show ?thesis
  proof (cases "data = []")
    case True
    then have "read_request sizes mem k stream st = Some (end_of_input st1)"
      unfolding read_request.simps[of sizes mem k] by (simp add: Some data_def[symmetric] Let_def)
    with g gr(1) show ?thesis by (intro finish[of st1]) simp_all
  next
    case False
    note step = read_request.simps[of sizes mem k stream st, unfolded Some option.case Let_def data_def[symmetric] if_not_P[OF False]]
    show ?thesis
    proof (cases "examine_headers (mem (2 * k + 1)) ?st")
      case (Inl r)
      with step examine_headers_InlD[OF Inl] show ?thesis by (auto intro: refuse)
    next
      case (Inr st2)
      note e = examine_headers_InrD[OF Inr]
      have b2: "rd_buffer st2 = rd_buffer st @ data" using e(1) g(2) by simp
      have wf2: "wf_read st2" using e g(1) read_data_fits[OF g(3) data_def] by (auto simp: wf_read_def)
      have st2: "rd_stale st2 = rd_stale st1" using e(3) by simp
      have p2: "prefix (rd_buffer st2) (rd_buffer st @ stream)" using b2 pre by simp
      consider "rd_stale st2" | "\<not> rd_stale st2" "body_complete st2" | "\<not> rd_stale st2" "\<not> body_complete st2" by blast
      then show ?thesis
      proof cases
        case 1
        with step Inr st2 gr(1) show ?thesis by (intro stale) auto
      next
        case 2
        with step Inr wf2 p2 show ?thesis by (intro finish[of st2]) auto
      next
        case 3
        have "room st2" if rm: "room st" and ov: "\<not> overflows (rd_buffer st2)"
          using Inr gr(1)[OF rm] ov e(1) 3(2) gr(2,3,4)[OF rm] rm
          by (intro examine_room[OF Inr]) (auto simp: room_def)
        with step Inr wf2 b2 False pre 3 show ?thesis by (intro more[of st2 data]) auto
      qed
    qed
  qed
qed

lemma read_request_returns:
  assumes "wf_read st"
  shows "\<exists>r. read_request sizes mem k stream st = Some r \<and> sound_result (rd_buffer st @ stream) r \<and>
     (room st \<longrightarrow> (\<forall>buf. prefix buf (rd_buffer st @ stream) \<longrightarrow> \<not> overflows buf) \<longrightarrow> r \<noteq> UseAfterFree)"
  using assms
proof (induction "nat (MAX_REQUEST - int (length (rd_buffer st)))" arbitrary: st k stream rule: less_induct)
  case less
  show ?case using less.prems
  proof (cases rule: read_round[where sizes = sizes and mem = mem and k = k and stream = stream])
    case (finish st1)
    then have "int (length (rd_buffer st1)) < MAX_REQUEST" by (simp add: wf_read_def)
    with end_of_input_sound finish show ?thesis by (auto simp: end_of_input_def)
  next
    case (more st2 data)
    have all: "rd_buffer st2 @ drop (length data) stream = rd_buffer st @ stream"
      using more(2,4) by (auto elim!: prefixE)
    have "length (rd_buffer st) < length (rd_buffer st2)" using more(2,3) by simp
    moreover have "int (length (rd_buffer st2)) < MAX_REQUEST" using more(1) by (simp add: wf_read_def)
    ultimately have "nat (MAX_REQUEST - int (length (rd_buffer st2))) < nat (MAX_REQUEST - int (length (rd_buffer st)))" by simp
    from less.hyps[OF this more(1), of "Suc k" "drop (length data) stream", unfolded all] more(5,6)
    show ?thesis using all by (metis prefixI)
  qed (auto simp: sound_result_def)
qed

end
