(* ===== verification/Client_Laws.thy ===== *)
theory Client_Laws
  imports Client_Io
begin

text \<open>
  Reading of requests: the loop of \<open>handle_client\<close> always ends within its limit, a request with a
  correct \<open>Content-Length\<close> is received whole however the network cuts it into pieces, and
  the overflow in the size computation leaves a dangling pointer.
\<close>

lemmas examine_simps = examine_headers_def grow_buffer_def body_complete_def Let_def

section \<open>A well-formed request\<close>

definition blank_line :: string where
  "blank_line = CRLF @ CRLF"

definition framed :: "string \<Rightarrow> string \<Rightarrow> bool" where
  "framed head body \<longleftrightarrow> cstring head \<and> strstr (head @ blank_line) blank_line = Some blank_line \<and>
     (\<exists>h. strstr head ''Content-Length:'' = Some (''Content-Length: '' @ dec_nat (length body) @ h) \<and>
          (h = [] \<or> hd h = CHR 0x0D)) \<and>
     length head + 4 \<le> 5242880 \<and> length head + 4 + length body + 1 \<le> 10485760"

lemma strtol_dec_nat:
  assumes "n < 2 ^ 63" "rest = [] \<or> \<not> is_digit (hd rest)"
  shows "strtol (CHR '' '' # dec_nat n @ rest) = int n"
proof -
  have "dropWhile is_space (CHR '' '' # dec_nat n @ rest) = dropWhile is_space (dec_nat n @ rest)"
    by (simp add: is_space_def Let_def)
  then show ?thesis using assms by (simp add: strtol_def dec_nat_no_sign digits_val_dec_nat)
qed

lemma framed_partial:
  assumes "framed head body" "prefix buf (head @ blank_line)" "length buf < length head + 4"
  shows "find_at (CRLF @ CRLF) buf = None"
proof (rule ccontr)
  assume "find_at (CRLF @ CRLF) buf \<noteq> None"
  then obtain t where t: "strstr (cstr buf) blank_line = Some t" by (auto simp: find_at_def blank_line_def)
  have "cstring (head @ blank_line)" using assms(1) by (simp add: framed_def cstring_def blank_line_def)
  then have "cstring buf" using set_mono_prefix[OF assms(2)] by (auto simp: cstring_def)
  then have c: "cstr buf = buf" by (simp add: cstr_def cstring_def takeWhile_eq_all_conv) metis
  obtain u where u: "head @ blank_line = buf @ u" using assms(2) by (auto simp: prefix_def)
  have "strstr (head @ blank_line) blank_line = Some (t @ u)" using strstr_append[of buf blank_line t u] t c u by simp
  then have "t @ u = blank_line" using assms(1) by (simp add: framed_def)
  moreover have "prefix blank_line t" using strstr_SomeD[OF t] by simp
  ultimately have "u = []" by (metis append_eq_append_conv2 prefix_def append_self_conv append_is_Nil_conv)
  then have "length buf = length head + 4" using arg_cong[OF u, of length] by (simp add: blank_line_def)
  with assms(3) show False by simp
qed

lemma framed_found:
  assumes "framed head body"
  shows "find_at (CRLF @ CRLF) (head @ blank_line @ z) = Some (length head)"
    and "declared_length (head @ blank_line @ z) (length head) = Some (int (length body))"
proof -
  have nul: "cstring (head @ blank_line)" using assms by (simp add: framed_def cstring_def blank_line_def)
  have c: "cstr (head @ blank_line @ z) = head @ blank_line @ cstr z"
    using cstr_append[OF nul, of z] by simp
  have "strstr ((head @ blank_line) @ cstr z) blank_line = Some (blank_line @ cstr z)"
    by (rule strstr_append) (use assms in \<open>simp add: framed_def\<close>)
  then show "find_at (CRLF @ CRLF) (head @ blank_line @ z) = Some (length head)"
    by (simp add: find_at_def c blank_line_def[symmetric]) (simp add: blank_line_def)
  from assms obtain h where h: "strstr head ''Content-Length:'' = Some (''Content-Length: '' @ dec_nat (length body) @ h)"
    "h = [] \<or> hd h = CHR 0x0D" unfolding framed_def by blast
  define v where "v = CHR '' '' # dec_nat (length body) @ h @ blank_line @ cstr z"
  have s: "strstr (head @ blank_line @ cstr z) ''Content-Length:'' = Some (''Content-Length:'' @ v)"
    using strstr_append[OF h(1), of "blank_line @ cstr z"] by (simp add: v_def)
  obtain w where w: "head = w @ ''Content-Length:'' @ CHR '' '' # dec_nat (length body) @ h"
    using strstr_SomeD[OF h(1)] by (auto simp: suffix_def)
  have i: "find_at ''Content-Length:'' (head @ blank_line @ z) = Some (length w)"
    unfolding find_at_def c s by (simp add: w v_def)
  have "drop (length w + 15) (cstr (head @ blank_line @ z)) = v" unfolding c by (simp add: w v_def)
  moreover have "strtol v = int (length body)" unfolding v_def
    by (rule strtol_dec_nat) (use assms h(2) in \<open>auto simp: framed_def blank_line_def is_digit_def hd_append\<close>)
  ultimately show "declared_length (head @ blank_line @ z) (length head) = Some (int (length body))"
    using i w by (simp add: declared_length_def)
qed

section \<open>Receiving it\<close>

definition receiving :: "string \<Rightarrow> string \<Rightarrow> read_state \<Rightarrow> bool" where
  "receiving head body st \<longleftrightarrow> wf_read st \<and> \<not> rd_stale st \<and>
     (rd_body_start st = None \<and> length (rd_buffer st) < length head + 4 \<or>
      rd_body_start st = Some (length head) \<and> rd_content_length st = int (length body) \<and>
      length (rd_buffer st) < length head + 4 + length body \<and>
      int (length head + 4 + length body + 1) \<le> rd_size st)"

lemma receiving_grow:
  assumes "framed head body" "receiving head body st"
  obtains st1 where "grow_buffer True st = Some st1" "receiving head body st1" "rd_buffer st1 = rd_buffer st"
    "int (length (rd_buffer st1)) < rd_size st1 - 1"
proof -
  let ?full = "int (length (rd_buffer st)) \<ge> rd_size st - 1"
  have "grow_buffer True st = Some (if ?full then st\<lparr>rd_size := rd_size st * 2, rd_stale := False\<rparr> else st) \<and>
      (?full \<longrightarrow> rd_body_start st = None \<and> rd_size st * 2 \<le> MAX_REQUEST)"
  proof (cases ?full)
    case True
    with assms(2) have "rd_body_start st = None" "length (rd_buffer st) < length head + 4"
      unfolding receiving_def by (linarith, linarith)
    moreover from this True have "rd_size st \<le> 5242880" using assms(1) unfolding framed_def by linarith
    ultimately show ?thesis using True by (simp add: grow_buffer_def)
  qed (simp add: grow_buffer_def)
  then have "\<exists>st1. grow_buffer True st = Some st1 \<and> receiving head body st1"
    by (cases ?full) (use assms(2) in \<open>simp_all add: receiving_def wf_read_def\<close>)
  then obtain st1 where st1: "grow_buffer True st = Some st1" "receiving head body st1" by blast
  have "wf_read st" using assms(2) by (simp add: receiving_def)
  from grow_buffer_wf[OF this st1(1)] show ?thesis using st1 that by blast
qed

lemma receiving_examine:
  assumes "framed head body" "receiving head body st" "int (length (rd_buffer st @ data)) \<le> rd_size st - 1"
    "prefix (rd_buffer st @ data) (head @ blank_line @ body @ rest)"
  obtains st2 where "examine_headers True (st\<lparr>rd_buffer := rd_buffer st @ data\<rparr>) = Inr st2"
    "rd_buffer st2 = rd_buffer st @ data" "\<not> rd_stale st2"
    "body_complete st2 \<and> rd_content_length st2 = int (length body) \<and> rd_body_start st2 = Some (length head)
     \<or> \<not> body_complete st2 \<and> receiving head body st2"
proof -
  let ?st = "st\<lparr>rd_buffer := rd_buffer st @ data\<rparr>"
  have wf: "wf_read ?st" using assms(2,3) by (simp add: receiving_def wf_read_def)
  have ns: "\<not> rd_stale st" using assms(2) by (simp add: receiving_def)
  consider (known) "rd_body_start st = Some (length head)" "rd_content_length st = int (length body)"
      "int (length head + 4 + length body + 1) \<le> rd_size st"
    | (partial) "rd_body_start st = None" "length (rd_buffer st @ data) < length head + 4"
    | (whole) "rd_body_start st = None" "length head + 4 \<le> length (rd_buffer st @ data)"
    using assms(2) unfolding receiving_def by linarith
  then show ?thesis
  proof cases
    case known
    then have "examine_headers True ?st = Inr ?st" by (simp add: examine_headers_def)
    with known wf ns show ?thesis by (intro that[of ?st]) (auto simp: receiving_def body_complete_def)
  next
    case partial
    have "prefix (rd_buffer st @ data) (head @ blank_line)"
      using assms(4) partial(2) by (auto intro: prefix_length_prefix[of _ "head @ blank_line @ body @ rest"] simp: blank_line_def)
    from framed_partial[OF assms(1) this] partial have "examine_headers True ?st = Inr ?st"
      by (simp add: examine_headers_def)
    with partial wf ns show ?thesis by (intro that[of ?st]) (auto simp: receiving_def body_complete_def)
  next
    case whole
    have "prefix (head @ blank_line) (rd_buffer st @ data)"
      using assms(4) whole(2) by (auto intro: prefix_length_prefix[of _ "head @ blank_line @ body @ rest"] simp: blank_line_def)
    then obtain z where z: "rd_buffer st @ data = head @ blank_line @ z" by (auto simp: prefix_def)
    define sz where "sz = (if int (length head + 4 + length body + 1) > rd_size st
                           then int (length head + 4 + length body + 1) else rd_size st)"
    have w: "wrap64 (int (length head + 4) + int (length body) + 1) = int (length head + 4 + length body + 1)"
      using assms(1) by (subst wrap64_id) (auto simp: framed_def)
    let ?st2 = "?st\<lparr>rd_body_start := Some (length head), rd_content_length := int (length body), rd_size := sz\<rparr>"
    have "examine_headers True ?st = Inr ?st2"
      using whole(1) framed_found[OF assms(1), of z] assms(1) w
      by (simp add: examine_headers_def z sz_def framed_def)
    moreover have "wf_read ?st2" using wf assms(1) by (auto simp: wf_read_def sz_def framed_def)
    ultimately show ?thesis using ns by (intro that[of ?st2]) (auto simp: receiving_def body_complete_def sz_def)
  qed
qed

lemma read_framed:
  assumes "framed head body" "receiving head body st" "\<And>k. 0 < sizes k"
    "rd_buffer st @ stream = head @ blank_line @ body @ rest"
  shows "\<exists>raw. read_request sizes (\<lambda>_. True) k stream st = Some (Received raw (int (length body))) \<and>
           prefix (head @ blank_line @ body) raw"
  using assms(2,4)
proof (induction "length stream" arbitrary: st k stream rule: less_induct)
  case less
  obtain st1 where g: "grow_buffer True st = Some st1" "receiving head body st1" "rd_buffer st1 = rd_buffer st"
    "int (length (rd_buffer st1)) < rd_size st1 - 1"
    using receiving_grow[OF assms(1) less.prems(1)] by blast
  define data where "data = server_conn_read sizes k (nat (rd_size st1 - 1 - int (length (rd_buffer st1)))) stream"
  have ne: "stream \<noteq> []"
    using less.prems by (auto simp: receiving_def blank_line_def dest: arg_cong[where f = length])
  then have dne: "data \<noteq> []" using assms(3)[of k] g(4) by (simp add: data_def server_conn_read_def)
  have pre: "prefix data stream" unfolding data_def by (rule server_conn_read_props)
  then have all: "(rd_buffer st1 @ data) @ drop (length data) stream = head @ blank_line @ body @ rest"
    using g(3) less.prems(2) by (auto elim!: prefixE)
  have pf: "prefix (rd_buffer st1 @ data) (head @ blank_line @ body @ rest)" using all by (metis prefixI)
  have fits: "int (length (rd_buffer st1 @ data)) \<le> rd_size st1 - 1" using read_data_fits[OF g(4) data_def] by simp
  obtain st2 where e: "examine_headers True (st1\<lparr>rd_buffer := rd_buffer st1 @ data\<rparr>) = Inr st2"
    "rd_buffer st2 = rd_buffer st1 @ data" "\<not> rd_stale st2"
    "body_complete st2 \<and> rd_content_length st2 = int (length body) \<and> rd_body_start st2 = Some (length head)
     \<or> \<not> body_complete st2 \<and> receiving head body st2"
    using receiving_examine[OF assms(1) g(2) fits pf] by blast
  have step: "read_request sizes (\<lambda>_. True) k stream st = (if body_complete st2 then Some (end_of_input st2)
      else read_request sizes (\<lambda>_. True) (Suc k) (drop (length data) stream) st2)"
    by (subst read_request.simps) (simp add: g(1) data_def[symmetric] dne e(1,3))
  show ?case
  proof (cases "body_complete st2")
    case True
    with e have f: "end_of_input st2 = Received (rd_buffer st2) (int (length body))"
      "length (head @ blank_line @ body) \<le> length (rd_buffer st2)"
      by (auto simp: end_of_input_def body_complete_def blank_line_def)
    have "prefix (head @ blank_line @ body) (head @ blank_line @ body @ rest)" by simp
    then have "prefix (head @ blank_line @ body) (rd_buffer st2)" using pf f(2) e(2) by (metis prefix_length_prefix)
    with f True step show ?thesis by simp
  next
    case False
    moreover have "length (drop (length data) stream) < length stream" using ne dne by (cases stream; cases data) auto
    ultimately show ?thesis using less.hyps[of "drop (length data) stream" st2 "Suc k"] e all step by simp
  qed
qed

section \<open>The overflow\<close>

definition overflow_head :: string where
  "overflow_head = ''POST / HTTP/1.1'' @ CRLF @ ''Content-Length: 9223372036854775807''"

lemma cstring_overflow_head: "cstring (overflow_head @ blank_line)"
  by (simp add: cstring_def overflow_head_def blank_line_def)

lemma overflow_found:
  "find_at (CRLF @ CRLF) (overflow_head @ blank_line @ z) = Some 52"
  "declared_length (overflow_head @ blank_line @ z) 52 = Some (2 ^ 63 - 1)"
proof -
  have c: "cstr (overflow_head @ blank_line @ z) = overflow_head @ blank_line @ cstr z"
    using cstr_append[OF cstring_overflow_head, of z] by simp
  show "find_at (CRLF @ CRLF) (overflow_head @ blank_line @ z) = Some 52"
    unfolding find_at_def c by (simp add: overflow_head_def blank_line_def)
  have f: "find_at ''Content-Length:'' (overflow_head @ blank_line @ z) = Some 17"
    unfolding find_at_def c by (simp add: overflow_head_def blank_line_def)
  have "strtol (drop (17 + 15) (overflow_head @ blank_line @ cstr z)) = 2 ^ 63 - 1"
    by (simp add: overflow_head_def blank_line_def strtol_def split_sign_def is_space_def digits_val_def is_digit_def)
  then show "declared_length (overflow_head @ blank_line @ z) 52 = Some (2 ^ 63 - 1)"
    by (simp add: declared_length_def f c)
qed

section \<open>Properties: reading a request\<close>



text \<open>C10: A request is received whole, however the network cuts it. If the header announces the
  length of the body, header and body fit the limits, and every read delivers something while
  bytes are outstanding, then the loop hands on that length together with data that begin
  with the header, the blank line and the entire body.\<close>

theorem request_read_complete:
  assumes "framed head body" "\<And>k. 0 < sizes k"
  shows "\<exists>raw. read_request sizes (\<lambda>_. True) 0 (head @ blank_line @ body @ rest) read_init
             = Some (Received raw (int (length body))) \<and> prefix (head @ blank_line @ body) raw"
proof -
  have "receiving head body read_init"
    using wf_read_init by (simp add: receiving_def read_init_def)
  from read_framed[OF assms(1) this assms(2), where rest = rest] show ?thesis by (simp add: read_init_def)
qed

theorem request_read_complete_witness:
  "\<exists>raw. read_request (\<lambda>k. 1) (\<lambda>_. True) 0
     ((''POST / HTTP/1.1'' @ CRLF @ ''Content-Length: 2'') @ blank_line @ ''hi'' @ []) read_init
     = Some (Received raw 2) \<and> prefix ((''POST / HTTP/1.1'' @ CRLF @ ''Content-Length: 2'') @ blank_line @ ''hi'') raw"
proof -
  have "framed (''POST / HTTP/1.1'' @ CRLF @ ''Content-Length: 2'') ''hi''"
    by (simp add: framed_def cstring_def blank_line_def dec_nat.simps digit_char_def char_of_def bit_Suc_0_iff)
  from request_read_complete[OF this, of "\<lambda>k. 1" "[]"] show ?thesis by simp
qed

text \<open>A declared length near the largest \<open>long\<close> escapes the limit of 10 MiB: the computed buffer size wraps
  to a negative number, the buffer is later replaced by a larger one, and the pointer to the
  blank line still points into the freed buffer when it is next used.\<close>

theorem content_length_overflow:
  "read_request (\<lambda>_. 65535) (\<lambda>_. True) 0 (overflow_head @ blank_line @ replicate 65536 CHR ''a'') read_init
     = Some UseAfterFree"
proof -
  define z where "z = replicate 65479 CHR ''a''"
  define st where "st = read_init\<lparr>rd_buffer := overflow_head @ blank_line @ z,
    rd_body_start := Some 52, rd_content_length := 2 ^ 63 - 1\<rparr>"
  have len: "length overflow_head = 52" "length blank_line = 4" "length z = 65479"
    by (simp_all add: overflow_head_def blank_line_def z_def)
  have split: "overflow_head @ blank_line @ replicate 65536 CHR ''a'' =
      (overflow_head @ blank_line @ z) @ replicate 57 CHR ''a''"
    unfolding z_def by (simp add: replicate_add[symmetric])
  have d: "server_conn_read (\<lambda>_. 65535) 0 65535 (overflow_head @ blank_line @ replicate 65536 CHR ''a'')
      = overflow_head @ blank_line @ z"
    unfolding server_conn_read_def split using len by simp
  have e: "examine_headers True (read_init\<lparr>rd_buffer := overflow_head @ blank_line @ z\<rparr>) = Inr st"
    using overflow_found[of z] by (simp add: examine_headers_def st_def read_init_def wrap64_def)
  have "read_request (\<lambda>_. 65535) (\<lambda>_. True) 0 (overflow_head @ blank_line @ replicate 65536 CHR ''a'') read_init
      = read_request (\<lambda>_. 65535) (\<lambda>_. True) (Suc 0) (replicate 57 CHR ''a'') st"
  proof -
    have "grow_buffer True read_init = Some read_init" by (simp add: grow_buffer_def read_init_def)
    moreover have "\<not> rd_stale st" "\<not> body_complete st" using len by (simp_all add: st_def read_init_def body_complete_def)
    moreover have "drop (length (overflow_head @ blank_line @ z)) (overflow_head @ blank_line @ replicate 65536 CHR ''a'')
        = replicate 57 CHR ''a''" unfolding split by (metis append_eq_conv_conj)
    moreover have "nat (rd_size read_init - 1 - int (length (rd_buffer read_init))) = 65535" "rd_buffer read_init = []"
      by (simp_all add: read_init_def)
    moreover have "overflow_head @ blank_line @ z \<noteq> []" by (simp add: blank_line_def)
    ultimately show ?thesis
      by (subst read_request.simps) (simp only: option.case d e sum.case Let_def if_False append_Nil)
  qed
  also have "\<dots> = Some UseAfterFree"
  proof -
    let ?st = "st\<lparr>rd_size := 131072, rd_stale := True\<rparr>"
    have "grow_buffer True st = Some ?st" using len by (simp add: grow_buffer_def st_def read_init_def)
    moreover have "server_conn_read (\<lambda>_. 65535) (Suc 0) (nat (rd_size ?st - 1 - int (length (rd_buffer ?st)))) (replicate 57 CHR ''a'')
        = replicate 57 CHR ''a''" using len by (simp add: server_conn_read_def st_def)
    moreover have "examine_headers True (?st\<lparr>rd_buffer := b\<rparr>) = Inr (?st\<lparr>rd_buffer := b\<rparr>)" for b
      by (simp add: examine_headers_def st_def)
    ultimately show ?thesis by (subst read_request.simps) (simp add: Let_def)
  qed
  finally show ?thesis .
qed

end
