(* ===== verification/Worker_Pool.thy ===== *)
theory Worker_Pool
  imports Arws_Prelude
begin

text \<open>
  Accepting connections and handing them to the worker threads (\<open>src/src/server.c\<close>): the pool of
  connection slots, the ring buffer of jobs, and the admission limit. Every critical section of
  the source is one transition; the main thread and the workers interleave freely. A wait on a
  full or empty queue is the absence of a transition.
\<close>

section \<open>The job queue\<close>

record job_pool =
  job_queue :: "nat list"
  job_head :: nat
  job_tail :: nat
  job_count :: nat
  pool_shutdown :: bool

abbreviation (input) QUEUE_SIZE :: nat where "QUEUE_SIZE \<equiv> 16384"

definition pool_init :: job_pool where
  "pool_init = \<lparr>job_queue = replicate QUEUE_SIZE 0, job_head = 0, job_tail = 0, job_count = 0,
     pool_shutdown = False\<rparr>"

text \<open>\<open>None\<close>: the caller waits.\<close>

definition pool_push :: "nat \<Rightarrow> job_pool \<Rightarrow> job_pool option" where
  "pool_push ec q =
     (if job_count q \<ge> QUEUE_SIZE \<and> \<not> pool_shutdown q then None
      else if pool_shutdown q then Some q
      else Some (q\<lparr>job_queue := (job_queue q)[job_tail q := ec],
                   job_tail := (job_tail q + 1) mod QUEUE_SIZE, job_count := job_count q + 1\<rparr>))"

text \<open>\<open>Some None\<close>: the worker ends.\<close>

definition pool_pop :: "job_pool \<Rightarrow> (nat option \<times> job_pool) option" where
  "pool_pop q =
     (if job_count q = 0 \<and> \<not> pool_shutdown q then None
      else if pool_shutdown q \<and> job_count q = 0 then Some (None, q)
      else Some (Some (job_queue q ! job_head q),
                 q\<lparr>job_head := (job_head q + 1) mod QUEUE_SIZE, job_count := job_count q - 1\<rparr>))"

section \<open>Connection slots\<close>

record EConn =
  ec_fd :: int
  ec_in_use :: bool
  ec_mode :: int
  ec_client_ip :: string

abbreviation (input) MAX_CONN :: nat where "MAX_CONN \<equiv> 65536"
abbreviation (input) MAX_CONNECTIONS :: int where "MAX_CONNECTIONS \<equiv> 65536"

definition econn_alloc :: "EConn list \<Rightarrow> (nat \<times> EConn list) option" where
  "econn_alloc pool =
     map_option (\<lambda>i. (i, pool[i := (pool ! i)\<lparr>ec_in_use := True, ec_fd := -1\<rparr>]))
       (first_idx (\<lambda>e. \<not> ec_in_use e) pool)"

definition econn_free :: "nat \<Rightarrow> EConn list \<Rightarrow> EConn list" where
  "econn_free i pool = pool[i := (pool ! i)\<lparr>ec_in_use := False\<rparr>]"

section \<open>The server as a transition system\<close>

datatype main_state = Idle | Admitted int | HasConn nat

record server_state =
  econn_pool :: "EConn list"
  active_connections :: int
  jobs :: job_pool
  main_thread :: main_state
  serving :: "nat list"
  closing :: "nat list"

definition server_init :: server_state where
  "server_init = \<lparr>econn_pool = replicate MAX_CONN \<lparr>ec_fd = 0, ec_in_use = False, ec_mode = 0, ec_client_ip = []\<rparr>,
     active_connections = 0, jobs = pool_init, main_thread = Idle, serving = [], closing = []\<rparr>"

text \<open>The main thread admits a connection or answers 503, takes a slot or gives up, queues the
  slot; a worker takes a job, decrements the counter when done, frees the slot.\<close>

inductive server_step :: "server_state \<Rightarrow> server_state \<Rightarrow> bool" where
  admit: "main_thread s = Idle \<Longrightarrow> active_connections s < MAX_CONNECTIONS \<Longrightarrow>
    server_step s (s\<lparr>active_connections := active_connections s + 1, main_thread := Admitted csock\<rparr>)"
| busy: "main_thread s = Idle \<Longrightarrow> active_connections s \<ge> MAX_CONNECTIONS \<Longrightarrow> server_step s s"
| alloc: "main_thread s = Admitted csock \<Longrightarrow> econn_alloc (econn_pool s) = Some (i, pool) \<Longrightarrow>
    server_step s (s\<lparr>econn_pool := pool[i := (pool ! i)\<lparr>ec_fd := csock, ec_mode := mode, ec_client_ip := ip\<rparr>],
                     main_thread := HasConn i\<rparr>)"
| no_slot: "main_thread s = Admitted csock \<Longrightarrow> econn_alloc (econn_pool s) = None \<Longrightarrow>
    server_step s (s\<lparr>active_connections := active_connections s - 1, main_thread := Idle\<rparr>)"
| push: "main_thread s = HasConn i \<Longrightarrow> pool_push i (jobs s) = Some q \<Longrightarrow>
    server_step s (s\<lparr>jobs := q, main_thread := Idle\<rparr>)"
| pop: "pool_pop (jobs s) = Some (Some i, q) \<Longrightarrow>
    server_step s (s\<lparr>jobs := q, serving := i # serving s\<rparr>)"
| finish: "i \<in> set (serving s) \<Longrightarrow>
    server_step s (s\<lparr>active_connections := active_connections s - 1,
                     serving := remove1 i (serving s), closing := i # closing s\<rparr>)"
| free: "i \<in> set (closing s) \<Longrightarrow>
    server_step s (s\<lparr>econn_pool := econn_free i (econn_pool s), closing := remove1 i (closing s)\<rparr>)"

section \<open>The queue as a list\<close>

definition wf_jobs :: "job_pool \<Rightarrow> bool" where
  "wf_jobs q \<longleftrightarrow> length (job_queue q) = QUEUE_SIZE \<and> job_head q < QUEUE_SIZE \<and> job_count q \<le> QUEUE_SIZE \<and>
     job_tail q = (job_head q + job_count q) mod QUEUE_SIZE \<and> \<not> pool_shutdown q"

definition queued :: "job_pool \<Rightarrow> nat list" where
  "queued q = map (\<lambda>i. job_queue q ! ((job_head q + i) mod QUEUE_SIZE)) [0..<job_count q]"

text \<open>An interleaving of puts and gets from \<open>q0\<close>: what was put, what was taken, the queue now.\<close>

inductive fifo_runs :: "('a \<Rightarrow> 'q \<Rightarrow> 'q option) \<Rightarrow> ('q \<Rightarrow> ('a option \<times> 'q) option) \<Rightarrow> 'q \<Rightarrow> 'a list \<Rightarrow> 'a list \<Rightarrow> 'q \<Rightarrow> bool"
  for put get q0 where
  start: "fifo_runs put get q0 [] [] q0"
| put_step: "fifo_runs put get q0 ins outs q \<Longrightarrow> put x q = Some q' \<Longrightarrow> fifo_runs put get q0 (ins @ [x]) outs q'"
| get_step: "fifo_runs put get q0 ins outs q \<Longrightarrow> get q = Some (Some x, q') \<Longrightarrow> fifo_runs put get q0 ins (outs @ [x]) q'"

text \<open>What a client of a bounded queue relies on.\<close>

locale fifo =
  fixes ok :: "'q \<Rightarrow> bool" and contents :: "'q \<Rightarrow> 'a list" and cap :: nat
    and put :: "'a \<Rightarrow> 'q \<Rightarrow> 'q option" and get :: "'q \<Rightarrow> ('a option \<times> 'q) option"
  assumes put_full: "ok q \<Longrightarrow> \<not> length (contents q) < cap \<Longrightarrow> put x q = None"
    and put_ok: "ok q \<Longrightarrow> length (contents q) < cap \<Longrightarrow> \<exists>q'. put x q = Some q' \<and> ok q' \<and> contents q' = contents q @ [x]"
    and get_ok: "ok q \<Longrightarrow> (case contents q of [] \<Rightarrow> get q = None
        | x # xs \<Rightarrow> \<exists>q'. get q = Some (Some x, q') \<and> ok q' \<and> contents q' = xs)"
begin

lemma fifo_order:
  assumes "fifo_runs put get q0 ins outs q" "ok q0"
  shows "ok q \<and> contents q0 @ ins = outs @ contents q \<and> (length (contents q0) \<le> cap \<longrightarrow> length (contents q) \<le> cap)"
  using assms
proof (induction rule: fifo_runs.induct)
  case (put_step ins outs q x q')
  then have "length (contents q) < cap" using put_full[of q x] by (metis option.distinct(1))
  with put_step put_ok[of q x] show ?case by auto
next
  case (get_step ins outs q x q')
  then show ?case using get_ok[of q] by (cases "contents q") auto
qed simp

end

lemma queued_push:
  assumes "wf_jobs q" "job_count q < QUEUE_SIZE"
  shows "\<exists>q'. pool_push x q = Some q' \<and> wf_jobs q' \<and> queued q' = queued q @ [x]"
proof -
  let ?q = "q\<lparr>job_queue := (job_queue q)[job_tail q := x], job_tail := (job_tail q + 1) mod QUEUE_SIZE,
     job_count := job_count q + 1\<rparr>"
  have tail: "job_tail q = (job_head q + job_count q) mod QUEUE_SIZE" and len: "length (job_queue q) = QUEUE_SIZE"
    and sd: "\<not> pool_shutdown q" using assms(1) by (simp_all add: wf_jobs_def)
  have p: "pool_push x q = Some ?q" using assms(2) sd by (simp add: pool_push_def)
  have ne: "(job_head q + i) mod QUEUE_SIZE \<noteq> job_tail q" if "i < job_count q" for i
  proof
    assume "(job_head q + i) mod QUEUE_SIZE = job_tail q"
    then have "(job_head q + i) mod QUEUE_SIZE = (job_head q + job_count q) mod QUEUE_SIZE" using tail by simp
    moreover have "job_head q < QUEUE_SIZE" using assms(1) by (simp add: wf_jobs_def)
    ultimately show False using that assms(2)
      by (auto simp: mod_if split: if_splits)
  qed
  have up: "(job_queue q)[job_tail q := x] ! ((job_head q + i) mod QUEUE_SIZE) = job_queue q ! ((job_head q + i) mod QUEUE_SIZE)"
    if "i < job_count q" for i using ne[OF that] by (metis nth_list_update_neq)
  have "(job_queue q)[job_tail q := x] ! ((job_head q + job_count q) mod QUEUE_SIZE) = x"
    unfolding tail using len by simp
  with up have "queued ?q = queued q @ [x]" by (simp add: queued_def)
  moreover have "wf_jobs ?q" using assms tail by (simp add: wf_jobs_def mod_Suc_eq)
  ultimately show ?thesis using p by blast
qed

lemma queued_pop:
  assumes "wf_jobs q"
  shows "case queued q of [] \<Rightarrow> pool_pop q = None
    | x # xs \<Rightarrow> \<exists>q'. pool_pop q = Some (Some x, q') \<and> wf_jobs q' \<and> queued q' = xs"
proof (cases "job_count q")
  case 0
  with assms show ?thesis by (simp add: queued_def pool_pop_def wf_jobs_def)
next
  case (Suc n)
  let ?q = "q\<lparr>job_head := (job_head q + 1) mod QUEUE_SIZE, job_count := job_count q - 1\<rparr>"
  have hd: "job_head q < QUEUE_SIZE" using assms by (simp add: wf_jobs_def)
  have "queued q = job_queue q ! job_head q # map (\<lambda>i. job_queue q ! ((job_head q + Suc i) mod QUEUE_SIZE)) [0..<n]"
    using hd unfolding queued_def Suc upt_conv_Cons[OF zero_less_Suc] list.map map_Suc_upt[symmetric]
    by (simp add: map_Suc_upt[symmetric] comp_def del: upt_Suc)
  moreover have "queued ?q = map (\<lambda>i. job_queue q ! ((job_head q + Suc i) mod QUEUE_SIZE)) [0..<n]"
    by (simp add: queued_def Suc mod_add_left_eq)
  moreover have "wf_jobs ?q" using assms Suc by (auto simp: wf_jobs_def mod_add_left_eq)
  moreover have "pool_pop q = Some (Some (job_queue q ! job_head q), ?q)"
    using Suc assms by (simp add: pool_pop_def wf_jobs_def)
  ultimately show ?thesis by simp
qed

lemma length_queued [simp]: "length (queued q) = job_count q"
  by (simp add: queued_def)

interpretation ring: fifo wf_jobs queued QUEUE_SIZE pool_push pool_pop
proof
  show "pool_push x q = None" if "wf_jobs q" "\<not> length (queued q) < QUEUE_SIZE" for q x
    using that by (simp add: pool_push_def wf_jobs_def)
qed (use queued_push queued_pop in simp_all)

lemma pool_init_queue: "wf_jobs pool_init" "queued pool_init = []"
  by (simp_all add: wf_jobs_def pool_init_def queued_def)

section \<open>Accounting of connections\<close>

text \<open>The slots in use, by where they are.\<close>

definition live :: "server_state \<Rightarrow> nat list" where
  "live s = (case main_thread s of HasConn i \<Rightarrow> [i] | _ \<Rightarrow> []) @ queued (jobs s) @ serving s @ closing s"

definition wf_server :: "server_state \<Rightarrow> bool" where
  "wf_server s \<longleftrightarrow> wf_jobs (jobs s) \<and> distinct (live s) \<and>
     set (live s) = {i. i < length (econn_pool s) \<and> ec_in_use (econn_pool s ! i)} \<and>
     active_connections s = (if main_thread s = Idle then 0 else 1) +
       int (length (queued (jobs s))) + int (length (serving s)) \<and>
     active_connections s \<le> MAX_CONNECTIONS"

lemma wf_alloc:
  assumes "wf_server s" "main_thread s = Admitted csock" "econn_alloc (econn_pool s) = Some (i, pool)"
  shows "wf_server (s\<lparr>econn_pool := pool[i := (pool ! i)\<lparr>ec_fd := csock, ec_mode := mode, ec_client_ip := ip\<rparr>],
                      main_thread := HasConn i\<rparr>)"
proof -
  have f: "first_idx (\<lambda>e. \<not> ec_in_use e) (econn_pool s) = Some i"
    and pool: "pool = (econn_pool s)[i := (econn_pool s ! i)\<lparr>ec_in_use := True, ec_fd := -1\<rparr>]"
    using assms(3) by (auto simp: econn_alloc_def)
  note i = first_idx_SomeD(1,2)[OF f]
  have l: "set (live s) = {j. j < length (econn_pool s) \<and> ec_in_use (econn_pool s ! j)}" "distinct (live s)"
    "live s = queued (jobs s) @ serving s @ closing s"
    using assms(1,2) by (simp_all add: wf_server_def live_def)
  have "i \<notin> set (live s)" using l(1) i by simp
  moreover have "{j. j < length pool \<and> ec_in_use (pool[i := (pool ! i)\<lparr>ec_fd := csock, ec_mode := mode, ec_client_ip := ip\<rparr>] ! j)} =
      insert i {j. j < length (econn_pool s) \<and> ec_in_use (econn_pool s ! j)}"
    using i(1) by (auto simp: pool nth_list_update split: if_splits)
  ultimately have 2: "i \<notin> set (live s)" "{j. j < length pool \<and> ec_in_use (pool[i := (pool ! i)\<lparr>ec_fd := csock, ec_mode := mode, ec_client_ip := ip\<rparr>] ! j)} =
      set (i # live s)" using l(1) by simp_all
  let ?s = "s\<lparr>econn_pool := pool[i := (pool ! i)\<lparr>ec_fd := csock, ec_mode := mode, ec_client_ip := ip\<rparr>], main_thread := HasConn i\<rparr>"
  have lv: "live ?s = i # live s" using l(3) by (simp add: live_def)
  show ?thesis unfolding wf_server_def lv using assms(1,2) 2 l(2) by (simp add: wf_server_def)
qed

lemma wf_free:
  assumes "wf_server s" "i \<in> set (closing s)"
  shows "wf_server (s\<lparr>econn_pool := econn_free i (econn_pool s), closing := remove1 i (closing s)\<rparr>)"
proof -
  have l: "set (live s) = {j. j < length (econn_pool s) \<and> ec_in_use (econn_pool s ! j)}" "distinct (live s)"
    using assms(1) by (simp_all add: wf_server_def)
  have il: "i < length (econn_pool s)" using l(1) assms(2) by (auto simp: live_def)
  have "{j. j < length (econn_free i (econn_pool s)) \<and> ec_in_use (econn_free i (econn_pool s) ! j)} =
      {j. j < length (econn_pool s) \<and> ec_in_use (econn_pool s ! j)} - {i}"
    using il by (auto simp: econn_free_def nth_list_update split: if_splits)
  moreover have "set (live (s\<lparr>econn_pool := econn_free i (econn_pool s), closing := remove1 i (closing s)\<rparr>)) =
      set (live s) - {i}" "distinct (live (s\<lparr>econn_pool := econn_free i (econn_pool s), closing := remove1 i (closing s)\<rparr>))"
    using l(2) assms(2) by (auto simp: live_def split: main_state.splits)
  ultimately show ?thesis using assms(1) by (simp add: wf_server_def)
qed

lemma wf_server_step: "server_step s s' \<Longrightarrow> wf_server s \<Longrightarrow> wf_server s'"
proof (induction rule: server_step.induct)
  case (push s i q)
  have wf: "wf_jobs (jobs s)" using push.prems by (simp add: wf_server_def)
  have "job_count (jobs s) < QUEUE_SIZE"
    using push.hyps(2) wf by (auto simp: pool_push_def wf_jobs_def split: if_splits)
  from queued_push[OF wf this, of i] push.hyps(2) have q: "wf_jobs q" "queued q = queued (jobs s) @ [i]" by auto
  have "job_count q = Suc (job_count (jobs s))" using arg_cong[OF q(2), of length] by simp
  with push q show ?case by (auto simp: wf_server_def live_def)
next
  case (pop s i q)
  have wf: "wf_jobs (jobs s)" using pop.prems by (simp add: wf_server_def)
  from queued_pop[OF wf] pop.hyps obtain xs where x: "queued (jobs s) = i # xs" "wf_jobs q" "queued q = xs"
    by (cases "queued (jobs s)") auto
  have "job_count (jobs s) = Suc (job_count q)" using arg_cong[OF x(1), of length] arg_cong[OF x(3), of length] by simp
  with pop x show ?case by (auto simp: wf_server_def live_def split: main_state.splits)
next
  case (finish i s)
  then have "int (length (remove1 i (serving s))) = int (length (serving s)) - 1"
    using length_pos_if_in_set[of i "serving s"] by (simp add: length_remove1 Suc_leI of_nat_diff)
  with finish show ?case
    by (auto simp: wf_server_def live_def simp del: length_remove1 split: main_state.splits)
qed (auto simp: wf_alloc wf_free, auto simp: wf_server_def live_def)

lemma wf_server_reachable: "server_step\<^sup>*\<^sup>* server_init s \<Longrightarrow> wf_server s"
proof (induction rule: rtranclp_induct)
  case base
  have "job_count pool_init = 0" using length_queued[of pool_init] pool_init_queue(2) by simp
  then show ?case by (auto simp: wf_server_def server_init_def live_def pool_init_queue)
qed (blast intro: wf_server_step)

section \<open>Draining\<close>

text \<open>A step that is not the arrival of a connection.\<close>

definition quiet_step :: "server_state \<Rightarrow> server_state \<Rightarrow> bool" where
  "quiet_step s s' \<longleftrightarrow> server_step s s' \<and> s' \<noteq> s \<and> \<not> (main_thread s = Idle \<and> main_thread s' \<noteq> Idle)"

definition drained :: "server_state \<Rightarrow> bool" where
  "drained s \<longleftrightarrow> main_thread s = Idle \<and> queued (jobs s) = [] \<and> serving s = [] \<and> closing s = [] \<and>
     active_connections s = 0 \<and> (\<forall>e \<in> set (econn_pool s). \<not> ec_in_use e)"

text \<open>The steps a connection still has before it, by its place, summed over all connections.\<close>

fun main_work :: "main_state \<Rightarrow> nat" where
  "main_work Idle = 0"
| "main_work (Admitted _) = 5"
| "main_work (HasConn _) = 4"

definition work :: "server_state \<Rightarrow> nat" where
  "work s = main_work (main_thread s) + 3 * length (queued (jobs s)) + 2 * length (serving s) + length (closing s)"

lemma quiet_step_wf: "quiet_step s s' \<Longrightarrow> wf_server s \<Longrightarrow> wf_server s'"
  by (auto simp: quiet_step_def intro: wf_server_step)

lemma length_remove1_in: "x \<in> set xs \<Longrightarrow> length xs = Suc (length (remove1 x xs))"
  by (induction xs) auto

lemma quiet_step_less:
  assumes "quiet_step s s'" "wf_server s"
  shows "work s' < work s"
proof -
  have "server_step s s'" "s' \<noteq> s" "\<not> (main_thread s = Idle \<and> main_thread s' \<noteq> Idle)" "wf_jobs (jobs s)"
    using assms by (simp_all add: quiet_step_def wf_server_def)
  then show ?thesis
  proof (induction rule: server_step.induct)
    case (push s i q)
    have "job_count (jobs s) < QUEUE_SIZE"
      using push.hyps(2) push.prems(3) by (auto simp: pool_push_def wf_jobs_def split: if_splits)
    with queued_push[OF push.prems(3) this, of i] push.hyps show ?case
      by (auto simp: work_def simp del: length_queued)
  next
    case (pop s i q)
    with queued_pop[OF pop.prems(3)] show ?case
      by (cases "queued (jobs s)") (auto simp: work_def simp del: length_queued)
  next
    case (finish i s)
    then show ?case using length_remove1_in[of i "serving s"] by (auto simp: work_def simp del: length_remove1)
  next
    case (free i s)
    then show ?case using length_remove1_in[of i "closing s"] by (auto simp: work_def simp del: length_remove1)
  qed (auto simp: work_def)
qed

lemma quiet_step_exists:
  assumes wf: "wf_server s" and "work s \<noteq> 0"
  shows "\<exists>s'. quiet_step s s'"
proof (cases "closing s")
  case (Cons i xs)
  then have "server_step s (s\<lparr>econn_pool := econn_free i (econn_pool s), closing := remove1 i (closing s)\<rparr>)"
    by (intro server_step.free) simp
  with Cons show ?thesis by (force simp: quiet_step_def dest: arg_cong[of _ _ closing])
next
  case cl: Nil
  have jobs: "wf_jobs (jobs s)" using wf by (simp add: wf_server_def)
  show ?thesis
  proof (cases "serving s")
    case (Cons i xs)
    then have "server_step s (s\<lparr>active_connections := active_connections s - 1,
        serving := remove1 i (serving s), closing := i # closing s\<rparr>)" by (intro server_step.finish) simp
    with Cons show ?thesis by (force simp: quiet_step_def dest: arg_cong[of _ _ closing])
  next
    case sv: Nil
    show ?thesis
    proof (cases "queued (jobs s)")
      case (Cons i xs)
      with queued_pop[OF jobs] obtain q where "pool_pop (jobs s) = Some (Some i, q)" by auto
      from server_step.pop[OF this] sv show ?thesis
        by (force simp: quiet_step_def dest: arg_cong[of _ _ serving])
    next
      case q: Nil
      show ?thesis
      proof (cases "main_thread s")
        case Idle
        with assms(2) cl sv q show ?thesis by (simp add: work_def del: length_queued)
      next
        case (Admitted c)
        show ?thesis
        proof (cases "econn_alloc (econn_pool s)")
          case None
          from server_step.no_slot[OF Admitted this] Admitted show ?thesis
            by (force simp: quiet_step_def dest: arg_cong[of _ _ main_thread])
        next
          case (Some p)
          obtain i pool where "p = (i, pool)" by force
          with server_step.alloc[OF Admitted, of i pool] Some Admitted show ?thesis
            by (force simp: quiet_step_def dest: arg_cong[of _ _ main_thread])
        qed
      next
        case (HasConn i)
        have "job_count (jobs s) = 0" using arg_cong[OF q, of length] by simp
        with queued_push[OF jobs, of i] obtain q' where "pool_push i (jobs s) = Some q'" by auto
        from server_step.push[OF HasConn this] HasConn show ?thesis
          by (force simp: quiet_step_def dest: arg_cong[of _ _ main_thread])
      qed
    qed
  qed
qed

lemma no_work_drained:
  assumes "wf_server s" "work s = 0"
  shows "drained s"
proof -
  have m: "main_thread s = Idle" using assms(2) by (cases "main_thread s") (auto simp: work_def)
  have e: "queued (jobs s) = []" "serving s = []" "closing s = []"
    using assms(2) by (auto simp: work_def simp del: length_queued)
  then have "live s = []" using m by (simp add: live_def)
  then have "\<forall>i < length (econn_pool s). \<not> ec_in_use (econn_pool s ! i)" using assms(1) by (auto simp: wf_server_def)
  then have "\<forall>x \<in> set (econn_pool s). \<not> ec_in_use x" by (auto simp: in_set_conv_nth)
  moreover have "active_connections s = 0" using assms(1) m e by (simp add: wf_server_def del: length_queued)
  ultimately show ?thesis using m e by (simp add: drained_def)
qed

lemma quiet_runs_wf: "quiet_step\<^sup>*\<^sup>* s s' \<Longrightarrow> wf_server s \<Longrightarrow> wf_server s'"
  by (induction rule: rtranclp_induct) (auto intro: quiet_step_wf)

lemma can_drain: "wf_server s \<Longrightarrow> \<exists>s'. quiet_step\<^sup>*\<^sup>* s s' \<and> drained s'"
proof (induction "work s" arbitrary: s rule: less_induct)
  case less
  show ?case
  proof (cases "work s = 0")
    case True
    with no_work_drained less.prems show ?thesis by blast
  next
    case False
    then obtain s1 where "quiet_step s s1" using quiet_step_exists less.prems by blast
    with less quiet_step_less quiet_step_wf show ?thesis by (meson converse_rtranclp_into_rtranclp)
  qed
qed

lemma no_infinite_drain:
  assumes "wf_server (f 0)" "\<And>i. quiet_step (f i) (f (Suc i))"
  shows False
proof -
  have wf: "wf_server (f i)" for i by (induction i) (use assms quiet_step_wf in auto)
  have "work (f i) + i \<le> work (f 0)" for i
  proof (induction i)
    case (Suc i)
    with quiet_step_less[OF assms(2) wf, of i] show ?case by simp
  qed simp
  from this[of "Suc (work (f 0))"] show False by simp
qed

section \<open>Properties: accepting and serving\<close>

text \<open>C26: The ring buffer is a first-in first-out queue. Over every interleaving of pushes and
  pops from the initial state, the jobs handed out so far followed by those still queued are
  exactly the jobs pushed so far, in order, and never more than 16384 are queued.\<close>

theorem job_queue_fifo:
  assumes "fifo_runs pool_push pool_pop pool_init ins outs q"
  shows "ins = outs @ queued q \<and> length (queued q) \<le> 16384"
  using ring.fifo_order[OF assms pool_init_queue(1)] pool_init_queue(2) by simp

theorem job_queue_fifo_witness:
  "\<exists>q. fifo_runs pool_push pool_pop pool_init [3, 4] [3] q \<and> queued q = [4]"
proof -
  obtain q1 where 1: "pool_push 3 pool_init = Some q1" "wf_jobs q1" "queued q1 = [3]"
    using queued_push[OF pool_init_queue(1), of 3] pool_init_queue(2) by (auto simp: pool_init_def)
  have "job_count q1 = 1" using arg_cong[OF 1(3), of length] by simp
  then obtain q2 where 2: "pool_push 4 q1 = Some q2" "wf_jobs q2" "queued q2 = [3, 4]"
    using queued_push[OF 1(2), of 4] 1(3) by auto
  obtain q3 where 3: "pool_pop q2 = Some (Some 3, q3)" using queued_pop[OF 2(2)] 2(3) by auto
  have "fifo_runs pool_push pool_pop pool_init ([] @ [3]) [] q1" 
    using put_step[of pool_push pool_pop pool_init "[]" "[]" pool_init 3 q1, OF start] 1(1) by simp
  then have "fifo_runs pool_push pool_pop pool_init (([] @ [3]) @ [4]) [] q2"
    using put_step[of pool_push pool_pop pool_init "[3]" "[]" q1 4 q2] 2(1) by simp
  then have "fifo_runs pool_push pool_pop pool_init (([] @ [3]) @ [4]) ([] @ [3]) q3"
    using get_step[of pool_push pool_pop pool_init "[3, 4]" "[]" q2 3 q3] 3 by simp
  then have "fifo_runs pool_push pool_pop pool_init [3, 4] [3] q3" by simp
  moreover from job_queue_fifo[OF this] have "queued q3 = [4]" by simp
  ultimately show ?thesis by blast
qed

text \<open>C21: Connections are neither lost nor served twice. In every reachable state each used slot is
  in exactly one place (held by the main thread, queued, being served, or being released), every
  other slot is free, the connection counter equals the number of admitted connections that
  are not yet finished, and it never exceeds the limit.\<close>

theorem connections_accounted:
  assumes "server_step\<^sup>*\<^sup>* server_init s"
  shows "distinct (live s) \<and>
         set (live s) = {i. i < length (econn_pool s) \<and> ec_in_use (econn_pool s ! i)} \<and>
         active_connections s = (if main_thread s = Idle then 0 else 1) +
           int (length (queued (jobs s))) + int (length (serving s)) \<and>
         active_connections s \<le> 65536"
  using wf_server_reachable[OF assms] by (simp add: wf_server_def)

theorem connections_accounted_witness:
  "active_connections (server_init\<lparr>active_connections := 1, main_thread := Admitted 5\<rparr>) = 1 \<and>
   distinct (live (server_init\<lparr>active_connections := 1, main_thread := Admitted 5\<rparr>))"
proof -
  have "server_step server_init (server_init\<lparr>active_connections := active_connections server_init + 1, main_thread := Admitted 5\<rparr>)"
    by (rule admit) (simp_all add: server_init_def)
  then have "server_step\<^sup>*\<^sup>* server_init (server_init\<lparr>active_connections := 1, main_thread := Admitted 5\<rparr>)"
    by (simp add: server_init_def)
  from connections_accounted[OF this] show ?thesis by simp
qed



end
