(* ===== verification/Responses.thy ===== *)
theory Responses
  imports Server_Http
begin

text \<open>
  The canned answers of the gateway, \<open>src/src/arws_utils.c\<close>, and the built-in pages of
  \<open>src/src/home_handler.c\<close>. The page texts compiled into the program and the readable files are
  parameters, as is the success of the allocation for a file.
\<close>

section \<open>Escaping for JSON\<close>

definition hex4 :: "nat \<Rightarrow> string" where
  "hex4 n = [hex_digit (n div 4096 mod 16), hex_digit (n div 256 mod 16), hex_digit (n div 16 mod 16), hex_digit (n mod 16)]"

definition escape_char :: "char \<Rightarrow> string" where
  "escape_char c =
     (if c = CHR 0x22 then [CHR 0x5C, CHR 0x22]
      else if c = CHR 0x5C then [CHR 0x5C, CHR 0x5C]
      else if c = CHR 0x0A then [CHR 0x5C, CHR ''n'']
      else if c = CHR 0x0D then [CHR 0x5C, CHR ''r'']
      else if c = CHR 0x09 then [CHR 0x5C, CHR ''t'']
      else if control_char c then [CHR 0x5C, CHR ''u''] @ hex4 (of_char c)
      else [c])"

text \<open>The loop over the source string; an escape that does not fit is skipped.\<close>

fun escape_loop :: "nat \<Rightarrow> string \<Rightarrow> string \<Rightarrow> string" where
  "escape_loop dst_size dst [] = dst"
| "escape_loop dst_size dst (c # src) =
     (if length dst < dst_size - 1
      then let e = escape_char c in
           escape_loop dst_size (if length dst + length e < dst_size then dst @ e else dst) src
      else dst)"

definition json_escape :: "nat \<Rightarrow> string option \<Rightarrow> string" where
  "json_escape dst_size src = (case src of None \<Rightarrow> [] | Some s \<Rightarrow> escape_loop dst_size [] s)"

section \<open>Answers\<close>

definition arws_sendpage :: "string \<Rightarrow> ClientConnection \<Rightarrow> ClientConnection" where
  "arws_sendpage html = server_send_response 200 ''text/html; charset=utf-8'' (Some html)"

definition arws_send_200 :: "string \<Rightarrow> ClientConnection \<Rightarrow> ClientConnection" where
  "arws_send_200 body = server_send_response 200 ''text/plain; charset=utf-8'' (Some body)"

definition arws_send_201 :: "string \<Rightarrow> ClientConnection \<Rightarrow> ClientConnection" where
  "arws_send_201 body = server_send_response 201 ''text/plain; charset=utf-8'' (Some body)"

definition arws_send_204 :: "ClientConnection \<Rightarrow> ClientConnection" where
  "arws_send_204 conn =
     server_send_response 204 ''text/plain'' (Some []) (server_add_header ''Content-Length: 0'' conn)"

definition arws_send_301 :: "string \<Rightarrow> ClientConnection \<Rightarrow> ClientConnection" where
  "arws_send_301 url conn =
     server_send_response 301 ''text/plain'' (Some ''Moved Permanently'')
       (server_add_header (buf_copy 1024 (''Location: '' @ url)) conn)"

definition arws_send_302 :: "string \<Rightarrow> ClientConnection \<Rightarrow> ClientConnection" where
  "arws_send_302 url conn =
     server_send_response 302 ''text/plain'' (Some ''Found'')
       (server_add_header (buf_copy 1024 (''Location: '' @ url)) conn)"

text \<open>The body \<open>{"status":...,"error":"..."}\<close> in a buffer of 512 bytes.\<close>

definition error_json :: "int \<Rightarrow> string \<Rightarrow> string" where
  "error_json status text =
     buf_copy 512 (''{'' @ [CHR 0x22] @ ''status'' @ [CHR 0x22] @ '':'' @ dec_int status @ '','' @
       [CHR 0x22] @ ''error'' @ [CHR 0x22] @ '':'' @ [CHR 0x22] @ text @ [CHR 0x22] @ ''}'')"

definition send_json_error :: "int \<Rightarrow> string \<Rightarrow> string option \<Rightarrow> ClientConnection \<Rightarrow> ClientConnection" where
  "send_json_error status fallback msg =
     (let escaped = json_escape 384 msg
      in server_send_response status ''application/json''
           (Some (error_json status (if escaped \<noteq> [] then escaped else fallback))))"

definition arws_send_400 :: "string option \<Rightarrow> ClientConnection \<Rightarrow> ClientConnection" where
  "arws_send_400 = send_json_error 400 ''Bad Request''"

definition arws_send_401 :: "string option \<Rightarrow> ClientConnection \<Rightarrow> ClientConnection" where
  "arws_send_401 msg conn =
     send_json_error 401 ''Unauthorized'' msg (server_add_header ''WWW-Authenticate: Bearer'' conn)"

definition arws_send_403 :: "string option \<Rightarrow> ClientConnection \<Rightarrow> ClientConnection" where
  "arws_send_403 = send_json_error 403 ''Forbidden''"

definition arws_send_429 :: "string option \<Rightarrow> ClientConnection \<Rightarrow> ClientConnection" where
  "arws_send_429 = send_json_error 429 ''Too Many Requests''"

definition arws_send_500 :: "string option \<Rightarrow> ClientConnection \<Rightarrow> ClientConnection" where
  "arws_send_500 = send_json_error 500 ''Internal Server Error''"

definition arws_send_501 :: "string option \<Rightarrow> ClientConnection \<Rightarrow> ClientConnection" where
  "arws_send_501 = send_json_error 501 ''Not Implemented''"

definition arws_send_502 :: "string option \<Rightarrow> ClientConnection \<Rightarrow> ClientConnection" where
  "arws_send_502 = send_json_error 502 ''Bad Gateway''"

definition arws_send_503 :: "string option \<Rightarrow> ClientConnection \<Rightarrow> ClientConnection" where
  "arws_send_503 = send_json_error 503 ''Service Unavailable''"

definition arws_send_json :: "int \<Rightarrow> string \<Rightarrow> ClientConnection \<Rightarrow> ClientConnection" where
  "arws_send_json status json = server_send_response status ''application/json'' (Some json)"

definition arws_send_error :: "int \<Rightarrow> string option \<Rightarrow> ClientConnection \<Rightarrow> ClientConnection" where
  "arws_send_error status msg =
     server_send_response status ''application/json'' (Some (error_json status (json_escape 384 msg)))"

section \<open>Pages\<close>

record web_env =
  web_files :: "string \<Rightarrow> string option"
  web_mem :: bool
  page_404 :: string
  page_maintenance :: string
  page_home :: string
  page_home_css :: string
  page_home_js :: string

definition send_html_file_or_embedded ::
  "web_env \<Rightarrow> int \<Rightarrow> string \<Rightarrow> string \<Rightarrow> ClientConnection \<Rightarrow> ClientConnection" where
  "send_html_file_or_embedded web status filepath embedded =
     server_send_response status ''text/html; charset=utf-8''
       (Some (case web_files web filepath of
                Some data \<Rightarrow> if 0 < length data \<and> length data < 65536 \<and> web_mem web then cstr data else embedded
              | None \<Rightarrow> embedded))"

definition arws_send_404 :: "web_env \<Rightarrow> ClientConnection \<Rightarrow> ClientConnection" where
  "arws_send_404 web = send_html_file_or_embedded web 404 ''programfiles/arws/web/404/index.html'' (page_404 web)"

definition arws_send_maintenance :: "web_env \<Rightarrow> ClientConnection \<Rightarrow> ClientConnection" where
  "arws_send_maintenance web =
     send_html_file_or_embedded web 503 ''programfiles/arws/web/maintenance/index.html'' (page_maintenance web)"

definition arws_serve_file ::
  "web_env \<Rightarrow> string \<Rightarrow> string \<Rightarrow> ClientConnection \<Rightarrow> mem_error + (bool \<times> ClientConnection)" where
  "arws_serve_file web path content_type = server_serve_file (web_files web) path content_type"

section \<open>The built-in home page\<close>

definition is_loopback_str :: "string \<Rightarrow> bool" where
  "is_loopback_str h =
     (if h = [] then False
      else if strcaseeq h ''localhost'' then True
      else if strcaseeq h ''0.0.0.0'' then True
      else if strneq h ''127.'' 4 then True
      else strcaseeq h ''::1'' \<or> strcaseeq h ''[::1]'')"

definition origin_is_allowed :: "HttpRequest \<Rightarrow> bool" where
  "origin_is_allowed req =
     (if rq_host req = [] then False
      else rq_host req = ''alrigroup.com'' \<or> rq_host req = ''www.alrigroup.com'' \<or> is_loopback_str (rq_host req))"

definition home_handler_html :: "web_env \<Rightarrow> HttpRequest \<Rightarrow> ClientConnection \<Rightarrow> ClientConnection" where
  "home_handler_html web req = server_send_response 200 ''text/html; charset=utf-8'' (Some (page_home web))"

definition home_handler_css :: "web_env \<Rightarrow> HttpRequest \<Rightarrow> ClientConnection \<Rightarrow> ClientConnection" where
  "home_handler_css web req =
     (if \<not> origin_is_allowed req then arws_send_403 (Some ''Forbidden'')
      else server_send_response 200 ''text/css; charset=utf-8'' (Some (page_home_css web)))"

definition home_handler_js :: "web_env \<Rightarrow> HttpRequest \<Rightarrow> ClientConnection \<Rightarrow> ClientConnection" where
  "home_handler_js web req =
     (if \<not> origin_is_allowed req then arws_send_403 (Some ''Forbidden'')
      else server_send_response 200 ''application/javascript; charset=utf-8'' (Some (page_home_js web)))"

section \<open>Reading the escaped text back\<close>

text \<open>The contents of a JSON string literal, by the grammar of RFC 8259, with the escapes the gateway
  writes: no bare quote, no bare control character, every backslash starts an escape.\<close>

definition unhex4 :: "string \<Rightarrow> nat option" where
  "unhex4 ds = (if length ds = 4 \<and> list_all is_xdigit ds then Some (foldl (\<lambda>n d. 16 * n + hex_val d) 0 ds) else None)"

fun unescape :: "string \<Rightarrow> string option" where
  "unescape [] = Some []"
| "unescape (c # s) =
     (if c = CHR 0x5C
      then (case s of
              [] \<Rightarrow> None
            | e # t \<Rightarrow>
                if e = CHR 0x22 \<or> e = CHR 0x5C then map_option (Cons e) (unescape t)
                else if e = CHR ''n'' then map_option (Cons CHR 0x0A) (unescape t)
                else if e = CHR ''r'' then map_option (Cons CHR 0x0D) (unescape t)
                else if e = CHR ''t'' then map_option (Cons CHR 0x09) (unescape t)
                else if e = CHR ''u'' then
                  (case unhex4 (take 4 t) of
                     Some n \<Rightarrow> map_option (Cons (char_of n)) (unescape (drop 4 t))
                   | None \<Rightarrow> None)
                else None)
      else if c = CHR 0x22 \<or> control_char c then None
      else map_option (Cons c) (unescape s))"

lemma hex4_props:
  assumes "n < 32"
  shows "unhex4 (hex4 n) = Some n" "length (hex4 n) = 4"
proof -
  have "n div 4096 mod 16 = 0" "n div 256 mod 16 = 0" "n div 16 mod 16 < 2" "n mod 16 \<le> 15" using assms by auto
  moreover have "n div 16 mod 16 * 16 + n mod 16 = n" using assms by simp
  ultimately show "unhex4 (hex4 n) = Some n" "length (hex4 n) = 4"
    by (simp_all add: unhex4_def hex4_def hex_digit_def is_xdigit_def hex_val_def Let_def)
qed

lemma unescape_escape_char: "unescape (escape_char c @ s) = map_option (Cons c) (unescape s)"
proof (cases "control_char c \<and> c \<notin> {CHR 0x0A, CHR 0x0D, CHR 0x09, CHR 0x22, CHR 0x5C}")
  case True
  then have "of_char c < (32::nat)" by (simp add: control_char_def)
  from hex4_props[OF this] True show ?thesis by (simp add: escape_char_def)
next
  case False
  then show ?thesis by (auto simp: escape_char_def)
qed

lemma length_escape_char: "1 \<le> length (escape_char c) \<and> length (escape_char c) \<le> 6"
  by (simp add: escape_char_def hex4_def)

lemma unescape_concat: "unescape (concat (map escape_char s) @ t) = map_option (append s) (unescape t)"
  by (induction s) (simp_all add: unescape_escape_char option.map_comp comp_def option.map_ident)

lemma escape_loop_spec:
  assumes "0 < n" "length dst < n"
  shows "\<exists>k. escape_loop n dst src = dst @ concat (map escape_char k) \<and> subseq k src \<and>
      length (escape_loop n dst src) < n \<and>
      (length dst + length (concat (map escape_char src)) < n \<longrightarrow> k = src)"
  using assms(2)
proof (induction src arbitrary: dst)
  case Nil
  then show ?case by (intro exI[of _ "[]"]) simp
next
  case (Cons c src)
  show ?case
  proof (cases "length dst < n - 1")
    case False
    with Cons.prems length_escape_char[of c] show ?thesis by (intro exI[of _ "[]"]) auto
  next
    case True
    show ?thesis
    proof (cases "length dst + length (escape_char c) < n")
      case fits: True
      have "length (dst @ escape_char c) < n" using fits by simp
      from Cons.IH[OF this] obtain k where k:
        "escape_loop n (dst @ escape_char c) src = (dst @ escape_char c) @ concat (map escape_char k)"
        "subseq k src" "length (escape_loop n (dst @ escape_char c) src) < n"
        "length (dst @ escape_char c) + length (concat (map escape_char src)) < n \<longrightarrow> k = src" by blast
      have "escape_loop n dst (c # src) = escape_loop n (dst @ escape_char c) src"
        using True fits by (simp add: Let_def)
      with k show ?thesis by (intro exI[of _ "c # k"]) simp
    next
      case False
      from Cons.IH[OF Cons.prems] obtain k where k:
        "escape_loop n dst src = dst @ concat (map escape_char k)" "subseq k src" "length (escape_loop n dst src) < n"
        by blast
      have "escape_loop n dst (c # src) = escape_loop n dst src" using True False by (simp add: Let_def)
      moreover have "subseq k (c # src)" using k(2) by (rule list_emb_Cons)
      ultimately show ?thesis using k False by (intro exI[of _ k]) simp
    qed
  qed
qed

lemma error_json_whole:
  assumes "- (10 ^ 10) < status" "status < 10 ^ 10" "length text < 384"
  shows "error_json status text =
    ''{'' @ [CHR 0x22] @ ''status'' @ [CHR 0x22] @ '':'' @ dec_int status @ '','' @
       [CHR 0x22] @ ''error'' @ [CHR 0x22] @ '':'' @ [CHR 0x22] @ text @ [CHR 0x22] @ ''}''"
proof -
  have "nat (- status) < 10 ^ 10" "nat status < 10 ^ 10" using assms by simp_all
  then have "length (dec_nat (nat (- status))) \<le> 10" "length (dec_nat (nat status)) \<le> 10"
    using length_dec_nat[of _ 10] by simp_all
  then have "length (dec_int status) \<le> 11" by (simp add: dec_int_def)
  then show ?thesis using assms(3) unfolding error_json_def by (intro buf_copy_id) simp
qed

lemma send_response_out:
  "conn_out (server_send_response status ct (Some b) conn) =
     conn_out conn @ buf_copy 2048 (response_head status ct (int (length b)) (response_headers conn)) @ b"
  by (simp add: server_send_response_def server_conn_write_def track_access_def Let_def)

section \<open>Properties: error answers\<close>

text \<open>An error answer is a complete JSON object. For every message (quotes, backslashes and
  control characters included) and every status, the body is the whole object, untruncated;
  the text inside its quotes is a valid JSON string that reads back as the message with at
  most some characters left out, and as the message itself whenever its escaped form fits.\<close>

theorem error_body_valid:
  assumes "\<bar>status\<bar> < 10 ^ 10"
  shows "\<exists>body e m. conn_out (arws_send_error status (Some msg) conn) =
            conn_out conn @ buf_copy 2048 (response_head status ''application/json'' (int (length body)) (response_headers conn)) @ body \<and>
          body = ''{'' @ [CHR 0x22] @ ''status'' @ [CHR 0x22] @ '':'' @ dec_int status @ '','' @
            [CHR 0x22] @ ''error'' @ [CHR 0x22] @ '':'' @ [CHR 0x22] @ e @ [CHR 0x22] @ ''}'' \<and>
          unescape e = Some m \<and> subseq m msg \<and>
          (length (concat (map escape_char msg)) < 384 \<longrightarrow> m = msg)"
proof -
  have "0 < (384 :: nat)" "length ([] :: string) < 384" by simp_all
  from escape_loop_spec[OF this, of msg] obtain m where
    k: "escape_loop 384 [] msg = [] @ concat (map escape_char m)" "subseq m msg" "length (escape_loop 384 [] msg) < 384"
       "length ([] :: string) + length (concat (map escape_char msg)) < 384 \<longrightarrow> m = msg" by blast
  have je: "json_escape 384 (Some msg) = escape_loop 384 [] msg" by (simp add: json_escape_def)
  note m = k(1)[folded je, unfolded append_Nil] k(2) k(3)[folded je] k(4)[unfolded list.size add_0]
  define e where "e = json_escape 384 (Some msg)"
  have "- (10 ^ 10) < status" "status < 10 ^ 10" using assms by linarith+
  note whole = error_json_whole[OF this m(3)[folded e_def]]
  show ?thesis
  proof (intro exI conjI)
    show "conn_out (arws_send_error status (Some msg) conn) =
      conn_out conn @ buf_copy 2048 (response_head status ''application/json'' (int (length (error_json status e))) (response_headers conn)) @
      error_json status e"
      unfolding arws_send_error_def e_def by (rule send_response_out)
    show "unescape e = Some m" unfolding e_def m(1) using unescape_concat[of m "[]"] by simp
  qed (fact whole m)+
qed

theorem error_body_valid_witness:
  "\<exists>e m. unescape e = Some m \<and> subseq m [CHR 0x22, CHR ''a'', CHR 0x0A] \<and>
     (length (concat (map escape_char [CHR 0x22, CHR ''a'', CHR 0x0A])) < 384 \<longrightarrow> m = [CHR 0x22, CHR ''a'', CHR 0x0A])"
proof -
  have "\<bar>404 :: int\<bar> < 10 ^ 10" by simp
  from error_body_valid[OF this] show ?thesis by blast
qed

end
