(* ===== verification/Cjson.thy ===== *)
theory Cjson
  imports Arws_Prelude
begin

text \<open>
  The parser of \<open>src/src/cJSON.c\<close>. An item is a tree: the pointer \<open>child\<close> with the \<open>next\<close> links is
  the list of children (the links themselves are the subject of \<open>Cjson_List\<close>). A string value is what a
  reader of the C string sees, up to the first NUL. The input is memory of its true size, and
  reading past it is an error value, whatever the length the caller passed; so is a write past the buffer that
  \<open>parse_string\<close> allocates. The nesting limit of the source is the recursion bound of \<open>parse_value\<close>; the loops
  over elements carry a fuel, which \<open>Cjson_Laws\<close> shows is never used up.

  \<open>double\<close>, its comparisons and conversions, and the allocator are an environment; the text that
  \<open>strtod\<close> accepts is modelled, the rounding is not.
\<close>

section \<open>Environment\<close>

record 'd json_env =
  d_of_decimal :: "bool \<Rightarrow> nat \<Rightarrow> int \<Rightarrow> 'd"
  d_of_int :: "int \<Rightarrow> 'd"
  d_to_int :: "'d \<Rightarrow> int"
  d_le :: "'d \<Rightarrow> 'd \<Rightarrow> bool"
  d_eq :: "'d \<Rightarrow> 'd \<Rightarrow> bool"
  d_nan :: "'d \<Rightarrow> bool"
  d_inf :: "'d \<Rightarrow> bool"
  d_fabs :: "'d \<Rightarrow> 'd"
  d_sub :: "'d \<Rightarrow> 'd \<Rightarrow> 'd"
  d_mul :: "'d \<Rightarrow> 'd \<Rightarrow> 'd"
  d_epsilon :: 'd
  d_format :: "nat \<Rightarrow> 'd \<Rightarrow> string"
  allocate :: "nat \<Rightarrow> nat \<Rightarrow> bool"
  has_realloc :: bool
  fresh_byte :: "nat \<Rightarrow> nat \<Rightarrow> char"

text \<open>\<open>d_of_decimal neg m e\<close> rounds \<open>m * 10 ^ e\<close>; \<open>d_format p\<close> is \<open>%1.<p>g\<close>; \<open>allocate k n\<close> tells whether the \<open>k\<close>th allocation, of
  \<open>n\<close> bytes, succeeds, and \<open>fresh_byte k i\<close> is what byte \<open>i\<close> of it holds before it is written; \<open>has_realloc\<close> is \<open>False\<close> when
  custom hooks are installed.\<close>

datatype json_fault = Bad mem_error | OutOfFuel

definition andthen :: "'e + 'a \<Rightarrow> ('a \<Rightarrow> 'e + 'b) \<Rightarrow> 'e + 'b" where
  "andthen m f = (case m of Inl e \<Rightarrow> Inl e | Inr x \<Rightarrow> f x)"

section \<open>Items\<close>

datatype 'd cJSON = Item (item_type: nat) (valuestring: "string option") (valueint: int) (valuedouble: 'd)
  (item_string: "string option") (children: "'d cJSON list")

abbreviation (input) cJSON_Invalid :: nat where "cJSON_Invalid \<equiv> 0"
abbreviation (input) cJSON_False :: nat where "cJSON_False \<equiv> 1"
abbreviation (input) cJSON_True :: nat where "cJSON_True \<equiv> 2"
abbreviation (input) cJSON_NULL :: nat where "cJSON_NULL \<equiv> 4"
abbreviation (input) cJSON_Number :: nat where "cJSON_Number \<equiv> 8"
abbreviation (input) cJSON_String :: nat where "cJSON_String \<equiv> 16"
abbreviation (input) cJSON_Array :: nat where "cJSON_Array \<equiv> 32"
abbreviation (input) cJSON_Object :: nat where "cJSON_Object \<equiv> 64"
abbreviation (input) cJSON_Raw :: nat where "cJSON_Raw \<equiv> 128"
abbreviation (input) cJSON_IsReference :: nat where "cJSON_IsReference \<equiv> 256"
abbreviation (input) cJSON_StringIsConst :: nat where "cJSON_StringIsConst \<equiv> 512"
abbreviation (input) CJSON_NESTING_LIMIT :: nat where "CJSON_NESTING_LIMIT \<equiv> 1000"
abbreviation (input) INT_MAX :: int where "INT_MAX \<equiv> 2147483647"
abbreviation (input) INT_MIN :: int where "INT_MIN \<equiv> - 2147483648"

text \<open>\<open>calloc\<close>ed: every field is zero, and so is the \<open>double\<close>.\<close>

definition cJSON_New_Item :: "'d json_env \<Rightarrow> 'd cJSON" where
  "cJSON_New_Item E = Item cJSON_Invalid None 0 (d_of_int E 0) None []"

fun set_value :: "nat \<Rightarrow> string option \<Rightarrow> 'd cJSON \<Rightarrow> 'd cJSON" where
  "set_value ty vs (Item _ _ vi vd key ch) = Item ty vs vi vd key ch"

fun set_children :: "nat \<Rightarrow> 'd cJSON list \<Rightarrow> 'd cJSON \<Rightarrow> 'd cJSON" where
  "set_children ty ch (Item _ vs vi vd key _) = Item ty vs vi vd key ch"

fun set_int :: "int \<Rightarrow> 'd cJSON \<Rightarrow> 'd cJSON" where
  "set_int vi (Item ty vs _ vd key ch) = Item ty vs vi vd key ch"

fun set_double :: "'d \<Rightarrow> 'd cJSON \<Rightarrow> 'd cJSON" where
  "set_double vd (Item ty vs vi _ key ch) = Item ty vs vi vd key ch"

fun set_key :: "string option \<Rightarrow> 'd cJSON \<Rightarrow> 'd cJSON" where
  "set_key key (Item ty vs vi vd _ ch) = Item ty vs vi vd key ch"

section \<open>The input buffer\<close>

record parse_buffer =
  pb_content :: "char list"
  pb_length :: nat
  pb_offset :: nat
  pb_depth :: nat
  pb_allocs :: nat

definition byte_at :: "parse_buffer \<Rightarrow> nat \<Rightarrow> json_fault + char" where
  "byte_at b i = (if i < length (pb_content b) then Inr (pb_content b ! i) else Inl (Bad OutOfBounds))"

definition can_read :: "parse_buffer \<Rightarrow> nat \<Rightarrow> bool" where
  "can_read b n \<longleftrightarrow> pb_offset b + n \<le> pb_length b"

definition can_access_at_index :: "parse_buffer \<Rightarrow> nat \<Rightarrow> bool" where
  "can_access_at_index b i \<longleftrightarrow> pb_offset b + i < pb_length b"

text \<open>Guarded reads \<open>can_access_at_index(b, i) && P(buffer_at_offset(b)[i])\<close>.\<close>

definition next_is :: "parse_buffer \<Rightarrow> (char \<Rightarrow> bool) \<Rightarrow> json_fault + bool" where
  "next_is b P = (if can_access_at_index b 0 then andthen (byte_at b (pb_offset b)) (\<lambda>c. Inr (P c)) else Inr False)"

definition advance :: "nat \<Rightarrow> parse_buffer \<Rightarrow> parse_buffer" where
  "advance n b = b\<lparr>pb_offset := pb_offset b + n\<rparr>"

definition step_back :: "parse_buffer \<Rightarrow> parse_buffer" where
  "step_back b = b\<lparr>pb_offset := pb_offset b - 1\<rparr>"

text \<open>\<open>hooks.allocate\<close>.\<close>

definition pb_allocate :: "'d json_env \<Rightarrow> nat \<Rightarrow> parse_buffer \<Rightarrow> bool \<times> parse_buffer" where
  "pb_allocate E n b = (allocate E (pb_allocs b) n, b\<lparr>pb_allocs := pb_allocs b + 1\<rparr>)"

text \<open>\<open>strncmp(buffer_at_offset(b), s, strlen(s)) == 0\<close>, reading up to the first difference.\<close>

fun compare_at :: "parse_buffer \<Rightarrow> nat \<Rightarrow> string \<Rightarrow> json_fault + bool" where
  "compare_at b p [] = Inr True"
| "compare_at b p (c # s) = andthen (byte_at b p) (\<lambda>d. if d = c then compare_at b (p + 1) s else Inr False)"

definition literal :: "parse_buffer \<Rightarrow> string \<Rightarrow> json_fault + bool" where
  "literal b s = (if can_read b (length s) then compare_at b (pb_offset b) s else Inr False)"

function skip_blanks :: "parse_buffer \<Rightarrow> json_fault + parse_buffer" where
  "skip_blanks b =
     (if can_access_at_index b 0
      then (case byte_at b (pb_offset b) of Inl e \<Rightarrow> Inl e
            | Inr c \<Rightarrow> if (of_char c :: nat) \<le> 32 then skip_blanks (advance 1 b) else Inr b)
      else Inr b)"
  by pat_completeness auto
termination
  by (relation "measure (\<lambda>b. pb_length b - pb_offset b)") (auto simp: can_access_at_index_def advance_def)

declare skip_blanks.simps [simp del]

definition buffer_skip_whitespace :: "parse_buffer \<Rightarrow> json_fault + parse_buffer" where
  "buffer_skip_whitespace b =
     (if \<not> can_access_at_index b 0 then Inr b
      else andthen (skip_blanks b) (\<lambda>b'. Inr (if pb_offset b' = pb_length b' then step_back b' else b')))"

definition skip_utf8_bom :: "parse_buffer \<Rightarrow> json_fault + parse_buffer option" where
  "skip_utf8_bom b =
     (if pb_offset b \<noteq> 0 then Inr None
      else if \<not> can_access_at_index b 4 then Inr (Some b)
      else andthen (compare_at b (pb_offset b) [CHR 0xEF, CHR 0xBB, CHR 0xBF])
             (\<lambda>eq. Inr (Some (if eq then advance 3 b else b))))"

section \<open>Numbers\<close>

text \<open>The decimal syntax of \<open>strtod\<close>: sign, digits with at most one point and at least one digit,
  then an exponent if it has digits. The result is the value and the number of characters used.\<close>

definition exponent :: "string \<Rightarrow> int \<times> string" where
  "exponent s = (case s of
       c # t \<Rightarrow> if c = CHR ''e'' \<or> c = CHR ''E''
         then (let (neg, u) = split_sign t; ds = takeWhile is_digit u
               in if ds = [] then (0, s)
                  else (if neg then - int (digits_val ds) else int (digits_val ds), dropWhile is_digit u))
         else (0, s)
     | [] \<Rightarrow> (0, s))"

definition strtod :: "'d json_env \<Rightarrow> string \<Rightarrow> 'd \<times> nat" where
  "strtod E s =
     (let (neg, t) = split_sign s;
          ip = takeWhile is_digit t;
          r = dropWhile is_digit t;
          (fp, r') = (case r of c # u \<Rightarrow> if c = CHR ''.'' then (takeWhile is_digit u, dropWhile is_digit u) else ([], r)
                      | [] \<Rightarrow> ([], r))
      in if ip @ fp = [] then (d_of_int E 0, 0)
         else (let (e, rest) = exponent r'
               in (d_of_decimal E neg (digits_val (ip @ fp)) (e - int (length fp)), length s - length rest)))"

definition number_char :: "char \<Rightarrow> bool" where
  "number_char c \<longleftrightarrow> is_digit c \<or> c \<in> {CHR ''+'', CHR ''-'', CHR ''e'', CHR ''E'', CHR ''.''}"

function number_span :: "parse_buffer \<Rightarrow> nat \<Rightarrow> json_fault + nat" where
  "number_span b i =
     (if can_access_at_index b i
      then (case byte_at b (pb_offset b + i) of Inl e \<Rightarrow> Inl e
            | Inr c \<Rightarrow> if number_char c then number_span b (i + 1) else Inr i)
      else Inr i)"
  by pat_completeness auto
termination
  by (relation "measure (\<lambda>(b, i). pb_length b - (pb_offset b + i))") (auto simp: can_access_at_index_def)

declare number_span.simps [simp del]

text \<open>The conversion to \<open>int\<close> saturates.\<close>

definition saturate :: "'d json_env \<Rightarrow> 'd \<Rightarrow> int" where
  "saturate E d = (if d_le E (d_of_int E INT_MAX) d then INT_MAX
                   else if d_le E d (d_of_int E INT_MIN) then INT_MIN else d_to_int E d)"

definition parse_number :: "'d json_env \<Rightarrow> 'd cJSON \<Rightarrow> parse_buffer \<Rightarrow> json_fault + (bool \<times> 'd cJSON \<times> parse_buffer)" where
  "parse_number E item b =
     andthen (number_span b 0) (\<lambda>n.
       (let (got, b) = pb_allocate E (n + 1) b
        in if \<not> got then Inr (False, item, b)
           else (let (d, used) = strtod E (take n (drop (pb_offset b) (pb_content b)))
                 in if used = 0 then Inr (False, item, b)
                    else Inr (True, set_value cJSON_Number (valuestring item) (set_int (saturate E d) (set_double d item)),
                              advance used b))))"

section \<open>Strings\<close>

text \<open>\<open>parse_hex4\<close>: the loop over the four digits; an invalid digit makes the result 0.\<close>

definition hex4_digit :: "char \<Rightarrow> nat option" where
  "hex4_digit c = (let n = of_char c :: nat in
     if 48 \<le> n \<and> n \<le> 57 then Some (n - 48)
     else if 65 \<le> n \<and> n \<le> 70 then Some (10 + n - 65)
     else if 97 \<le> n \<and> n \<le> 102 then Some (10 + n - 97) else None)"

fun hex_loop :: "parse_buffer \<Rightarrow> nat \<Rightarrow> nat \<Rightarrow> nat \<Rightarrow> json_fault + nat" where
  "hex_loop b p 0 h = Inr h"
| "hex_loop b p (Suc k) h = andthen (byte_at b p) (\<lambda>c. case hex4_digit c of
       None \<Rightarrow> Inr 0
     | Some v \<Rightarrow> hex_loop b (p + 1) k (if 0 < k then push_bit 4 (h + v) else h + v))"

definition parse_hex4 :: "parse_buffer \<Rightarrow> nat \<Rightarrow> json_fault + nat" where
  "parse_hex4 b p = hex_loop b p 4 0"

text \<open>The UTF-8 bytes of a code point: the loop fills the continuation bytes from the last one.\<close>

fun utf8_tail :: "nat \<Rightarrow> nat \<Rightarrow> string \<Rightarrow> nat \<times> string" where
  "utf8_tail 0 cp bs = (cp, bs)"
| "utf8_tail (Suc k) cp bs = utf8_tail k (drop_bit 6 cp) (char_of ((cp OR 0x80) AND 0xBF) # bs)"

definition utf8_encode :: "nat \<Rightarrow> string option" where
  "utf8_encode cp =
     (let (len, mark) = (if cp < 0x80 then (1, 0) else if cp < 0x800 then (2, 0xC0)
                         else if cp < 0x10000 then (3, 0xE0) else if cp \<le> 0x10FFFF then (4, 0xF0) else (0, 0))
      in if len = 0 then None
         else (let (cp', bs) = utf8_tail (len - 1) cp []
               in Some ((if 1 < len then char_of ((cp' OR mark) AND 0xFF) else char_of (cp' AND 0x7F)) # bs)))"

text \<open>\<open>None\<close> is the sequence length 0.\<close>

definition second_half :: "parse_buffer \<Rightarrow> nat \<Rightarrow> nat \<Rightarrow> nat \<Rightarrow> json_fault + nat option" where
  "second_half b q e first =
     (if e < q + 6 then Inr None
      else andthen (byte_at b q) (\<lambda>c0. if c0 \<noteq> CHR 0x5C then Inr None
      else andthen (byte_at b (q + 1)) (\<lambda>c1. if c1 \<noteq> CHR ''u'' then Inr None
      else andthen (parse_hex4 b (q + 2)) (\<lambda>second.
        if second < 0xDC00 \<or> 0xDFFF < second then Inr None
        else Inr (Some (0x10000 + (push_bit 10 (first AND 0x3FF) OR (second AND 0x3FF))))))))"

definition utf16_literal_to_utf8 :: "parse_buffer \<Rightarrow> nat \<Rightarrow> nat \<Rightarrow> json_fault + (nat \<times> string) option" where
  "utf16_literal_to_utf8 b p e =
     (if e < p + 6 then Inr None
      else andthen (parse_hex4 b (p + 2)) (\<lambda>first.
        if 0xDC00 \<le> first \<and> first \<le> 0xDFFF then Inr None
        else if 0xD800 \<le> first \<and> first \<le> 0xDBFF
          then andthen (second_half b (p + 6) e first) (\<lambda>r. case r of None \<Rightarrow> Inr None
                 | Some cp \<Rightarrow> Inr (map_option (Pair 12) (utf8_encode cp)))
        else Inr (map_option (Pair 6) (utf8_encode first))))"

text \<open>The first loop of \<open>parse_string\<close>: the closing quote, and how many backslashes precede it;
  \<open>None\<close> when the input ends before it.\<close>

function scan_end :: "parse_buffer \<Rightarrow> nat \<Rightarrow> nat \<Rightarrow> json_fault + (nat \<times> nat) option" where
  "scan_end b e skipped =
     (if e < pb_length b
      then (case byte_at b e of Inl f \<Rightarrow> Inl f
            | Inr c \<Rightarrow> if c = CHR 0x22 then Inr (Some (e, skipped))
                       else if c = CHR 0x5C
                         then (if pb_length b \<le> e + 1 then Inr None else scan_end b (e + 2) (skipped + 1))
                       else scan_end b (e + 1) skipped)
      else Inr None)"
  by pat_completeness auto
termination
  by (relation "measure (\<lambda>(b, e, s). pb_length b - e)") auto

declare scan_end.simps [simp del]

text \<open>Writing to the output buffer of \<open>cap\<close> bytes.\<close>

definition put :: "nat \<Rightarrow> string \<Rightarrow> string \<Rightarrow> json_fault + string" where
  "put cap out bs = (if length out + length bs \<le> cap then Inr (out @ bs) else Inl (Bad OutOfBounds))"

definition simple_escape :: "char \<Rightarrow> char option" where
  "simple_escape c =
     (if c = CHR ''b'' then Some (CHR 0x08) else if c = CHR ''f'' then Some (CHR 0x0C)
      else if c = CHR ''n'' then Some (CHR 0x0A) else if c = CHR ''r'' then Some (CHR 0x0D)
      else if c = CHR ''t'' then Some (CHR 0x09)
      else if c = CHR 0x22 \<or> c = CHR 0x5C \<or> c = CHR ''/'' then Some c else None)"

text \<open>The second loop. The left result is a failure, with the input pointer where it happened.\<close>

function unescape_loop :: "parse_buffer \<Rightarrow> nat \<Rightarrow> nat \<Rightarrow> nat \<Rightarrow> string \<Rightarrow> json_fault + (nat + string)" where
  "unescape_loop b e cap p out =
     (if p < e
      then (case byte_at b p of Inl f \<Rightarrow> Inl f
            | Inr c \<Rightarrow>
              if c \<noteq> CHR 0x5C
              then (case put cap out [c] of Inl f \<Rightarrow> Inl f | Inr out' \<Rightarrow> unescape_loop b e cap (p + 1) out')
              else (case byte_at b (p + 1) of Inl f \<Rightarrow> Inl f
                    | Inr d \<Rightarrow>
                      if d = CHR ''u''
                      then (case utf16_literal_to_utf8 b p e of Inl f \<Rightarrow> Inl f
                            | Inr None \<Rightarrow> Inr (Inl p)
                            | Inr (Some (n, bs)) \<Rightarrow>
                                if n = 0 then Inr (Inl p)
                                else (case put cap out bs of Inl f \<Rightarrow> Inl f | Inr out' \<Rightarrow> unescape_loop b e cap (p + n) out'))
                      else (case simple_escape d of None \<Rightarrow> Inr (Inl p)
                            | Some r \<Rightarrow> (case put cap out [r] of Inl f \<Rightarrow> Inl f | Inr out' \<Rightarrow> unescape_loop b e cap (p + 2) out'))))
      else Inr (Inr out))"
  by pat_completeness auto
termination
  by (relation "measure (\<lambda>(b, e, cap, p, out). e - p)") auto

declare unescape_loop.simps [simp del]

definition parse_string :: "'d json_env \<Rightarrow> 'd cJSON \<Rightarrow> parse_buffer \<Rightarrow> json_fault + (bool \<times> 'd cJSON \<times> parse_buffer)" where
  "parse_string E item b =
     andthen (byte_at b (pb_offset b)) (\<lambda>c.
       let start = pb_offset b + 1; failed = (\<lambda>b p. Inr (False, item, b\<lparr>pb_offset := p\<rparr>))
       in if c \<noteq> CHR 0x22 then failed b start
          else andthen (scan_end b start 0) (\<lambda>r. case r of None \<Rightarrow> failed b start
            | Some (e, skipped) \<Rightarrow>
                let cap = e - pb_offset b - skipped + 1; (got, b) = pb_allocate E cap b
                in if \<not> got then failed b start
                   else andthen (unescape_loop b e cap start []) (\<lambda>u. case u of
                       Inl p \<Rightarrow> failed b p
                     | Inr out \<Rightarrow> andthen (put cap out [NUL]) (\<lambda>out'.
                         Inr (True, set_value cJSON_String (Some (cstr out')) item, b\<lparr>pb_offset := e + 1\<rparr>)))))"

section \<open>Arrays, objects, values\<close>

text \<open>The loop over the elements, from the character before an element; \<open>pv\<close> parses a value. The result is the list of
  items when it ends behind the last element, \<open>None\<close> when it fails.\<close>

fun elements_loop :: "'d json_env \<Rightarrow> ('d cJSON \<Rightarrow> parse_buffer \<Rightarrow> json_fault + (bool \<times> 'd cJSON \<times> parse_buffer)) \<Rightarrow>
    nat \<Rightarrow> parse_buffer \<Rightarrow> 'd cJSON list \<Rightarrow> json_fault + ('d cJSON list option \<times> parse_buffer)" where
  "elements_loop E pv 0 b items = Inl OutOfFuel"
| "elements_loop E pv (Suc k) b items =
     (let (got, b) = pb_allocate E 64 b
      in if \<not> got then Inr (None, b)
         else andthen (buffer_skip_whitespace (advance 1 b)) (\<lambda>b.
              andthen (pv (cJSON_New_Item E) b) (\<lambda>(ok, item, b).
                if \<not> ok then Inr (None, b)
                else andthen (buffer_skip_whitespace b) (\<lambda>b.
                     andthen (next_is b (\<lambda>c. c = CHR '','')) (\<lambda>more.
                       if more then elements_loop E pv k b (items @ [item]) else Inr (Some (items @ [item]), b))))))"

definition close_bracket :: "nat \<Rightarrow> char \<Rightarrow> 'd cJSON \<Rightarrow> 'd cJSON list option \<times> parse_buffer \<Rightarrow>
    json_fault + (bool \<times> 'd cJSON \<times> parse_buffer)" where
  "close_bracket ty c item r = (case r of (None, b) \<Rightarrow> Inr (False, item, b)
     | (Some items, b) \<Rightarrow> andthen (next_is b (\<lambda>d. d = c)) (\<lambda>closed.
         if closed then Inr (True, set_children ty items item, advance 1 (b\<lparr>pb_depth := pb_depth b - 1\<rparr>))
         else Inr (False, item, b)))"

definition parse_array :: "'d json_env \<Rightarrow> ('d cJSON \<Rightarrow> parse_buffer \<Rightarrow> json_fault + (bool \<times> 'd cJSON \<times> parse_buffer)) \<Rightarrow>
    'd cJSON \<Rightarrow> parse_buffer \<Rightarrow> json_fault + (bool \<times> 'd cJSON \<times> parse_buffer)" where
  "parse_array E pv item b =
     (if CJSON_NESTING_LIMIT \<le> pb_depth b then Inr (False, item, b)
      else let b = b\<lparr>pb_depth := pb_depth b + 1\<rparr> in
        andthen (byte_at b (pb_offset b)) (\<lambda>c.
          if c \<noteq> CHR ''['' then Inr (False, item, b)
          else andthen (buffer_skip_whitespace (advance 1 b)) (\<lambda>b.
            andthen (next_is b (\<lambda>c. c = CHR '']'')) (\<lambda>empty.
              if empty then close_bracket cJSON_Array (CHR '']'') item (Some [], b)
              else if \<not> can_access_at_index b 0 then Inr (False, item, step_back b)
              else andthen (elements_loop E pv (Suc (pb_length b)) (step_back b) [])
                     (close_bracket cJSON_Array (CHR '']'') item)))))"

fun members_loop :: "'d json_env \<Rightarrow> ('d cJSON \<Rightarrow> parse_buffer \<Rightarrow> json_fault + (bool \<times> 'd cJSON \<times> parse_buffer)) \<Rightarrow>
    nat \<Rightarrow> parse_buffer \<Rightarrow> 'd cJSON list \<Rightarrow> json_fault + ('d cJSON list option \<times> parse_buffer)" where
  "members_loop E pv 0 b items = Inl OutOfFuel"
| "members_loop E pv (Suc k) b items =
     (let (got, b) = pb_allocate E 64 b
      in if \<not> got then Inr (None, b)
         else if \<not> can_access_at_index b 1 then Inr (None, b)
         else andthen (buffer_skip_whitespace (advance 1 b)) (\<lambda>b.
              andthen (parse_string E (cJSON_New_Item E) b) (\<lambda>(ok, item, b).
                if \<not> ok then Inr (None, b)
                else andthen (buffer_skip_whitespace b) (\<lambda>b.
                     andthen (next_is b (\<lambda>c. c = CHR '':'')) (\<lambda>colon.
                       if \<not> colon then Inr (None, b)
                       else andthen (buffer_skip_whitespace (advance 1 b)) (\<lambda>b.
                            andthen (pv (set_value (item_type item) None (set_key (valuestring item) item)) b) (\<lambda>(ok, item, b).
                              if \<not> ok then Inr (None, b)
                              else andthen (buffer_skip_whitespace b) (\<lambda>b.
                                   andthen (next_is b (\<lambda>c. c = CHR '','')) (\<lambda>more.
                                     if more then members_loop E pv k b (items @ [item])
                                     else Inr (Some (items @ [item]), b))))))))))"

definition parse_object :: "'d json_env \<Rightarrow> ('d cJSON \<Rightarrow> parse_buffer \<Rightarrow> json_fault + (bool \<times> 'd cJSON \<times> parse_buffer)) \<Rightarrow>
    'd cJSON \<Rightarrow> parse_buffer \<Rightarrow> json_fault + (bool \<times> 'd cJSON \<times> parse_buffer)" where
  "parse_object E pv item b =
     (if CJSON_NESTING_LIMIT \<le> pb_depth b then Inr (False, item, b)
      else let b = b\<lparr>pb_depth := pb_depth b + 1\<rparr> in
        andthen (next_is b (\<lambda>c. c = CHR 0x7B)) (\<lambda>opened.
          if \<not> opened then Inr (False, item, b)
          else andthen (buffer_skip_whitespace (advance 1 b)) (\<lambda>b.
            andthen (next_is b (\<lambda>c. c = CHR 0x7D)) (\<lambda>empty.
              if empty then close_bracket cJSON_Object (CHR 0x7D) item (Some [], b)
              else if \<not> can_access_at_index b 0 then Inr (False, item, step_back b)
              else andthen (members_loop E pv (Suc (pb_length b)) (step_back b) [])
                     (close_bracket cJSON_Object (CHR 0x7D) item)))))"

fun parse_value :: "'d json_env \<Rightarrow> nat \<Rightarrow> 'd cJSON \<Rightarrow> parse_buffer \<Rightarrow> json_fault + (bool \<times> 'd cJSON \<times> parse_buffer)" where
  "parse_value E 0 item b = Inl OutOfFuel"
| "parse_value E (Suc n) item b =
     andthen (literal b ''null'') (\<lambda>l. if l then Inr (True, set_value cJSON_NULL (valuestring item) item, advance 4 b) else
     andthen (literal b ''false'') (\<lambda>l. if l then Inr (True, set_value cJSON_False (valuestring item) item, advance 5 b) else
     andthen (literal b ''true'') (\<lambda>l. if l then Inr (True, set_int 1 (set_value cJSON_True (valuestring item) item), advance 4 b) else
     andthen (next_is b (\<lambda>c. c = CHR 0x22)) (\<lambda>l. if l then parse_string E item b else
     andthen (next_is b (\<lambda>c. c = CHR ''-'' \<or> is_digit c)) (\<lambda>l. if l then parse_number E item b else
     andthen (next_is b (\<lambda>c. c = CHR ''['')) (\<lambda>l. if l then parse_array E (parse_value E n) item b else
     andthen (next_is b (\<lambda>c. c = CHR 0x7B)) (\<lambda>l. if l then parse_object E (parse_value E n) item b else
       Inr (False, item, b))))))))"

section \<open>Entry points\<close>

text \<open>The item, the position stored through \<open>return_parse_end\<close> if any, and \<open>global_error\<close>: the position of
  the error if one is set. \<open>val\<close> is the memory the pointer points to, \<open>g\<close> the state of \<open>global_error\<close> before.\<close>

definition parse_failed :: "parse_buffer \<Rightarrow> 'd cJSON option \<times> nat option \<times> nat option" where
  "parse_failed b = (let pos = (if pb_offset b < pb_length b then pb_offset b else if 0 < pb_length b then pb_length b - 1 else 0)
                     in (None, Some pos, Some pos))"

definition cJSON_ParseWithLengthOpts :: "'d json_env \<Rightarrow> char list option \<Rightarrow> nat \<Rightarrow> bool \<Rightarrow>
    json_fault + ('d cJSON option \<times> nat option \<times> nat option)" where
  "cJSON_ParseWithLengthOpts E val len require_null_terminated =
     (case val of None \<Rightarrow> Inr (None, None, None)
      | Some content \<Rightarrow>
        if len = 0 then Inr (parse_failed \<lparr>pb_content = content, pb_length = 0, pb_offset = 0, pb_depth = 0, pb_allocs = 0\<rparr>)
        else let b = \<lparr>pb_content = content, pb_length = len, pb_offset = 0, pb_depth = 0, pb_allocs = 0\<rparr>;
                 (got, b) = pb_allocate E 64 b
          in if \<not> got then Inr (parse_failed b)
             else andthen (skip_utf8_bom b) (\<lambda>bo. case bo of None \<Rightarrow> Inr (parse_failed b)
               | Some b \<Rightarrow>
                 andthen (buffer_skip_whitespace b) (\<lambda>b.
                 andthen (parse_value E (CJSON_NESTING_LIMIT + 1) (cJSON_New_Item E) b) (\<lambda>(ok, item, b).
                   if \<not> ok then Inr (parse_failed b)
                   else if \<not> require_null_terminated then Inr (Some item, Some (pb_offset b), None)
                   else andthen (buffer_skip_whitespace b) (\<lambda>b.
                        andthen (next_is b (\<lambda>c. c = NUL)) (\<lambda>terminated.
                          if terminated then Inr (Some item, Some (pb_offset b), None) else Inr (parse_failed b)))))))"

definition cJSON_ParseWithOpts :: "'d json_env \<Rightarrow> string option \<Rightarrow> bool \<Rightarrow> nat option \<Rightarrow>
    json_fault + ('d cJSON option \<times> nat option \<times> nat option)" where
  "cJSON_ParseWithOpts E val require_null_terminated g =
     (case val of None \<Rightarrow> Inr (None, None, g)
      | Some s \<Rightarrow> cJSON_ParseWithLengthOpts E (Some (s @ [NUL])) (length s + 1) require_null_terminated)"

definition cJSON_Parse :: "'d json_env \<Rightarrow> string option \<Rightarrow> nat option \<Rightarrow> json_fault + ('d cJSON option \<times> nat option)" where
  "cJSON_Parse E val g = andthen (cJSON_ParseWithOpts E val False g) (\<lambda>(item, _, g'). Inr (item, g'))"

definition cJSON_ParseWithLength :: "'d json_env \<Rightarrow> char list option \<Rightarrow> nat \<Rightarrow> json_fault + ('d cJSON option \<times> nat option)" where
  "cJSON_ParseWithLength E val len = andthen (cJSON_ParseWithLengthOpts E val len False) (\<lambda>(item, _, g'). Inr (item, g'))"

end
