(* ===== verification/Config.thy ===== *)
theory Config
  imports Router_Ex Server_Http Cjson
begin

text \<open>
  The configuration, \<open>src/src/arws_config.c\<close>: the mode overrides and configured routes, the modes of
  operation, reading and writing of the configuration file, and the watchdog that reloads it.

  Files are a map from names to contents; whether a file can be written or renamed, its
  modification time, the environment variables, the doubles and allocations of the JSON parser and the
  memory of new routes are parameters. The array of overrides is kept whole,
  because an operation that appends to it does not initialise every field. \<open>fgets\<close> cuts lines
  after 511 characters, as with the source's buffer.
\<close>

section \<open>Data\<close>

record ModeOverride =
  ov_host :: string
  ov_path :: string
  ov_mode :: string
  ov_no_cache :: bool

record ProxyRouteEntry =
  pr_host :: string
  pr_path :: string
  pr_target_url :: string

record config_state =
  cached_mode :: int
  config_bind :: string
  config_port :: int
  config_loaded :: bool
  config_path :: string
  global_mode :: string
  cache_ttl_config :: int
  overrides :: "ModeOverride list"
  override_count :: nat
  proxy_routes :: "ProxyRouteEntry list"
  stream_routes :: "ProxyRouteEntry list"
  maintenance_ips :: "string list"
  cfg_header :: string
  last_config_mtime :: int
  watchdog_started :: bool
  watchdog_running :: bool

abbreviation (input) MAX_OVERRIDES :: nat where "MAX_OVERRIDES \<equiv> 128"
abbreviation (input) MAX_MAINTENANCE_IPS :: nat where "MAX_MAINTENANCE_IPS \<equiv> 32"
abbreviation (input) MODE_PRODUCTION :: string where "MODE_PRODUCTION \<equiv> ''production''"
abbreviation (input) MODE_TEST :: string where "MODE_TEST \<equiv> ''test''"
abbreviation (input) MODE_MAINTENANCE :: string where "MODE_MAINTENANCE \<equiv> ''maintenance''"
abbreviation (input) ARWS_MODE_TEST :: int where "ARWS_MODE_TEST \<equiv> 0"
abbreviation (input) ARWS_MODE_PRODUCTION :: int where "ARWS_MODE_PRODUCTION \<equiv> 1"
abbreviation (input) MODE_INSECURE :: int where "MODE_INSECURE \<equiv> 0"
abbreviation (input) MODE_SECURE :: int where "MODE_SECURE \<equiv> 1"
abbreviation (input) QUOT :: char where "QUOT \<equiv> CHR 0x22"
abbreviation (input) NLC :: char where "NLC \<equiv> CHR 0x0A"

definition zero_override :: ModeOverride where
  "zero_override = \<lparr>ov_host = [], ov_path = [], ov_mode = [], ov_no_cache = False\<rparr>"

definition config_init :: config_state where
  "config_init = \<lparr>cached_mode = -1, config_bind = [], config_port = 0, config_loaded = False,
     config_path = [], global_mode = ''production'', cache_ttl_config = 60,
     overrides = replicate MAX_OVERRIDES zero_override, override_count = 0, proxy_routes = [],
     stream_routes = [], maintenance_ips = [], cfg_header = ''# ALRI Web Services Config'' @ [NLC],
     last_config_mtime = 0, watchdog_started = False, watchdog_running = False\<rparr>"

record 'd config_env =
  can_write :: "string \<Rightarrow> bool"
  can_rename :: bool
  mtime :: "string \<Rightarrow> int"
  getenv :: "string \<Rightarrow> string option"
  json :: "'d json_env"
  new_route :: "nat \<Rightarrow> ArwsRoute option"

record config_world =
  cfg :: config_state
  disk :: "string \<Rightarrow> string option"
  routes :: route_state

section \<open>Matching\<close>

definition trim_ws :: "string \<Rightarrow> string" where
  "trim_ws s = dropWhile blank (rev (dropWhile (\<lambda>c. blank c \<or> c = CHR 0x0D \<or> c = NLC) (rev s)))"

definition path_matches_pattern :: "string \<Rightarrow> string \<Rightarrow> bool" where
  "path_matches_pattern path pattern =
     (if pattern \<noteq> [] \<and> last pattern = CHR ''*'' then strneq path pattern (length pattern - 1)
      else path = pattern)"

definition is_loopback_addr :: "string \<Rightarrow> bool" where
  "is_loopback_addr h =
     (if h = [] then False
      else if strcaseeq h ''localhost'' then True
      else if strcaseeq h ''0.0.0.0'' then True
      else if strneq h ''127.'' 4 then True
      else strcaseeq h ''::1'' \<or> strcaseeq h ''[::1]'')"

definition cfg_host_matches :: "string \<Rightarrow> string \<Rightarrow> bool" where
  "cfg_host_matches pattern host =
     (if pattern = [] \<or> pattern = ''*'' then True
      else if strcaseeq pattern host then True
      else if is_loopback_addr pattern \<and> is_loopback_addr host then True
      else if (case (strchr pattern CHR ''.'', strchr host CHR ''.'') of
                 (Some p_dot, Some h_dot) \<Rightarrow>
                   let p_len = length pattern - length p_dot; h_len = length host - length h_dot
                   in p_len = h_len \<and> strncaseeq pattern host p_len \<and>
                      is_loopback_addr (tl p_dot) \<and> is_loopback_addr (tl h_dot)
               | _ \<Rightarrow> False) then True
      else strncaseeq host ''www.'' 4 \<and> strcaseeq pattern (drop 4 host))"

section \<open>Writing the file\<close>

definition guide_comments :: "string list" where
  "guide_comments =
     [''# ALRI Web Services Config'',
      ''#'',
      ''# mode: server binding mode'',
      ''#   test       - HTTP on 127.0.0.1:8080 (development)'',
      ''#   production - HTTPS on 0.0.0.0:443 (live)'',
      ''#'',
      ''# port: TCP port to listen on'',
      ''#   default: 8080 (test), 443 (production)'',
      ''#'',
      ''# bind: IP address to bind to'',
      ''#   default: 127.0.0.1 (test), 0.0.0.0 (production)'',
      ''#'',
      ''# global_mode: default response mode for all endpoints'',
      ''#   test        - normal operation (development)'',
      ''#   production  - normal operation (live)'',
      ''#   maintenance - returns 503 for all requests'',
      ''#'',
      ''# maintenance_ips: IPs allowed through during maintenance'',
      ''#   maintenance_ips = ['' @ [QUOT] @ ''127.0.0.1'' @ [QUOT] @ '', '' @ [QUOT] @ ''192.168.1.100'' @ [QUOT] @ '']'',
      ''#'',
      ''# Per-endpoint mode overrides:'',
      ''#   Format: '' @ [QUOT] @ ''host/path'' @ [QUOT] @ '' = mode'',
      ''#   '' @ [QUOT] @ ''example.com/api/admin'' @ [QUOT] @ '' = maintenance'',
      ''#   '' @ [QUOT] @ ''example.com/health'' @ [QUOT] @ '' = production'',
      ''#   '' @ [QUOT] @ ''*//public'' @ [QUOT] @ '' = test'',
      ''#'',
      ''# cache_ttl: cache lifetime in seconds for static/GET responses'',
      ''#   0       - disable caching'',
      ''#   N       - cache responses for N seconds (default: 60)'',
      ''#'',
      ''# Cache control per endpoint (append no-cache to override):'',
      ''#   '' @ [QUOT] @ ''detroitgg.alrigroup.com/minha-conta'' @ [QUOT] @ '' = production no-cache'',
      ''#   '' @ [QUOT] @ ''detroitgg.alrigroup.com/dynamic'' @ [QUOT] @ '' = no-cache'',
      ''#'',
      ''# By default, static files (.css/.js/.png/.jpg/etc) are always cached.'',
      ''# Other routes are cached only if cache_ttl > 0 and no '' @ [QUOT] @ ''no-cache'' @ [QUOT] @ '' flag.'',
      ''#'',
      ''# Reverse proxy: forward requests directly to an HTTP backend'',
      ''#   '' @ [QUOT] @ ''detroitgg.alrigroup.com/*'' @ [QUOT] @ '' = '' @ [QUOT] @ ''http://127.0.0.1:3001'' @ [QUOT],
      ''#   '' @ [QUOT] @ ''home.alrigroup.com/*'' @ [QUOT] @ '' = '' @ [QUOT] @ ''http://127.0.0.1:3002'' @ [QUOT],
      ''#'',
      ''# Stream proxy: real-time bidirectional pipe (WebSocket, SSE, chunked, media)'',
      ''#   '' @ [QUOT] @ ''site.com/live/*'' @ [QUOT] @ '' = stream '' @ [QUOT] @ ''http://192.168.1.100:8080'' @ [QUOT],
      ''#   '' @ [QUOT] @ ''site.com/ws/*'' @ [QUOT] @ '' = stream '' @ [QUOT] @ ''ws://192.168.1.100:9000'' @ [QUOT],
      ''#'',
      ''# Mode overrides also apply to proxy and stream routes: add a line'',
      ''#   '' @ [QUOT] @ ''site.com/live/*'' @ [QUOT] @ '' = maintenance'',
      ''# to force that route to production/test/maintenance. Apps auto-register'',
      ''# an override (global_mode) next to their stream/proxy routes on startup.'']"

definition config_key :: "string \<Rightarrow> string \<Rightarrow> string" where
  "config_key host path =
     (let p = dropWhile (\<lambda>c. c = CHR ''/'') path
      in [QUOT] @ host @ ''/'' @ (if p = [] then ''*'' else p) @ [QUOT])"

definition override_lines :: "ModeOverride \<Rightarrow> string list" where
  "override_lines ov =
     (if ov_mode ov \<noteq> []
      then [config_key (ov_host ov) (ov_path ov) @ '' = '' @ ov_mode ov @ (if ov_no_cache ov then '' no-cache'' else [])]
      else if ov_no_cache ov then [config_key (ov_host ov) (ov_path ov) @ '' = no-cache'']
      else [])"

definition ips_text :: "string list \<Rightarrow> string" where
  "ips_text ips =
     ''['' @ concat (map (\<lambda>i. (if i > 0 then '','' else []) @ [QUOT] @ ips ! i @ [QUOT]) [0..<length ips]) @ '']''"

definition config_lines :: "config_state \<Rightarrow> string list" where
  "config_lines c =
     guide_comments @
     [if cached_mode c = ARWS_MODE_PRODUCTION then ''mode=production'' else ''mode=test''] @
     (if config_port c > 0 then [''port='' @ dec_int (config_port c)] else []) @
     (if config_bind c \<noteq> [] then [''bind='' @ config_bind c] else []) @
     (if maintenance_ips c \<noteq> [] then [''maintenance_ips = '' @ ips_text (maintenance_ips c)] else []) @
     [''global_mode='' @ global_mode c] @
     [''cache_ttl='' @ dec_int (cache_ttl_config c)] @
     concat (map override_lines (take (override_count c) (overrides c))) @
     map (\<lambda>r. config_key (pr_host r) (pr_path r) @ '' = '' @ pr_target_url r) (proxy_routes c) @
     map (\<lambda>r. config_key (pr_host r) (pr_path r) @ '' = stream '' @ pr_target_url r) (stream_routes c)"

definition lines_text :: "string list \<Rightarrow> string" where
  "lines_text ls = concat (map (\<lambda>l. l @ [NLC]) ls)"

text \<open>\<open>save_config\<close>: write a temporary file, then rename it over the old one.\<close>

definition save_config :: "'d config_env \<Rightarrow> config_world \<Rightarrow> int \<times> config_world" where
  "save_config env w =
     (let path = config_path (cfg w); tmp = buf_copy 512 (path @ ''.tmp'') in
      if path = [] then (-1, w)
      else if \<not> can_write env tmp then (-1, w)
      else if \<not> can_rename env then (-1, w\<lparr>disk := (disk w)(tmp := None)\<rparr>)
      else (0, w\<lparr>disk := (disk w)(tmp := None, path := Some (lines_text (config_lines (cfg w))))\<rparr>))"

section \<open>Reading the file\<close>

text \<open>The lines \<open>fgets\<close> delivers with a buffer of 512 bytes.\<close>

definition next_fgets :: "string \<Rightarrow> string" where
  "next_fgets t =
     (let l = takeWhile (\<lambda>c. c \<noteq> NLC) t in take 511 (if length l < length t then l @ [NLC] else l))"

lemma next_fgets_pos: "t \<noteq> [] \<Longrightarrow> 0 < length (next_fgets t)"
  by (cases t) (simp_all add: next_fgets_def Let_def)

function fgets_lines :: "string \<Rightarrow> string list" where
  "fgets_lines t = (if t = [] then [] else next_fgets t # fgets_lines (drop (length (next_fgets t)) t))"
  by pat_completeness auto
termination
  by (relation "measure length") (use next_fgets_pos in auto)

declare fgets_lines.simps [simp del]

definition unquote :: "string \<Rightarrow> string" where
  "unquote v = (if length v \<ge> 2 \<and> hd v = QUOT \<and> last v = QUOT then butlast (tl v) else v)"

definition is_url :: "string \<Rightarrow> bool" where
  "is_url t \<longleftrightarrow> strneq t ''http://'' 7 \<or> strneq t ''https://'' 8 \<or> strneq t ''ws://'' 5 \<or> strneq t ''wss://'' 6"

definition no_cache_word :: "string \<Rightarrow> bool" where
  "no_cache_word s \<longleftrightarrow> strcaseeq s ''no-cache'' \<or> strcaseeq s ''no_cache''"

datatype route_kind = ProxyRoute | StreamRoute | RedirectRoute

datatype cfg_line =
    Ignored
  | RouteLine route_kind string string string
  | OverrideLine string string string bool
  | Setting string string

text \<open>The value of a quoted line: a route with its target, or an override.\<close>

definition entry_line :: "string \<Rightarrow> string \<Rightarrow> string \<Rightarrow> cfg_line" where
  "entry_line host path val =
     (let (kind, raw) = (if strneq val ''stream '' 7 then (StreamRoute, drop 7 val)
                         else if strneq val ''redirect '' 9 then (RedirectRoute, drop 9 val)
                         else (ProxyRoute, val));
          target = trim_ws (unquote (trim_ws (buf_copy 512 raw)))
      in if is_url target then RouteLine kind host path target
         else let value = buf_copy 256 val;
                  word = takeWhile (\<lambda>c. c \<noteq> CHR '' '') value;
                  flag = (case strchr value CHR '' '' of None \<Rightarrow> False | Some t \<Rightarrow> no_cache_word (trim_ws (tl t)))
              in if no_cache_word word then OverrideLine host path [] True
                 else OverrideLine host path word flag)"

definition parse_cfg_line :: "string \<Rightarrow> cfg_line" where
  "parse_cfg_line l =
     (let line = trim_ws l in
      if line = [] \<or> hd line = CHR ''#'' then Ignored
      else if hd line = QUOT
      then (case strchr (tl line) QUOT of
              None \<Rightarrow> Ignored
            | Some close \<Rightarrow>
                (let key = takeWhile (\<lambda>c. c \<noteq> QUOT) (tl line) in
                 case strchr (tl close) CHR ''='' of
                   None \<Rightarrow> Ignored
                 | Some eq \<Rightarrow>
                     (let val = unquote (trim_ws (buf_copy 512 (trim_ws (tl eq)))) in
                      case strchr key CHR ''/'' of
                        None \<Rightarrow> Ignored
                      | Some slash \<Rightarrow> entry_line (takeWhile (\<lambda>c. c \<noteq> CHR ''/'') key) (tl slash) val)))
      else (case strchr line CHR ''='' of
              None \<Rightarrow> Ignored
            | Some eq \<Rightarrow> Setting (trim_ws (takeWhile (\<lambda>c. c \<noteq> CHR ''='') line)) (trim_ws (tl eq))))"

definition new_entry :: "string \<Rightarrow> string \<Rightarrow> string \<Rightarrow> ProxyRouteEntry" where
  "new_entry host path target =
     \<lparr>pr_host = buf_copy 128 host, pr_path = buf_copy 128 path, pr_target_url = buf_copy 256 target\<rparr>"

definition push_entry :: "ProxyRouteEntry \<Rightarrow> ProxyRouteEntry list \<Rightarrow> ProxyRouteEntry list" where
  "push_entry e es = (if length es < MAX_OVERRIDES then es @ [e] else es)"

definition override_named :: "string \<Rightarrow> string \<Rightarrow> ModeOverride \<Rightarrow> bool" where
  "override_named host path ov \<longleftrightarrow> ov_host ov = host \<and> ov_path ov = path"

definition find_override :: "string \<Rightarrow> string \<Rightarrow> config_state \<Rightarrow> nat option" where
  "find_override host path c = first_idx (override_named host path) (take (override_count c) (overrides c))"

definition load_override :: "string \<Rightarrow> string \<Rightarrow> string \<Rightarrow> bool \<Rightarrow> config_state \<Rightarrow> config_state" where
  "load_override host path mode no_cache c =
     (let idx = (case find_override host path c of Some i \<Rightarrow> i | None \<Rightarrow> override_count c)
      in c\<lparr>overrides := (overrides c)[idx :=
              \<lparr>ov_host = buf_copy 128 host, ov_path = buf_copy 128 path, ov_mode = buf_copy 32 mode,
               ov_no_cache = no_cache\<rparr>],
           override_count := (if idx = override_count c then override_count c + 1 else override_count c)\<rparr>)"

text \<open>The strings of the parsed array; the other elements are passed over. \<open>parse_ips_returns\<close> shows that the parser does not
  fail in any other way than by rejecting the text.\<close>

definition parse_ips :: "'d json_env \<Rightarrow> string \<Rightarrow> string list option" where
  "parse_ips E val =
     (case cJSON_Parse E (Some val) None of
        Inr (Some arr, _) \<Rightarrow>
          if item_type arr AND 0xFF = cJSON_Array
          then Some (map (\<lambda>item. the (valuestring item)) (filter (\<lambda>item. item_type item AND 0xFF = cJSON_String) (children arr)))
          else None
      | _ \<Rightarrow> None)"

definition load_setting :: "'d config_env \<Rightarrow> string \<Rightarrow> string \<Rightarrow> config_state \<Rightarrow> config_state" where
  "load_setting env key val c =
     (if strcaseeq key ''mode''
      then (if strcaseeq val ''production'' then c\<lparr>cached_mode := ARWS_MODE_PRODUCTION\<rparr>
            else if strcaseeq val ''test'' then c\<lparr>cached_mode := ARWS_MODE_TEST\<rparr> else c)
      else if strcaseeq key ''global_mode'' then c\<lparr>global_mode := buf_copy 16 val\<rparr>
      else if strcaseeq key ''port''
      then (let p = atoi val in if p > 0 \<and> p \<le> 65535 then c\<lparr>config_port := p\<rparr> else c)
      else if strcaseeq key ''bind'' then c\<lparr>config_bind := buf_copy 64 val\<rparr>
      else if strcaseeq key ''cache_ttl''
      then (let v = atoi val in if v \<ge> 0 then c\<lparr>cache_ttl_config := v\<rparr> else c)
      else if strcaseeq key ''maintenance_ips''
      then (case parse_ips (json env) val of
              Some ips \<Rightarrow> c\<lparr>maintenance_ips := map (buf_copy 64) (take MAX_MAINTENANCE_IPS ips)\<rparr>
            | None \<Rightarrow> c)
      else c)"

definition load_line :: "'d config_env \<Rightarrow> nat \<Rightarrow> string \<Rightarrow> config_state \<times> route_state \<Rightarrow> config_state \<times> route_state" where
  "load_line env i l = (\<lambda>(c, rs).
     case parse_cfg_line (cstr l) of
       Ignored \<Rightarrow> (c, rs)
     | Setting key val \<Rightarrow> (load_setting env key val c, rs)
     | RouteLine kind host path target \<Rightarrow>
         if override_count c \<ge> MAX_OVERRIDES then (c, rs)
         else (case kind of
                 RedirectRoute \<Rightarrow>
                   (c, snd (arws_add_redirect_route (new_route env i) path ''*'' (Some host) (Some (global_mode c)) target rs))
               | StreamRoute \<Rightarrow>
                   (c\<lparr>stream_routes := push_entry (new_entry host path target) (stream_routes c)\<rparr>,
                    snd (arws_add_stream_route (new_route env i) path ''*'' (Some host) (Some (global_mode c)) target rs))
               | ProxyRoute \<Rightarrow>
                   (c\<lparr>proxy_routes := push_entry (new_entry host path target) (proxy_routes c)\<rparr>,
                    snd (arws_add_proxy_route (new_route env i) path ''*'' (Some host) (Some (global_mode c)) target rs)))
     | OverrideLine host path mode no_cache \<Rightarrow>
         if override_count c \<ge> MAX_OVERRIDES then (c, rs)
         else (load_override host path mode no_cache c, rs))"

fun load_lines :: "'d config_env \<Rightarrow> nat \<Rightarrow> string list \<Rightarrow> config_state \<times> route_state \<Rightarrow> config_state \<times> route_state" where
  "load_lines env i [] s = s"
| "load_lines env i (l # ls) s = load_lines env (Suc i) ls (load_line env i l s)"

definition reset_config :: "config_state \<Rightarrow> config_state" where
  "reset_config c =
     c\<lparr>cached_mode := -1, config_port := 0, config_bind := [], override_count := 0, proxy_routes := [],
       stream_routes := [], maintenance_ips := [], cache_ttl_config := 60, global_mode := ''production''\<rparr>"

definition keep_header :: "string list \<Rightarrow> config_state \<Rightarrow> config_state" where
  "keep_header ls c =
     (case find (\<lambda>l. l \<noteq> [] \<and> hd l = CHR ''#'') ls of
        None \<Rightarrow> c
      | Some l \<Rightarrow> c\<lparr>cfg_header := buf_copy 1024 (cstr l)\<rparr>)"

definition load_text :: "'d config_env \<Rightarrow> string \<Rightarrow> config_state \<times> route_state \<Rightarrow> config_state \<times> route_state" where
  "load_text env text = (\<lambda>(c, rs).
     load_lines env 0 (fgets_lines text) (keep_header (fgets_lines text) (reset_config c), rs))"

definition resolve_config_path :: "(string \<Rightarrow> string option) \<Rightarrow> string option \<Rightarrow> string" where
  "resolve_config_path fs requested =
     (let req = opt_str requested;
          cands = (if req \<noteq> [] then [req] else []) @ [''arcore/storage/arws/arws.cfg'', ''storage/arws/arws.cfg'']
      in buf_copy 512 (case find (\<lambda>p. fs p \<noteq> None) cands of
                         Some p \<Rightarrow> p
                       | None \<Rightarrow> if req \<noteq> [] then req else ''arcore/storage/arws/arws.cfg''))"

definition default_text :: string where
  "default_text = lines_text (guide_comments @ [''mode=production'', ''port=443'', ''bind=0.0.0.0'', ''global_mode=production''])"

definition arws_config_watchdog_start :: "config_state \<Rightarrow> config_state" where
  "arws_config_watchdog_start c =
     (if watchdog_started c then c else c\<lparr>watchdog_started := True, watchdog_running := True\<rparr>)"

definition arws_config_load :: "'d config_env \<Rightarrow> string option \<Rightarrow> config_world \<Rightarrow> int \<times> config_world" where
  "arws_config_load env requested w =
     (let p = resolve_config_path (disk w) requested;
          w1 = w\<lparr>cfg := (cfg w)\<lparr>config_path := buf_copy 256 p\<rparr>\<rparr>;
          w2 = (if disk w1 p = None \<and> can_write env p then w1\<lparr>disk := (disk w1)(p \<mapsto> default_text)\<rparr> else w1)
      in (case disk w2 p of
            None \<Rightarrow> (-1, w2)
          | Some text \<Rightarrow>
              (let (c, rs) = load_text env text (cfg w2, routes w2)
               in (0, w2\<lparr>cfg := arws_config_watchdog_start (c\<lparr>config_loaded := True, last_config_mtime := mtime env p\<rparr>),
                         routes := rs\<rparr>))))"

definition arws_config_get_path :: "config_state \<Rightarrow> string" where
  "arws_config_get_path c = (if config_path c \<noteq> [] then config_path c else ''storage/arws/arws.cfg'')"

definition arws_config_reload_from_disk :: "'d config_env \<Rightarrow> config_world \<Rightarrow> int \<times> config_world" where
  "arws_config_reload_from_disk env w =
     (if config_path (cfg w) = [] then (-1, w) else arws_config_load env (Some (config_path (cfg w))) w)"

text \<open>One round of the watchdog thread after its sleep.\<close>

definition config_watchdog_loop :: "'d config_env \<Rightarrow> config_world \<Rightarrow> config_world" where
  "config_watchdog_loop env w =
     (if \<not> watchdog_running (cfg w) \<or> config_path (cfg w) = [] then w
      else let t = mtime env (config_path (cfg w)) in
        if t \<noteq> 0 \<and> t \<noteq> last_config_mtime (cfg w)
        then snd (arws_config_load env (Some (config_path (cfg w))) w) else w)"

definition arws_config_watchdog_stop :: "config_state \<Rightarrow> config_state" where
  "arws_config_watchdog_stop c = c\<lparr>watchdog_running := False\<rparr>"

section \<open>Mode, port and address\<close>

definition detect_mode :: "'d config_env \<Rightarrow> config_world \<Rightarrow> int \<times> config_world" where
  "detect_mode env w =
     (if cached_mode (cfg w) \<noteq> -1 then (cached_mode (cfg w), w)
      else let w1 = w\<lparr>cfg := (cfg w)\<lparr>cached_mode := ARWS_MODE_TEST\<rparr>\<rparr>;
               w2 = (if config_loaded (cfg w1) then w1
                     else snd (arws_config_load env (Some ''storage/arws/arws.cfg'') w1));
               m = cached_mode (cfg w2);
               fallback = (if m \<noteq> -1 then m else ARWS_MODE_TEST)
           in if m \<noteq> -1 \<and> m \<noteq> ARWS_MODE_TEST then (m, w2)
              else (case getenv env ''ARWS_MODE'' of
                      None \<Rightarrow> (fallback, w2)
                    | Some e \<Rightarrow> if strcaseeq e ''production'' then (ARWS_MODE_PRODUCTION, w2)
                                else if strcaseeq e ''test'' then (ARWS_MODE_TEST, w2)
                                else (fallback, w2)))"

definition arws_config_get_mode :: "'d config_env \<Rightarrow> config_world \<Rightarrow> int \<times> config_world" where
  "arws_config_get_mode env w =
     (if cached_mode (cfg w) = -1
      then let (m, w1) = detect_mode env w in (m, w1\<lparr>cfg := (cfg w1)\<lparr>cached_mode := m\<rparr>\<rparr>)
      else (cached_mode (cfg w), w))"

definition arws_config_get_port :: "'d config_env \<Rightarrow> config_world \<Rightarrow> int \<times> config_world" where
  "arws_config_get_port env w =
     (if config_port (cfg w) > 0 then (config_port (cfg w), w)
      else let from_env = (case getenv env ''ARWS_PORT'' of
                             None \<Rightarrow> None
                           | Some e \<Rightarrow> let p = atoi e in if p > 0 \<and> p \<le> 65535 then Some p else None)
           in (case from_env of
                 Some p \<Rightarrow> (p, w)
               | None \<Rightarrow> (let (m, w1) = arws_config_get_mode env w
                          in (if m = ARWS_MODE_PRODUCTION then 443 else 80, w1))))"

definition arws_config_set_port :: "int \<Rightarrow> config_state \<Rightarrow> config_state" where
  "arws_config_set_port p c = c\<lparr>config_port := p\<rparr>"

definition arws_config_get_operation_mode :: "'d config_env \<Rightarrow> config_world \<Rightarrow> int \<times> config_world" where
  "arws_config_get_operation_mode env w =
     (let (m, w1) = arws_config_get_mode env w
      in (if m = ARWS_MODE_PRODUCTION
          then if config_port (cfg w1) > 0 \<and> config_port (cfg w1) \<noteq> 443 then MODE_INSECURE else MODE_SECURE
          else MODE_INSECURE, w1))"

definition arws_config_get_mode_name :: "'d config_env \<Rightarrow> config_world \<Rightarrow> string \<times> config_world" where
  "arws_config_get_mode_name env w =
     (let (m, w1) = arws_config_get_mode env w
      in (if m = ARWS_MODE_PRODUCTION then ''PRODUCTION'' else ''TEST'', w1))"

definition arws_config_get_bind_address :: "'d config_env \<Rightarrow> config_world \<Rightarrow> string \<times> config_world" where
  "arws_config_get_bind_address env w =
     (if config_bind (cfg w) \<noteq> [] then (config_bind (cfg w), w)
      else let (m, w1) = arws_config_get_mode env w
           in (if m = ARWS_MODE_PRODUCTION then ''0.0.0.0'' else ''127.0.0.1'', w1))"

section \<open>Overrides and routes\<close>

definition arws_config_is_maintenance_ip :: "string option \<Rightarrow> config_state \<Rightarrow> bool" where
  "arws_config_is_maintenance_ip peer c =
     (case peer of None \<Rightarrow> False | Some ip \<Rightarrow> list_ex (\<lambda>m. m = ip) (maintenance_ips c))"

definition override_matches :: "string \<Rightarrow> string \<Rightarrow> ModeOverride \<Rightarrow> bool" where
  "override_matches host path ov \<longleftrightarrow> cfg_host_matches (ov_host ov) host \<and> path_matches_pattern path (ov_path ov)"

definition arws_config_get_effective_mode ::
  "string \<Rightarrow> string \<Rightarrow> string option \<Rightarrow> config_state \<Rightarrow> string" where
  "arws_config_get_effective_mode host path peer c =
     (let allowed = (case peer of None \<Rightarrow> False | Some ip \<Rightarrow> list_ex (\<lambda>m. m = ip) (maintenance_ips c)) in
      if global_mode c = MODE_MAINTENANCE
      then (if allowed then MODE_PRODUCTION else MODE_MAINTENANCE)
      else case first_idx (override_matches host path) (take (override_count c) (overrides c)) of
        Some i \<Rightarrow>
          (let ret = ov_mode (overrides c ! i)
           in if ret = MODE_MAINTENANCE \<and> allowed then MODE_PRODUCTION else ret)
      | None \<Rightarrow> global_mode c)"

definition arws_config_has_override :: "string \<Rightarrow> string \<Rightarrow> config_state \<Rightarrow> bool" where
  "arws_config_has_override host path c \<longleftrightarrow> find_override host path c \<noteq> None"

definition arws_config_add_override ::
  "'d config_env \<Rightarrow> string \<Rightarrow> string \<Rightarrow> string \<Rightarrow> config_world \<Rightarrow> int \<times> config_world" where
  "arws_config_add_override env host path mode w =
     (let c = cfg w in
      case find_override host path c of
        Some i \<Rightarrow>
          (0, snd (save_config env (w\<lparr>cfg := c\<lparr>overrides :=
                (overrides c)[i := (overrides c ! i)\<lparr>ov_mode := buf_copy 32 mode\<rparr>]\<rparr>\<rparr>)))
      | None \<Rightarrow>
          if override_count c \<ge> MAX_OVERRIDES then (-1, w)
          else let n = override_count c in
            (0, snd (save_config env (w\<lparr>cfg := c\<lparr>overrides :=
                (overrides c)[n := (overrides c ! n)\<lparr>ov_host := buf_copy 128 host, ov_path := buf_copy 128 path,
                                                     ov_mode := buf_copy 32 mode\<rparr>],
                override_count := n + 1\<rparr>\<rparr>))))"

definition arws_config_remove_override ::
  "'d config_env \<Rightarrow> string \<Rightarrow> string \<Rightarrow> config_world \<Rightarrow> int \<times> config_world" where
  "arws_config_remove_override env host path w =
     (let c = cfg w in
      case find_override host path c of
        Some i \<Rightarrow>
          (0, snd (save_config env (w\<lparr>cfg := c\<lparr>overrides := (overrides c)[i := overrides c ! (override_count c - 1)],
                override_count := override_count c - 1\<rparr>\<rparr>)))
      | None \<Rightarrow> (-1, w))"

definition arws_config_set_global :: "'d config_env \<Rightarrow> string \<Rightarrow> config_world \<Rightarrow> int \<times> config_world" where
  "arws_config_set_global env mode w =
     (if mode \<noteq> MODE_PRODUCTION \<and> mode \<noteq> MODE_TEST \<and> mode \<noteq> MODE_MAINTENANCE then (-1, w)
      else (0, snd (save_config env (w\<lparr>cfg := (cfg w)\<lparr>global_mode := buf_copy 16 mode\<rparr>\<rparr>))))"

definition arws_config_get_global_mode :: "config_state \<Rightarrow> string" where
  "arws_config_get_global_mode c = global_mode c"

definition arws_config_get_cache_ttl :: "config_state \<Rightarrow> int" where
  "arws_config_get_cache_ttl c = cache_ttl_config c"

definition arws_config_set_cache_ttl :: "'d config_env \<Rightarrow> int \<Rightarrow> config_world \<Rightarrow> int \<times> config_world" where
  "arws_config_set_cache_ttl env seconds w =
     (if seconds < 0 then (-1, w)
      else (0, snd (save_config env (w\<lparr>cfg := (cfg w)\<lparr>cache_ttl_config := seconds\<rparr>\<rparr>))))"

definition entry_named :: "string \<Rightarrow> string \<Rightarrow> ProxyRouteEntry \<Rightarrow> bool" where
  "entry_named host path e \<longleftrightarrow> pr_host e = host \<and> pr_path e = path"

definition set_entry :: "string \<Rightarrow> string \<Rightarrow> string \<Rightarrow> ProxyRouteEntry list \<Rightarrow> ProxyRouteEntry list option" where
  "set_entry host path target es =
     (case first_idx (entry_named host path) es of
        Some i \<Rightarrow> Some (es[i := (es ! i)\<lparr>pr_target_url := buf_copy 256 target\<rparr>])
      | None \<Rightarrow> if length es \<ge> MAX_OVERRIDES then None else Some (es @ [new_entry host path target]))"

definition arws_config_add_proxy_route ::
  "'d config_env \<Rightarrow> string \<Rightarrow> string \<Rightarrow> string \<Rightarrow> config_world \<Rightarrow> int \<times> config_world" where
  "arws_config_add_proxy_route env host path target w =
     (case set_entry host path target (proxy_routes (cfg w)) of
        None \<Rightarrow> (-1, w)
      | Some es \<Rightarrow> (0, snd (save_config env (w\<lparr>cfg := (cfg w)\<lparr>proxy_routes := es\<rparr>\<rparr>))))"

definition arws_config_has_proxy_route :: "string \<Rightarrow> string \<Rightarrow> config_state \<Rightarrow> bool" where
  "arws_config_has_proxy_route host path c \<longleftrightarrow> list_ex (entry_named host path) (proxy_routes c)"

definition arws_config_add_stream_route ::
  "'d config_env \<Rightarrow> string \<Rightarrow> string \<Rightarrow> string \<Rightarrow> config_world \<Rightarrow> int \<times> config_world" where
  "arws_config_add_stream_route env host path target w =
     (case set_entry host path target (stream_routes (cfg w)) of
        None \<Rightarrow> (-1, w)
      | Some es \<Rightarrow> (0, snd (save_config env (w\<lparr>cfg := (cfg w)\<lparr>stream_routes := es\<rparr>\<rparr>))))"

definition arws_config_has_stream_route :: "string \<Rightarrow> string \<Rightarrow> config_state \<Rightarrow> bool" where
  "arws_config_has_stream_route host path c \<longleftrightarrow> list_ex (entry_named host path) (stream_routes c)"

definition arws_config_is_no_cache :: "string \<Rightarrow> string \<Rightarrow> config_state \<Rightarrow> bool" where
  "arws_config_is_no_cache host path c =
     (case first_idx (override_matches host path) (take (override_count c) (overrides c)) of
        Some i \<Rightarrow> ov_no_cache (overrides c ! i)
      | None \<Rightarrow> False)"

section \<open>The listing of routes\<close>

definition pad28 :: "string \<Rightarrow> string" where
  "pad28 s = s @ replicate (28 - length s) CHR '' ''"

definition entry_text :: "string \<Rightarrow> ProxyRouteEntry \<Rightarrow> string" where
  "entry_text label e = label @ ''host='' @ pad28 (pr_host e) @ '' path='' @ pad28 (pr_path e) @ '' -> '' @ pr_target_url e @ [NLC]"

definition override_text :: "ModeOverride \<Rightarrow> string" where
  "override_text ov =
     ''override host='' @ pad28 (ov_host ov) @ '' path='' @ pad28 (ov_path ov) @ '' mode='' @
     (if ov_mode ov \<noteq> [] then ov_mode ov else ''-'') @ (if ov_no_cache ov then '' no-cache'' else []) @ [NLC]"

text \<open>\<open>snprintf(out + off, limit, "%s", text)\<close> on the memory at \<open>out\<close>: what fits and a NUL.\<close>

definition put_text :: "nat \<Rightarrow> nat \<Rightarrow> string \<Rightarrow> char list \<Rightarrow> mem_error + char list" where
  "put_text off limit text mem =
     (if limit = 0 then Inr mem
      else let bs = take (limit - 1) text @ [NUL] in
        if off + length bs > length mem then Inl OutOfBounds
        else Inr (take off mem @ bs @ drop (off + length bs) mem))"

text \<open>\<open>size - used\<close> becomes a \<open>size_t\<close>: a negative difference is a huge limit.\<close>

definition remaining :: "nat \<Rightarrow> nat \<Rightarrow> nat" where
  "remaining cap used = (if used \<le> cap then cap - used else 2 ^ 64 + cap - used)"

text \<open>Lines are appended while they fit; the first that does not fit ends its loop.\<close>

fun append_while :: "nat \<Rightarrow> string list \<Rightarrow> nat \<Rightarrow> char list \<Rightarrow> mem_error + (nat \<times> char list)" where
  "append_while cap [] used mem = Inr (used, mem)"
| "append_while cap (l # ls) used mem =
     (case put_text used (remaining cap used) l mem of
        Inl e \<Rightarrow> Inl e
      | Inr mem' \<Rightarrow> if used + length l \<ge> cap then Inr (used, mem') else append_while cap ls (used + length l) mem')"

definition append_all :: "nat \<Rightarrow> string list \<Rightarrow> mem_error + (nat \<times> char list) \<Rightarrow> mem_error + (nat \<times> char list)" where
  "append_all cap ls r = (case r of Inl e \<Rightarrow> Inl e | Inr (used, mem) \<Rightarrow> append_while cap ls used mem)"

definition arws_config_dump_routes :: "nat \<Rightarrow> char list \<Rightarrow> config_state \<Rightarrow> mem_error + (nat \<times> char list)" where
  "arws_config_dump_routes cap mem c =
     (if cap = 0 then Inr (0, mem)
      else let first = ''global_mode='' @ global_mode c @ [NLC] in
        append_all cap (map override_text (take (override_count c) (overrides c)))
          (append_all cap (map (entry_text ''stream  '') (stream_routes c))
            (append_all cap (map (entry_text ''proxy   '') (proxy_routes c))
              (case put_text 0 cap first mem of Inl e \<Rightarrow> Inl e | Inr mem' \<Rightarrow> Inr (length first, mem')))))"

end
