(* ===== verification/Proxy.thy ===== *)
theory Proxy
  imports Ipc Registry Responses
begin

text \<open>
  The two reverse proxies: \<open>src/src/arws_proxy.c\<close> (whole response in a buffer) and
  \<open>src/src/arws_stream_proxy.c\<close> (relaying). The upstream connection is a parameter: whether each attempt to
  connect succeeds, how many bytes each send takes, what each receive delivers.
\<close>

section \<open>Targets\<close>

text \<open>The digits of a port: \<open>None\<close> when there are too many or the value exceeds 65535.\<close>

fun parse_digits :: "nat \<Rightarrow> int \<Rightarrow> string \<Rightarrow> int option" where
  "parse_digits digits port [] = Some port"
| "parse_digits digits port (c # s) =
     (if is_digit c
      then let d = int (of_char c) - 48 in
        if digits \<ge> 5 \<or> port > (65535 - d) div 10 then None
        else parse_digits (Suc digits) (port * 10 + d) s
      else Some port)"

definition host_stop :: "char \<Rightarrow> bool" where
  "host_stop c \<longleftrightarrow> c = CHR '':'' \<or> c = CHR ''/'' \<or> c = CHR ''?''"

definition parse_authority :: "nat \<Rightarrow> int \<Rightarrow> string \<Rightarrow> (string \<times> int) option" where
  "parse_authority host_size default_port p =
     (let host = take (host_size - 1) (takeWhile (\<lambda>c. \<not> host_stop c) p);
          rest = drop (length host) p
      in if rest \<noteq> [] \<and> hd rest = CHR '':''
         then (case parse_digits 0 0 (tl rest) of
                 None \<Rightarrow> None
               | Some port \<Rightarrow> if port \<le> 0 then None else Some (host, port))
         else Some (host, default_port))"

definition parse_url :: "nat \<Rightarrow> string \<Rightarrow> (string \<times> int) option" where
  "parse_url host_size url =
     (if strneq url ''http://'' 7 then parse_authority host_size 80 (drop 7 url)
      else if strneq url ''https://'' 8 then parse_authority host_size 443 (drop 8 url)
      else None)"

definition parse_target :: "nat \<Rightarrow> string \<Rightarrow> (string \<times> int) option" where
  "parse_target host_size url =
     (if strneq url ''ws://'' 5 then parse_authority host_size 80 (drop 5 url)
      else if strneq url ''wss://'' 6 then parse_authority host_size 443 (drop 6 url)
      else if strneq url ''http://'' 7 then parse_authority host_size 80 (drop 7 url)
      else if strneq url ''https://'' 8 then parse_authority host_size 443 (drop 8 url)
      else None)"

section \<open>The buffering proxy\<close>

definition build_502_response :: "nat \<Rightarrow> string" where
  "build_502_response maxlen =
     (let body = ''<html><body><h1>502 Bad Gateway</h1></body></html>''
      in buf_copy maxlen (''HTTP/1.1 502 Bad Gateway'' @ CRLF @ ''Content-Type: text/html'' @ CRLF @
           ''Content-Length: '' @ dec_nat (length body) @ CRLF @ ''Connection: close'' @ CRLF @ CRLF @ body))"

record upstream_net =
  un_socket :: "nat \<Rightarrow> bool"
  un_connect :: "nat \<Rightarrow> string \<Rightarrow> int \<Rightarrow> bool"
  un_send :: "nat \<Rightarrow> nat \<Rightarrow> nat \<Rightarrow> int"
  un_recv :: "nat \<Rightarrow> nat \<Rightarrow> string"

definition arws_proxy_forward :: "upstream_net \<Rightarrow> string \<Rightarrow> string \<Rightarrow> nat \<Rightarrow> string" where
  "arws_proxy_forward net target_url raw_req max_resp_len =
     (case parse_url 256 target_url of
        None \<Rightarrow> build_502_response max_resp_len
      | Some (host, port) \<Rightarrow>
          if \<not> un_socket net 0 then build_502_response max_resp_len
          else if \<not> un_connect net 0 host port then build_502_response max_resp_len
          else if fst (send_all (un_send net 0) 0 raw_req) < 0 then build_502_response max_resp_len
          else fst (read_loop (un_recv net) max_resp_len 0 [] None))"

section \<open>The forwarded request\<close>

text \<open>\<open>pos\<close> is the text written so far; \<open>None\<close> is the error value \<open>-1\<close>. Appending at \<open>-1\<close> writes before
  the buffer.\<close>

definition append_str :: "nat \<Rightarrow> string \<Rightarrow> string option \<Rightarrow> mem_error + string option" where
  "append_str bufsize s pos =
     (case pos of
        None \<Rightarrow> Inl OutOfBounds
      | Some t \<Rightarrow> Inr (if length t + length s < bufsize then Some (t @ s) else None))"

text \<open>An append followed by \<open>if (pos < 0) return -1\<close>; \<open>k\<close> continues.\<close>

definition append_or_fail ::
  "nat \<Rightarrow> string \<Rightarrow> string option \<Rightarrow> (string option \<Rightarrow> mem_error + string option) \<Rightarrow> mem_error + string option" where
  "append_or_fail bufsize s pos k =
     (case append_str bufsize s pos of
        Inl e \<Rightarrow> Inl e
      | Inr None \<Rightarrow> Inr None
      | Inr (Some t) \<Rightarrow> k (Some t))"

definition is_connection_header :: "string \<Rightarrow> bool" where
  "is_connection_header n \<longleftrightarrow> strcaseeq n ''Connection'' \<or> strcaseeq n ''Proxy-Connection''"

text \<open>The header loop. The append of the replaced \<open>Connection\<close> header is not checked.\<close>

fun append_headers ::
  "nat \<Rightarrow> (string \<times> string) list \<Rightarrow> string option \<Rightarrow> (string option \<Rightarrow> mem_error + string option) \<Rightarrow> mem_error + string option" where
  "append_headers bufsize [] pos k = k pos"
| "append_headers bufsize ((n, v) # hs) pos k =
     (if is_connection_header n
      then (case append_str bufsize (''Connection: close'' @ CRLF) pos of
              Inl e \<Rightarrow> Inl e
            | Inr pos' \<Rightarrow> append_headers bufsize hs pos' k)
      else append_or_fail bufsize (n @ '': '' @ v @ CRLF) pos (\<lambda>pos'. append_headers bufsize hs pos' k))"

definition has_host_header :: "HttpRequest \<Rightarrow> bool" where
  "has_host_header req \<longleftrightarrow> list_ex (\<lambda>h. strcaseeq (fst h) ''Host'') (rq_headers req)"

definition has_connection_header :: "HttpRequest \<Rightarrow> bool" where
  "has_connection_header req \<longleftrightarrow> list_ex (\<lambda>h. is_connection_header (fst h)) (rq_headers req)"

definition query_text_of :: "HttpRequest \<Rightarrow> string" where
  "query_text_of req = (case rq_query req of Some q \<Rightarrow> q | None \<Rightarrow> [])"

text \<open>\<open>body\<close> are the \<open>body_length_in_buffer\<close> bytes at \<open>req->body\<close>.\<close>

definition arws_build_http_request ::
  "ClientConnection \<Rightarrow> HttpRequest \<Rightarrow> string \<Rightarrow> nat \<Rightarrow> mem_error + string option" where
  "arws_build_http_request conn req body bufsize =
     append_or_fail bufsize (rq_method req @ '' '' @ rq_path req) (Some []) (\<lambda>p1.
     (\<lambda>k. if query_text_of req \<noteq> [] then append_or_fail bufsize (''?'' @ query_text_of req) p1 k else k p1) (\<lambda>p2.
     append_or_fail bufsize ('' HTTP/1.1'' @ CRLF) p2 (\<lambda>p3.
     append_headers bufsize (rq_headers req) p3 (\<lambda>p4.
     (\<lambda>k. if \<not> has_host_header req \<and> rq_host req \<noteq> []
          then append_or_fail bufsize (''Host: '' @ rq_host req @ CRLF) p4 k else k p4) (\<lambda>p5.
     append_or_fail bufsize (''X-Forwarded-For: '' @ server_get_client_ip conn @ CRLF) p5 (\<lambda>p6.
     (\<lambda>k. if \<not> has_connection_header req
          then append_or_fail bufsize (''Connection: close'' @ CRLF) p6 k else k p6) (\<lambda>p7.
     append_or_fail bufsize CRLF p7 (\<lambda>p8.
     (case p8 of
        None \<Rightarrow> Inr None
      | Some t \<Rightarrow> Inr (Some (t @ take (bufsize - length t) body)))))))))))"

section \<open>The response headers\<close>

record resp_info =
  is_websocket :: bool
  is_chunked :: bool
  resp_content_length :: int

definition header_line_info :: "string \<Rightarrow> resp_info \<Rightarrow> resp_info" where
  "header_line_info line info =
     (case strchr line CHR '':'' of
        None \<Rightarrow> info
      | Some t \<Rightarrow>
          (let name = takeWhile (\<lambda>c. c \<noteq> CHR '':'') line;
               val = dropWhile (\<lambda>c. c = CHR '' '') (tl t)
           in if strcaseeq name ''Content-Length'' then info\<lparr>resp_content_length := atoi (cstr (take 31 val))\<rparr>
              else if strcaseeq name ''Transfer-Encoding'' \<and> length val \<ge> 7 \<and> strncaseeq val ''chunked'' 7
              then info\<lparr>is_chunked := True\<rparr>
              else info))"

text \<open>The loop over the header text \<open>hdr\<close> (the first \<open>header_end\<close> bytes), line by line.\<close>

function header_lines_info :: "string \<Rightarrow> resp_info \<Rightarrow> resp_info" where
  "header_lines_info hdr info =
     (case strchr hdr (CHR 0x0D) of
        None \<Rightarrow> info
      | Some _ \<Rightarrow>
          (let line = takeWhile (\<lambda>c. c \<noteq> CHR 0x0D) hdr in
           if line = [] then info
           else header_lines_info (drop (length line + 2) hdr) (header_line_info line info)))"
  by pat_completeness auto
termination
proof (relation "measure (\<lambda>(hdr, info). length hdr)")
  fix hdr :: string and info :: resp_info and t line
  assume "strchr hdr (CHR 0x0D) = Some t"
  then have "hdr \<noteq> []" by (auto simp: strchr_def)
  then show "((drop (length line + 2) hdr, header_line_info line info), hdr, info) \<in> measure (\<lambda>(hdr, info). length hdr)"
    by simp
qed simp

declare header_lines_info.simps [simp del]

definition parse_response_headers :: "string \<Rightarrow> nat \<Rightarrow> resp_info" where
  "parse_response_headers buf header_end =
     header_lines_info (take header_end buf)
       \<lparr>is_websocket = (header_end \<ge> 13 \<and> strneq (cstr buf) ''HTTP/1.1 101 '' 13), is_chunked = False,
        resp_content_length = -1\<rparr>"

text \<open>The search for the blank line, from three bytes before the newly received data.\<close>

definition find_header_end :: "nat \<Rightarrow> string \<Rightarrow> nat option" where
  "find_header_end newly buf =
     (let lo = (if newly > 3 then newly - 3 else 0)
      in map_option (\<lambda>k. lo + k + 4) (first_idx (\<lambda>i. take 4 (drop i buf) = CRLF2) [lo..<length buf - 3]))"

definition ARWS_STREAM_BUF_SIZE :: nat where
  "ARWS_STREAM_BUF_SIZE = 65536"

text \<open>Receives are a list of pieces, in order; an exhausted list is a timeout, an error or the end. What
  does not fit the buffer stays in the socket. The result is the data, the end of the headers,
  and the pieces left.\<close>

primrec read_headers :: "string list \<Rightarrow> string \<Rightarrow> string \<times> nat option \<times> string list" where
  "read_headers [] buf = (buf, None, [])"
| "read_headers (c # cs) buf =
     (let room = ARWS_STREAM_BUF_SIZE - length buf; n = take room c;
          left = (if length c > room then drop room c # cs else cs)
      in if room = 0 then (buf, None, c # cs)
         else if n = [] then (buf, None, cs)
         else (case find_header_end (length buf) (buf @ n) of
                 Some h \<Rightarrow> (buf @ n, Some h, left)
               | None \<Rightarrow> if length c > room then (buf @ n, None, left) else read_headers cs (buf @ n)))"

section \<open>Relaying\<close>

text \<open>\<open>accept k\<close> is the number of bytes of the \<open>k\<close>-th piece the client takes before its connection fails.\<close>

primrec relay_length :: "string list \<Rightarrow> (nat \<Rightarrow> nat) \<Rightarrow> nat \<Rightarrow> int \<Rightarrow> int \<Rightarrow> string" where
  "relay_length [] accept k body_done content_length = []"
| "relay_length (c # cs) accept k body_done content_length =
     (if \<not> body_done < content_length then []
      else let n = take ARWS_STREAM_BUF_SIZE c in
        if n = [] then []
        else let to_write = min (length n) (nat (content_length - body_done));
                 ws = min to_write (accept k)
             in take ws n @ (if ws < to_write then []
                             else relay_length cs accept (Suc k) (body_done + int ws) content_length))"

primrec relay_until_close :: "string list \<Rightarrow> (nat \<Rightarrow> nat) \<Rightarrow> nat \<Rightarrow> string" where
  "relay_until_close [] accept k = []"
| "relay_until_close (c # cs) accept k =
     (let n = take ARWS_STREAM_BUF_SIZE c in
      if n = [] then []
      else take (min (length n) (accept k)) n @ relay_until_close cs accept (Suc k))"

text \<open>One receive passed on: whether both sides are still open, and what the destination took.\<close>

definition pipe_data :: "string \<Rightarrow> nat \<Rightarrow> bool \<times> string" where
  "pipe_data received accept =
     (let m = take ARWS_STREAM_BUF_SIZE received; mw = min (length m) accept in (m \<noteq> [] \<and> mw = length m, take mw m))"

text \<open>A WebSocket: each event is data from one or both sides; the result is what the client and the
  upstream receive. \<open>Some []\<close> is a closed side, \<open>None\<close> a side with nothing to read.\<close>

primrec relay_websocket ::
  "(string option \<times> string option) list \<Rightarrow> (nat \<Rightarrow> nat) \<Rightarrow> (nat \<Rightarrow> nat) \<Rightarrow> nat \<Rightarrow> string \<times> string" where
  "relay_websocket [] accept accept_up k = ([], [])"
| "relay_websocket (ev # evs) accept accept_up k =
     (let up = fst ev; cl = snd ev;
          n = (case up of None \<Rightarrow> [] | Some d \<Rightarrow> take ARWS_STREAM_BUF_SIZE d);
          ws = min (length n) (accept k);
          (open, m) = (case cl of None \<Rightarrow> (True, []) | Some d \<Rightarrow> pipe_data d (accept_up k))
      in if up \<noteq> None \<and> n = [] then ([], [])
         else if ws < length n then (take ws n, [])
         else if \<not> open then (n, m)
         else (case relay_websocket evs accept accept_up (Suc k) of (a, b) \<Rightarrow> (n @ a, m @ b)))"

section \<open>The relaying proxy\<close>

record stream_env =
  se_net :: upstream_net
  se_mem :: "nat \<Rightarrow> bool"
  se_client_fd :: int
  se_pieces :: "string list"
  se_events :: "(string option \<times> string option) list"
  se_accept :: "nat \<Rightarrow> nat"
  se_accept_up :: "nat \<Rightarrow> nat"

definition upstream_get_conn :: "upstream_net \<Rightarrow> nat \<Rightarrow> string \<Rightarrow> int \<Rightarrow> bool" where
  [simp]: "upstream_get_conn net k host port \<longleftrightarrow> un_socket net k \<and> un_connect net k host port"

definition bad_gateway :: "string \<Rightarrow> ClientConnection \<Rightarrow> int \<times> ClientConnection" where
  "bad_gateway msg conn = (-1, arws_send_502 (Some msg) conn)"

text \<open>Sending the request, with one retry on a fresh connection; \<open>Some msg\<close> is the failure.\<close>

definition send_with_retry :: "upstream_net \<Rightarrow> string \<Rightarrow> int \<Rightarrow> string \<Rightarrow> string option" where
  "send_with_retry net host port raw =
     (if fst (send_all (un_send net 0) 0 raw) = 0 then None
      else if \<not> un_socket net 1 \<or> \<not> un_connect net 1 host port then Some ''Bad Gateway (Upstream Connect Failed)''
      else if fst (send_all (un_send net 1) 0 raw) = 0 then None
      else Some ''Bad Gateway (Upstream Send Failed)'')"

definition arws_stream_proxy_forward ::
  "stream_env \<Rightarrow> HttpRequest \<Rightarrow> string \<Rightarrow> string \<Rightarrow> ClientConnection \<Rightarrow> mem_error + (int \<times> ClientConnection)" where
  "arws_stream_proxy_forward env req body target_url conn =
     (case parse_target 256 target_url of
        None \<Rightarrow> Inr (bad_gateway ''Bad Gateway'' conn)
      | Some (host, port) \<Rightarrow>
          if \<not> upstream_get_conn (se_net env) 0 host port
          then Inr (bad_gateway ''Bad Gateway'' conn)
          else if \<not> se_mem env 0 then Inr (bad_gateway ''Bad Gateway (OOM)'' conn)
          else (case arws_build_http_request conn req body (length body + 65536) of
                  Inl e \<Rightarrow> Inl e
                | Inr None \<Rightarrow> Inr (bad_gateway ''Bad Gateway (Build Request Failed)'' conn)
                | Inr (Some raw) \<Rightarrow>
                    (case send_with_retry (se_net env) host port raw of
                       Some msg \<Rightarrow> Inr (bad_gateway msg conn)
                     | None \<Rightarrow>
                         if se_client_fd env < 0 then Inr (bad_gateway ''Bad Gateway (Invalid Client FD)'' conn)
                         else if \<not> se_mem env 1 then Inr (bad_gateway ''Bad Gateway (OOM)'' conn)
                         else (case read_headers (se_pieces env) [] of
                                 (buf, None, _) \<Rightarrow> Inr (bad_gateway ''Upstream error (No Response Headers)'' conn)
                               | (buf, Some header_end, cs) \<Rightarrow>
                                   (let info = parse_response_headers buf header_end;
                                        c1 = server_conn_write buf conn;
                                        rest = (if is_websocket info
                                                then fst (relay_websocket (se_events env) (se_accept env) (se_accept_up env) 0)
                                                else if resp_content_length info \<ge> 0
                                                then relay_length cs (se_accept env) 0 (int (length buf - header_end)) (resp_content_length info)
                                                else relay_until_close cs (se_accept env) 0)
                                    in Inr (0, server_conn_write rest c1))))))"

end
