(* ===== verification/Dispatch.thy ===== *)
theory Dispatch
  imports Upstream Cache Registry Router_Ex Config Proxy
begin

text \<open>
  The dispatcher, \<open>src/src/dispatcher.c\<close>: one request, already parsed and admitted, is matched against
  the routes and answered by a handler, a redirect, an upstream target, a backend process or the cache.
  The state is the union of the components it calls; the route table lives in the configuration's
  \<open>config_world\<close>, which also writes it. The environment holds what the operating system and the
  other processes decide: the network, the allocator, the clock, the registered handler functions, and
  the contents of the one stack byte the code may read before writing it.
\<close>

record gateway_world =
  gw_config :: config_world
  gw_upstream :: upstream_state
  gw_cache :: cache_state
  gw_registry :: registry_state

record dispatch_env =
  de_web :: web_env
  de_handlers :: "string \<Rightarrow> ClientConnection \<Rightarrow> HttpRequest \<Rightarrow> ClientConnection"
  de_stream :: stream_env
  de_send :: "int \<Rightarrow> string \<Rightarrow> int"
  de_recv :: "int \<Rightarrow> nat \<Rightarrow> nat \<Rightarrow> string"
  de_mem :: "int \<Rightarrow> bool"
  de_now :: uint64
  de_clock :: "nat \<Rightarrow> uint64"
  de_later :: uint64
  de_stack :: char

section \<open>What may be cached\<close>

definition static_extensions :: "string list" where
  "static_extensions =
     [''css'', ''js'', ''png'', ''jpg'', ''jpeg'', ''gif'', ''svg'', ''ico'', ''woff'', ''woff2'', ''ttf'', ''webp'', ''pdf'']"

definition is_static_path :: "string option \<Rightarrow> bool" where
  "is_static_path path =
     (case path of
        None \<Rightarrow> False
      | Some p \<Rightarrow> (case strrchr p CHR ''.'' of
                     None \<Rightarrow> False
                   | Some dot \<Rightarrow> list_ex (\<lambda>ext. strcaseeq (tl dot) ext) static_extensions))"

definition upper_char :: "char \<Rightarrow> char" where
  "upper_char c = (let n = of_char c :: nat in if 97 \<le> n \<and> n \<le> 122 then char_of (n - 32) else c)"

definition header_name_eq :: "string \<Rightarrow> string \<Rightarrow> nat \<Rightarrow> bool" where
  "header_name_eq p name nlen = list_all (\<lambda>i. upper_char (p ! i) = upper_char (name ! i)) [0..<nlen]"

text \<open>The length of the header part: up to the first blank line, or everything.\<close>

definition head_length :: "string \<Rightarrow> nat" where
  "head_length buf =
     (case first_idx (\<lambda>i. take 4 (drop i buf) = CRLF @ CRLF) [0..<length buf - 3] of
        Some i \<Rightarrow> i
      | None \<Rightarrow> length buf)"

text \<open>The loop returns 1 at the first position where \<open>header_name_eq\<close> returns 0.\<close>

definition response_has_set_cookie :: "string \<Rightarrow> bool" where
  "response_has_set_cookie buf =
     (if buf = [] then False
      else list_ex (\<lambda>i. \<not> header_name_eq (drop i buf) ''Set-Cookie'' 10) [0..<head_length buf - 10])"

definition use_cache :: "HttpRequest \<Rightarrow> config_state \<Rightarrow> bool" where
  "use_cache req c =
     (let is_get = (rq_method req = ''GET'');
          is_static = (is_get \<and> is_static_path (Some (rq_path req)));
          has_no_cache = arws_config_is_no_cache (rq_host req) (rq_path req) c
      in if is_get \<and> \<not> has_no_cache
         then (if is_static then True else arws_config_get_cache_ttl c > 0)
         else False)"

definition request_key :: "HttpRequest \<Rightarrow> string" where
  "request_key req = arws_cache_make_key 512 (Some (rq_method req)) (Some (rq_host req)) (Some (rq_path req)) (rq_query req)"

definition cacheable :: "char \<Rightarrow> string \<Rightarrow> bool" where
  "cacheable stack resp \<longleftrightarrow>
     length resp \<ge> 9 \<and> strneq resp ''HTTP/1.1 '' 9 \<and> (resp @ [stack]) ! 9 = CHR ''2'' \<and> \<not> response_has_set_cookie resp"

section \<open>The four ways to answer\<close>

definition proxy_url_of :: "ArwsRoute \<Rightarrow> ClientConnection \<Rightarrow> gateway_world \<Rightarrow> mem_error + (string option \<times> gateway_world)" where
  "proxy_url_of route conn w =
     (if hd (proxy_target route) = CHR ''@''
      then (case arws_upstream_select (tl (proxy_target route)) (Some (server_get_client_ip conn)) (gw_upstream w) of
              Inl e \<Rightarrow> Inl e
            | Inr (ups, None) \<Rightarrow> Inr (None, w\<lparr>gw_upstream := ups\<rparr>)
            | Inr (ups, Some (k, i)) \<Rightarrow>
                (let n = pool_nodes (g_pools ups ! k) ! i
                 in Inr (Some (buf_copy 256 (''http://'' @ node_host n @ '':'' @ dec_int (node_port n))), w\<lparr>gw_upstream := ups\<rparr>)))
      else Inr (Some (buf_copy 256 (proxy_target route)), w))"

definition dispatch_proxy ::
  "dispatch_env \<Rightarrow> HttpRequest \<Rightarrow> string \<Rightarrow> ArwsRoute \<Rightarrow> ClientConnection \<Rightarrow> gateway_world \<Rightarrow> mem_error + (int \<times> ClientConnection \<times> gateway_world)" where
  "dispatch_proxy env req body route conn w =
     (case proxy_url_of route conn w of
        Inl e \<Rightarrow> Inl e
      | Inr (None, w1) \<Rightarrow> Inr (0, arws_send_503 (Some ''No healthy backend available in upstream pool'') conn, w1)
      | Inr (Some url, w1) \<Rightarrow>
          (case arws_stream_proxy_forward (de_stream env) req body url conn of
             Inl e \<Rightarrow> Inl e
           | Inr (rc, c) \<Rightarrow> Inr (rc, c, w1)))"

text \<open>The exchange with a backend process, between \<open>arws_dispatch_lock\<close> and \<open>arws_dispatch_unlock\<close>
  (see \<open>Locks\<close>), and the store that follows it.\<close>

definition backend_exchange ::
  "dispatch_env \<Rightarrow> HttpRequest \<Rightarrow> string \<Rightarrow> int \<Rightarrow> ClientConnection \<Rightarrow> gateway_world \<Rightarrow> int \<times> ClientConnection \<times> gateway_world" where
  "backend_exchange env req raw backend_id conn w =
     (if arws_backend_send_request (de_send env) backend_id raw (gw_registry w) < 0
      then (-1, arws_send_502 (Some ''Backend unavailable'') conn, w)
      else case arws_backend_read_response (de_recv env) backend_id 65536 (gw_registry w) of
             None \<Rightarrow> (-1, arws_send_502 (Some ''Backend error'') conn, w)
           | Some resp \<Rightarrow>
               if resp = [] then (-1, arws_send_502 (Some ''Backend error'') conn, w)
               else let w1 = (if use_cache req (cfg (gw_config w)) \<and> cacheable (de_stack env) resp
                              then w\<lparr>gw_cache := snd (arws_cache_set (de_mem env) (de_clock env) (de_later env) (request_key req) resp (gw_cache w))\<rparr>
                              else w)
                    in (0, server_conn_write resp conn, w1))"

definition dispatch_backend ::
  "dispatch_env \<Rightarrow> HttpRequest \<Rightarrow> string \<Rightarrow> int \<Rightarrow> ClientConnection \<Rightarrow> gateway_world \<Rightarrow> mem_error + (int \<times> ClientConnection \<times> gateway_world)" where
  "dispatch_backend env req body backend_id conn w =
     (case arws_build_http_request conn req body 32768 of
        Inl e \<Rightarrow> Inl e
      | Inr None \<Rightarrow> Inr (-1, arws_send_502 (Some ''Bad Gateway'') conn, w)
      | Inr (Some raw) \<Rightarrow>
          if use_cache req (cfg (gw_config w))
          then (case arws_cache_get (de_mem env) (de_now env) (request_key req) (gw_cache w) of
                  Inl e \<Rightarrow> Inl e
                | Inr (cs, Some data) \<Rightarrow> Inr (0, server_conn_write data conn, w\<lparr>gw_cache := cs\<rparr>)
                | Inr (cs, None) \<Rightarrow> Inr (backend_exchange env req raw backend_id conn (w\<lparr>gw_cache := cs\<rparr>)))
          else Inr (backend_exchange env req raw backend_id conn w))"

definition set_routes :: "route_state \<Rightarrow> gateway_world \<Rightarrow> gateway_world" where
  "set_routes rs w = w\<lparr>gw_config := (gw_config w)\<lparr>routes := rs\<rparr>\<rparr>"

text \<open>\<open>body\<close> are the \<open>body_length_in_buffer\<close> bytes at \<open>req->body\<close>.\<close>

definition arws_dispatch ::
  "dispatch_env \<Rightarrow> HttpRequest \<Rightarrow> string \<Rightarrow> string \<Rightarrow> ClientConnection \<Rightarrow> gateway_world \<Rightarrow> mem_error + (int \<times> ClientConnection \<times> gateway_world)" where
  "arws_dispatch env req body effective_mode conn w =
     (case arws_route_match req effective_mode (routes (gw_config w)) of
        Inl e \<Rightarrow> Inl e
      | Inr (result, None, rs) \<Rightarrow> Inr (0, arws_send_404 (de_web env) conn, set_routes rs w)
      | Inr (result, Some route, rs) \<Rightarrow>
          (let w1 = set_routes rs w in
           if result = 2 \<and> use_handler route
           then (case ro_handler route of
                   None \<Rightarrow> Inl NullDeref
                 | Some h \<Rightarrow> Inr (0, de_handlers env h conn req, w1))
           else if result = 1 \<and> use_redirect route \<and> redirect_target route \<noteq> []
           then Inr (0, arws_send_302 (redirect_target route) conn, w1)
           else if result = 1 \<and> proxy_target route \<noteq> []
           then dispatch_proxy env req body route conn w1
           else if result = 1 \<and> ro_backend_id route \<ge> 0
           then dispatch_backend env req body (ro_backend_id route) conn w1
           else Inr (0, arws_send_404 (de_web env) conn, w1)))"

end
