(* ===== verification/Locks.thy ===== *)
theory Locks
  imports Arws_Prelude
begin

text \<open>
  The two families of locks of \<open>src/src/arws_gateway.c\<close>: one flag per backend, which keeps the HTTP
  exchanges on a shared connection apart, and one flag with a response slot per client descriptor, which
  keeps queries between applications apart. Both are flags guarded by a mutex and a condition variable;
  an acquiring function is modelled by one pass of its waiting loop, where \<open>None\<close> means that the caller
  stays asleep. The contract of such a lock is the locale \<open>lock_table\<close>; both families are instances.
\<close>

section \<open>Locks in general\<close>

text \<open>Threads that take, hold and release locks, in every interleaving, with other steps in between.
  \<open>own t\<close> is the key thread \<open>t\<close> is using.\<close>

inductive lock_runs ::
  "('k \<Rightarrow> 's \<Rightarrow> 's \<Rightarrow> bool) \<Rightarrow> ('k \<Rightarrow> 's \<Rightarrow> 's \<Rightarrow> bool) \<Rightarrow> ('s \<Rightarrow> 's \<Rightarrow> bool) \<Rightarrow> 's \<Rightarrow> ('t \<Rightarrow> 'k option) \<Rightarrow> 's \<Rightarrow> bool"
  for acquire release other s0 where
  start: "lock_runs acquire release other s0 (\<lambda>_. None) s0"
| enter: "lock_runs acquire release other s0 own s \<Longrightarrow> own t = None \<Longrightarrow> acquire k s s' \<Longrightarrow>
    lock_runs acquire release other s0 (own(t := Some k)) s'"
| leave: "lock_runs acquire release other s0 own s \<Longrightarrow> own t = Some k \<Longrightarrow> release k s s' \<Longrightarrow>
    lock_runs acquire release other s0 (own(t := None)) s'"
| step: "lock_runs acquire release other s0 own s \<Longrightarrow> other s s' \<Longrightarrow> lock_runs acquire release other s0 own s'"

locale lock_table =
  fixes acquire release :: "'k \<Rightarrow> 's \<Rightarrow> 's \<Rightarrow> bool" and other :: "'s \<Rightarrow> 's \<Rightarrow> bool"
    and ok :: "'s \<Rightarrow> bool" and guarded :: "'k \<Rightarrow> bool" and held :: "'s \<Rightarrow> 'k \<Rightarrow> bool"
  assumes acquire_free: "ok s \<Longrightarrow> guarded k \<Longrightarrow> (\<exists>s'. acquire k s s') \<longleftrightarrow> \<not> held s k"
    and acquire_ok: "ok s \<Longrightarrow> acquire k s s' \<Longrightarrow> ok s'"
    and acquire_held: "ok s \<Longrightarrow> acquire k s s' \<Longrightarrow> guarded j \<Longrightarrow> held s' j \<longleftrightarrow> j = k \<or> held s j"
    and release_ok: "ok s \<Longrightarrow> release k s s' \<Longrightarrow> ok s'"
    and release_held: "ok s \<Longrightarrow> release k s s' \<Longrightarrow> guarded j \<Longrightarrow> held s' j \<longleftrightarrow> j \<noteq> k \<and> held s j"
    and other_ok: "ok s \<Longrightarrow> other s s' \<Longrightarrow> ok s'"
    and other_held: "ok s \<Longrightarrow> other s s' \<Longrightarrow> guarded j \<Longrightarrow> held s' j \<longleftrightarrow> held s j"
begin

text \<open>A lock is held exactly when one thread, and then only one, uses its key.\<close>

lemma exclusive:
  assumes "lock_runs acquire release other s0 own s" "ok s0" "\<And>k. guarded k \<Longrightarrow> \<not> held s0 k"
  shows "ok s \<and> (\<forall>k. guarded k \<longrightarrow> (held s k \<longleftrightarrow> (\<exists>t. own t = Some k)) \<and>
           (\<forall>t u. own t = Some k \<longrightarrow> own u = Some k \<longrightarrow> t = u))"
  using assms
proof (induction rule: lock_runs.induct)
  case (enter own s t k s')
  then have ok: "ok s" and inv: "guarded j \<Longrightarrow> (held s j \<longleftrightarrow> (\<exists>t. own t = Some j)) \<and>
      (\<forall>t u. own t = Some j \<longrightarrow> own u = Some j \<longrightarrow> t = u)" for j by simp_all
  have "\<not> held s k" if "guarded k" using acquire_free[OF ok that] enter(3) by blast
  with inv have free: "guarded k \<Longrightarrow> own u \<noteq> Some k" for u by blast
  have ex: "(\<exists>u. (own(t := Some k)) u = Some j) \<longleftrightarrow> j = k \<or> (\<exists>u. own u = Some j)" for j
    using enter(2) by (metis fun_upd_apply option.distinct(1) option.inject)
  have "(held s' j \<longleftrightarrow> (\<exists>u. (own(t := Some k)) u = Some j)) \<and>
      (\<forall>u v. (own(t := Some k)) u = Some j \<longrightarrow> (own(t := Some k)) v = Some j \<longrightarrow> u = v)" if "guarded j" for j
    unfolding ex using acquire_held[OF ok enter(3) that] inv[OF that] free that by auto
  then show ?case using acquire_ok[OF ok enter(3)] by blast
next
  case (leave own s t k s')
  then have ok: "ok s" and inv: "guarded j \<Longrightarrow> (held s j \<longleftrightarrow> (\<exists>t. own t = Some j)) \<and>
      (\<forall>t u. own t = Some j \<longrightarrow> own u = Some j \<longrightarrow> t = u)" for j by simp_all
  have ex: "(\<exists>u. (own(t := None)) u = Some j) \<longleftrightarrow> (\<exists>u. u \<noteq> t \<and> own u = Some j)" for j
    by (metis fun_upd_apply option.distinct(1))
  have "(held s' j \<longleftrightarrow> (\<exists>u. (own(t := None)) u = Some j)) \<and>
      (\<forall>u v. (own(t := None)) u = Some j \<longrightarrow> (own(t := None)) v = Some j \<longrightarrow> u = v)" if "guarded j" for j
    unfolding ex using release_held[OF ok leave(3) that] inv[OF that] leave(2)
    by (metis fun_upd_apply option.distinct(1) option.inject)
  then show ?case using release_ok[OF ok leave(3)] by blast
next
  case (step own s s')
  then show ?case using other_ok other_held by auto
qed auto

end

section \<open>The lock of a backend\<close>

abbreviation (input) ARWS_MAX_BACKENDS :: nat where "ARWS_MAX_BACKENDS \<equiv> 64"

record lock_state =
  gateway_running :: bool
  dispatch_locks :: "bool list"

definition dispatch_init :: lock_state where
  "dispatch_init = \<lparr>gateway_running = True, dispatch_locks = replicate ARWS_MAX_BACKENDS False\<rparr>"

definition arws_dispatch_lock :: "int \<Rightarrow> lock_state \<Rightarrow> lock_state option" where
  "arws_dispatch_lock backend_id s =
     (if backend_id < 0 \<or> backend_id \<ge> int ARWS_MAX_BACKENDS then Some s
      else if \<not> gateway_running s then Some s
      else if \<not> dispatch_locks s ! nat backend_id
      then Some (s\<lparr>dispatch_locks := (dispatch_locks s)[nat backend_id := True]\<rparr>)
      else None)"

definition arws_dispatch_unlock :: "int \<Rightarrow> lock_state \<Rightarrow> lock_state" where
  "arws_dispatch_unlock backend_id s =
     (if backend_id < 0 \<or> backend_id \<ge> int ARWS_MAX_BACKENDS then s
      else s\<lparr>dispatch_locks := (dispatch_locks s)[nat backend_id := False]\<rparr>)"

section \<open>The lock and the response slot of a descriptor\<close>

record QueryRespSlot =
  has_response :: bool
  resp_type :: int
  resp_buf :: string

definition empty_slot :: QueryRespSlot where
  "empty_slot = \<lparr>has_response = False, resp_type = 0, resp_buf = []\<rparr>"

record query_state =
  query_running :: bool
  query_locks :: "bool list"
  query_resp_slots :: "QueryRespSlot list"

definition resized :: "nat \<Rightarrow> 'a \<Rightarrow> 'a list \<Rightarrow> 'a list" where
  "resized n z xs = take n xs @ replicate (n - length xs) z"

text \<open>\<open>(fd + 256) & ~255\<close>, for the descriptors that occur, is the next multiple of 256.\<close>

definition new_max :: "int \<Rightarrow> nat" where
  "new_max fd = nat (max 64 (256 * ((fd + 256) div 256)))"

definition query_locks_ensure :: "bool \<Rightarrow> bool \<Rightarrow> int \<Rightarrow> query_state \<Rightarrow> int \<times> query_state" where
  "query_locks_ensure mem1 mem2 fd s =
     (if 0 \<le> fd \<and> fd < int (length (query_locks s)) \<and> fd < int (length (query_resp_slots s)) then (0, s)
      else if \<not> mem1 then (-1, s)
      else let s1 = s\<lparr>query_locks := resized (new_max fd) False (query_locks s)\<rparr> in
        if \<not> mem2 then (-1, s1)
        else (0, s1\<lparr>query_resp_slots := resized (new_max fd) empty_slot (query_resp_slots s1)\<rparr>))"

definition query_lock_fd :: "bool \<Rightarrow> bool \<Rightarrow> int \<Rightarrow> query_state \<Rightarrow> query_state option" where
  "query_lock_fd mem1 mem2 fd s =
     (if fd < 0 then Some s
      else if \<not> query_running s then Some s
      else case query_locks_ensure mem1 mem2 fd s of
        (rc, s1) \<Rightarrow>
          if rc = 0 \<and> \<not> query_locks s1 ! nat fd
          then Some (s1\<lparr>query_locks := (query_locks s1)[nat fd := True],
                        query_resp_slots := (query_resp_slots s1)[nat fd := empty_slot]\<rparr>)
          else None)"

definition query_unlock_fd :: "int \<Rightarrow> query_state \<Rightarrow> mem_error + query_state" where
  "query_unlock_fd fd s =
     (if fd < 0 \<or> fd \<ge> int (length (query_locks s)) then Inr s
      else if fd \<ge> int (length (query_resp_slots s)) then Inl OutOfBounds
      else Inr (s\<lparr>query_locks := (query_locks s)[nat fd := False],
                  query_resp_slots := (query_resp_slots s)[nat fd := empty_slot]\<rparr>))"

definition is_query_locked :: "int \<Rightarrow> query_state \<Rightarrow> bool" where
  "is_query_locked fd s \<longleftrightarrow> 0 \<le> fd \<and> fd < int (length (query_locks s)) \<and> query_locks s ! nat fd"

text \<open>A response frame that arrives from a client is put into the slot of its descriptor.\<close>

definition deliver_response :: "nat \<Rightarrow> bool \<Rightarrow> bool \<Rightarrow> int \<Rightarrow> int \<Rightarrow> string \<Rightarrow> query_state \<Rightarrow> query_state" where
  "deliver_response buf_size mem1 mem2 fd type buf s =
     (case query_locks_ensure mem1 mem2 fd s of
        (rc, s1) \<Rightarrow>
          if rc = 0
          then s1\<lparr>query_resp_slots := (query_resp_slots s1)[nat fd :=
                    \<lparr>has_response = True, resp_type = type, resp_buf = take (buf_size - 1) buf\<rparr>]\<rparr>
          else s1)"

text \<open>What the querying thread copies out of the slot: type and bytes, if a response has come.\<close>

definition take_response :: "int \<Rightarrow> query_state \<Rightarrow> (int \<times> string) option" where
  "take_response fd s =
     (let sl = query_resp_slots s ! nat fd in if has_response sl then Some (resp_type sl, resp_buf sl) else None)"

section \<open>Both are locks\<close>

definition dispatch_held :: "lock_state \<Rightarrow> int \<Rightarrow> bool" where
  "dispatch_held s b \<longleftrightarrow> dispatch_locks s ! nat b"

interpretation dispatch: lock_table "\<lambda>b s s'. arws_dispatch_lock b s = Some s'" "\<lambda>b s s'. s' = arws_dispatch_unlock b s"
  "\<lambda>s s'. False" "\<lambda>s. gateway_running s \<and> length (dispatch_locks s) = ARWS_MAX_BACKENDS"
  "\<lambda>b. 0 \<le> b \<and> b < int ARWS_MAX_BACKENDS" dispatch_held
  by unfold_locales
    (auto simp: arws_dispatch_lock_def arws_dispatch_unlock_def dispatch_held_def nth_list_update nat_eq_iff2 split: if_splits)

definition query_ok :: "query_state \<Rightarrow> bool" where
  "query_ok s \<longleftrightarrow> query_running s \<and> length (query_locks s) = length (query_resp_slots s)"

definition query_deliver :: "nat \<Rightarrow> query_state \<Rightarrow> query_state \<Rightarrow> bool" where
  "query_deliver buf_size s s' \<longleftrightarrow> (\<exists>fd type buf. 0 \<le> fd \<and> s' = deliver_response buf_size True True fd type buf s)"

lemma new_max_greater: "0 \<le> fd \<Longrightarrow> fd < int (new_max fd)"
  unfolding new_max_def by linarith

lemma length_resized [simp]: "length (resized n z xs) = n"
  by (simp add: resized_def)

lemma nth_resized: "i < n \<Longrightarrow> resized n z xs ! i = (if i < length xs then xs ! i else z)"
  by (auto simp: resized_def nth_append)

definition set_at :: "bool list \<Rightarrow> int \<Rightarrow> bool" where
  "set_at xs j \<longleftrightarrow> 0 \<le> j \<and> j < int (length xs) \<and> xs ! nat j"

lemma set_at_update:
  assumes "0 \<le> fd" "fd < int (length xs)"
  shows "set_at (xs[nat fd := b]) j \<longleftrightarrow> (if j = fd then b else set_at xs j)"
  using assms by (auto simp: set_at_def nth_list_update nat_eq_iff2)

lemma set_at_resized: "length xs \<le> n \<Longrightarrow> set_at (resized n False xs) j \<longleftrightarrow> set_at xs j"
  by (auto simp: set_at_def nth_resized nat_less_iff split: if_splits)

lemma is_query_locked_iff: "is_query_locked fd s \<longleftrightarrow> set_at (query_locks s) fd"
  by (simp add: is_query_locked_def set_at_def)

lemma ensure_grows:
  assumes "query_ok s" "0 \<le> fd" "query_locks_ensure True True fd s = (rc, s')"
  shows "rc = 0 \<and> query_ok s' \<and> fd < int (length (query_locks s')) \<and> (\<forall>j. is_query_locked j s' \<longleftrightarrow> is_query_locked j s)"
proof (cases "fd < int (length (query_locks s))")
  case True
  with assms show ?thesis by (simp add: query_locks_ensure_def query_ok_def)
next
  case False
  have n: "length (query_locks s) \<le> new_max fd" using False new_max_greater[OF assms(2)] by linarith
  have s': "rc = 0" "s' = s\<lparr>query_locks := resized (new_max fd) False (query_locks s),
      query_resp_slots := resized (new_max fd) empty_slot (query_resp_slots s)\<rparr>"
    using assms False by (simp_all add: query_locks_ensure_def Let_def)
  show ?thesis using assms(1) new_max_greater[OF assms(2)] set_at_resized[OF n]
    unfolding s' by (simp add: query_ok_def is_query_locked_iff)
qed

lemma deliver_keeps:
  assumes "query_ok s" "0 \<le> fd" "s' = deliver_response N True True fd type buf s"
  shows "query_ok s' \<and> (\<forall>j. is_query_locked j s' \<longleftrightarrow> is_query_locked j s) \<and>
    take_response fd s' = Some (type, take (N - 1) buf)"
proof -
  obtain rc s1 where e: "query_locks_ensure True True fd s = (rc, s1)" by fastforce
  note g = ensure_grows[OF assms(1,2) e]
  then have s': "s' = s1\<lparr>query_resp_slots := (query_resp_slots s1)[nat fd := \<lparr>has_response = True, resp_type = type, resp_buf = take (N - 1) buf\<rparr>]\<rparr>"
    using assms(3) e by (simp add: deliver_response_def)
  have "nat fd < length (query_resp_slots s1)" using g assms(2) by (simp add: query_ok_def nat_less_iff)
  with g show ?thesis unfolding s' by (simp add: query_ok_def is_query_locked_iff take_response_def)
qed

lemma query_lock_effect:
  assumes "query_ok s" "0 \<le> fd"
  shows "query_lock_fd True True fd s = None \<longleftrightarrow> is_query_locked fd s"
    "query_lock_fd True True fd s = Some s' \<Longrightarrow> query_ok s' \<and> take_response fd s' = None \<and>
      (\<forall>j. is_query_locked j s' \<longleftrightarrow> j = fd \<or> is_query_locked j s)"
proof -
  obtain rc s1 where e: "query_locks_ensure True True fd s = (rc, s1)" by fastforce
  note g = ensure_grows[OF assms e]
  have q: "query_lock_fd True True fd s = (if \<not> query_locks s1 ! nat fd
      then Some (s1\<lparr>query_locks := (query_locks s1)[nat fd := True], query_resp_slots := (query_resp_slots s1)[nat fd := empty_slot]\<rparr>)
      else None)" using assms e g by (simp add: query_lock_fd_def query_ok_def)
  have l: "is_query_locked fd s \<longleftrightarrow> query_locks s1 ! nat fd" using g assms(2) by (metis is_query_locked_def)
  from q l show "query_lock_fd True True fd s = None \<longleftrightarrow> is_query_locked fd s" by simp
  assume "query_lock_fd True True fd s = Some s'"
  with q have s': "s' = s1\<lparr>query_locks := (query_locks s1)[nat fd := True], query_resp_slots := (query_resp_slots s1)[nat fd := empty_slot]\<rparr>"
    by (simp split: if_splits)
  have "nat fd < length (query_resp_slots s1)" using g assms(2) by (simp add: query_ok_def nat_less_iff)
  with g set_at_update[OF assms(2), of "query_locks s1" True] show "query_ok s' \<and> take_response fd s' = None \<and>
      (\<forall>j. is_query_locked j s' \<longleftrightarrow> j = fd \<or> is_query_locked j s)"
    unfolding s' by (simp add: query_ok_def is_query_locked_iff take_response_def empty_slot_def)
qed

lemma query_unlock_effect:
  assumes "query_ok s" "query_unlock_fd fd s = Inr s'"
  shows "query_ok s' \<and> (\<forall>j. is_query_locked j s' \<longleftrightarrow> j \<noteq> fd \<and> is_query_locked j s)"
proof (cases "0 \<le> fd \<and> fd < int (length (query_locks s))")
  case True
  with assms set_at_update[of fd "query_locks s" False] show ?thesis
    by (auto simp: query_unlock_fd_def query_ok_def is_query_locked_iff split: if_splits)
next
  case False
  with assms show ?thesis by (auto simp: query_unlock_fd_def query_ok_def is_query_locked_def)
qed

interpretation query: lock_table "\<lambda>fd s s'. 0 \<le> fd \<and> query_lock_fd True True fd s = Some s'"
  "\<lambda>fd s s'. query_unlock_fd fd s = Inr s'" "query_deliver N" query_ok "\<lambda>fd. 0 \<le> fd" "\<lambda>s fd. is_query_locked fd s" for N
proof
  fix s s' and k j :: int
  show "(\<exists>s'. 0 \<le> k \<and> query_lock_fd True True k s = Some s') \<longleftrightarrow> \<not> is_query_locked k s" if "query_ok s" "0 \<le> k"
    using query_lock_effect(1)[OF that] that by (metis not_None_eq)
  show "query_ok s'" "is_query_locked j s' \<longleftrightarrow> j = k \<or> is_query_locked j s" if "query_ok s" "0 \<le> k \<and> query_lock_fd True True k s = Some s'"
    using query_lock_effect(2)[of s k s'] that by blast+
  show "query_ok s'" "is_query_locked j s' \<longleftrightarrow> j \<noteq> k \<and> is_query_locked j s" if "query_ok s" "query_unlock_fd k s = Inr s'"
    using query_unlock_effect[OF that] by blast+
  show "query_ok s'" "is_query_locked j s' \<longleftrightarrow> is_query_locked j s" if "query_ok s" "query_deliver N s s'"
    using that deliver_keeps unfolding query_deliver_def by blast+
qed

section \<open>Properties: the locks\<close>

definition query_init :: query_state where
  "query_init = \<lparr>query_running = True, query_locks = [], query_resp_slots = []\<rparr>"



text \<open>Backends numbered 64 and above are not protected: both functions return at once, and two threads
  are inside the exchange together. Numbers are never reused, so the 64th registration gets there.\<close>

theorem high_backends_unlocked:
  "\<exists>s. lock_runs (\<lambda>b s s'. arws_dispatch_lock b s = Some s') (\<lambda>b s s'. s' = arws_dispatch_unlock b s)
      (\<lambda>s s'. False) dispatch_init ((\<lambda>_. None)(0::nat := Some 64, 1 := Some 64)) s"
proof -
  have l: "arws_dispatch_lock 64 dispatch_init = Some dispatch_init" by (simp add: arws_dispatch_lock_def)
  let ?runs = "lock_runs (\<lambda>b s s'. arws_dispatch_lock b s = Some s') (\<lambda>b s s'. s' = arws_dispatch_unlock b s)
      (\<lambda>s s'. False) dispatch_init"
  have "?runs ((\<lambda>_. None)(0::nat := Some 64)) dispatch_init"
    by (rule lock_runs.enter[OF lock_runs.start]) (simp_all add: l)
  then have "?runs ((\<lambda>_. None)(0::nat := Some 64, 1 := Some 64)) dispatch_init"
    by (rule lock_runs.enter) (simp_all add: l)
  then show ?thesis ..
qed

text \<open>A query to an application is answered by that application. In every interleaving of queries and
  arriving response frames, at most one thread queries a given descriptor; the response it then takes out of the
  slot is the frame delivered last from that descriptor, cut to the buffer; and releasing the descriptor
  succeeds and lets the next thread start with an empty slot.\<close>

theorem query_exchange:
  assumes "lock_runs (\<lambda>fd s s'. 0 \<le> fd \<and> query_lock_fd True True fd s = Some s')
      (\<lambda>fd s s'. query_unlock_fd fd s = Inr s') (query_deliver N) query_init own s"
    and "own t = Some fd" "0 \<le> fd"
  shows "(\<forall>u. own u = Some fd \<longrightarrow> u = t) \<and> query_lock_fd True True fd s = None \<and>
    take_response fd (deliver_response N True True fd type buf s) = Some (type, take (N - 1) buf) \<and>
    (\<exists>s' s''. query_unlock_fd fd s = Inr s' \<and> query_lock_fd True True fd s' = Some s'' \<and> take_response fd s'' = None)"
proof -
  have free: "\<not> is_query_locked k query_init" for k by (simp add: is_query_locked_def query_init_def)
  have ok0: "query_ok query_init" by (simp add: query_ok_def query_init_def)
  from query.exclusive[OF assms(1) ok0 free] assms(2,3) have ok: "query_ok s" and h: "is_query_locked fd s"
    and u: "\<forall>u. own u = Some fd \<longrightarrow> u = t" by blast+
  from h ok obtain s' where s': "query_unlock_fd fd s = Inr s'"
    by (auto simp: query_unlock_fd_def is_query_locked_def query_ok_def)
  from query_unlock_effect[OF ok s'] have "query_ok s'" "\<not> is_query_locked fd s'" by simp_all
  with query_lock_effect[OF this(1) assms(3)] have "\<exists>s''. query_lock_fd True True fd s' = Some s'' \<and> take_response fd s'' = None"
    by (metis not_None_eq)
  with u h s' query_lock_effect(1)[OF ok assms(3)] deliver_keeps[OF ok assms(3) refl] show ?thesis by blast
qed

theorem query_exchange_witness:
  "\<exists>s. query_lock_fd True True 7 query_init = Some s \<and>
       take_response 7 (deliver_response 65536 True True 7 4 ''pong'' s) = Some (4, ''pong'')"
proof -
  have "query_lock_fd True True 7 query_init \<noteq> None"
    by (simp add: query_lock_fd_def query_locks_ensure_def query_init_def new_max_def resized_def)
  then obtain s where s: "query_lock_fd True True 7 query_init = Some s" by blast
  have "lock_runs (\<lambda>fd s s'. 0 \<le> fd \<and> query_lock_fd True True fd s = Some s')
      (\<lambda>fd s s'. query_unlock_fd fd s = Inr s') (query_deliver 65536) query_init ((\<lambda>_. None)(0::nat := Some 7)) s"
    by (rule lock_runs.enter[OF lock_runs.start]) (simp_all add: s)
  from query_exchange[OF this, of 0 7 4 "''pong''"] s show ?thesis by simp
qed

end
