(* ===== verification/Admin.thy ===== *)
theory Admin
  imports Dispatch Rate_Limit Locks Ipc
begin

text \<open>
  The administrative side of \<open>src/src/arws_gateway.c\<close>, first part: the tables of connected applications and
  the commands the gateway answers itself (\<open>handle_arws_query\<close>). \<open>AR_IPC_BUF_SIZE\<close>,
  \<open>AR_IPC_MAX_CLIENTS\<close> and the frame type codes are defined in a header of the surrounding system, so
  they are parameters; so are the clock, the allocator and the contents of fresh heap memory.
\<close>

datatype ipc_kind =
    IPC_REGISTER | IPC_UNREGISTER | IPC_RELOAD | IPC_CACHE_CLEAR | IPC_QUERY | IPC_QUERY_RESP
  | IPC_RESPONSE | IPC_ACK | IPC_ERROR | IPC_OTHER

record 'd gateway_env =
  ge_dispatch :: dispatch_env
  ge_config :: "'d config_env"
  ge_route :: "nat \<Rightarrow> ArwsRoute option"
  ge_buf_size :: nat
  ge_max_clients :: nat
  ge_code :: "ipc_kind \<Rightarrow> int"
  ge_heap :: "char list option"
  ge_time1 :: uint64
  ge_time2 :: uint64
  ge_grow1 :: bool
  ge_grow2 :: bool

record gateway_state =
  world :: gateway_world
  limits :: rl_state
  named_clients :: "(string \<times> int) list"
  admin_client_fds :: "int list"
  queries :: query_state

section \<open>Connected applications\<close>

definition add_client_fd :: "nat \<Rightarrow> int \<Rightarrow> int list \<Rightarrow> bool \<times> int list" where
  "add_client_fd max_clients fd fds = (if length fds < max_clients then (True, fds @ [fd]) else (False, fds))"

definition remove_client_fd :: "int \<Rightarrow> int list \<Rightarrow> int list" where
  "remove_client_fd fd fds = (case first_idx (\<lambda>f. f = fd) fds of Some i \<Rightarrow> swap_remove fds i | None \<Rightarrow> fds)"

definition app_aliases :: "string list list" where
  "app_aliases =
     [[''ardb'', ''db''], [''arauth'', ''auth''], [''arcdn'', ''cdn''],
      [''home.web'', ''home-web'', ''alrigroup.web'', ''alrigroup-web''], [''detroit.web'', ''detroit-web'']]"

definition match_app_alias :: "string \<Rightarrow> string \<Rightarrow> bool" where
  "match_app_alias reg target \<longleftrightarrow>
     reg = target \<or> list_ex (\<lambda>names. reg \<in> set names \<and> target \<in> set names) app_aliases"

definition named_add :: "nat \<Rightarrow> int \<Rightarrow> string \<Rightarrow> (string \<times> int) list \<Rightarrow> (string \<times> int) list" where
  "named_add max_clients fd name tab =
     (case first_idx (\<lambda>(n, f). f = fd \<or> match_app_alias n name) tab of
        Some i \<Rightarrow> tab[i := (buf_copy 64 name, fd)]
      | None \<Rightarrow> if length tab < max_clients then tab @ [(buf_copy 64 name, fd)] else tab)"

definition named_find :: "string \<Rightarrow> (string \<times> int) list \<Rightarrow> int" where
  "named_find name tab = (case find (\<lambda>(n, f). match_app_alias n name) tab of Some (n, f) \<Rightarrow> f | None \<Rightarrow> -1)"

definition named_remove :: "int \<Rightarrow> (string \<times> int) list \<Rightarrow> (string \<times> int) list" where
  "named_remove fd tab = (case first_idx (\<lambda>(n, f). f = fd) tab of Some i \<Rightarrow> swap_remove tab i | None \<Rightarrow> tab)"

text \<open>\<open>ready\<close>: \<open>select\<close> reports data; \<open>peeked\<close>: what \<open>recv\<close> with \<open>MSG_PEEK\<close> shows, \<open>None\<close> for an error.\<close>

definition peek_is_ipc_frame :: "nat \<Rightarrow> bool \<Rightarrow> string option \<Rightarrow> int" where
  "peek_is_ipc_frame buf_size ready peeked =
     (if \<not> ready then 0
      else case peeked of
        None \<Rightarrow> -1
      | Some p \<Rightarrow>
          if p = [] then -1
          else if length p < 5 then 0
          else let frame_len = of_char (p ! 0) * 2 ^ 24 + of_char (p ! 1) * 2 ^ 16 + of_char (p ! 2) * 2 ^ 8 + of_char (p ! 3) :: nat;
                   type = of_char (p ! 4) :: nat
               in if frame_len \<le> buf_size \<and> 1 \<le> type \<and> type \<le> 25 then 1 else 0)"

section \<open>Scanning\<close>

text \<open>The conversions \<open>%Ns\<close> and \<open>%d\<close> of \<open>sscanf\<close>: the value and the text after it.\<close>

definition scan_word :: "nat \<Rightarrow> string \<Rightarrow> (string \<times> string) option" where
  "scan_word n s =
     (let t = dropWhile is_space s; w = take n (takeWhile (\<lambda>c. \<not> is_space c) t)
      in if t = [] then None else Some (w, drop (length w) t))"

definition scan_int :: "string \<Rightarrow> (int \<times> string) option" where
  "scan_int s =
     (let t = dropWhile is_space s; (neg, u) = split_sign t
      in if takeWhile is_digit u = [] then None else Some (atoi t, dropWhile is_digit u))"

text \<open>A sequence of \<open>%Ns\<close> conversions: the words converted before the first failure, and the rest.\<close>

fun scan_words :: "nat list \<Rightarrow> string \<Rightarrow> string list \<times> string" where
  "scan_words [] s = ([], s)"
| "scan_words (n # ns) s =
     (case scan_word n s of
        None \<Rightarrow> ([], s)
      | Some (w, rest) \<Rightarrow> (case scan_words ns rest of (ws, r) \<Rightarrow> (w # ws, r)))"

fun scan_ints :: "nat \<Rightarrow> string \<Rightarrow> int list" where
  "scan_ints 0 s = []"
| "scan_ints (Suc k) s = (case scan_int s of None \<Rightarrow> [] | Some (v, rest) \<Rightarrow> v # scan_ints k rest)"

definition nth_or :: "'a \<Rightarrow> 'a list \<Rightarrow> nat \<Rightarrow> 'a" where
  "nth_or d xs i = (if i < length xs then xs ! i else d)"

section \<open>The gateway's own commands\<close>

text \<open>The reply under construction: its length and the memory of the reply buffer.\<close>

type_synonym reply = "mem_error + (nat \<times> char list)"

definition print_reply :: "nat \<Rightarrow> string \<Rightarrow> char list \<Rightarrow> reply" where
  "print_reply cap text mem = (case put_text 0 cap text mem of Inl e \<Rightarrow> Inl e | Inr mem' \<Rightarrow> Inr (length text, mem'))"

definition append_resp :: "nat \<Rightarrow> string \<Rightarrow> reply \<Rightarrow> reply" where
  "append_resp cap text r =
     (case r of
        Inl e \<Rightarrow> Inl e
      | Inr (cur, mem) \<Rightarrow>
          if cur \<ge> cap - 1 then Inr (cur, mem)
          else (case put_text cur (cap - cur) text mem of
                  Inl e \<Rightarrow> Inl e
                | Inr mem' \<Rightarrow> Inr (if length text < cap - cur then cur + length text else cap - 1, mem')))"

definition help_text :: string where
  "help_text =
     ''ARWS Gateway & Layer 7 Load Balancer v3.0.0 (Self-Registered)'' @ [NLC, NLC] @
     ''Supported Commands:'' @ [NLC] @
     ''  status                                      - View runtime status, active mode and bind port'' @ [NLC] @
     ''  cfg reload                                  - Reload arws.cfg live from disk without downtime'' @ [NLC] @
     ''  routes                                      - List all active dynamic and static routes'' @ [NLC] @
     ''  <production|test|maintenance>               - Switch global gateway operational mode'' @ [NLC] @
     ''  <production|test|maintenance> <host> [path] - Set domain/route specific operational override'' @ [NLC] @
     ''  upstream list                               - List all backend upstream pools and node health'' @ [NLC] @
     ''  upstream add <pool> <host> <port> [w] [b]   - Register backend node to load balancer pool'' @ [NLC] @
     ''  upstream drain <pool> <host> <port> [1|0]   - Enable/disable graceful connection draining'' @ [NLC] @
     ''  ping                                        - Check gateway control channel connectivity'' @ [NLC]"

definition algo_text :: "ArwsLbAlgo \<Rightarrow> string" where
  "algo_text a = (case a of ARWS_LB_ROUND_ROBIN \<Rightarrow> ''round_robin'' | ARWS_LB_LEAST_CONN \<Rightarrow> ''least_conn''
     | ARWS_LB_IP_HASH \<Rightarrow> ''ip_hash'' | _ \<Rightarrow> ''weighted_round_robin'')"

definition yes_no :: "bool \<Rightarrow> string" where
  "yes_no b = (if b then ''YES'' else ''NO'')"

definition node_text :: "ArwsBackendNode \<Rightarrow> string" where
  "node_text n = ''    - '' @ node_host n @ '':'' @ dec_int (node_port n) @ '' weight='' @ dec_int (weight n) @
     '' conns='' @ dec_int (active_conns n) @ '' alive='' @ (if is_alive n then ''UP'' else ''DOWN'') @
     '' backup='' @ yes_no (is_backup n \<noteq> 0) @ '' drain='' @ yes_no (is_draining n) @
     '' reqs='' @ dec_nat (unat (total_requests n)) @ '' errs='' @ dec_nat (unat (total_errors n)) @ [NLC]"

definition pool_text :: "ArwsUpstreamPool \<Rightarrow> string" where
  "pool_text p = ''  Pool '' @ [CHR 0x27] @ ''@'' @ pool_name p @ [CHR 0x27] @ '' [algo='' @ algo_text (pool_algo p) @
     '', nodes='' @ dec_nat (length (pool_nodes p)) @ '']:'' @ [NLC]"

text \<open>\<open>sizeof(resp)\<close> is the size of the pointer.\<close>

abbreviation (input) SIZEOF_RESP :: nat where "SIZEOF_RESP \<equiv> 8"

definition upstream_list :: "ArwsUpstreamPool list \<Rightarrow> char list \<Rightarrow> reply" where
  "upstream_list pools mem =
     (if pools = [] then print_reply SIZEOF_RESP (''No upstream pools registered.'' @ [NLC]) mem
      else case print_reply SIZEOF_RESP (''UPSTREAM POOLS ('' @ dec_nat (length pools) @ ''):'' @ [NLC]) mem of
        Inl e \<Rightarrow> Inl e
      | Inr (n, mem') \<Rightarrow>
          fold (append_resp SIZEOF_RESP) (concat (map (\<lambda>p. pool_text p # map node_text (pool_nodes p)) pools))
            (Inr (if n \<ge> SIZEOF_RESP then SIZEOF_RESP - 1 else n, mem')))"

definition pool_ref :: "string \<Rightarrow> string" where
  "pool_ref name = [CHR 0x27] @ ''@'' @ name @ [CHR 0x27]"

definition set_upstream :: "upstream_state \<Rightarrow> gateway_state \<Rightarrow> gateway_state" where
  "set_upstream ups g = g\<lparr>world := (world g)\<lparr>gw_upstream := ups\<rparr>\<rparr>"

definition set_config :: "config_world \<Rightarrow> gateway_state \<Rightarrow> gateway_state" where
  "set_config cw g = g\<lparr>world := (world g)\<lparr>gw_config := cw\<rparr>\<rparr>"

definition upstream_add :: "nat \<Rightarrow> string \<Rightarrow> char list \<Rightarrow> gateway_state \<Rightarrow> reply \<times> gateway_state" where
  "upstream_add cap args mem g =
     (case scan_words [63, 127] args of
        ([pool, host], rest) \<Rightarrow>
          (case scan_ints 3 rest of
             port # opts \<Rightarrow>
               (let w = nth_or 1 opts 0; b = nth_or 0 opts 1;
                    (rc, ups) = arws_upstream_add_node pool host port w b (gw_upstream (world g))
                in (print_reply cap
                      (if rc = 0 then ''Node '' @ host @ '':'' @ dec_int port @ '' added to pool '' @ pool_ref pool @
                          '' (weight='' @ dec_int w @ '', backup='' @ dec_int b @ '')''
                       else ''Failed to add node to pool '' @ pool_ref pool) mem, set_upstream ups g))
           | [] \<Rightarrow> (print_reply cap ''usage: upstream add <pool> <host> <port> [weight=1] [backup=0]'' mem, g))
      | _ \<Rightarrow> (print_reply cap ''usage: upstream add <pool> <host> <port> [weight=1] [backup=0]'' mem, g))"

definition upstream_drain :: "nat \<Rightarrow> string \<Rightarrow> char list \<Rightarrow> gateway_state \<Rightarrow> reply \<times> gateway_state" where
  "upstream_drain cap args mem g =
     (case scan_words [63, 127] args of
        ([pool, host], rest) \<Rightarrow>
          (case scan_ints 2 rest of
             port # opts \<Rightarrow>
               (let d = nth_or 1 opts 0;
                    (rc, ups) = arws_upstream_set_node_drain pool host port d (gw_upstream (world g))
                in (print_reply cap
                      (if rc = 0 then ''Node '' @ host @ '':'' @ dec_int port @ '' drain='' @ dec_int d @ '' in pool '' @ pool_ref pool
                       else ''Failed to set drain for '' @ host @ '':'' @ dec_int port @ '' in pool '' @ pool_ref pool) mem,
                    set_upstream ups g))
           | [] \<Rightarrow> (print_reply cap ''usage: upstream drain <pool> <host> <port> [drain=1|0]'' mem, g))
      | _ \<Rightarrow> (print_reply cap ''usage: upstream drain <pool> <host> <port> [drain=1|0]'' mem, g))"

definition query_upstream :: "nat \<Rightarrow> string \<Rightarrow> char list \<Rightarrow> gateway_state \<Rightarrow> reply \<times> gateway_state" where
  "query_upstream cap rest mem g =
     (let (sub, args) = (case scan_word 31 rest of Some (w, r) \<Rightarrow> (w, r) | None \<Rightarrow> ([], rest)) in
      if sub = ''list''
      then (let (ups, pools) = arws_upstream_get_all_pools (int ARWS_MAX_POOLS) (gw_upstream (world g))
            in (upstream_list pools mem, set_upstream ups g))
      else if sub = ''add'' then upstream_add cap args mem g
      else if sub = ''drain'' then upstream_drain cap args mem g
      else (print_reply cap ''usage: upstream list | add | drain'' mem, g))"

definition query_mode :: "'d config_env \<Rightarrow> nat \<Rightarrow> string \<Rightarrow> string \<Rightarrow> char list \<Rightarrow> gateway_state \<Rightarrow> reply \<times> gateway_state" where
  "query_mode cenv cap cmd rest mem g =
     (case fst (scan_words [127, 255] rest) of
        [] \<Rightarrow>
          (let (rc, cw) = arws_config_set_global cenv cmd (gw_config (world g))
           in (print_reply cap (if rc = 0 then ''global mode -> '' @ cmd else ''failed to set global mode'') mem, set_config cw g))
      | host # more_words \<Rightarrow>
          (let path = (case more_words of [] \<Rightarrow> ''*'' | p # _ \<Rightarrow> p);
               (rc, cw) = arws_config_add_override cenv host path cmd (gw_config (world g))
           in (print_reply cap (if rc = 0 then ''override '' @ host @ '' '' @ path @ '' -> '' @ cmd else ''failed to add override'') mem,
               set_config cw g)))"

definition query_cfg :: "'d config_env \<Rightarrow> nat \<Rightarrow> string \<Rightarrow> char list \<Rightarrow> gateway_state \<Rightarrow> reply \<times> gateway_state" where
  "query_cfg cenv cap rest mem g =
     (if (case scan_word 31 rest of Some (w, _) \<Rightarrow> w = ''reload'' | None \<Rightarrow> False)
      then (let cw = snd (arws_config_reload_from_disk cenv (gw_config (world g)))
            in (print_reply cap (''arws config reloaded (path='' @ arws_config_get_path (cfg cw) @ '')'') mem, set_config cw g))
      else (print_reply cap ''usage: cfg reload'' mem, g))"

definition query_status :: "'d config_env \<Rightarrow> nat \<Rightarrow> char list \<Rightarrow> gateway_state \<Rightarrow> reply \<times> gateway_state" where
  "query_status cenv cap mem g =
     (let (mode, w1) = arws_config_get_mode_name cenv (gw_config (world g));
          (port, w2) = arws_config_get_port cenv w1;
          (addr, w3) = arws_config_get_bind_address cenv w2
      in (print_reply cap (''arws RUNNING mode='' @ mode @ '' port='' @ dec_int port @ '' bind='' @ addr @
            '' global_mode='' @ arws_config_get_global_mode (cfg w3)) mem, set_config w3 g))"

definition query_routes :: "char list \<Rightarrow> gateway_state \<Rightarrow> reply" where
  "query_routes mem g =
     (case arws_config_dump_routes SIZEOF_RESP mem (cfg (gw_config (world g))) of
        Inl e \<Rightarrow> Inl e
      | Inr (n, mem') \<Rightarrow> if n = 0 then print_reply SIZEOF_RESP ''no routes'' mem' else Inr (n, mem'))"

definition query_separator :: "char \<Rightarrow> bool" where
  "query_separator c \<longleftrightarrow> c = CHR '' '' \<or> c = CHR 0x09 \<or> c = NLC"

definition run_query :: "'d gateway_env \<Rightarrow> string \<Rightarrow> char list \<Rightarrow> gateway_state \<Rightarrow> reply \<times> gateway_state" where
  "run_query env q mem g =
     (let raw = take 63 (takeWhile (\<lambda>c. \<not> query_separator c) q);
          cmd = cstr raw; rest = cstr (drop (length raw) q); cap = ge_buf_size env; cenv = ge_config env in
      if cmd = ''help'' \<or> cmd = ''--help'' \<or> cmd = ''-h'' \<or> cmd = [] then (print_reply cap help_text mem, g)
      else if cmd = ''cfg'' then query_cfg cenv cap rest mem g
      else if cmd = ''maintenance'' \<or> cmd = ''production'' \<or> cmd = ''test'' then query_mode cenv cap cmd rest mem g
      else if cmd = ''status'' then query_status cenv cap mem g
      else if cmd = ''routes'' then (query_routes mem g, g)
      else if cmd = ''upstream'' then query_upstream cap rest mem g
      else if cmd = ''ping'' then (print_reply cap ''pong'' mem, g)
      else (print_reply cap (''unknown arws command: '' @ cmd) mem, g))"

text \<open>The bytes of the \<open>IPC_QUERY_RESP\<close> frame; no frame when the buffer cannot be allocated.\<close>

definition handle_arws_query :: "'d gateway_env \<Rightarrow> string \<Rightarrow> gateway_state \<Rightarrow> mem_error + (string option \<times> gateway_state)" where
  "handle_arws_query env q g =
     (case ge_heap env of
        None \<Rightarrow> Inr (None, g)
      | Some mem \<Rightarrow>
          (case run_query env q mem g of
             (Inl e, _) \<Rightarrow> Inl e
           | (Inr (n, mem'), g') \<Rightarrow> Inr (Some (take (min n (ge_buf_size env - 1)) mem'), g')))"

end
