(* ===== verification/Gateway.thy ===== *)
theory Gateway
  imports Admin Session Health
begin

text \<open>
  The gateway, \<open>src/src/arws_gateway.c\<close>: the handler of an HTTP request (\<open>handler_func\<close>), the messages of
  the applications that connect to it (the cases of \<open>client_handler_loop\<close>), the clean-up when one
  disconnects, and start-up and shut-down. One message is one step of the state; a query to another
  application is two steps, since the loop sleeps in between and other connections go on.
\<close>

section \<open>An HTTP request\<close>

definition handler_func ::
  "'d gateway_env \<Rightarrow> HttpRequest \<Rightarrow> string \<Rightarrow> ClientConnection \<Rightarrow> gateway_state \<Rightarrow> mem_error + (ClientConnection \<times> gateway_state)" where
  "handler_func env req body conn g =
     (let ip = server_get_client_ip conn;
          (allowed, l) = arws_ratelimit_check (ge_time1 env) (ge_time2 env) ip (Some (rq_host req)) (rq_path req) (limits g);
          g1 = g\<lparr>limits := l\<rparr> in
      if \<not> allowed then Inr (arws_send_429 (Some ''Rate limit exceeded'') conn, g1)
      else let md = arws_config_get_effective_mode (rq_host req) (rq_path req) (Some ip) (cfg (gw_config (world g1))) in
        if md = MODE_MAINTENANCE then Inr (arws_send_maintenance (de_web (ge_dispatch env)) conn, g1)
        else (case arws_dispatch (ge_dispatch env) req body md conn (world g1) of
                Inl e \<Rightarrow> Inl e
              | Inr (rc, c, w) \<Rightarrow> Inr (c, g1\<lparr>world := w\<rparr>)))"

section \<open>Registration\<close>

text \<open>A frame to send: descriptor, type, payload. Acknowledgements carry their terminating NUL.\<close>

type_synonym out_frame = "int \<times> ipc_kind \<times> string"

record registration =
  reg_name :: string
  reg_prefix :: string
  reg_method :: string
  reg_host :: string
  reg_mode :: string
  reg_proxy :: string

text \<open>The literal \<open> proxy=\<close> of the format: blanks, then the letters.\<close>

definition scan_proxy :: "string \<Rightarrow> string" where
  "scan_proxy s =
     (let t = dropWhile is_space s in
      if strneq t ''proxy='' 6 then (case scan_word 255 (drop 6 t) of Some (w, _) \<Rightarrow> w | None \<Rightarrow> []) else [])"

definition parse_registration :: "string \<Rightarrow> registration" where
  "parse_registration text =
     (case scan_words [63, 255, 15, 255, 15] text of
        (ws, rest) \<Rightarrow> \<lparr>reg_name = nth_or [] ws 0, reg_prefix = nth_or [] ws 1, reg_method = nth_or [] ws 2,
                        reg_host = nth_or [] ws 3, reg_mode = nth_or [] ws 4,
                        reg_proxy = (if length ws = 5 then scan_proxy rest else [])\<rparr>)"

text \<open>The value after a key that occurs anywhere in the message.\<close>

definition option_word :: "string \<Rightarrow> nat \<Rightarrow> string \<Rightarrow> string" where
  "option_word key n text =
     (case strstr text key of
        None \<Rightarrow> []
      | Some t \<Rightarrow> (case scan_word n (drop (length key) t) of Some (w, _) \<Rightarrow> w | None \<Rightarrow> []))"

definition rate_option :: "string \<Rightarrow> (int \<times> int) option" where
  "rate_option text =
     (case strstr text ''rl='' of
        None \<Rightarrow> None
      | Some t \<Rightarrow>
          (case scan_int (drop 3 t) of
             None \<Rightarrow> None
           | Some (m, rest) \<Rightarrow>
               let win = (case rest of c # r \<Rightarrow> if c = CHR '','' then (case scan_int r of Some (v, _) \<Rightarrow> v | None \<Rightarrow> 0) else 0 | [] \<Rightarrow> 0)
               in if m > 0 then Some (m, if win \<le> 0 then 60 else win) else None))"

definition apply_rate_option :: "registration \<Rightarrow> string \<Rightarrow> gateway_state \<Rightarrow> gateway_state" where
  "apply_rate_option reg text g =
     (case rate_option text of
        None \<Rightarrow> g
      | Some (m, win) \<Rightarrow>
          (let p = reg_prefix reg;
               rl_path = (if p \<noteq> [] \<and> hd p = CHR ''/'' \<and> p \<noteq> ''/'' then buf_copy 128 p else ''/'')
           in g\<lparr>limits := arws_ratelimit_set_rule (Some (if reg_host reg \<noteq> [] then reg_host reg else ''*'')) rl_path m win (limits g)\<rparr>))"

text \<open>\<open>strtok_r(hosts_buf, ",", \<dots>)\<close> with the blanks around each name removed.\<close>

definition host_names :: "string \<Rightarrow> string list" where
  "host_names host =
     filter (\<lambda>h. h \<noteq> []) (map trim_blanks (split_on CHR '','' (buf_copy 256 (if host \<noteq> [] then host else ''*''))))"

definition is_local_name :: "string \<Rightarrow> bool" where
  "is_local_name h \<longleftrightarrow> strcaseeq h ''localhost'' \<or> h = ''127.0.0.1'' \<or>
     length h > 10 \<and> strcaseeq (drop (length h - 10) h) ''.localhost''"

definition cfg_path_of :: "string \<Rightarrow> string" where
  "cfg_path_of pref =
     (let p = dropWhile (\<lambda>c. c = CHR ''/'') pref in
      if p = ''*'' \<or> pref = ''/*'' \<or> pref = ''*'' then ''*''
      else if p = [] \<or> pref = ''/'' then ''*''
      else buf_copy 256 p)"

definition is_stream_reg :: "registration \<Rightarrow> string \<Rightarrow> bool" where
  "is_stream_reg reg type_str \<longleftrightarrow> strneq (reg_mode reg) ''stream'' 6 \<or> type_str = ''stream''"

definition route_mode_of :: "registration \<Rightarrow> bool \<Rightarrow> string \<Rightarrow> string" where
  "route_mode_of reg is_stream h =
     (if is_local_name h then MODE_TEST
      else if \<not> is_stream \<and> reg_mode reg \<noteq> [] \<and> reg_mode reg \<noteq> ''stream'' then reg_mode reg
      else ''*'')"

definition update_routes :: "(route_state \<Rightarrow> int \<times> route_state) \<Rightarrow> config_world \<Rightarrow> config_world" where
  "update_routes f cw = cw\<lparr>routes := snd (f (routes cw))\<rparr>"

definition register_proxy_host :: "'d gateway_env \<Rightarrow> registration \<Rightarrow> bool \<Rightarrow> nat \<Rightarrow> string \<Rightarrow> config_world \<Rightarrow> config_world" where
  "register_proxy_host env reg is_stream i h cw =
     (let md = route_mode_of reg is_stream h;
          add = (if is_stream then arws_add_stream_route else arws_add_proxy_route);
          w1 = update_routes (add (ge_route env i) (reg_prefix reg) (reg_method reg) (Some h) (Some md) (reg_proxy reg)) cw in
      if reg_prefix reg = [] then w1
      else let p = cfg_path_of (reg_prefix reg);
               persist = (if is_stream then arws_config_add_stream_route else arws_config_add_proxy_route);
               w2 = snd (persist (ge_config env) h p (reg_proxy reg) w1) in
        if arws_config_has_override h p (cfg w2) then w2
        else let save_mode = (if md \<noteq> [] \<and> md \<noteq> ''*'' then md else arws_config_get_global_mode (cfg w2))
             in snd (arws_config_add_override (ge_config env) h p save_mode w2))"

fun register_proxy :: "'d gateway_env \<Rightarrow> registration \<Rightarrow> bool \<Rightarrow> nat \<Rightarrow> string list \<Rightarrow> config_world \<Rightarrow> config_world" where
  "register_proxy env reg is_stream i [] cw = cw"
| "register_proxy env reg is_stream i (h # hs) cw =
     register_proxy env reg is_stream (Suc i) hs (register_proxy_host env reg is_stream i h cw)"

fun add_backend_routes :: "'d gateway_env \<Rightarrow> registration \<Rightarrow> int \<Rightarrow> nat \<Rightarrow> string list \<Rightarrow> config_world \<Rightarrow> config_world" where
  "add_backend_routes env reg backend_id i [] cw = cw"
| "add_backend_routes env reg backend_id i (h # hs) cw =
     add_backend_routes env reg backend_id (Suc i) hs
       (update_routes (arws_add_route (ge_route env i) (reg_prefix reg) (reg_method reg) (Some h) (Some (reg_mode reg)) backend_id) cw)"

definition register_backend_app :: "'d gateway_env \<Rightarrow> registration \<Rightarrow> int \<Rightarrow> gateway_state \<Rightarrow> gateway_state \<times> out_frame list" where
  "register_backend_app env reg fd g =
     (case arws_register_backend (reg_name reg) fd (gw_registry (world g)) of
        (backend_id, rg) \<Rightarrow>
          (let g1 = g\<lparr>world := (world g)\<lparr>gw_registry := rg\<rparr>\<rparr> in
           if backend_id \<le> 0 then (g1, [])
           else let cw1 = add_backend_routes env reg backend_id 0 (host_names (reg_host reg)) (gw_config (world g1));
                    save_mode = (if reg_mode reg \<noteq> [] \<and> reg_mode reg \<noteq> ''*'' then reg_mode reg else arws_config_get_global_mode (cfg cw1));
                    cw2 = (if reg_host reg \<noteq> [] \<and> reg_prefix reg \<noteq> [] \<and> \<not> arws_config_has_override (reg_host reg) (reg_prefix reg) (cfg cw1)
                           then snd (arws_config_add_override (ge_config env) (reg_host reg) (reg_prefix reg) save_mode cw1) else cw1)
                in (set_config cw2 g1, [(fd, IPC_ACK, buf_copy 64 (''ACK '' @ dec_int backend_id) @ [NUL])])))"

definition handle_register :: "'d gateway_env \<Rightarrow> int \<Rightarrow> string \<Rightarrow> gateway_state \<Rightarrow> gateway_state \<times> out_frame list" where
  "handle_register env fd text g =
     (let reg = parse_registration text;
          g1 = g\<lparr>named_clients := named_add (ge_max_clients env) fd (reg_name reg) (named_clients g)\<rparr>;
          g2 = set_config (snd (arws_config_reload_from_disk (ge_config env) (gw_config (world g1)))) g1;
          type_str = option_word ''type='' 15 text;
          redirect = option_word ''redirect='' 255 text in
      if redirect \<noteq> [] \<or> type_str = ''redirect''
      then (let url = (if redirect \<noteq> [] then redirect else if reg_mode reg \<noteq> [] then reg_mode reg else ''/'')
            in (set_config (update_routes (arws_add_redirect_route (ge_route env 0) (reg_prefix reg) (reg_method reg)
                              (Some (reg_host reg)) (Some ''*'') url) (gw_config (world g2))) g2,
                [(fd, IPC_ACK, ''ACK REDIRECT'' @ [NUL])]))
      else let g3 = apply_rate_option reg text g2 in
        if reg_proxy reg \<noteq> []
        then (set_config (register_proxy env reg (is_stream_reg reg type_str) 0 (host_names (reg_host reg)) (gw_config (world g3))) g3,
              [(fd, IPC_ACK, ''ACK PROXY'' @ [NUL])])
        else register_backend_app env reg fd g3)"

section \<open>Removal and reload\<close>

definition drop_backend :: "int \<Rightarrow> gateway_state \<Rightarrow> gateway_state" where
  "drop_backend backend_id g =
     (let g1 = set_config ((gw_config (world g))\<lparr>routes := snd (arws_remove_routes_by_backend backend_id (routes (gw_config (world g))))\<rparr>) g
      in g1\<lparr>world := (world g1)\<lparr>gw_registry := snd (arws_unregister_backend backend_id (gw_registry (world g1)))\<rparr>\<rparr>)"

definition remove_named_route :: "string \<Rightarrow> gateway_state \<Rightarrow> gateway_state" where
  "remove_named_route text g =
     (case fst (scan_words [255, 15, 255] text) of
        [] \<Rightarrow> g
      | pref # ws \<Rightarrow>
          set_config (update_routes (arws_remove_route pref (nth_or ''*'' ws 0) (Some (nth_or ''*'' ws 1))) (gw_config (world g))) g)"

definition handle_unregister :: "int \<Rightarrow> string \<Rightarrow> gateway_state \<Rightarrow> gateway_state \<times> out_frame list" where
  "handle_unregister fd text g =
     (case scan_int text of
        Some (backend_id, _) \<Rightarrow> if backend_id > 0 then drop_backend backend_id g else remove_named_route text g
      | None \<Rightarrow> remove_named_route text g,
      [(fd, IPC_ACK, ''ACK UNREGISTER'' @ [NUL])])"

definition handle_reload :: "'d gateway_env \<Rightarrow> int \<Rightarrow> gateway_state \<Rightarrow> gateway_state \<times> out_frame list" where
  "handle_reload env fd g =
     (let cw = snd (arws_config_load (ge_config env) (Some (arws_config_get_path (cfg (gw_config (world g))))) (gw_config (world g)));
          g1 = set_config cw g;
          g2 = g1\<lparr>world := (world g1)\<lparr>gw_cache := arws_cache_set_ttl (arws_config_get_cache_ttl (cfg cw)) (gw_cache (world g1))\<rparr>\<rparr>
      in (g2, [(fd, IPC_ACK, ''ACK RELOAD'' @ [NUL])]))"

definition handle_cache_clear :: "int \<Rightarrow> gateway_state \<Rightarrow> gateway_state \<times> out_frame list" where
  "handle_cache_clear fd g =
     (g\<lparr>world := (world g)\<lparr>gw_cache := arws_cache_clear (gw_cache (world g))\<rparr>\<rparr>, [(fd, IPC_ACK, ''ACK CACHE CLEAR'' @ [NUL])])"

section \<open>Queries\<close>

text \<open>The first line of a query names the application; the rest is for it.\<close>

definition query_target :: "string \<Rightarrow> string \<times> string" where
  "query_target payload =
     (let tgt = take 63 (takeWhile (\<lambda>c. c \<noteq> NLC \<and> c \<noteq> NUL) payload); rest = drop (length tgt) payload
      in (tgt, case rest of c # r \<Rightarrow> if c = NLC then r else rest | [] \<Rightarrow> []))"

definition own_name :: "nat \<Rightarrow> int \<Rightarrow> registry_state \<Rightarrow> string option" where
  "own_name max_clients fd rg =
     (case find (\<lambda>b. be_fd b = fd) (List.map_filter (\<lambda>i. arws_get_backend (int i) rg) [0..<max_clients]) of
        Some b \<Rightarrow> Some (be_name b) | None \<Rightarrow> None)"

definition find_target :: "string \<Rightarrow> gateway_state \<Rightarrow> int" where
  "find_target tgt g =
     (let fd = arws_find_backend_by_name tgt (gw_registry (world g))
      in if fd < 0 then named_find tgt (named_clients g) else fd)"

text \<open>What a query does at once: an answer, or a wait for the application on a descriptor. The raw exchange with
  the asking application itself is a parameter.\<close>

datatype query_step =
    Answered "out_frame list"
  | Waiting int
  | Asleep

definition query_begin ::
  "'d gateway_env \<Rightarrow> (string \<Rightarrow> string) \<Rightarrow> (int \<Rightarrow> string \<Rightarrow> bool) \<Rightarrow> int \<Rightarrow> string \<Rightarrow> gateway_state \<Rightarrow> mem_error + (query_step \<times> gateway_state)" where
  "query_begin env raw_exchange send fd payload g =
     (case query_target payload of
        (tgt, data) \<Rightarrow>
          if tgt = ''arws''
          then (case handle_arws_query env data g of
                  Inl e \<Rightarrow> Inl e
                | Inr (None, g1) \<Rightarrow> Inr (Answered [], g1)
                | Inr (Some r, g1) \<Rightarrow> Inr (Answered [(fd, IPC_QUERY_RESP, r)], g1))
          else if own_name (ge_max_clients env) fd (gw_registry (world g)) = Some tgt
          then (let r = take (ge_buf_size env) (raw_exchange data)
                in Inr (Answered [if r \<noteq> [] then (fd, IPC_QUERY_RESP, r) else (fd, IPC_ERROR, ''no resp from app'' @ [NUL])], g))
          else (let tfd = find_target tgt g in
                if tfd < 0 then Inr (Answered [(fd, IPC_ERROR, ''target not found'' @ [NUL])], g)
                else case query_lock_fd (ge_grow1 env) (ge_grow2 env) tfd (queries g) of
                  None \<Rightarrow> Inr (Asleep, g)
                | Some qs \<Rightarrow>
                    if send tfd data then Inr (Waiting tfd, g\<lparr>queries := qs\<rparr>)
                    else (case query_unlock_fd tfd qs of
                            Inl e \<Rightarrow> Inl e
                          | Inr qs1 \<Rightarrow> Inr (Answered [(fd, IPC_ERROR, ''target error'' @ [NUL])], g\<lparr>queries := qs1\<rparr>))))"

text \<open>After the response or three seconds.\<close>

definition query_end :: "'d gateway_env \<Rightarrow> int \<Rightarrow> int \<Rightarrow> gateway_state \<Rightarrow> mem_error + (out_frame list \<times> gateway_state)" where
  "query_end env fd tfd g =
     (let resp = take_response tfd (queries g) in
      case query_unlock_fd tfd (queries g) of
        Inl e \<Rightarrow> Inl e
      | Inr qs \<Rightarrow>
          Inr ([case resp of
                  Some (typ, bytes) \<Rightarrow>
                    if typ = ge_code env IPC_QUERY_RESP \<or> typ = ge_code env IPC_RESPONSE then (fd, IPC_QUERY_RESP, bytes)
                    else (fd, IPC_ERROR, ''target error'' @ [NUL])
                | None \<Rightarrow> (fd, IPC_ERROR, ''target error'' @ [NUL])], g\<lparr>queries := qs\<rparr>))"

section \<open>The connection of an application\<close>

text \<open>The cases of the switch other than \<open>IPC_QUERY\<close>; \<open>buf\<close> is the payload, which the loop terminates with NUL.\<close>

definition handle_message :: "'d gateway_env \<Rightarrow> int \<Rightarrow> ipc_kind \<Rightarrow> string \<Rightarrow> gateway_state \<Rightarrow> gateway_state \<times> out_frame list" where
  "handle_message env fd kind buf g =
     (case kind of
        IPC_QUERY_RESP \<Rightarrow> (g\<lparr>queries := deliver_response (ge_buf_size env) (ge_grow1 env) (ge_grow2 env) fd (ge_code env kind) buf (queries g)\<rparr>, [])
      | IPC_RESPONSE \<Rightarrow> (g\<lparr>queries := deliver_response (ge_buf_size env) (ge_grow1 env) (ge_grow2 env) fd (ge_code env kind) buf (queries g)\<rparr>, [])
      | IPC_REGISTER \<Rightarrow> handle_register env fd (cstr (take (ge_buf_size env - 1) buf)) g
      | IPC_UNREGISTER \<Rightarrow> handle_unregister fd (cstr (take (ge_buf_size env - 1) buf)) g
      | IPC_RELOAD \<Rightarrow> handle_reload env fd g
      | IPC_CACHE_CLEAR \<Rightarrow> handle_cache_clear fd g
      | _ \<Rightarrow> (g, []))"

text \<open>The end of the loop, when the peer is gone: the closed descriptor is the other result.\<close>

definition client_cleanup :: "int \<Rightarrow> gateway_state \<Rightarrow> gateway_state \<times> int list" where
  "client_cleanup fd g =
     (let bid = arws_find_backend_id_by_fd fd (gw_registry (world g));
          g1 = (if bid > 0 then drop_backend bid g else g)
      in (g1\<lparr>named_clients := named_remove fd (named_clients g1), admin_client_fds := remove_client_fd fd (admin_client_fds g1)\<rparr>, [fd]))"

definition accept_client :: "'d gateway_env \<Rightarrow> int \<Rightarrow> gateway_state \<Rightarrow> gateway_state \<times> int list" where
  "accept_client env fd g =
     (case add_client_fd (ge_max_clients env) fd (admin_client_fds g) of
        (True, fds) \<Rightarrow> (g\<lparr>admin_client_fds := fds\<rparr>, [])
      | (False, _) \<Rightarrow> (g, [fd]))"

end
