(* ===== verification/Legacy.thy ===== *)
theory Legacy
  imports Server_Http
begin

text \<open>
  The older routing layers: \<open>src/src/router.c\<close>, a hash table of handlers with domains and wildcards, and
  \<open>src/src/api.c\<close>, static files under \<open>www/\<close> and a table of page handlers. Handlers are function pointers;
  those of \<open>router.c\<close> come from its callers and are looked up by name in a parameter. Allocation
  failure, which the code does not test, is the error value \<open>NullDeref\<close>. The copies into a new
  node leave its last byte as the allocator delivered it; the model takes that byte to be NUL.
\<close>

abbreviation (input) LEGACY_HASH_SIZE :: nat where "LEGACY_HASH_SIZE \<equiv> 128"

definition legacy_hash :: "string \<Rightarrow> string \<Rightarrow> nat" where
  "legacy_hash path method = unat (djb2_from (djb2_from 5381 path) method) mod LEGACY_HASH_SIZE"

section \<open>The router with domains\<close>

record Route =
  lr_path :: string
  lr_method :: string
  lr_domain :: string
  lr_handler :: string

definition add_route ::
  "bool \<Rightarrow> string \<Rightarrow> string \<Rightarrow> string option \<Rightarrow> string \<Rightarrow> Route list list \<Rightarrow> mem_error + Route list list" where
  "add_route allocated path method domain handler tab =
     (if \<not> allocated then Inl NullDeref
      else let r = \<lparr>lr_path = buf_copy 256 path, lr_method = buf_copy 16 method,
                    lr_domain = (case domain of Some d \<Rightarrow> buf_copy 128 d | None \<Rightarrow> []), lr_handler = handler\<rparr>;
               idx = legacy_hash path method
           in Inr (tab[idx := r # tab ! idx]))"

definition is_loopback_domain :: "string \<Rightarrow> bool" where
  "is_loopback_domain h =
     (if h = [] then False
      else if strcaseeq h ''localhost'' then True
      else if strcaseeq h ''0.0.0.0'' then True
      else if strneq h ''127.'' 4 then True
      else strcaseeq h ''::1'' \<or> strcaseeq h ''[::1]'')"

definition domain_matches :: "string \<Rightarrow> string \<Rightarrow> bool" where
  "domain_matches route_domain req_host =
     (if route_domain = [] \<or> route_domain = ''*'' then True
      else if req_host = [] then False
      else if strcaseeq route_domain req_host then True
      else if is_loopback_domain route_domain \<and> is_loopback_domain req_host then True
      else if strncaseeq req_host ''www.'' 4 \<and> strcaseeq route_domain (drop 4 req_host) then True
      else strncaseeq route_domain ''www.'' 4 \<and> strcaseeq (drop 4 route_domain) req_host)"

definition exact_route :: "HttpRequest \<Rightarrow> Route \<Rightarrow> bool" where
  "exact_route req r \<longleftrightarrow> lr_path r = rq_path req \<and> lr_method r = rq_method req \<and> domain_matches (lr_domain r) (rq_host req)"

definition wildcard_route :: "HttpRequest \<Rightarrow> Route \<Rightarrow> bool" where
  "wildcard_route req r \<longleftrightarrow> lr_path r \<noteq> [] \<and> last (lr_path r) = CHR ''*'' \<and>
     strneq (lr_path r) (rq_path req) (length (lr_path r) - 1) \<and> lr_method r = rq_method req"

text \<open>The scan of all buckets: a wildcard route of a matching domain ends it, the first one without a domain is kept.\<close>

fun wildcard_scan :: "HttpRequest \<Rightarrow> Route option \<Rightarrow> Route list \<Rightarrow> Route option" where
  "wildcard_scan req catch_all [] = catch_all"
| "wildcard_scan req catch_all (r # rs) =
     (if wildcard_route req r
      then (if lr_domain r = [] then wildcard_scan req (if catch_all = None then Some r else catch_all) rs
            else if domain_matches (lr_domain r) (rq_host req) then Some r
            else wildcard_scan req catch_all rs)
      else wildcard_scan req catch_all rs)"

definition router_select :: "HttpRequest \<Rightarrow> Route list list \<Rightarrow> Route option" where
  "router_select req tab =
     (case find (exact_route req) (tab ! legacy_hash (rq_path req) (rq_method req)) of
        Some r \<Rightarrow> Some r
      | None \<Rightarrow> wildcard_scan req None (concat tab))"

definition router_dispatch ::
  "(string \<Rightarrow> ClientConnection \<Rightarrow> HttpRequest \<Rightarrow> ClientConnection) \<Rightarrow> HttpRequest \<Rightarrow> Route list list \<Rightarrow> ClientConnection \<Rightarrow> ClientConnection" where
  "router_dispatch handlers req tab conn =
     (case router_select req tab of
        Some r \<Rightarrow> handlers (lr_handler r) conn req
      | None \<Rightarrow> server_send_404 conn)"

section \<open>Pages and static files\<close>

definition path_is_safe :: "string option \<Rightarrow> bool" where
  "path_is_safe path =
     (case path of
        None \<Rightarrow> False
      | Some p \<Rightarrow>
          if p = [] then False
          else if strstr p ''..'' \<noteq> None then False
          else if strchr p CHR 0x5C \<noteq> None then False
          else last p \<noteq> CHR ''.'')"

type_synonym served = "mem_error + ClientConnection"

definition serve_or_not :: "(string \<Rightarrow> string option) \<Rightarrow> string \<Rightarrow> string \<Rightarrow> ClientConnection \<Rightarrow> served" where
  "serve_or_not fs path content_type conn =
     (case server_serve_file fs path content_type conn of Inl e \<Rightarrow> Inl e | Inr (_, c) \<Rightarrow> Inr c)"

definition file_name :: "string \<Rightarrow> string" where
  "file_name path = (case strrchr path CHR ''/'' of Some t \<Rightarrow> tl t | None \<Rightarrow> path)"

definition send_page :: "(string \<Rightarrow> string option) \<Rightarrow> string \<Rightarrow> string \<Rightarrow> ClientConnection \<Rightarrow> served" where
  "send_page fs folder request_path conn =
     (if \<not> path_is_safe (Some request_path) then Inr (server_send_404 conn)
      else if strchr request_path CHR ''.'' = None
      then serve_or_not fs (buf_copy 512 (''www/'' @ folder @ ''/'' @ folder @ ''.html'')) ''text/html'' conn
      else if strstr request_path ''.js'' \<noteq> None
      then (if \<not> path_is_safe (Some (file_name request_path)) then Inr (server_send_404 conn)
            else serve_or_not fs (buf_copy 512 (''www/'' @ folder @ ''/'' @ file_name request_path)) ''application/javascript'' conn)
      else if strstr request_path ''.css'' \<noteq> None
      then (if \<not> path_is_safe (Some (file_name request_path)) then Inr (server_send_404 conn)
            else serve_or_not fs (buf_copy 512 (''www/'' @ folder @ ''/'' @ file_name request_path)) ''text/css'' conn)
      else Inr conn)"

definition content_type_of :: "string \<Rightarrow> string" where
  "content_type_of ext =
     (if ext = ''.html'' then ''text/html''
      else if ext = ''.css'' then ''text/css''
      else if ext = ''.js'' then ''application/javascript''
      else if ext = ''.png'' then ''image/png''
      else if ext = ''.jpg'' \<or> ext = ''.jpeg'' then ''image/jpeg''
      else ''text/plain'')"

definition serve_static_file :: "(string \<Rightarrow> string option) \<Rightarrow> string \<Rightarrow> ClientConnection \<Rightarrow> mem_error + (bool \<times> ClientConnection)" where
  "serve_static_file fs path conn =
     (if \<not> path_is_safe (Some path) then Inr (False, conn)
      else case strrchr path CHR ''.'' of
        None \<Rightarrow> Inr (False, conn)
      | Some ext \<Rightarrow>
          (let clean = (if hd path = CHR ''/'' then tl path else path)
           in server_serve_file fs (buf_copy 512 (''www/'' @ clean)) (content_type_of ext) conn))"

definition sendpage :: "(string \<Rightarrow> string option) \<Rightarrow> string \<Rightarrow> ClientConnection \<Rightarrow> served" where
  "sendpage fs folder conn =
     (let p1 = buf_copy 512 (''www/'' @ folder @ ''/index.html'');
          p2 = buf_copy 512 (''www/'' @ folder @ ''/main.html'');
          p3 = buf_copy 512 (''www/'' @ folder @ ''/dist/index.html'')
      in serve_or_not fs (if fs p1 \<noteq> None then p1 else if fs p2 \<noteq> None then p2 else p3) ''text/html'' conn)"

datatype page_handler = home_handler | manager_login_handler | manager_dashboard_handler | api_data_handler

definition run_page :: "(string \<Rightarrow> string option) \<Rightarrow> page_handler \<Rightarrow> ClientConnection \<Rightarrow> served" where
  "run_page fs h conn =
     (case h of
        home_handler \<Rightarrow> sendpage fs ''home'' conn
      | manager_login_handler \<Rightarrow> sendpage fs ''manager/login'' conn
      | manager_dashboard_handler \<Rightarrow> sendpage fs ''manager/dashboard'' conn
      | api_data_handler \<Rightarrow>
          Inr (server_send_response 200 ''application/json''
            (Some (''{'' @ [CHR 0x22] @ ''status'' @ [CHR 0x22] @ '': '' @ [CHR 0x22] @ ''success'' @ [CHR 0x22] @ '', '' @
              [CHR 0x22] @ ''message'' @ [CHR 0x22] @ '': '' @ [CHR 0x22] @ ''Bemf HTTP server running on ALRIOS!'' @ [CHR 0x22] @ ''}'')) conn))"

record PageRoute =
  pg_path :: string
  pg_method :: string
  pg_handler :: page_handler

definition api_add_route :: "bool \<Rightarrow> string \<Rightarrow> string \<Rightarrow> page_handler \<Rightarrow> PageRoute list list \<Rightarrow> mem_error + PageRoute list list" where
  "api_add_route allocated path method handler tab =
     (if \<not> allocated then Inl NullDeref
      else let idx = legacy_hash path method
           in Inr (tab[idx := \<lparr>pg_path = buf_copy 256 path, pg_method = buf_copy 16 method, pg_handler = handler\<rparr> # tab ! idx]))"

fun api_add_all :: "(nat \<Rightarrow> bool) \<Rightarrow> nat \<Rightarrow> (string \<times> string \<times> page_handler) list \<Rightarrow> PageRoute list list \<Rightarrow> mem_error + PageRoute list list" where
  "api_add_all mem i [] tab = Inr tab"
| "api_add_all mem i ((p, m, h) # xs) tab =
     (case api_add_route (mem i) p m h tab of Inl e \<Rightarrow> Inl e | Inr t \<Rightarrow> api_add_all mem (Suc i) xs t)"

definition api_plugin_init :: "(nat \<Rightarrow> bool) \<Rightarrow> PageRoute list list \<Rightarrow> mem_error + PageRoute list list" where
  "api_plugin_init mem =
     api_add_all mem 0 [(''/'', ''GET'', home_handler), (''/home'', ''GET'', home_handler), (''/manager/login'', ''GET'', manager_login_handler),
       (''/manager/dashboard'', ''GET'', manager_dashboard_handler), (''/api/data'', ''GET'', api_data_handler)]"

definition page_named :: "HttpRequest \<Rightarrow> PageRoute \<Rightarrow> bool" where
  "page_named req r \<longleftrightarrow> pg_path r = rq_path req \<and> pg_method r = rq_method req"

definition api_plugin_handler :: "(string \<Rightarrow> string option) \<Rightarrow> PageRoute list list \<Rightarrow> HttpRequest \<Rightarrow> ClientConnection \<Rightarrow> served" where
  "api_plugin_handler fs tab req conn =
     (case serve_static_file fs (rq_path req) conn of
        Inl e \<Rightarrow> Inl e
      | Inr (True, c) \<Rightarrow> Inr c
      | Inr (False, c) \<Rightarrow>
          (case find (page_named req) (tab ! legacy_hash (rq_path req) (rq_method req)) of
             Some r \<Rightarrow> run_page fs (pg_handler r) c
           | None \<Rightarrow> Inr (server_send_404 c)))"

section \<open>The table as a list\<close>

text \<open>The routes in the order of their registration, the last first, and the table they are in.\<close>

inductive routes_added :: "Route list \<Rightarrow> Route list list \<Rightarrow> bool" where
  none: "routes_added [] (replicate LEGACY_HASH_SIZE [])"
| added: "routes_added rs tab \<Longrightarrow> length path < 256 \<Longrightarrow> length method < 16 \<Longrightarrow> add_route True path method domain handler tab = Inr tab' \<Longrightarrow>
    routes_added (\<lparr>lr_path = path, lr_method = method, lr_domain = (case domain of Some d \<Rightarrow> buf_copy 128 d | None \<Rightarrow> []), lr_handler = handler\<rparr> # rs) tab'"

lemma legacy_hash_less: "legacy_hash p m < LEGACY_HASH_SIZE"
  by (simp add: legacy_hash_def)

lemma routes_added_buckets:
  assumes "routes_added rs tab"
  shows "length tab = LEGACY_HASH_SIZE \<and>
    (\<forall>i < LEGACY_HASH_SIZE. tab ! i = filter (\<lambda>r. legacy_hash (lr_path r) (lr_method r) = i) rs)"
  using assms
proof (induction rule: routes_added.induct)
  case (added rs tab p m d h tab')
  then show ?case using legacy_hash_less[of p m]
    by (auto simp: add_route_def Let_def nth_list_update)
qed simp

lemma find_filter: "(\<And>x. x \<in> set xs \<Longrightarrow> P x \<Longrightarrow> Q x) \<Longrightarrow> find P (filter Q xs) = find P xs"
  by (induction xs) auto

lemma wildcard_scan_cases:
  "wildcard_scan req c rs =
     (case find (\<lambda>r. wildcard_route req r \<and> lr_domain r \<noteq> [] \<and> domain_matches (lr_domain r) (rq_host req)) rs of
        Some r \<Rightarrow> Some r
      | None \<Rightarrow> (case c of Some r \<Rightarrow> Some r | None \<Rightarrow> find (\<lambda>r. wildcard_route req r \<and> lr_domain r = []) rs))"
  by (induction rs arbitrary: c) (auto split: option.splits)

section \<open>Properties: the older layers\<close>

text \<open>The older router serves the latest exact route, whatever the hash does. Among all routes ever added, the
  last added one with the path and the method of the request and a matching domain is chosen; only when
  there is none, a wildcard route with a matching domain of its own, then one without a domain, and
  otherwise the answer is 404.\<close>

theorem router_exact_first:
  assumes "routes_added rs tab"
  shows "router_dispatch handlers req tab conn =
    (case find (exact_route req) rs of
       Some r \<Rightarrow> handlers (lr_handler r) conn req
     | None \<Rightarrow>
         (case find (\<lambda>r. wildcard_route req r \<and> lr_domain r \<noteq> [] \<and> domain_matches (lr_domain r) (rq_host req)) (concat tab) of
            Some r \<Rightarrow> handlers (lr_handler r) conn req
          | None \<Rightarrow> (case find (\<lambda>r. wildcard_route req r \<and> lr_domain r = []) (concat tab) of
                       Some r \<Rightarrow> handlers (lr_handler r) conn req
                     | None \<Rightarrow> server_send_404 conn)))"
proof -
  let ?h = "legacy_hash (rq_path req) (rq_method req)"
  have "tab ! ?h = filter (\<lambda>r. legacy_hash (lr_path r) (lr_method r) = ?h) rs"
    using routes_added_buckets[OF assms] legacy_hash_less by blast
  then have "find (exact_route req) (tab ! ?h) = find (exact_route req) rs"
    using find_filter[of rs "exact_route req" "\<lambda>r. legacy_hash (lr_path r) (lr_method r) = ?h"] by (simp add: exact_route_def)
  then show ?thesis
    by (simp add: router_dispatch_def router_select_def wildcard_scan_cases split: option.splits)
qed

theorem router_exact_first_witness:
  "\<exists>tab. add_route True ''/'' ''GET'' None ''home'' (replicate 128 []) = Inr tab \<and>
     router_dispatch (\<lambda>h conn req. server_conn_write h conn) (empty_request\<lparr>rq_path := ''/'', rq_method := ''GET''\<rparr>) tab
       \<lparr>client_ip = [], current_path = [], response_headers = [], anon_id = [], conn_out = [], access_log = []\<rparr> =
     \<lparr>client_ip = [], current_path = [], response_headers = [], anon_id = [], conn_out = ''home'', access_log = []\<rparr>"
proof -
  obtain tab where t: "add_route True ''/'' ''GET'' None ''home'' (replicate 128 []) = Inr tab"
    by (simp add: add_route_def Let_def)
  have "routes_added [\<lparr>lr_path = ''/'', lr_method = ''GET'', lr_domain = (case None of Some d \<Rightarrow> buf_copy 128 d | None \<Rightarrow> []), lr_handler = ''home''\<rparr>] tab"
    by (rule routes_added.added[OF routes_added.none _ _ t]) simp_all
  from router_exact_first[OF this] t show ?thesis
    by (simp add: exact_route_def domain_matches_def server_conn_write_def empty_request_def)
qed

text \<open>C35: The page server reads nothing outside \<open>www\<close>. Two file systems that agree on the paths that begin with
  \<open>www/\<close> and contain no \<open>..\<close> give the same answer to every request.\<close>

theorem static_files_confined:
  assumes "\<And>p. take 4 p = ''www/'' \<Longrightarrow> \<not> sublist ''..'' p \<Longrightarrow> fs p = fs' p"
  shows "api_plugin_handler fs tab req conn = api_plugin_handler fs' tab req conn"
proof -
  have serve: "server_serve_file fs p ct c = server_serve_file fs' p ct c" if "take 4 p = ''www/''" for p ct c
  proof (cases "server_path_safe p")
    case True
    then have "\<not> sublist ''..'' p" by (simp add: server_path_safe_def strstr_None_iff split: if_splits)
    with assms that show ?thesis by (simp add: server_serve_file_def)
  qed (simp add: server_serve_file_def)
  have www: "take 4 (buf_copy 512 (''www/'' @ s)) = ''www/''" for s by (simp add: buf_copy_def)
  have static: "serve_static_file fs p c = serve_static_file fs' p c" for p c
    unfolding serve_static_file_def Let_def using serve[OF www] by (simp split: option.splits)
  have dots: "\<not> sublist ''..'' (buf_copy 512 (''www/'' @ f @ s))"
    if "f \<in> {''home'', ''manager/login'', ''manager/dashboard''}" "s \<in> {''/index.html'', ''/main.html'', ''/dist/index.html''}" for f s
    using that by (auto simp: buf_copy_def strstr_None_iff[symmetric])
  have page: "sendpage fs f c = sendpage fs' f c" if f: "f \<in> {''home'', ''manager/login'', ''manager/dashboard''}" for f c
  proof -
    have "fs (buf_copy 512 (''www/'' @ f @ s)) = fs' (buf_copy 512 (''www/'' @ f @ s))"
      if "s \<in> {''/index.html'', ''/main.html'', ''/dist/index.html''}" for s
      by (rule assms[OF www dots[OF f that]])
    then show ?thesis unfolding sendpage_def Let_def serve_or_not_def using serve[OF www] by simp
  qed
  have "run_page fs h c = run_page fs' h c" for h c by (cases h) (simp_all add: run_page_def page)
  then have "run_page fs = run_page fs'" by (intro ext)
  then show ?thesis unfolding api_plugin_handler_def static by (simp only:)
qed

theorem static_files_confined_witness:
  "api_plugin_handler (\<lambda>p. if p = ''/etc/passwd'' then Some ''root'' else None) (replicate 128 []) empty_request
     \<lparr>client_ip = [], current_path = [], response_headers = [], anon_id = [], conn_out = [], access_log = []\<rparr> =
   api_plugin_handler (\<lambda>p. None) (replicate 128 []) empty_request
     \<lparr>client_ip = [], current_path = [], response_headers = [], anon_id = [], conn_out = [], access_log = []\<rparr>"
  by (rule static_files_confined) auto

end
