(* ===== verification/System.thy ===== *)
theory System
  imports Gateway Client_Io Worker_Pool Legacy
begin

text \<open>
  The process as a whole: a connection is served by a worker (\<open>pool_worker\<close> and the end of \<open>handle_client\<close> in
  \<open>src/src/server.c\<close>) which hands the parsed request to the gateway's \<open>handler_func\<close>; the listening socket
  is opened by \<open>server_start\<close>; \<open>arws_init\<close>, \<open>arws_start\<close>, \<open>arws_stop\<close> (\<open>src/src/arws_gateway.c\<close>) and
  \<open>arws_entry\<close> (\<open>src/src/arws_entry.c\<close>) bring the system up and down. Threads, sockets and TLS are
  parameters that say which calls succeed.
\<close>

section \<open>Serving a request\<close>

text \<open>The last part of \<open>handle_client\<close> with the gateway as handler: the request is counted by the rate limiter,
  and then handled. \<open>t1\<close>, \<open>t2\<close> are the clock readings of that first check.\<close>

definition serve_request ::
  "'d gateway_env \<Rightarrow> http_env \<Rightarrow> uint64 \<Rightarrow> uint64 \<Rightarrow> string \<Rightarrow> int \<Rightarrow> string \<Rightarrow> ClientConnection \<Rightarrow> gateway_state
    \<Rightarrow> mem_error + (ClientConnection \<times> gateway_state)" where
  "serve_request env henv t1 t2 raw content_length body conn g =
     (case parse_client_request henv raw content_length conn of
        Drop \<Rightarrow> Inr (conn, g)
      | Reject status msg \<Rightarrow> Inr (server_send_response status ''text/plain'' (Some msg) conn, g)
      | Handle c req \<Rightarrow>
          (case arws_ratelimit_check t1 t2 (client_ip c) (Some (rq_host req)) (rq_path req) (limits g) of
             (allowed, l) \<Rightarrow>
               if \<not> allowed then Inr (server_send_response 429 ''text/html'' (Some body_429) c, g\<lparr>limits := l\<rparr>)
               else handler_func env req body c (g\<lparr>limits := l\<rparr>)))"

text \<open>The connection a worker builds for a job; the contents of the two fields it leaves out are those of its stack.\<close>

definition worker_conn :: "EConn \<Rightarrow> string \<Rightarrow> string \<Rightarrow> ClientConnection" where
  "worker_conn ec stack_headers stack_anon =
     \<lparr>client_ip = buf_copy 64 (ec_client_ip ec), current_path = [], response_headers = stack_headers, anon_id = stack_anon,
      conn_out = [], access_log = []\<rparr>"

definition pool_worker ::
  "(ClientConnection \<Rightarrow> (unit + ClientConnection) option) \<Rightarrow> bool \<Rightarrow> EConn \<Rightarrow> string \<Rightarrow> string \<Rightarrow> (unit + ClientConnection) option" where
  "pool_worker client handshake_ok ec stack_headers stack_anon =
     (let conn = worker_conn ec stack_headers stack_anon in
      if ec_mode ec = MODE_SECURE \<and> \<not> handshake_ok then Some (Inr conn) else client conn)"

section \<open>Listening\<close>

record boot_env =
  be_ctx :: bool
  be_cert :: "string \<Rightarrow> bool"
  be_socket :: "nat \<Rightarrow> bool"
  be_bind :: "string \<Rightarrow> int \<Rightarrow> bool"
  be_listen :: bool
  be_poll :: bool
  be_events :: bool

record listener =
  ls_port :: int
  ls_ssl :: bool
  ls_mode :: int

text \<open>The three directories searched for a certificate; failing all, the server falls back to HTTP.\<close>

definition tls_setup :: "boot_env \<Rightarrow> int \<Rightarrow> bool \<times> int" where
  "tls_setup env mode =
     (if mode = MODE_SECURE
      then if be_ctx env \<and> (be_cert env ''storage/arws/certs'' \<or> be_cert env ''arcore/storage/arws/certs'' \<or> be_cert env ''../storage/arws/certs'')
           then (True, mode) else (False, 0)
      else (False, mode))"

definition privileged :: "int \<Rightarrow> bool" where
  "privileged port \<longleftrightarrow> port = 443 \<or> port = 80"

text \<open>The opening of the socket, with the fall-back from a privileged port to 8080, which also changes
  the configured port.\<close>

function open_listener :: "boot_env \<Rightarrow> nat \<Rightarrow> string \<Rightarrow> listener \<Rightarrow> config_state \<Rightarrow> listener option \<times> config_state" where
  "open_listener env i addr l c =
     (if \<not> be_socket env i then (None, c)
      else if \<not> be_bind env addr (ls_port l)
      then (if privileged (ls_port l)
            then open_listener env (Suc i) addr \<lparr>ls_port = 8080, ls_ssl = False, ls_mode = 0\<rparr> (arws_config_set_port 8080 c)
            else (None, c))
      else if be_listen env \<and> be_poll env \<and> be_events env then (Some l, c)
      else (None, c))"
  by pat_completeness auto
termination
  by (relation "measure (\<lambda>(env, i, addr, l, c). if privileged (ls_port l) then 1 else 0)") (auto simp: privileged_def)

declare open_listener.simps [simp del]

definition server_start :: "boot_env \<Rightarrow> string \<Rightarrow> int \<Rightarrow> int \<Rightarrow> config_state \<Rightarrow> listener option \<times> config_state" where
  "server_start env addr port mode c =
     (let (ssl, m) = tls_setup env mode in open_listener env 0 addr \<lparr>ls_port = port, ls_ssl = ssl, ls_mode = m\<rparr> c)"

section \<open>Start and stop of the gateway\<close>

record system_state =
  sys_gateway :: gateway_state
  sys_sessions :: session_state
  sys_health :: health_state
  sys_locks :: lock_state
  admin_server_fd :: int

definition set_running :: "bool \<Rightarrow> system_state \<Rightarrow> system_state" where
  "set_running b s = s\<lparr>sys_locks := (sys_locks s)\<lparr>gateway_running := b\<rparr>,
     sys_gateway := (sys_gateway s)\<lparr>queries := (queries (sys_gateway s))\<lparr>query_running := b\<rparr>\<rparr>\<rparr>"

definition arws_init :: "bool \<Rightarrow> system_state \<Rightarrow> int \<times> system_state" where
  "arws_init health_thread s =
     (let g = sys_gateway s; w = world g; cw = gw_config w;
          w1 = w\<lparr>gw_upstream := arws_upstream_init (gw_upstream w),
                 gw_config := cw\<lparr>routes := arws_route_init (routes cw)\<rparr>,
                 gw_registry := arws_registry_init,
                 gw_cache := arws_cache_set_ttl (arws_config_get_cache_ttl (cfg cw)) (arws_cache_init (gw_cache w))\<rparr>
      in (0, s\<lparr>sys_gateway := g\<lparr>world := w1, limits := arws_ratelimit_init (limits g)\<rparr>,
               sys_sessions := arws_session_init,
               sys_health := snd (arws_health_start health_thread (sys_health s)),
               sys_locks := (sys_locks s)\<lparr>dispatch_locks := replicate ARWS_MAX_BACKENDS False\<rparr>\<rparr>))"

text \<open>\<open>admin_fd\<close> is what \<open>ar_ipc_server_start\<close> returns. While it waits for the first registration the applications
  already connect: the state the HTTP server starts in is the parameter \<open>arrived\<close>.\<close>

definition arws_start ::
  "boot_env \<Rightarrow> string \<Rightarrow> int \<Rightarrow> (system_state \<Rightarrow> system_state) \<Rightarrow> int \<Rightarrow> int \<Rightarrow> system_state \<Rightarrow> int \<times> listener option \<times> system_state" where
  "arws_start env addr admin_fd arrived port mode s =
     (if gateway_running (sys_locks s) then (0, None, s)
      else let s1 = set_running True (s\<lparr>sys_gateway := (sys_gateway s)\<lparr>admin_client_fds := []\<rparr>, admin_server_fd := admin_fd\<rparr>) in
        if admin_fd < 0 then (-1, None, set_running False s1)
        else let s2 = arrived s1; g = sys_gateway s2; w = world g;
                 (l, c) = server_start env addr port mode (cfg (gw_config w));
                 s3 = s2\<lparr>sys_gateway := set_config ((gw_config w)\<lparr>cfg := c\<rparr>) g\<rparr>
             in if l = None then (-1, None, set_running False s3) else (0, l, s3))"

text \<open>The descriptors closed are the second result: the listening one, the applications', the backends'.\<close>

definition arws_stop :: "system_state \<Rightarrow> system_state \<times> int list" where
  "arws_stop s =
     (let s1 = set_running False s; g = sys_gateway s1; w = world g;
          (fds, rg) = arws_close_all_backends (gw_registry w);
          clients = filter (\<lambda>fd. fd \<ge> 0) (admin_client_fds g);
          c = arws_config_watchdog_stop (cfg (gw_config w));
          w1 = w\<lparr>gw_upstream := arws_upstream_cleanup (gw_upstream w), gw_config := (gw_config w)\<lparr>cfg := c\<rparr>, gw_registry := rg\<rparr>
      in (s1\<lparr>sys_gateway := g\<lparr>world := w1, admin_client_fds := []\<rparr>, sys_health := arws_health_stop (sys_health s1), admin_server_fd := -1\<rparr>,
          (if admin_server_fd s1 \<ge> 0 then [admin_server_fd s1] else []) @ clients @ fds))"

text \<open>Set up, read the configuration, start.\<close>

definition arws_entry ::
  "'d config_env \<Rightarrow> boot_env \<Rightarrow> bool \<Rightarrow> int \<Rightarrow> (system_state \<Rightarrow> system_state) \<Rightarrow> system_state \<Rightarrow> int \<times> listener option \<times> system_state" where
  "arws_entry cenv env health_thread admin_fd arrived s =
     (case arws_init health_thread s of
        (rc, s1) \<Rightarrow>
          if rc \<noteq> 0 then (-1, None, s1)
          else let g = sys_gateway s1;
                   (_, w1) = arws_config_load cenv (Some ''storage/arws/arws.cfg'') (gw_config (world g));
                   (port, w2) = arws_config_get_port cenv w1;
                   (mode, w3) = arws_config_get_operation_mode cenv w2;
                   (addr, w4) = arws_config_get_bind_address cenv w3
               in (case arws_start env addr admin_fd arrived port mode (s1\<lparr>sys_gateway := set_config w4 g\<rparr>) of
                     (rc2, l, s2) \<Rightarrow> (if rc2 \<noteq> 0 then -1 else 0, l, s2)))"

section \<open>The compatibility layer and the older server\<close>

definition modes_get_effective :: "string \<Rightarrow> string \<Rightarrow> config_state \<Rightarrow> string" where
  "modes_get_effective host path c = arws_config_get_effective_mode host path None c"

definition modes_set_global :: "'d config_env \<Rightarrow> string \<Rightarrow> config_world \<Rightarrow> int \<times> config_world" where
  "modes_set_global cenv mode w = arws_config_set_global cenv mode w"

definition modes_get_global :: "config_state \<Rightarrow> string" where
  "modes_get_global c = arws_config_get_global_mode c"

text \<open>\<open>bemf_entry\<close>: plain HTTP on port 8080 with the page table.\<close>

definition bemf_entry ::
  "boot_env \<Rightarrow> (nat \<Rightarrow> bool) \<Rightarrow> string \<Rightarrow> PageRoute list list \<Rightarrow> config_state \<Rightarrow> mem_error + (int \<times> RateLimitEntry list \<times> PageRoute list list \<times> config_state)" where
  "bemf_entry env mem addr tab c =
     (case api_plugin_init mem tab of
        Inl e \<Rightarrow> Inl e
      | Inr tab' \<Rightarrow>
          (case server_start env addr 8080 MODE_INSECURE c of
             (l, c') \<Rightarrow> Inr (if l = None then -1 else 0, ratelimit_init, tab', c')))"

end
