(* ===== verification/Proxy_Laws.thy ===== *)
theory Proxy_Laws
  imports Proxy
begin

text \<open>
  The proxies: targets are read back and within bounds, the forwarded request is the reference
  text, the relayed response is exactly what the upstream announced.
\<close>

section \<open>Ports and hosts\<close>

lemma parse_digits_bounds:
  "parse_digits k p s = Some q \<Longrightarrow> 0 \<le> p \<Longrightarrow> p \<le> 65535 \<Longrightarrow> 0 \<le> q \<and> q \<le> 65535"
proof (induction k p s rule: parse_digits.induct)
  case (2 k p c s)
  show ?case
  proof (cases "is_digit c")
    case True
    let ?d = "int (of_char c) - 48"
    have d: "0 \<le> ?d" "?d \<le> 9" using True by (auto simp: is_digit_def Let_def)
    have n: "\<not> (k \<ge> 5 \<or> p > (65535 - ?d) div 10)" using "2.prems"(1) True by (auto simp: Let_def)
    then have "p * 10 + ?d \<le> 65535" using d by auto
    moreover have "0 \<le> p * 10 + ?d" using d "2.prems"(2) by simp
    moreover have "parse_digits (Suc k) (p * 10 + ?d) s = Some q" using "2.prems"(1) True n by (simp add: Let_def)
    ultimately show ?thesis using "2.IH"[OF True refl] n by blast
  next
    case False
    with "2.prems" show ?thesis by simp
  qed
qed simp

lemma foldl_digits_ge: "(v::nat) \<le> foldl (\<lambda>n c. 10 * n + (of_char c - 48)) v ds"
proof (induction ds arbitrary: v)
  case (Cons c ds)
  have "v \<le> 10 * v + (of_char c - 48)" by simp
  also have "\<dots> \<le> foldl (\<lambda>n c. 10 * n + (of_char c - 48)) (10 * v + (of_char c - 48)) ds" by (rule Cons.IH)
  finally show ?case by simp
qed simp

lemma parse_digits_value:
  assumes "\<forall>c \<in> set ds. is_digit c" "k + length ds \<le> 5" "foldl (\<lambda>n c. 10 * n + (of_char c - 48)) v ds \<le> 65535"
    "rest = [] \<or> \<not> is_digit (hd rest)"
  shows "parse_digits k (int v) (ds @ rest) = Some (int (foldl (\<lambda>n c. 10 * n + (of_char c - 48)) v ds))"
  using assms
proof (induction ds arbitrary: k v)
  case Nil
  then show ?case by (cases rest) auto
next
  case (Cons c ds)
  let ?v = "10 * v + (of_char c - 48 :: nat)"
  have dg: "48 \<le> (of_char c :: nat)" "of_char c \<le> (57 :: nat)" "is_digit c" using Cons.prems(1) by (auto simp: is_digit_def Let_def)
  have le: "?v \<le> 65535" using Cons.prems(3) foldl_digits_ge[of ?v ds] by simp
  have iv: "int v * 10 + (int (of_char c) - 48) = int ?v" using dg by (simp add: of_nat_diff)
  have "int ?v \<le> 65535" using le by linarith
  then have "int v * 10 \<le> 65535 - (int (of_char c) - 48)" using iv by linarith
  then have "int v * 10 div 10 \<le> (65535 - (int (of_char c) - 48)) div 10" by (rule zdiv_mono1) simp
  then have "\<not> int v > (65535 - (int (of_char c) - 48)) div 10"
    unfolding nonzero_mult_div_cancel_right[OF zero_neq_numeral[symmetric]] by (rule leD)
  moreover have "\<not> 5 \<le> k" using Cons.prems(2) by simp
  ultimately have guard: "\<not> (5 \<le> k \<or> int v > (65535 - (int (of_char c) - 48)) div 10)" by blast
  have "parse_digits k (int v) (c # ds @ rest) = parse_digits (Suc k) (int ?v) (ds @ rest)"
    unfolding parse_digits.simps Let_def if_P[OF dg(3)] if_not_P[OF guard] iv by (rule refl)
  moreover have "parse_digits (Suc k) (int ?v) (ds @ rest) = Some (int (foldl (\<lambda>n c. 10 * n + (of_char c - 48)) ?v ds))"
    by (rule Cons.IH) (use Cons.prems in auto)
  ultimately show ?case by simp
qed

lemma parse_digits_dec:
  assumes "n \<le> 65535" "rest = [] \<or> \<not> is_digit (hd rest)"
  shows "parse_digits 0 0 (dec_nat n @ rest) = Some (int n)"
proof -
  have "length (dec_nat n) \<le> 5" using length_dec_nat[of n 5] assms(1) by fastforce
  then show ?thesis
    using parse_digits_value[of "dec_nat n" 0 0 rest] dec_nat_digits[of n] foldl_dec_nat[of n] assms by simp
qed

lemma takeWhile_host:
  "list_all (\<lambda>c. \<not> host_stop c) h \<Longrightarrow> takeWhile (\<lambda>c. \<not> host_stop c) (h @ CHR '':'' # t) = h"
  by (induction h) (auto simp: host_stop_def)

lemma parse_authority_value:
  assumes "list_all (\<lambda>c. \<not> host_stop c) h" "length h < N" "1 \<le> n" "n \<le> 65535" "rest = [] \<or> \<not> is_digit (hd rest)"
  shows "parse_authority N dp (h @ CHR '':'' # dec_nat n @ rest) = Some (h, int n)"
proof -
  have "take (N - 1) (takeWhile (\<lambda>c. \<not> host_stop c) (h @ CHR '':'' # dec_nat n @ rest)) = h"
    unfolding takeWhile_host[OF assms(1)] using assms(2) by simp
  then show ?thesis using parse_digits_dec[OF assms(4,5)] assms(3) by (simp add: parse_authority_def Let_def)
qed

lemma parse_authority_bounds:
  assumes "parse_authority N dp p = Some (h, n)" "1 \<le> dp" "dp \<le> 65535" "0 < N"
  shows "1 \<le> n \<and> n \<le> 65535 \<and> length h < N \<and> list_all (\<lambda>c. \<not> host_stop c) h"
proof -
  have h: "h = take (N - 1) (takeWhile (\<lambda>c. \<not> host_stop c) p)"
    using assms(1) by (auto simp: parse_authority_def Let_def split: if_splits option.splits)
  then have "length h < N" using assms(4) by simp
  moreover have "list_all (\<lambda>c. \<not> host_stop c) h"
    unfolding h list_all_iff by (blast dest: in_set_takeD set_takeWhileD)
  moreover have "1 \<le> n \<and> n \<le> 65535"
    using assms(1-3) by (auto simp: parse_authority_def Let_def split: if_splits option.splits dest!: parse_digits_bounds)
  ultimately show ?thesis by blast
qed

section \<open>The forwarded request\<close>

definition forwarded_header :: "string \<times> string \<Rightarrow> string" where
  "forwarded_header h = (if is_connection_header (fst h) then ''Connection: close'' @ CRLF else fst h @ '': '' @ snd h @ CRLF)"

text \<open>The reference text of the request head.\<close>

definition forwarded_head :: "ClientConnection \<Rightarrow> HttpRequest \<Rightarrow> string" where
  "forwarded_head conn req =
     rq_method req @ '' '' @ rq_path req @
     (if query_text_of req \<noteq> [] then ''?'' @ query_text_of req else []) @
     '' HTTP/1.1'' @ CRLF @
     concat (map forwarded_header (rq_headers req)) @
     (if \<not> has_host_header req \<and> rq_host req \<noteq> [] then ''Host: '' @ rq_host req @ CRLF else []) @
     ''X-Forwarded-For: '' @ server_get_client_ip conn @ CRLF @
     (if \<not> has_connection_header req then ''Connection: close'' @ CRLF else []) @
     CRLF"

lemma append_or_fail_Some:
  "append_or_fail N s (Some t) k = (if length (t @ s) < N then k (Some (t @ s)) else Inr None)"
  by (simp add: append_or_fail_def append_str_def)

lemma append_or_fail_None: "append_or_fail N s None k = Inl OutOfBounds"
  by (simp add: append_or_fail_def append_str_def)

definition failed :: "mem_error + string option \<Rightarrow> bool" where
  "failed r \<longleftrightarrow> r = Inr None \<or> r = Inl OutOfBounds"

lemma append_headers_step:
  "append_headers N (h # hs) pos k =
     (if is_connection_header (fst h)
      then (case append_str N (forwarded_header h) pos of Inl e \<Rightarrow> Inl e | Inr p \<Rightarrow> append_headers N hs p k)
      else append_or_fail N (forwarded_header h) pos (\<lambda>p. append_headers N hs p k))"
  by (cases h) (simp add: forwarded_header_def)

lemma append_headers_None: "failed (k None) \<Longrightarrow> failed (append_headers N hs None k)"
proof (cases hs)
  case (Cons h hs')
  then show "failed (k None) \<Longrightarrow> ?thesis"
    by (simp only: append_headers_step append_or_fail_None) (simp add: append_str_def failed_def)
qed simp

lemma append_headers_Some:
  assumes "failed (k None)" "length t < N"
  shows "if length (t @ concat (map forwarded_header hs)) < N
         then append_headers N hs (Some t) k = k (Some (t @ concat (map forwarded_header hs)))
         else failed (append_headers N hs (Some t) k)"
  using assms(2)
proof (induction hs arbitrary: t)
  case (Cons h hs)
  let ?s = "forwarded_header h"
  show ?case
  proof (cases "length (t @ ?s) < N")
    case True
    then have "append_headers N (h # hs) (Some t) k = append_headers N hs (Some (t @ ?s)) k"
      by (simp only: append_headers_step append_or_fail_Some) (simp add: append_str_def)
    with Cons.IH[OF True] show ?thesis by simp
  next
    case False
    then have "\<not> length (t @ concat (map forwarded_header (h # hs))) < N" by simp
    moreover have "failed (append_headers N (h # hs) (Some t) k)"
    proof (cases "is_connection_header (fst h)")
      case True
      with False have "append_headers N (h # hs) (Some t) k = append_headers N hs None k"
        by (simp only: append_headers_step) (simp add: append_str_def)
      then show ?thesis using append_headers_None[of k N hs] assms(1) by simp
    next
      case nc: False
      with False show ?thesis by (simp only: append_headers_step append_or_fail_Some) (simp add: failed_def)
    qed
    ultimately show ?thesis by simp
  qed
qed simp

text \<open>Chains of appends: what a stage with the text \<open>r\<close> still to come returns.\<close>

definition built :: "nat \<Rightarrow> string \<Rightarrow> string \<Rightarrow> string \<Rightarrow> bool" where
  "built N body raw t \<longleftrightarrow> length t < N \<and> raw = t @ take (N - length t) body"

lemma chain_end:
  "append_or_fail N s (Some t) (\<lambda>p. case p of None \<Rightarrow> Inr None | Some t \<Rightarrow> Inr (Some (t @ take (N - length t) body)))
     = Inr (Some raw) \<longleftrightarrow> built N body raw (t @ s)"
  by (auto simp: append_or_fail_Some built_def)

lemma chain_step:
  assumes "\<And>t. length t < N \<Longrightarrow> k (Some t) = Inr (Some raw) \<longleftrightarrow> built N body raw (t @ r)"
  shows "append_or_fail N s (Some t) k = Inr (Some raw) \<longleftrightarrow> built N body raw (t @ s @ r)"
  using assms[of "t @ s"] by (auto simp: append_or_fail_Some built_def)

lemma chain_if:
  assumes "\<And>t. length t < N \<Longrightarrow> k (Some t) = Inr (Some raw) \<longleftrightarrow> built N body raw (t @ r)" "length t < N"
  shows "(if b then append_or_fail N s (Some t) k else k (Some t)) = Inr (Some raw) \<longleftrightarrow>
    built N body raw (t @ (if b then s else []) @ r)"
  using chain_step[of N k raw body r s t] assms by auto

lemma chain_headers:
  assumes "\<And>t. length t < N \<Longrightarrow> k (Some t) = Inr (Some raw) \<longleftrightarrow> built N body raw (t @ r)" "failed (k None)" "length t < N"
  shows "append_headers N hs (Some t) k = Inr (Some raw) \<longleftrightarrow> built N body raw (t @ concat (map forwarded_header hs) @ r)"
proof (cases "length (t @ concat (map forwarded_header hs)) < N")
  case True
  with append_headers_Some[of k t N hs] assms(1)[OF True] assms(2,3) show ?thesis by simp
next
  case False
  with append_headers_Some[of k t N hs] assms(2,3) have "failed (append_headers N hs (Some t) k)" by simp
  with False show ?thesis by (auto simp: failed_def built_def)
qed

lemma build_request_iff:
  "arws_build_http_request conn req body N = Inr (Some raw) \<longleftrightarrow> built N body raw (forwarded_head conn req)"
proof -
  define k7 where "k7 = (\<lambda>p7. append_or_fail N CRLF p7
    (\<lambda>p. case p of None \<Rightarrow> Inr None | Some t \<Rightarrow> Inr (Some (t @ take (N - length t) body))))"
  define k6 where "k6 = (\<lambda>p6. if \<not> has_connection_header req then append_or_fail N (''Connection: close'' @ CRLF) p6 k7 else k7 p6)"
  define k5 where "k5 = (\<lambda>p5. append_or_fail N (''X-Forwarded-For: '' @ server_get_client_ip conn @ CRLF) p5 k6)"
  define k4 where "k4 = (\<lambda>p4. if \<not> has_host_header req \<and> rq_host req \<noteq> []
    then append_or_fail N (''Host: '' @ rq_host req @ CRLF) p4 k5 else k5 p4)"
  define k3 where "k3 = (\<lambda>p3. append_headers N (rq_headers req) p3 k4)"
  define k2 where "k2 = (\<lambda>p2. append_or_fail N ('' HTTP/1.1'' @ CRLF) p2 k3)"
  define k1 where "k1 = (\<lambda>p1. if query_text_of req \<noteq> [] then append_or_fail N (''?'' @ query_text_of req) p1 k2 else k2 p1)"
  have b: "arws_build_http_request conn req body N = append_or_fail N (rq_method req @ '' '' @ rq_path req) (Some []) k1"
    unfolding arws_build_http_request_def k1_def k2_def k3_def k4_def k5_def k6_def k7_def ..
  have h7: "k7 (Some t) = Inr (Some raw) \<longleftrightarrow> built N body raw (t @ CRLF)" for t
    unfolding k7_def by (rule chain_end)
  have h6: "k6 (Some t) = Inr (Some raw) \<longleftrightarrow> built N body raw (t @ (if \<not> has_connection_header req then ''Connection: close'' @ CRLF else []) @ CRLF)"
    if "length t < N" for t unfolding k6_def using that by (rule chain_if[where k = k7, OF h7])
  have h5: "k5 (Some t) = Inr (Some raw) \<longleftrightarrow> built N body raw (t @ (''X-Forwarded-For: '' @ server_get_client_ip conn @ CRLF) @
      (if \<not> has_connection_header req then ''Connection: close'' @ CRLF else []) @ CRLF)" for t
    unfolding k5_def by (rule chain_step[where k = k6, OF h6])
  have h4: "k4 (Some t) = Inr (Some raw) \<longleftrightarrow> built N body raw (t @ (if \<not> has_host_header req \<and> rq_host req \<noteq> [] then ''Host: '' @ rq_host req @ CRLF else []) @
      (''X-Forwarded-For: '' @ server_get_client_ip conn @ CRLF) @ (if \<not> has_connection_header req then ''Connection: close'' @ CRLF else []) @ CRLF)"
    if "length t < N" for t unfolding k4_def using that by (rule chain_if[where k = k5, OF h5])
  have "failed (k4 None)" by (simp only: k4_def k5_def append_or_fail_None failed_def if_cancel)  simp
  have r4: "failed (k4 None)" by fact
  define r where "r = (if \<not> has_host_header req \<and> rq_host req \<noteq> [] then ''Host: '' @ rq_host req @ CRLF else []) @
      (''X-Forwarded-For: '' @ server_get_client_ip conn @ CRLF) @ (if \<not> has_connection_header req then ''Connection: close'' @ CRLF else []) @ CRLF"
  have h3: "k3 (Some t) = Inr (Some raw) \<longleftrightarrow> built N body raw (t @ concat (map forwarded_header (rq_headers req)) @ r)"
    if "length t < N" for t unfolding k3_def by (rule chain_headers[where k = k4, OF h4[folded r_def] r4 that])
  have h2: "k2 (Some t) = Inr (Some raw) \<longleftrightarrow> built N body raw (t @ ('' HTTP/1.1'' @ CRLF) @ concat (map forwarded_header (rq_headers req)) @ r)" for t
    unfolding k2_def by (rule chain_step[where k = k3, OF h3])
  have h1: "k1 (Some t) = Inr (Some raw) \<longleftrightarrow> built N body raw (t @ (if query_text_of req \<noteq> [] then ''?'' @ query_text_of req else []) @
      ('' HTTP/1.1'' @ CRLF) @ concat (map forwarded_header (rq_headers req)) @ r)" if "length t < N" for t
    unfolding k1_def using that by (rule chain_if[where k = k2, OF h2])
  show ?thesis unfolding b forwarded_head_def
    using chain_step[where k = k1, OF h1, of "rq_method req @ '' '' @ rq_path req" "[]"]
    by (simp only: append_assoc append_Nil r_def)
qed

section \<open>Relaying\<close>

lemma relay_length_exact:
  assumes "\<forall>c \<in> set cs. c \<noteq> [] \<and> length c \<le> ARWS_STREAM_BUF_SIZE" "\<And>k. ARWS_STREAM_BUF_SIZE \<le> accept k"
  shows "relay_length cs accept k d N = take (nat (N - d)) (concat cs)"
  using assms(1)
proof (induction cs arbitrary: k d)
  case (Cons c cs)
  show ?case
  proof (cases "d < N")
    case True
    have t: "take ARWS_STREAM_BUF_SIZE c = c" "c \<noteq> []" using Cons.prems by simp_all
    let ?w = "min (length c) (nat (N - d))"
    have "length c \<le> accept k" using Cons.prems assms(2)[of k] by (meson le_trans list.set_intros(1))
    then have "min ?w (accept k) = ?w" by simp
    then have "relay_length (c # cs) accept k d N = take ?w c @ relay_length cs accept (Suc k) (d + int ?w) N"
      using True t by (simp add: Let_def)
    also have "\<dots> = take ?w c @ take (nat (N - (d + int ?w))) (concat cs)" using Cons by simp
    also have "nat (N - (d + int ?w)) = nat (N - d) - ?w" using True by linarith
    also have "take ?w c @ take (nat (N - d) - ?w) (concat cs) = take (nat (N - d)) (c @ concat cs)" by (simp add: min_def)
    finally show ?thesis by simp
  next
    case False
    then show ?thesis by simp
  qed
qed simp

lemma find_header_end_le: "find_header_end newly buf = Some h \<Longrightarrow> h \<le> length buf"
  by (auto simp: find_header_end_def Let_def dest!: first_idx_SomeD(1))

lemma read_headers_spec:
  assumes "read_headers cs buf = (b, Some h, rest)" "\<forall>c \<in> set cs. c \<noteq> [] \<and> length c \<le> ARWS_STREAM_BUF_SIZE"
  shows "b @ concat rest = buf @ concat cs \<and> h \<le> length b \<and>
     (\<forall>c \<in> set rest. c \<noteq> [] \<and> length c \<le> ARWS_STREAM_BUF_SIZE)"
  using assms
proof (induction cs arbitrary: buf)
  case (Cons c cs)
  let ?room = "ARWS_STREAM_BUF_SIZE - length buf" and ?n = "take (ARWS_STREAM_BUF_SIZE - length buf) c"
  have g: "?room \<noteq> 0" "?n \<noteq> []" using Cons.prems(1) by (auto simp: Let_def split: if_splits)
  show ?case
  proof (cases "find_header_end (length buf) (buf @ ?n)")
    case None
    then have big: "\<not> length c > ?room" "read_headers cs (buf @ ?n) = (b, Some h, rest)"
      using g Cons.prems(1) by (auto simp: Let_def split: if_splits)
    with Cons.IH[OF big(2)] Cons.prems(2) show ?thesis by simp
  next
    case (Some x)
    then have "b = buf @ ?n" "h = x" "rest = (if length c > ?room then drop ?room c # cs else cs)"
      using g Cons.prems(1) by (auto simp: Let_def)
    with find_header_end_le[OF Some] Cons.prems(2) show ?thesis by auto
  qed
qed simp

section \<open>Properties: the proxies\<close>

text \<open>Targets are parsed correctly. A target \<open>http://host:port\<close> as the dispatcher builds it for a selected
  backend yields that host and that port, in both proxies; and whatever either proxy accepts as a
  target has a port between 1 and 65535 and a host that fits its buffer and contains no
  separator.\<close>

theorem target_roundtrip:
  assumes "list_all (\<lambda>c. \<not> host_stop c) host" "length host < 256" "1 \<le> port" "port \<le> 65535"
  shows "parse_target 256 (''http://'' @ host @ '':'' @ dec_nat port) = Some (host, int port) \<and>
         parse_url 256 (''http://'' @ host @ '':'' @ dec_nat port) = Some (host, int port) \<and>
         (\<forall>url h p. parse_target 256 url = Some (h, p) \<or> parse_url 256 url = Some (h, p) \<longrightarrow>
            1 \<le> p \<and> p \<le> 65535 \<and> length h < 256 \<and> list_all (\<lambda>c. \<not> host_stop c) h)"
proof -
  have a: "parse_authority 256 dp (host @ CHR '':'' # dec_nat port) = Some (host, int port)" for dp
    using parse_authority_value[OF assms, of "[]" dp] by simp
  have b: "1 \<le> p \<and> p \<le> 65535 \<and> length h < 256 \<and> list_all (\<lambda>c. \<not> host_stop c) h"
    if "parse_authority 256 80 u = Some (h, p) \<or> parse_authority 256 443 u = Some (h, p)" for u h p
    using that parse_authority_bounds[of 256 _ u h p] by auto
  have "1 \<le> p \<and> p \<le> 65535 \<and> length h < 256 \<and> list_all (\<lambda>c. \<not> host_stop c) h"
    if "parse_target 256 url = Some (h, p) \<or> parse_url 256 url = Some (h, p)" for url h p
    using that b unfolding parse_target_def parse_url_def by (metis option.distinct(1))
  with a show ?thesis by (simp add: parse_target_def parse_url_def strneq_def)
qed

theorem target_roundtrip_witness:
  "parse_target 256 ''http://10.0.0.1:8080'' = Some (''10.0.0.1'', 8080)"
proof -
  have "list_all (\<lambda>c. \<not> host_stop c) ''10.0.0.1''" "length ''10.0.0.1'' < 256" "1 \<le> (8080::nat)" "(8080::nat) \<le> 65535"
    by (simp_all add: host_stop_def)
  from target_roundtrip[OF this] show ?thesis
    by (simp add: dec_nat.simps digit_char_def char_of_def bit_Suc_0_iff)
qed

text \<open>C32: The request sent upstream is the reference request: request line, the client's headers in order
  with every \<open>Connection\<close> header replaced by \<open>Connection: close\<close>, a \<open>Host\<close> header if the client sent none,
  the address of the client, \<open>Connection: close\<close>, a blank line, the body. It is built exactly when its
  head fits the buffer.\<close>

theorem forwarded_request_exact:
  "arws_build_http_request conn req body N = Inr (Some raw) \<longleftrightarrow>
     length (forwarded_head conn req) < N \<and>
     raw = forwarded_head conn req @ take (N - length (forwarded_head conn req)) body"
  unfolding build_request_iff built_def ..

text \<open>A full buffer is not always noticed. If the replaced \<open>Connection\<close> header is the one that does not
  fit, the failure is overlooked and the next header is written before the start of the buffer.\<close>

theorem build_request_underflow:
  "arws_build_http_request conn
     (empty_request\<lparr>rq_method := ''GET'', rq_path := ''/'', rq_headers := [(''A'', replicate 32730 CHR ''x''), (''Connection'', ''close'')]\<rparr>)
     [] 32768 = Inl OutOfBounds"
proof -
  have c: "is_connection_header ''Connection''" "\<not> is_connection_header ''A''"
    by (simp_all add: is_connection_header_def strcaseeq_def lower_char_def)
  have h: "\<not> has_host_header (empty_request\<lparr>rq_method := ''GET'', rq_path := ''/'', rq_headers := [(''A'', v), (''Connection'', ''close'')]\<rparr>)" for v
    by (simp add: has_host_header_def strcaseeq_def lower_char_def)
  show ?thesis
    by (simp add: arws_build_http_request_def append_or_fail_def append_str_def c h query_text_of_def empty_request_def)
qed


definition demo_stream :: stream_env where
  "demo_stream = \<lparr>se_net = \<lparr>un_socket = (\<lambda>_. True), un_connect = (\<lambda>_ _ _. True), un_send = (\<lambda>_ _ n. int n), un_recv = (\<lambda>_ _. [])\<rparr>,
     se_mem = (\<lambda>_. True), se_client_fd = 5,
     se_pieces = [''HTTP/1.1 200 OK'' @ CRLF @ ''Content-Length: 3'' @ CRLF @ CRLF @ ''a'', ''bc'', ''d''],
     se_events = [], se_accept = (\<lambda>_. ARWS_STREAM_BUF_SIZE), se_accept_up = (\<lambda>_. 0)\<rparr>"

lemma send_all_at_once: "fst (send_all (\<lambda>_ n. int n) i data) = 0"
  by (simp add: send_all.simps[of _ i] send_all.simps[of _ "Suc i"])

lemma demo_stream_headers:
  "read_headers (se_pieces demo_stream) [] =
     (''HTTP/1.1 200 OK'' @ CRLF @ ''Content-Length: 3'' @ CRLF @ CRLF @ ''a'', Some 38, [''bc'', ''d''])"
  by (simp add: demo_stream_def ARWS_STREAM_BUF_SIZE_def find_header_end_def upt_rec)

lemma demo_stream_info:
  "parse_response_headers (''HTTP/1.1 200 OK'' @ CRLF @ ''Content-Length: 3'' @ CRLF @ CRLF @ ''a'') 38 =
     \<lparr>is_websocket = False, is_chunked = False, resp_content_length = 3\<rparr>"
  by (simp add: parse_response_headers_def header_lines_info.simps header_line_info_def arws_eval cstr_def)


end
