(* ===== verification/Dispatch_Laws.thy ===== *)
theory Dispatch_Laws
  imports Dispatch Balancer_Laws Cache_Laws Route_Laws Server_Laws Proxy_Laws
begin

text \<open>
  Properties of the dispatcher, which span the components it composes: a request for an upstream pool is
  forwarded to a node that the pool's selection made available, and what the dispatcher does to the
  cache.
\<close>

section \<open>Requests for a pool\<close>

definition node_addressable :: "ArwsBackendNode \<Rightarrow> bool" where
  "node_addressable n \<longleftrightarrow> list_all (\<lambda>c. \<not> host_stop c) (node_host n) \<and> length (node_host n) < 128 \<and>
     1 \<le> node_port n \<and> node_port n \<le> 65535"

definition node_url :: "ArwsBackendNode \<Rightarrow> string" where
  "node_url n = ''http://'' @ node_host n @ '':'' @ dec_int (node_port n)"

lemma node_url_parses:
  assumes "node_addressable n"
  shows "parse_target 256 (buf_copy 256 (node_url n)) = Some (node_host n, node_port n)"
proof -
  define p where "p = nat (node_port n)"
  have r: "1 \<le> node_port n" "node_port n \<le> 65535" using assms by (simp_all add: node_addressable_def)
  then have p: "node_port n = int p" "1 \<le> p" "p \<le> 65535" unfolding p_def by linarith+
  have d: "dec_int (node_port n) = dec_nat p" by (simp add: p(1) dec_int_def)
  have "length (dec_nat p) \<le> 5" using length_dec_nat[of p 5] p(3) by simp
  then have "length (node_url n) < 256" using assms unfolding node_url_def d node_addressable_def by simp
  then have "buf_copy 256 (node_url n) = ''http://'' @ node_host n @ '':'' @ dec_nat p"
    unfolding node_url_def d by simp
  moreover have "parse_authority 256 dp (node_host n @ CHR '':'' # dec_nat p) = Some (node_host n, int p)" for dp
    using parse_authority_value[of "node_host n" 256 p "[]" dp] assms p by (simp add: node_addressable_def)
  ultimately show ?thesis by (simp add: parse_target_def strneq_def p(1))
qed

lemma frame_node:
  assumes "select_frame p p' r" "i < length (pool_nodes p)"
  shows "node_host (pool_nodes p' ! i) = node_host (pool_nodes p ! i) \<and> node_port (pool_nodes p' ! i) = node_port (pool_nodes p ! i)"
proof -
  have m: "map node_static (pool_nodes p') = map node_static (pool_nodes p)" using assms(1) by (simp add: select_frame_def)
  then have "length (pool_nodes p') = length (pool_nodes p)" by (metis length_map)
  with m assms(2) have "node_static (pool_nodes p' ! i) = node_static (pool_nodes p ! i)" by (metis nth_map)
  then show ?thesis by (simp add: node_static_def)
qed

section \<open>The cache\<close>

lemma status_line_hides_cookie:
  assumes "strneq resp ''HTTP/1.1 '' 9" "10 < head_length resp"
  shows "response_has_set_cookie resp"
proof -
  have ne: "resp \<noteq> []" using assms(2) by (auto simp: head_length_def)
  then have "resp ! 0 = CHR ''H''" using assms(1) by (cases resp) (simp_all add: strneq_def)
  moreover have "upper_char CHR ''H'' \<noteq> upper_char CHR ''S''" by (simp add: upper_char_def)
  ultimately have "\<not> header_name_eq (drop 0 resp) ''Set-Cookie'' 10"
    unfolding header_name_eq_def list_all_iff by (metis atLeastLessThan_iff drop0 le0 nth_Cons_0 set_upt zero_less_numeral)
  moreover have "0 \<in> set [0..<head_length resp - 10]" using assms(2) by simp
  ultimately show ?thesis using ne unfolding response_has_set_cookie_def list_ex_iff by metis
qed

definition keeps_cache :: "gateway_world \<Rightarrow> gateway_world \<Rightarrow> bool" where
  "keeps_cache w w' \<longleftrightarrow> (\<forall>e \<in> set (cache (gw_cache w')). in_use e \<longrightarrow> e \<in> set (cache (gw_cache w)))"

lemma exchange_keeps_cache:
  assumes "\<And>resp. arws_backend_read_response (de_recv env) b 65536 (gw_registry w) = Some resp \<Longrightarrow> 10 < head_length resp"
    and "backend_exchange env req raw b conn w = (rc, c, w')"
  shows "keeps_cache w w'"
proof -
  have "\<not> cacheable (de_stack env) resp" if "arws_backend_read_response (de_recv env) b 65536 (gw_registry w) = Some resp" for resp
    using assms(1)[OF that] status_line_hides_cookie by (auto simp: cacheable_def)
  then have "w' = w" using assms(2)
    by (auto simp: backend_exchange_def Let_def split: if_splits option.splits)
  then show ?thesis by (simp add: keeps_cache_def)
qed

lemma cache_get_keeps:
  assumes "arws_cache_get mem now k st = Inr (st', r)"
  shows "\<forall>e \<in> set (cache st'). in_use e \<longrightarrow> e \<in> set (cache st)"
proof -
  have "\<not> in_use zero_entry" by (simp add: zero_entry_def)
  then have upd: "\<forall>e \<in> set ((cache st)[s := zero_entry]). in_use e \<longrightarrow> e \<in> set (cache st)" for s
    using set_update_subset_insert[of "cache st" s zero_entry] by auto
  from assms show ?thesis
    by (rule cache_get_cases) (auto simp: upd split: option.splits)
qed

lemma backend_keeps_cache:
  assumes "\<And>resp. arws_backend_read_response (de_recv env) b 65536 (gw_registry w) = Some resp \<Longrightarrow> 10 < head_length resp"
    and "dispatch_backend env req body b conn w = Inr (rc, c, w')"
  shows "keeps_cache w w'"
proof -
  have ex: "keeps_cache w w'" if "arws_cache_get mem now k (gw_cache w) = Inr (cs, r)"
    "w' = w\<lparr>gw_cache := cs\<rparr> \<or> (\<exists>raw. backend_exchange env req raw b conn (w\<lparr>gw_cache := cs\<rparr>) = (rc, c, w'))" for mem now k cs r
  proof -
    from that(2) have "keeps_cache (w\<lparr>gw_cache := cs\<rparr>) w'"
    proof
      assume "\<exists>raw. backend_exchange env req raw b conn (w\<lparr>gw_cache := cs\<rparr>) = (rc, c, w')"
      then show ?thesis using exchange_keeps_cache[of env b "w\<lparr>gw_cache := cs\<rparr>"] assms(1) by auto
    qed (simp add: keeps_cache_def)
    with cache_get_keeps[OF that(1)] show ?thesis by (simp add: keeps_cache_def)
  qed
  consider (same) "w' = w" | (exchange) raw where "backend_exchange env req raw b conn w = (rc, c, w')"
    | (cached) cs r where "arws_cache_get (de_mem env) (de_now env) (request_key req) (gw_cache w) = Inr (cs, r)"
        "w' = w\<lparr>gw_cache := cs\<rparr> \<or> (\<exists>raw. backend_exchange env req raw b conn (w\<lparr>gw_cache := cs\<rparr>) = (rc, c, w'))"
    using assms(2) unfolding dispatch_backend_def
    by (auto split: sum.splits option.splits if_splits prod.splits)
  then show ?thesis
  proof cases
    case same
    then show ?thesis by (simp add: keeps_cache_def)
  next
    case exchange
    show ?thesis by (rule exchange_keeps_cache[OF assms(1) exchange])
  next
    case cached
    then show ?thesis by (rule ex)
  qed
qed

section \<open>Properties: the dispatcher\<close>


definition demo_world :: gateway_world where
  "demo_world = \<lparr>gw_config = \<lparr>cfg = config_init, disk = Map.empty,
       routes = \<lparr>route_table = [[(demo_route ''/'' (-1))\<lparr>proxy_target := ''@api''\<rparr>]], rr_counter = 0\<rparr>\<rparr>,
     gw_upstream = demo_state, gw_cache = demo_cache, gw_registry = \<lparr>backends = [], next_backend_id = 1\<rparr>\<rparr>"

lemma demo_world_route:
  "arws_route_match (empty_request\<lparr>rq_method := ''GET'', rq_path := ''/''\<rparr>) ''web'' (routes (gw_config demo_world)) =
     Inr (1, Some ((demo_route ''/'' (-1))\<lparr>proxy_target := ''@api''\<rparr>), (routes (gw_config demo_world))\<lparr>rr_counter := 1\<rparr>)"
  by (simp add: demo_world_def arws_route_match_def route_applies_def demo_route_def empty_request_def route_host_matches_def
      route_path_matches_def route_mode_matches_def route_priority_def route_effective_def specific_host_def strneq_def crem_def
      cinc32_def wrap32_def Let_def)

definition demo_dispatch :: dispatch_env where
  "demo_dispatch = \<lparr>de_web = \<lparr>web_files = Map.empty, web_mem = True, page_404 = [], page_maintenance = [], page_home = [],
       page_home_css = [], page_home_js = []\<rparr>, de_handlers = (\<lambda>_ c _. c), de_stream = demo_stream, de_send = (\<lambda>_ _. 0),
     de_recv = (\<lambda>_ _ _. []), de_mem = (\<lambda>_. True), de_now = 0, de_clock = (\<lambda>_. 0), de_later = 0, de_stack = NUL\<rparr>"


text \<open>C40: The dispatcher never fills the cache. The test for a \<open>Set-Cookie\<close> header answers yes for every
  response whose header is longer than ten bytes, so no such response is stored: whatever is in the cache
  after a request was in it before.\<close>

theorem dispatch_never_caches:
  assumes "arws_dispatch env req body md conn w = Inr (rc, c, w')"
    and "\<And>b resp. arws_backend_read_response (de_recv env) b 65536 (gw_registry w) = Some resp \<Longrightarrow> 10 < head_length resp"
    and "e \<in> set (cache (gw_cache w'))" "in_use e"
  shows "e \<in> set (cache (gw_cache w))"
proof -
  have r: "gw_cache (set_routes rs w) = gw_cache w" "gw_registry (set_routes rs w) = gw_registry w" for rs
    by (simp_all add: set_routes_def)
  have u: "gw_cache w1 = gw_cache v" if "proxy_url_of route conn v = Inr (x, w1)" for route v x w1
    using that by (auto simp: proxy_url_of_def Let_def split: if_splits sum.splits option.splits)
  consider (same) "gw_cache w' = gw_cache w" | (backend) b rs where "dispatch_backend env req body b conn (set_routes rs w) = Inr (rc, c, w')"
    using assms(1) u unfolding arws_dispatch_def dispatch_proxy_def
    by (auto simp: Let_def r split: sum.splits option.splits if_splits)
  then show ?thesis
  proof cases
    case same
    with assms(3) show ?thesis by simp
  next
    case backend
    have "keeps_cache (set_routes rs w) w'"
      by (rule backend_keeps_cache[OF _ backend]) (use assms(2) in \<open>simp add: r\<close>)
    with assms(3,4) show ?thesis by (simp add: keeps_cache_def r)
  qed
qed

definition demo_response :: string where
  "demo_response = ''HTTP/1.1 204 No'' @ CRLF @ CRLF"

definition demo_backend_world :: gateway_world where
  "demo_backend_world = demo_world\<lparr>
     gw_config := \<lparr>cfg = config_init, disk = Map.empty, routes = \<lparr>route_table = [[demo_route ''/'' 1]], rr_counter = 0\<rparr>\<rparr>,
     gw_registry := \<lparr>backends = [\<lparr>be_id = 1, be_fd = 5, be_pid = 0, be_name = ''app'', registered = True\<rparr>], next_backend_id = 2\<rparr>\<rparr>"

definition demo_backend_env :: dispatch_env where
  "demo_backend_env = demo_dispatch\<lparr>de_recv := (\<lambda>_ i _. if i = 0 then demo_response else [])\<rparr>"

lemma demo_response_head: "head_length demo_response = 15"
  by (simp add: head_length_def demo_response_def upt_rec)

lemma demo_read:
  "arws_backend_read_response (de_recv demo_backend_env) b 65536 (gw_registry demo_backend_world) =
     (if b = 1 then Some demo_response else None)"
proof -
  have c: "content_length_at (cstr demo_response) = None"
    by (simp add: content_length_at_def demo_response_def cstr_def)
  have "scan_header_end demo_response = Some 19"
    by (simp add: scan_header_end_def demo_response_def)
  moreover have "length demo_response = 19" by (simp add: demo_response_def)
  ultimately have "fst (read_http_response (\<lambda>i n. if i = 0 then demo_response else []) 65536) = demo_response"
    using c by (simp add: read_http_response_def read_loop.simps response_complete_def Let_def)
  then show ?thesis
    by (simp add: arws_backend_read_response_def arws_get_backend_fd_def demo_backend_world_def demo_backend_env_def demo_dispatch_def)
qed

lemma demo_backend_run:
  "\<exists>w'. arws_dispatch demo_backend_env (empty_request\<lparr>rq_method := ''GET'', rq_path := ''/''\<rparr>) [] ''web'' demo_conn demo_backend_world =
     Inr (0, server_conn_write demo_response demo_conn, w')"
proof -
  let ?req = "empty_request\<lparr>rq_method := ''GET'', rq_path := ''/''\<rparr>"
  let ?rs = "\<lparr>route_table = [[demo_route ''/'' 1]], rr_counter = 1\<rparr>"
  let ?w = "set_routes ?rs demo_backend_world"
  have m: "arws_route_match ?req ''web'' (routes (gw_config demo_backend_world)) = Inr (1, Some (demo_route ''/'' 1), ?rs)"
    by (simp add: demo_backend_world_def arws_route_match_def route_applies_def demo_route_def empty_request_def route_host_matches_def
      route_path_matches_def route_mode_matches_def route_priority_def route_effective_def specific_host_def strneq_def crem_def
      cinc32_def wrap32_def Let_def)
  have "arws_build_http_request demo_conn ?req [] 32768 = Inr (Some (forwarded_head demo_conn ?req))"
    unfolding build_request_iff built_def
    by (simp add: forwarded_head_def empty_request_def query_text_of_def server_get_client_ip_def demo_conn_def)
  moreover have "use_cache ?req (cfg (gw_config ?w))"
    by (simp add: use_cache_def set_routes_def demo_backend_world_def arws_config_is_no_cache_def arws_config_get_cache_ttl_def
        config_init_def empty_request_def)
  moreover have "gw_cache ?w = demo_cache" "gw_registry ?w = gw_registry demo_backend_world"
    by (simp_all add: set_routes_def demo_backend_world_def demo_world_def)
  moreover have "arws_cache_get (de_mem demo_backend_env) (de_now demo_backend_env) (request_key ?req) demo_cache = Inr (demo_cache, None)"
    by (simp add: arws_cache_get_def find_slot_free_start Let_def)
  moreover have "\<exists>w'. backend_exchange demo_backend_env ?req raw 1 demo_conn (?w\<lparr>gw_cache := demo_cache\<rparr>) =
      (0, server_conn_write demo_response demo_conn, w')" for raw
    using demo_read[of 1] by (simp add: backend_exchange_def arws_backend_send_request_def arws_get_backend_fd_def set_routes_def
        demo_backend_world_def demo_backend_env_def demo_dispatch_def demo_response_def Let_def)
  ultimately have "\<exists>w'. dispatch_backend demo_backend_env ?req [] 1 demo_conn ?w = Inr (0, server_conn_write demo_response demo_conn, w')"
    by (simp add: dispatch_backend_def)
  then show ?thesis using m by (simp add: arws_dispatch_def Let_def demo_route_def)
qed

theorem dispatch_never_caches_witness:
  "\<exists>c w'. arws_dispatch demo_backend_env (empty_request\<lparr>rq_method := ''GET'', rq_path := ''/''\<rparr>) [] ''web'' demo_conn demo_backend_world =
      Inr (0, c, w') \<and> list_all (\<lambda>e. \<not> in_use e) (cache (gw_cache w'))"
proof -
  obtain w' where w': "arws_dispatch demo_backend_env (empty_request\<lparr>rq_method := ''GET'', rq_path := ''/''\<rparr>) [] ''web'' demo_conn demo_backend_world =
     Inr (0, server_conn_write demo_response demo_conn, w')" using demo_backend_run by blast
  have "10 < head_length resp" if "arws_backend_read_response (de_recv demo_backend_env) b 65536 (gw_registry demo_backend_world) = Some resp" for b resp
    using that by (auto simp: demo_read demo_response_head split: if_splits)
  from dispatch_never_caches[OF w' this] have "e \<in> set (cache demo_cache)" if "e \<in> set (cache (gw_cache w'))" "in_use e" for e
    using that by (simp add: demo_backend_world_def demo_world_def)
  then have "\<not> in_use e" if "e \<in> set (cache (gw_cache w'))" for e
    using that by (metis demo_cache_simps(1,3) in_set_conv_nth)
  with w' show ?thesis unfolding list_all_iff by blast
qed

end
