(* ===== verification/Cjson_Print.thy ===== *)
theory Cjson_Print
  imports Cjson
begin

text \<open>
  The printer of \<open>src/src/cJSON.c\<close>, on the bytes of its buffer: \<open>ensure\<close> grows it, every write
  is checked against the memory it has, \<open>update_offset\<close> looks for the terminating NUL. A fresh
  allocation holds arbitrary bytes.
\<close>

section \<open>The output buffer\<close>

record printbuffer =
  pr_buffer :: "char list option"
  pr_length :: nat
  pr_offset :: nat
  pr_depth :: nat
  pr_noalloc :: bool
  pr_format :: bool
  pr_allocs :: nat

definition fresh_memory :: "'d json_env \<Rightarrow> nat \<Rightarrow> nat \<Rightarrow> char list" where
  "fresh_memory E k n = map (fresh_byte E k) [0..<n]"

text \<open>The size \<open>ensure\<close> asks for, or \<open>None\<close> when it gives up.\<close>

definition new_size :: "nat \<Rightarrow> nat option" where
  "new_size needed = (if 1073741823 < needed then (if needed \<le> 2147483647 then Some 2147483647 else None) else Some (needed * 2))"

definition grow :: "'d json_env \<Rightarrow> char list \<Rightarrow> nat \<Rightarrow> printbuffer \<Rightarrow> json_fault + (nat option \<times> printbuffer)" where
  "grow E m n p =
     (let k = pr_allocs p; p = p\<lparr>pr_allocs := k + 1\<rparr> in
      if \<not> allocate E k n then Inr (None, p\<lparr>pr_length := 0, pr_buffer := None\<rparr>)
      else if has_realloc E
        then Inr (Some (pr_offset p), p\<lparr>pr_length := n, pr_buffer := Some (take n m @ drop (length m) (fresh_memory E k n))\<rparr>)
      else if length m < pr_offset p + 1 then Inl (Bad OutOfBounds)
      else Inr (Some (pr_offset p),
                p\<lparr>pr_length := n, pr_buffer := Some (take (pr_offset p + 1) m @ drop (pr_offset p + 1) (fresh_memory E k n))\<rparr>))"

definition ensure :: "'d json_env \<Rightarrow> nat \<Rightarrow> printbuffer \<Rightarrow> json_fault + (nat option \<times> printbuffer)" where
  "ensure E needed p =
     (case pr_buffer p of None \<Rightarrow> Inr (None, p)
      | Some m \<Rightarrow>
        if 0 < pr_length p \<and> pr_length p \<le> pr_offset p then Inr (None, p)
        else if 2147483647 < needed then Inr (None, p)
        else let needed = needed + pr_offset p + 1 in
          if needed \<le> pr_length p then Inr (Some (pr_offset p), p)
          else if pr_noalloc p then Inr (None, p)
          else (case new_size needed of None \<Rightarrow> Inr (None, p) | Some n \<Rightarrow> grow E m n p))"

definition poke :: "nat \<Rightarrow> string \<Rightarrow> printbuffer \<Rightarrow> json_fault + printbuffer" where
  "poke i bs p =
     (case pr_buffer p of None \<Rightarrow> Inl (Bad NullDeref)
      | Some m \<Rightarrow> if i + length bs \<le> length m then Inr (p\<lparr>pr_buffer := Some (take i m @ bs @ drop (i + length bs) m)\<rparr>)
                  else Inl (Bad OutOfBounds))"

definition update_offset :: "printbuffer \<Rightarrow> json_fault + printbuffer" where
  "update_offset p =
     (case pr_buffer p of None \<Rightarrow> Inr p
      | Some m \<Rightarrow> let rest = drop (pr_offset p) m in
          if NUL \<in> set rest then Inr (p\<lparr>pr_offset := pr_offset p + length (cstr rest)\<rparr>) else Inl (Bad OutOfBounds))"

text \<open>\<open>ensure\<close> and a failing return when it yields NULL.\<close>

definition ensured :: "'d json_env \<Rightarrow> nat \<Rightarrow> printbuffer \<Rightarrow>
    (nat \<Rightarrow> printbuffer \<Rightarrow> json_fault + (bool \<times> printbuffer)) \<Rightarrow> json_fault + (bool \<times> printbuffer)" where
  "ensured E needed p f = andthen (ensure E needed p) (\<lambda>(out, p). case out of None \<Rightarrow> Inr (False, p) | Some i \<Rightarrow> f i p)"

definition wrote :: "json_fault + printbuffer \<Rightarrow> json_fault + (bool \<times> printbuffer)" where
  "wrote r = andthen r (\<lambda>p. Inr (True, p))"

section \<open>Numbers\<close>

definition compare_double :: "'d json_env \<Rightarrow> 'd \<Rightarrow> 'd \<Rightarrow> bool" where
  "compare_double E a b =
     (let x = d_fabs E a; y = d_fabs E b; m = (if d_le E x y then y else x)
      in d_le E (d_fabs E (d_sub E a b)) (d_mul E m (d_epsilon E)))"

text \<open>What is printed into \<open>number_buffer\<close>. \<open>sscanf\<close> with \<open>%lg\<close> reads the decimal syntax of \<open>strtod\<close>.\<close>

definition number_text :: "'d json_env \<Rightarrow> 'd cJSON \<Rightarrow> string" where
  "number_text E item =
     (let d = valuedouble item in
      if d_nan E d \<or> d_inf E d then ''null''
      else if d_eq E d (d_of_int E (valueint item)) then dec_int (valueint item)
      else (let s = d_format E 15 d; (test, used) = strtod E s
            in if used = 0 \<or> \<not> compare_double E test d then d_format E 17 d else s))"

definition print_number :: "'d json_env \<Rightarrow> 'd cJSON \<Rightarrow> printbuffer \<Rightarrow> json_fault + (bool \<times> printbuffer)" where
  "print_number E item p =
     (let t = number_text E item in
      if 25 < length t then Inl (Bad OutOfBounds)
      else ensured E (length t + 1) p (\<lambda>i p.
        andthen (poke i (t @ [NUL]) p) (\<lambda>p. Inr (True, p\<lparr>pr_offset := pr_offset p + length t\<rparr>))))"

section \<open>Strings\<close>

definition hex_char :: "nat \<Rightarrow> char" where
  "hex_char n = (if n < 10 then char_of (48 + n) else char_of (87 + n))"

text \<open>\<open>sprintf("u%04x")\<close> of a byte.\<close>

definition u_escape :: "char \<Rightarrow> string" where
  "u_escape c = (let n = of_char c :: nat in [CHR ''u'', CHR ''0'', CHR ''0'', hex_char (n div 16), hex_char (n mod 16)])"

definition short_escape :: "char \<Rightarrow> char option" where
  "short_escape c =
     (if c = CHR 0x5C \<or> c = CHR 0x22 then Some c
      else if c = CHR 0x08 then Some (CHR ''b'') else if c = CHR 0x0C then Some (CHR ''f'')
      else if c = CHR 0x0A then Some (CHR ''n'') else if c = CHR 0x0D then Some (CHR ''r'')
      else if c = CHR 0x09 then Some (CHR ''t'') else None)"

definition escape_cost :: "char \<Rightarrow> nat" where
  "escape_cost c = (case short_escape c of Some _ \<Rightarrow> 1 | None \<Rightarrow> if (of_char c :: nat) < 32 then 5 else 0)"

fun quote_loop :: "string \<Rightarrow> nat \<Rightarrow> printbuffer \<Rightarrow> json_fault + printbuffer" where
  "quote_loop [] i p = Inr p"
| "quote_loop (c # s) i p =
     (if 31 < (of_char c :: nat) \<and> c \<noteq> CHR 0x22 \<and> c \<noteq> CHR 0x5C
      then andthen (poke i [c] p) (quote_loop s (i + 1))
      else andthen (poke i [CHR 0x5C] p) (\<lambda>p. case short_escape c of
             Some e \<Rightarrow> andthen (poke (i + 1) [e] p) (quote_loop s (i + 2))
           | None \<Rightarrow> andthen (poke (i + 1) (u_escape c @ [NUL]) p) (quote_loop s (i + 6))))"

definition print_string_ptr :: "'d json_env \<Rightarrow> string option \<Rightarrow> printbuffer \<Rightarrow> json_fault + (bool \<times> printbuffer)" where
  "print_string_ptr E input p =
     (case input of
        None \<Rightarrow> ensured E 3 p (\<lambda>i p. wrote (poke i [CHR 0x22, CHR 0x22, NUL] p))
      | Some s \<Rightarrow>
          let escape_characters = sum_list (map escape_cost s); output_length = length s + escape_characters
          in ensured E (output_length + 3) p (\<lambda>i p.
               if escape_characters = 0 then wrote (poke i (CHR 0x22 # s @ [CHR 0x22, NUL]) p)
               else wrote (andthen (poke i [CHR 0x22] p) (\<lambda>p.
                           andthen (quote_loop s (i + 1) p) (poke (i + output_length + 1) [CHR 0x22, NUL])))))"

definition print_string :: "'d json_env \<Rightarrow> 'd cJSON \<Rightarrow> printbuffer \<Rightarrow> json_fault + (bool \<times> printbuffer)" where
  "print_string E item p = print_string_ptr E (valuestring item) p"

section \<open>Values\<close>

definition advance_out :: "nat \<Rightarrow> printbuffer \<Rightarrow> printbuffer" where
  "advance_out n p = p\<lparr>pr_offset := pr_offset p + n\<rparr>"

definition deeper :: "printbuffer \<Rightarrow> printbuffer" where
  "deeper p = p\<lparr>pr_depth := pr_depth p + 1\<rparr>"

definition shallower :: "printbuffer \<Rightarrow> printbuffer" where
  "shallower p = p\<lparr>pr_depth := pr_depth p - 1\<rparr>"

text \<open>A call that must succeed, and \<open>update_offset\<close> behind it.\<close>

definition checked :: "json_fault + (bool \<times> printbuffer) \<Rightarrow> (printbuffer \<Rightarrow> json_fault + (bool \<times> printbuffer)) \<Rightarrow>
    json_fault + (bool \<times> printbuffer)" where
  "checked r f = andthen r (\<lambda>(ok, p). if ok then f p else Inr (False, p))"

definition print_word :: "'d json_env \<Rightarrow> string \<Rightarrow> printbuffer \<Rightarrow> json_fault + (bool \<times> printbuffer)" where
  "print_word E s p = ensured E (length s + 1) p (\<lambda>i p. wrote (poke i (s @ [NUL]) p))"

definition print_comma :: "'d json_env \<Rightarrow> printbuffer \<Rightarrow> json_fault + (bool \<times> printbuffer)" where
  "print_comma E p =
     (let fmt = pr_format p; len = (if fmt then 2 else 1) in
      ensured E (len + 1) p (\<lambda>i p. andthen (poke i (CHR '','' # (if fmt then '' '' else []) @ [NUL]) p)
        (\<lambda>p. Inr (True, advance_out len p))))"

definition print_indent :: "'d json_env \<Rightarrow> printbuffer \<Rightarrow> json_fault + (bool \<times> printbuffer)" where
  "print_indent E p =
     (if pr_format p
      then (let d = pr_depth p in ensured E d p (\<lambda>i p. andthen (poke i (replicate d (CHR 0x09)) p)
             (\<lambda>p. Inr (True, advance_out d p))))
      else Inr (True, p))"

definition print_colon :: "'d json_env \<Rightarrow> printbuffer \<Rightarrow> json_fault + (bool \<times> printbuffer)" where
  "print_colon E p =
     (let fmt = pr_format p; len = (if fmt then 2 else 1) in
      ensured E len p (\<lambda>i p. andthen (poke i (CHR '':'' # (if fmt then [CHR 0x09] else [])) p)
        (\<lambda>p. Inr (True, advance_out len p))))"

definition print_member_end :: "'d json_env \<Rightarrow> bool \<Rightarrow> printbuffer \<Rightarrow> json_fault + (bool \<times> printbuffer)" where
  "print_member_end E again p =
     (let fmt = pr_format p; len = (if fmt then 1 else 0) + (if again then 1 else 0) in
      ensured E (len + 1) p (\<lambda>i p.
        andthen (poke i ((if again then '','' else []) @ (if fmt then [CHR 0x0A] else []) @ [NUL]) p)
        (\<lambda>p. Inr (True, advance_out len p))))"

definition print_open :: "'d json_env \<Rightarrow> nat \<Rightarrow> string \<Rightarrow> printbuffer \<Rightarrow>
    (printbuffer \<Rightarrow> json_fault + (bool \<times> printbuffer)) \<Rightarrow> json_fault + (bool \<times> printbuffer)" where
  "print_open E needed s p f =
     ensured E needed p (\<lambda>i p. andthen (poke i s p) (\<lambda>p. f (deeper (advance_out (length s) p))))"

definition print_close :: "'d json_env \<Rightarrow> nat \<Rightarrow> string \<Rightarrow> printbuffer \<Rightarrow> json_fault + (bool \<times> printbuffer)" where
  "print_close E needed s p =
     ensured E needed p (\<lambda>i p. andthen (poke i (s @ [NUL]) p) (\<lambda>p. Inr (True, shallower p)))"

fun print_value :: "'d json_env \<Rightarrow> 'd cJSON \<Rightarrow> printbuffer \<Rightarrow> json_fault + (bool \<times> printbuffer)"
and print_elements :: "'d json_env \<Rightarrow> 'd cJSON list \<Rightarrow> printbuffer \<Rightarrow> json_fault + (bool \<times> printbuffer)"
and print_members :: "'d json_env \<Rightarrow> 'd cJSON list \<Rightarrow> printbuffer \<Rightarrow> json_fault + (bool \<times> printbuffer)" where
  "print_value E (Item ty vs vi vd key ch) p =
     (let kind = ty AND 0xFF; item = Item ty vs vi vd key ch; fmt = pr_format p in
      if kind = cJSON_NULL then print_word E ''null'' p
      else if kind = cJSON_False then print_word E ''false'' p
      else if kind = cJSON_True then print_word E ''true'' p
      else if kind = cJSON_Number then print_number E item p
      else if kind = cJSON_Raw then (case vs of None \<Rightarrow> Inr (False, p) | Some s \<Rightarrow> print_word E s p)
      else if kind = cJSON_String then print_string E item p
      else if kind = cJSON_Array
        then (if CJSON_NESTING_LIMIT \<le> pr_depth p then Inr (False, p)
              else print_open E 1 ''['' p (\<lambda>p. checked (print_elements E ch p) (print_close E 2 '']'')))
      else if kind = cJSON_Object
        then (if CJSON_NESTING_LIMIT \<le> pr_depth p then Inr (False, p)
              else print_open E (if fmt then 3 else 2) (CHR 0x7B # (if fmt then [CHR 0x0A] else [])) p (\<lambda>p.
                checked (print_members E ch p) (\<lambda>p.
                  print_close E (if fmt then pr_depth p + 1 else 2)
                    ((if fmt then replicate (pr_depth p - 1) (CHR 0x09) else []) @ [CHR 0x7D]) p)))
      else Inr (False, p))"
| "print_elements E [] p = Inr (True, p)"
| "print_elements E (c # cs) p =
     checked (print_value E c p) (\<lambda>p. andthen (update_offset p) (\<lambda>p.
       if cs = [] then Inr (True, p)
       else checked (print_comma E p) (print_elements E cs)))"
| "print_members E [] p = Inr (True, p)"
| "print_members E (c # cs) p =
     checked (print_indent E p) (\<lambda>p.
     checked (print_string_ptr E (item_string c) p) (\<lambda>p. andthen (update_offset p) (\<lambda>p.
     checked (print_colon E p) (\<lambda>p.
     checked (print_value E c p) (\<lambda>p. andthen (update_offset p) (\<lambda>p.
     checked (print_member_end E (cs \<noteq> []) p) (print_members E cs)))))))"

section \<open>Entry points\<close>

text \<open>The memory returned, and how many allocations were made; \<open>None\<close> is NULL.\<close>

definition print_item :: "'d json_env \<Rightarrow> 'd cJSON \<Rightarrow> bool \<Rightarrow> json_fault + char list option" where
  "print_item E item format =
     (if \<not> allocate E 0 256 then Inr None
      else andthen (print_value E item \<lparr>pr_buffer = Some (fresh_memory E 0 256), pr_length = 256, pr_offset = 0, pr_depth = 0,
                       pr_noalloc = False, pr_format = format, pr_allocs = 1\<rparr>) (\<lambda>(ok, p).
             if \<not> ok then Inr None
             else andthen (update_offset p) (\<lambda>p. case pr_buffer p of
                 None \<Rightarrow> Inl (Bad NullDeref)
               | Some m \<Rightarrow>
                   let n = pr_offset p + 1 in
                   if \<not> allocate E (pr_allocs p) n then Inr None
                   else if has_realloc E then Inr (Some (take n m @ drop (length m) (fresh_memory E (pr_allocs p) n)))
                   else (let m' = take (min (pr_length p) n) m @ drop (min (pr_length p) n) (fresh_memory E (pr_allocs p) n)
                         in Inr (Some (m'[pr_offset p := NUL]))))))"

definition cJSON_Print :: "'d json_env \<Rightarrow> 'd cJSON \<Rightarrow> json_fault + char list option" where
  "cJSON_Print E item = print_item E item True"

definition cJSON_PrintUnformatted :: "'d json_env \<Rightarrow> 'd cJSON \<Rightarrow> json_fault + char list option" where
  "cJSON_PrintUnformatted E item = print_item E item False"

definition cJSON_PrintBuffered :: "'d json_env \<Rightarrow> 'd cJSON \<Rightarrow> int \<Rightarrow> bool \<Rightarrow> json_fault + char list option" where
  "cJSON_PrintBuffered E item prebuffer fmt =
     (if prebuffer < 0 then Inr None
      else if \<not> allocate E 0 (nat prebuffer) then Inr None
      else andthen (print_value E item \<lparr>pr_buffer = Some (fresh_memory E 0 (nat prebuffer)), pr_length = nat prebuffer,
                       pr_offset = 0, pr_depth = 0, pr_noalloc = False, pr_format = fmt, pr_allocs = 1\<rparr>)
             (\<lambda>(ok, p). Inr (if ok then pr_buffer p else None)))"

text \<open>The caller's memory is given and comes back.\<close>

definition cJSON_PrintPreallocated :: "'d json_env \<Rightarrow> 'd cJSON \<Rightarrow> char list option \<Rightarrow> int \<Rightarrow> bool \<Rightarrow>
    json_fault + (bool \<times> char list option)" where
  "cJSON_PrintPreallocated E item buffer len format =
     (if len < 0 \<or> buffer = None then Inr (False, buffer)
      else andthen (print_value E item \<lparr>pr_buffer = buffer, pr_length = nat len, pr_offset = 0, pr_depth = 0,
                       pr_noalloc = True, pr_format = format, pr_allocs = 0\<rparr>)
             (\<lambda>(ok, p). Inr (ok, pr_buffer p)))"

end
