(* ===== verification/Cjson_Laws.thy ===== *)
theory Cjson_Laws
  imports Cjson
begin

text \<open>
  What holds of the parser for every input: it returns, reads only the input, writes only the
  buffer it allocated, and the items it builds are well-formed and nested at most 1000 deep.
\<close>

lemma andthen_simps [simp]: "andthen (Inl e) f = Inl e" "andthen (Inr x) f = f x"
  by (simp_all add: andthen_def)

lemma andthen_Inr_iff: "andthen m f = Inr y \<longleftrightarrow> (\<exists>x. m = Inr x \<and> f x = Inr y)"
  by (cases m) simp_all

section \<open>Buffers\<close>

definition wf_buf :: "parse_buffer \<Rightarrow> bool" where
  "wf_buf b \<longleftrightarrow> pb_length b \<le> length (pb_content b) \<and> pb_offset b \<le> pb_length b \<and> pb_depth b \<le> CJSON_NESTING_LIMIT"

text \<open>\<open>b'\<close> is \<open>b\<close> read further, at the same depth.\<close>

definition reads_on :: "parse_buffer \<Rightarrow> parse_buffer \<Rightarrow> bool" where
  "reads_on b b' \<longleftrightarrow> pb_content b' = pb_content b \<and> pb_length b' = pb_length b \<and> pb_depth b' = pb_depth b \<and>
     pb_offset b \<le> pb_offset b' \<and> pb_offset b' \<le> pb_length b"

lemma reads_on_refl: "wf_buf b \<Longrightarrow> reads_on b b"
  by (simp add: reads_on_def wf_buf_def)

lemma reads_on_trans [trans]: "reads_on a b \<Longrightarrow> reads_on b c \<Longrightarrow> reads_on a c"
  by (auto simp: reads_on_def)

lemma reads_on_wf: "reads_on b b' \<Longrightarrow> wf_buf b \<Longrightarrow> wf_buf b'"
  by (auto simp: reads_on_def wf_buf_def)

lemma byte_at_in: "wf_buf b \<Longrightarrow> i < pb_length b \<Longrightarrow> byte_at b i = Inr (pb_content b ! i)"
  by (simp add: byte_at_def wf_buf_def)

lemma next_is_ok: "wf_buf b \<Longrightarrow>
    next_is b P = Inr (pb_offset b < pb_length b \<and> P (pb_content b ! pb_offset b))"
  by (simp add: next_is_def can_access_at_index_def byte_at_in)

lemma compare_at_ok: "wf_buf b \<Longrightarrow> p + length s \<le> pb_length b \<Longrightarrow> \<exists>r. compare_at b p s = Inr r"
proof (induction s arbitrary: p)
  case (Cons c s)
  then have "byte_at b p = Inr (pb_content b ! p)" by (simp add: byte_at_in)
  with Cons show ?case by (cases "pb_content b ! p = c") auto
qed auto

lemma literal_ok: "wf_buf b \<Longrightarrow> \<exists>r. literal b s = Inr r \<and> (r \<longrightarrow> pb_offset b + length s \<le> pb_length b)"
  using compare_at_ok[of b "pb_offset b" s] by (auto simp: literal_def can_read_def)

lemma reads_on_advance: "wf_buf b \<Longrightarrow> pb_offset b + n \<le> pb_length b \<Longrightarrow> reads_on b (advance n b)"
  by (simp add: reads_on_def advance_def)

lemma skip_blanks_ok: "wf_buf b \<Longrightarrow> \<exists>b'. skip_blanks b = Inr b' \<and> reads_on b b'"
proof (induction b rule: skip_blanks.induct)
  case (1 b)
  show ?case
  proof (cases "can_access_at_index b 0 \<and> (of_char (pb_content b ! pb_offset b) :: nat) \<le> 32")
    case True
    then have off: "pb_offset b < pb_length b" by (simp add: can_access_at_index_def)
    then have r: "reads_on b (advance 1 b)" using reads_on_advance[OF "1.prems", of 1] by simp
    have at: "byte_at b (pb_offset b) = Inr (pb_content b ! pb_offset b)" using "1.prems" off by (rule byte_at_in)
    from "1.IH"[OF _ at _ reads_on_wf[OF r "1.prems"]] True obtain b' where
      "skip_blanks (advance 1 b) = Inr b'" "reads_on (advance 1 b) b'" by auto
    with r at True show ?thesis by (auto simp: skip_blanks.simps[of b] intro: reads_on_trans)
  next
    case False
    then have "skip_blanks b = Inr b"
      using byte_at_in[OF "1.prems", of "pb_offset b"] by (auto simp: skip_blanks.simps[of b] can_access_at_index_def)
    with reads_on_refl[OF "1.prems"] show ?thesis by simp
  qed
qed

lemma buffer_skip_whitespace_ok:
  assumes "wf_buf b"
  shows "\<exists>b'. buffer_skip_whitespace b = Inr b' \<and> reads_on b b' \<and> (pb_offset b < pb_length b \<longrightarrow> pb_offset b' < pb_length b)"
proof (cases "can_access_at_index b 0")
  case True
  obtain b' where b': "skip_blanks b = Inr b'" "reads_on b b'" using skip_blanks_ok[OF assms] by blast
  have "pb_offset b \<le> pb_offset b' - 1" if "pb_offset b' = pb_length b'"
    using True b'(2) that by (auto simp: can_access_at_index_def reads_on_def)
  with b' True show ?thesis by (auto simp: buffer_skip_whitespace_def step_back_def reads_on_def can_access_at_index_def)
qed (use reads_on_refl[OF assms] in \<open>simp add: buffer_skip_whitespace_def can_access_at_index_def\<close>)

lemma step_back_simps [simp]: "pb_length (step_back b) = pb_length b" "pb_content (step_back b) = pb_content b"
    "pb_depth (step_back b) = pb_depth b"
  by (simp_all add: step_back_def)

lemma wf_allocate: "pb_allocate E n b = (got, b') \<Longrightarrow> wf_buf b \<Longrightarrow> reads_on b b' \<and> pb_offset b' = pb_offset b"
  by (auto simp: pb_allocate_def wf_buf_def reads_on_def)

section \<open>Numbers\<close>

lemma number_span_ok:
  "wf_buf b \<Longrightarrow> pb_offset b + i \<le> pb_length b \<Longrightarrow>
    \<exists>n. number_span b i = Inr n \<and> pb_offset b + n \<le> pb_length b"
proof (induction b i rule: number_span.induct)
  case (1 b i)
  then show ?case
    using byte_at_in[of b "pb_offset b + i"]
    by (auto simp: number_span.simps[of b i] can_access_at_index_def split: if_splits)
qed

lemma length_exponent: "length (snd (exponent s)) \<le> length s"
proof (cases s)
  case (Cons c t)
  have "length (snd (split_sign t)) \<le> length t" by (cases t) (auto simp: split_sign_def)
  moreover have "length (dropWhile is_digit u) \<le> length u" for u by (rule length_dropWhile_le)
  ultimately have "length (dropWhile is_digit (snd (split_sign t))) \<le> Suc (length t)" by (meson le_SucI order_trans)
  with Cons show ?thesis by (auto simp: exponent_def Let_def split: prod.splits)
qed (simp add: exponent_def)

lemma strtod_used: "snd (strtod E s) \<le> length s"
  by (simp add: strtod_def Let_def split: prod.splits)

lemma parse_number_ok:
  assumes "wf_buf b"
  shows "\<exists>ok item' b'. parse_number E item b = Inr (ok, item', b') \<and> reads_on b b' \<and>
     (ok \<longrightarrow> item' = Item cJSON_Number (valuestring item) (saturate E (valuedouble item')) (valuedouble item')
                (item_string item) (children item))"
proof -
  obtain n where n: "number_span b 0 = Inr n" "pb_offset b + n \<le> pb_length b" using number_span_ok[OF assms, of 0] assms
    by (auto simp: wf_buf_def)
  obtain got b1 where a: "pb_allocate E (n + 1) b = (got, b1)" by force
  note b1 = wf_allocate[OF a assms]
  define s where "s = take n (drop (pb_offset b1) (pb_content b1))"
  obtain d used where d: "strtod E s = (d, used)" by force
  have "used \<le> n" using strtod_used[of E s] d by (simp add: s_def)
  then have adv: "reads_on b (advance used b1)" using b1 n(2) by (auto simp: reads_on_def advance_def)
  let ?it = "set_value cJSON_Number (valuestring item) (set_int (saturate E d) (set_double d item))"
  have eq: "parse_number E item b = (if \<not> got then Inr (False, item, b1)
      else if used = 0 then Inr (False, item, b1) else Inr (True, ?it, advance used b1))"
    unfolding parse_number_def n(1) andthen_simps a Let_def prod.case s_def[symmetric] d by (rule refl)
  have "?it = Item cJSON_Number (valuestring item) (saturate E (valuedouble ?it)) (valuedouble ?it) (item_string item) (children item)"
    by (cases item) simp
  with adv b1 show ?thesis unfolding eq by auto
qed

section \<open>Strings\<close>

lemma hex_loop_ok: "wf_buf b \<Longrightarrow> p + k \<le> pb_length b \<Longrightarrow> \<exists>h. hex_loop b p k v = Inr h"
proof (induction k arbitrary: p v)
  case (Suc k)
  then have "byte_at b p = Inr (pb_content b ! p)" by (simp add: byte_at_in)
  with Suc show ?case by (auto split: option.splits)
qed simp

lemma utf8_tail_length: "length (snd (utf8_tail k cp bs)) = k + length bs"
  by (induction k arbitrary: cp bs) auto

lemma utf8_encode_length:
  assumes "utf8_encode cp = Some bs"
  shows "length bs \<le> (if cp < 0x10000 then 3 else 4)"
proof -
  define lm where "lm = (if cp < 0x80 then (1, 0) else if cp < 0x800 then (2, 0xC0)
       else if cp < 0x10000 then (3, 0xE0) else if cp \<le> 0x10FFFF then (4, 0xF0) else (0::nat, 0::nat))"
  obtain l m where l: "lm = (l, m)" by force
  obtain cp' t where t: "utf8_tail (l - 1) cp [] = (cp', t)" by force
  have "length t = l - 1" using utf8_tail_length[of "l - 1" cp "[]"] t by simp
  moreover have "l \<le> (if cp < 0x10000 then 3 else 4)" using l by (auto simp: lm_def split: if_splits)
  moreover have "l \<noteq> 0 \<and> length bs = Suc (length t)"
    using assms t[unfolded One_nat_def] unfolding utf8_encode_def lm_def[symmetric] l by (auto split: if_splits)
  ultimately show ?thesis by auto
qed

lemma hex4_digit_less: "hex4_digit c = Some v \<Longrightarrow> v < 16"
  by (auto simp: hex4_digit_def Let_def split: if_splits)

lemma hex_loop_less: "hex_loop b p (Suc k) v = Inr h \<Longrightarrow> h < (v + 16) * 16 ^ k"
proof (induction k arbitrary: p v)
  case 0
  then show ?case using hex4_digit_less by (fastforce simp: andthen_Inr_iff split: option.splits)
next
  case (Suc k)
  from Suc.prems obtain c where c: "byte_at b p = Inr c"
    and h: "(case hex4_digit c of None \<Rightarrow> Inr 0 | Some d \<Rightarrow> hex_loop b (p + 1) (Suc k) (push_bit 4 (v + d))) = Inr h"
    unfolding hex_loop.simps(2)[of b p "Suc k" v] andthen_Inr_iff if_P[OF zero_less_Suc] by blast
  show ?case
  proof (cases "hex4_digit c")
    case (Some d)
    with h have "h < (push_bit 4 (v + d) + 16) * 16 ^ k" using Suc.IH by simp
    also have "\<dots> = (v + d + 1) * 16 ^ Suc k" by (simp add: push_bit_eq_mult algebra_simps)
    also have "\<dots> \<le> (v + 16) * 16 ^ Suc k" using hex4_digit_less[OF Some] by (intro mult_right_mono) auto
    finally show ?thesis .
  qed (use h in simp)
qed

lemma parse_hex4_ok:
  assumes "wf_buf b" "p + 4 \<le> pb_length b"
  shows "\<exists>h < 0x10000. parse_hex4 b p = Inr h"
proof -
  obtain h where h: "hex_loop b p (Suc 3) 0 = Inr h" using hex_loop_ok[of b p "Suc 3" 0] assms by auto
  moreover have "parse_hex4 b p = hex_loop b p (Suc 3) 0" by (simp add: parse_hex4_def)
  moreover have "h < 0x10000" using hex_loop_less[OF h] by simp
  ultimately show ?thesis by simp
qed

lemma second_half_ok:
  assumes "wf_buf b" "e < pb_length b"
  shows "\<exists>r. second_half b q e first = Inr r \<and> (r \<noteq> None \<longrightarrow> q + 6 \<le> e)"
proof (cases "e < q + 6")
  case False
  then have "byte_at b q = Inr (pb_content b ! q)" "byte_at b (q + 1) = Inr (pb_content b ! (q + 1))"
    using assms by (simp_all add: byte_at_in)
  moreover obtain h where "parse_hex4 b (q + 2) = Inr h" using parse_hex4_ok[of b "q + 2"] False assms by auto
  ultimately show ?thesis using False by (simp add: second_half_def)
qed (simp add: second_half_def)

lemma utf16_literal_ok:
  assumes "wf_buf b" "e < pb_length b"
  shows "\<exists>r. utf16_literal_to_utf8 b p e = Inr r \<and>
    (\<forall>n bs. r = Some (n, bs) \<longrightarrow> p + n \<le> e \<and> (n = 6 \<and> length bs \<le> 3 \<or> n = 12 \<and> length bs \<le> 4))"
proof (cases "e < p + 6")
  case False
  obtain h where h: "h < 0x10000" "parse_hex4 b (p + 2) = Inr h" using parse_hex4_ok[of b "p + 2"] False assms by auto
  obtain r where r: "second_half b (p + 6) e h = Inr r" "r \<noteq> None \<longrightarrow> p + 12 \<le> e"
    using second_half_ok[OF assms, of "p + 6" h] by auto
  have l: "length bs \<le> 4" if "utf8_encode cp = Some bs" for cp bs
    using utf8_encode_length[OF that] by (auto split: if_splits)
  show ?thesis using False h r utf8_encode_length[of h] l
    by (cases "0xD800 \<le> h \<and> h \<le> 0xDBFF"; cases "0xDC00 \<le> h \<and> h \<le> 0xDFFF"; cases r)
       (auto simp: utf16_literal_to_utf8_def)
qed (simp add: utf16_literal_to_utf8_def)

text \<open>What the first loop saw from \<open>q\<close> to the closing quote \<open>e\<close>: \<open>k\<close> pairs that begin with a backslash.\<close>

inductive scans :: "parse_buffer \<Rightarrow> nat \<Rightarrow> nat \<Rightarrow> nat \<Rightarrow> bool" for b e where
  at_end: "scans b e e 0"
| plain: "q < e \<Longrightarrow> pb_content b ! q \<noteq> CHR 0x5C \<Longrightarrow> scans b e (Suc q) k \<Longrightarrow> scans b e q k"
| pair: "Suc (Suc q) \<le> e \<Longrightarrow> pb_content b ! q = CHR 0x5C \<Longrightarrow> scans b e (Suc (Suc q)) k \<Longrightarrow> scans b e q (Suc k)"

lemma scans_bound: "scans b e q k \<Longrightarrow> q + 2 * k \<le> e"
  by (induction rule: scans.induct) auto

lemma scan_end_ok:
  "wf_buf b \<Longrightarrow> \<exists>r. scan_end b q s = Inr r \<and>
    (\<forall>e t. r = Some (e, t) \<longrightarrow> e < pb_length b \<and> pb_content b ! e = CHR 0x22 \<and> (\<exists>k. t = s + k \<and> scans b e q k))"
proof (induction b q s rule: scan_end.induct)
  case (1 b q s)
  show ?case
  proof (cases "q < pb_length b")
    case True
    let ?c = "pb_content b ! q"
    have at: "byte_at b q = Inr ?c" using "1.prems" True by (rule byte_at_in)
    consider "?c = CHR 0x22" | "?c = CHR 0x5C" "pb_length b \<le> q + 1" | "?c = CHR 0x5C" "\<not> pb_length b \<le> q + 1"
      | "?c \<noteq> CHR 0x22" "?c \<noteq> CHR 0x5C" by blast
    then show ?thesis
    proof cases
      case 3
      with "1.IH"(1)[OF True at _ _ _ "1.prems"] obtain r where r: "scan_end b (q + 2) (s + 1) = Inr r"
        "\<forall>e t. r = Some (e, t) \<longrightarrow> e < pb_length b \<and> pb_content b ! e = CHR 0x22 \<and> (\<exists>k. t = (s + 1) + k \<and> scans b e (q + 2) k)" by auto
      have "\<exists>k. t = s + k \<and> scans b e q k" if "t = (s + 1) + k" "scans b e (q + 2) k" for e t k
        using scans.pair[of q e b k] that 3(1) scans_bound[OF that(2)] by auto
      with r 3 at True show ?thesis by (auto simp: scan_end.simps[of b q s])
    next
      case 4
      with "1.IH"(2)[OF True at _ _ "1.prems"] obtain r where r: "scan_end b (q + 1) s = Inr r"
        "\<forall>e t. r = Some (e, t) \<longrightarrow> e < pb_length b \<and> pb_content b ! e = CHR 0x22 \<and> (\<exists>k. t = s + k \<and> scans b e (q + 1) k)" by auto
      have "scans b e q k" if "scans b e (q + 1) k" for e k
        using that 4 scans_bound[OF that] by (auto intro: scans.plain)
      with r 4 at True show ?thesis by (auto simp: scan_end.simps[of b q s])
    qed (use at True in \<open>auto simp: scan_end.simps[of b q s] intro: scans.at_end\<close>)
  qed (simp add: scan_end.simps[of b q s])
qed

text \<open>The second loop need not meet the pairs where the first one saw them: after a \<open>\u\<close> sequence it may stand on the second
  character of one. It advances over at most half as many pairs as characters.\<close>

lemma scans_advance:
  "scans b e q k \<Longrightarrow> q = p \<or> q = p + 1 \<Longrightarrow> p + n \<le> e \<Longrightarrow>
    \<exists>q' k'. scans b e q' k' \<and> (q' = p + n \<or> q' = p + n + 1) \<and> k \<le> k' + (if q = p then n + 1 else n) div 2"
proof (induction n arbitrary: p q k)
  case 0
  then show ?case by auto
next
  case (Suc n)
  have le: "p + 1 + n \<le> e" using Suc.prems(3) by simp
  show ?case
  proof (cases "q = p")
    case True
    from Suc.prems(1) show ?thesis
    proof cases
      case at_end
      with True Suc.prems(3) show ?thesis by simp
    next
      case plain
      then show ?thesis using Suc.IH[OF plain(3), of "p + 1"] le True by force
    next
      case (pair k0)
      then show ?thesis using Suc.IH[OF pair(4), of "p + 1"] le True by fastforce
    qed
  next
    case False
    with Suc.prems have "q = p + 1" by simp
    then show ?thesis using Suc.IH[OF Suc.prems(1), of "p + 1"] le by force
  qed
qed

definition room :: "parse_buffer \<Rightarrow> nat \<Rightarrow> nat \<Rightarrow> nat \<Rightarrow> nat \<Rightarrow> bool" where
  "room b e cap p n \<longleftrightarrow>
     (if p < e then \<exists>q k. scans b e q k \<and> (q = p \<or> q = p + 1) \<and> n + (e - p) + 1 \<le> cap + k else n + 1 \<le> cap)"

lemma room_put: "room b e cap p n \<Longrightarrow> p < e \<Longrightarrow> n + 1 \<le> cap"
  using scans_bound by (fastforce simp: room_def)

lemma room_advance:
  assumes "room b e cap p n" "p < e" "p + d \<le> e" "m + (d + 1) div 2 \<le> d"
  shows "room b e cap (p + d) (n + m) \<and> n + m \<le> cap"
proof -
  obtain q k where q: "scans b e q k" "q = p \<or> q = p + 1" "n + (e - p) + 1 \<le> cap + k"
    using assms(1,2) by (auto simp: room_def)
  obtain q' k' where q': "scans b e q' k'" "q' = p + d \<or> q' = p + d + 1" "k \<le> k' + (if q = p then d + 1 else d) div 2"
    using scans_advance[OF q(1,2) assms(3)] by blast
  have k: "k \<le> k' + (d + 1) div 2" using q'(3) by (auto split: if_splits)
  note bd = scans_bound[OF q'(1)]
  show ?thesis
  proof (cases "p + d < e")
    case True
    have "n + m + (e - (p + d)) + 1 \<le> cap + k'" using q(3) k assms(3,4) by simp
    moreover have "n + m \<le> cap" using calculation bd q'(2) by auto
    ultimately show ?thesis using True q' unfolding room_def by auto
  next
    case False
    then have e: "e = p + d" "k' = 0" using assms(3) bd q'(2) by auto
    then have "n + m + 1 \<le> cap" using q(3) k assms(4) by simp
    with e(1) show ?thesis by (simp add: room_def)
  qed
qed

lemma room_plain:
  assumes "room b e cap p n" "p < e" "pb_content b ! p \<noteq> CHR 0x5C"
  shows "room b e cap (p + 1) (n + 1)"
proof -
  obtain q k where q: "scans b e q k" "q = p \<or> q = p + 1" "n + (e - p) + 1 \<le> cap + k"
    using assms(1,2) by (auto simp: room_def)
  have s: "scans b e (p + 1) k" using q(1,2) assms(2,3) by (auto elim: scans.cases)
  have d: "e - p = Suc (e - (p + 1))" using assms(2) by simp
  have "n + 1 + (e - (p + 1)) + 1 \<le> cap + k" using q(3) unfolding d by simp
  with s scans_bound[OF s] show ?thesis unfolding room_def by auto
qed

lemma room_escape:
  assumes "room b e cap p n" "p < e"
  shows "room b e cap (p + 2) (n + 1)"
proof (cases "p + 2 \<le> e")
  case True
  with room_advance[OF assms True, of 1] show ?thesis by simp
next
  case False
  then have "p + 1 = e" using assms(2) by simp
  moreover obtain q k where q: "scans b e q k" "q = p \<or> q = p + 1" "n + (e - p) + 1 \<le> cap + k"
    using assms by (auto simp: room_def)
  ultimately show ?thesis using scans_bound[OF q(1)] by (auto simp: room_def)
qed

lemma unescape_loop_ok:
  assumes "wf_buf b" "e < pb_length b" "room b e cap p (length out)"
  shows "\<exists>r. unescape_loop b e cap p out = Inr r \<and>
    (case r of Inl p' \<Rightarrow> p' < e | Inr out' \<Rightarrow> length out' + 1 \<le> cap)"
  using assms(3)
proof (induction "e - p" arbitrary: p out rule: less_induct)
  case less
  show ?case
  proof (cases "p < e")
    case True
    let ?c = "pb_content b ! p" and ?d = "pb_content b ! (p + 1)"
    have at: "byte_at b p = Inr ?c" "byte_at b (p + 1) = Inr ?d" using assms(1,2) True by (simp_all add: byte_at_in)
    note fits = room_put[OF less.prems True]
    obtain r where r: "utf16_literal_to_utf8 b p e = Inr r"
      "\<forall>n bs. r = Some (n, bs) \<longrightarrow> p + n \<le> e \<and> (n = 6 \<and> length bs \<le> 3 \<or> n = 12 \<and> length bs \<le> 4)"
      using utf16_literal_ok[OF assms(1,2)] by blast
    consider "?c \<noteq> CHR 0x5C" | "?c = CHR 0x5C" "?d = CHR ''u''" "r = None"
      | n bs where "?c = CHR 0x5C" "?d = CHR ''u''" "r = Some (n, bs)"
      | "?c = CHR 0x5C" "?d \<noteq> CHR ''u''" "simple_escape ?d = None"
      | a where "?c = CHR 0x5C" "?d \<noteq> CHR ''u''" "simple_escape ?d = Some a" by fastforce
    then show ?thesis
    proof cases
      case 1
      have eq: "unescape_loop b e cap p out = unescape_loop b e cap (p + 1) (out @ [?c])"
        using True at 1 fits by (simp add: unescape_loop.simps[of b e cap p out] put_def)
      show ?thesis unfolding eq using less.hyps[of "p + 1" "out @ [?c]"] True room_plain[OF less.prems True 1] by simp
    next
      case 3
      with r(2) have n: "p + n \<le> e" "length bs + (n + 1) div 2 \<le> n" "n \<noteq> 0" by auto
      from room_advance[OF less.prems True n(1,2)] have ok: "room b e cap (p + n) (length (out @ bs))" "length out + length bs \<le> cap" by auto
      have eq: "unescape_loop b e cap p out = unescape_loop b e cap (p + n) (out @ bs)"
        using True at 3 r(1) n ok(2) by (simp add: unescape_loop.simps[of b e cap p out] put_def)
      show ?thesis unfolding eq using less.hyps[of "p + n" "out @ bs"] True n(3) ok(1) by simp
    next
      case 5
      have eq: "unescape_loop b e cap p out = unescape_loop b e cap (p + 2) (out @ [a])"
        using True at 5 fits by (simp add: unescape_loop.simps[of b e cap p out] put_def)
      show ?thesis unfolding eq using less.hyps[of "p + 2" "out @ [a]"] True room_escape[OF less.prems True] by simp
    qed (use True at r(1) in \<open>simp_all add: unescape_loop.simps[of b e cap p out]\<close>)
  next
    case False
    with less.prems show ?thesis by (simp add: unescape_loop.simps[of b e cap p out] room_def)
  qed
qed

text \<open>The same input, at a position inside it.\<close>

definition same_input :: "parse_buffer \<Rightarrow> parse_buffer \<Rightarrow> bool" where
  "same_input b b' \<longleftrightarrow> pb_content b' = pb_content b \<and> pb_length b' = pb_length b \<and> pb_offset b' \<le> pb_length b"

lemma reads_on_same: "reads_on b b' \<Longrightarrow> same_input b b'"
  by (simp add: reads_on_def same_input_def)

lemma reads_on_same_trans: "reads_on a b \<Longrightarrow> same_input b c \<Longrightarrow> same_input a c"
  by (simp add: reads_on_def same_input_def)

lemma cstring_cstr: "cstring (cstr s)"
  by (auto simp: cstring_def cstr_def dest: set_takeWhileD)

lemma parse_string_ok:
  assumes "wf_buf b" "pb_offset b < pb_length b"
  shows "\<exists>ok item' b'. parse_string E item b = Inr (ok, item', b') \<and> same_input b b' \<and>
     (ok \<longrightarrow> reads_on b b' \<and> pb_offset b < pb_offset b' \<and> (\<exists>s. item' = set_value cJSON_String (Some s) item \<and> cstring s))"
proof -
  let ?s = "pb_offset b + 1"
  have at: "byte_at b (pb_offset b) = Inr (pb_content b ! pb_offset b)" using assms by (rule byte_at_in)
  have fail: "same_input b (b'\<lparr>pb_offset := p\<rparr>)" if "pb_content b' = pb_content b" "pb_length b' = pb_length b" "p \<le> pb_length b" for b' p
    using that by (simp add: same_input_def)
  show ?thesis
  proof (cases "pb_content b ! pb_offset b = CHR 0x22")
    case False
    then show ?thesis using at fail[of b ?s] assms(2) by (auto simp: parse_string_def)
  next
    case quote: True
    obtain r where r: "scan_end b ?s 0 = Inr r"
      "\<And>e t. r = Some (e, t) \<Longrightarrow> e < pb_length b \<and> pb_content b ! e = CHR 0x22 \<and> (\<exists>k. t = 0 + k \<and> scans b e ?s k)"
      using scan_end_ok[OF assms(1), of ?s 0] by blast
    show ?thesis
    proof (cases r)
      case None
      then show ?thesis using at quote r(1) fail[of b ?s] assms(2) by (auto simp: parse_string_def)
    next
      case (Some et)
      obtain e t where et: "r = Some (e, t)" using Some by (cases et) auto
      from r(2)[OF et] have e: "e < pb_length b" "scans b e ?s t" by auto
      note bd = scans_bound[OF e(2)]
      define cap where "cap = e - pb_offset b - t + 1"
      obtain got b1 where a: "pb_allocate E cap b = (got, b1)" by force
      note b1 = wf_allocate[OF a assms(1)]
      have wf1: "wf_buf b1" using reads_on_wf b1 assms(1) by blast
      have c: "pb_content b1 = pb_content b" "pb_length b1 = pb_length b" "pb_depth b1 = pb_depth b" using b1 by (auto simp: reads_on_def)
      have sc: "scans b1 e ?s t" using e(2) by (induction rule: scans.induct) (auto intro: scans.intros simp: c)
      have "cap + t = e - pb_offset b + 1" using bd by (simp add: cap_def)
      then have "0 + (e - ?s) + 1 \<le> cap + t" "?s = e \<longrightarrow> 0 + 1 \<le> cap" using bd by simp_all
      with sc bd have rm: "room b1 e cap ?s (length [])" unfolding room_def by auto
      obtain u where u: "unescape_loop b1 e cap ?s [] = Inr u" "case u of Inl p \<Rightarrow> p < e | Inr out \<Rightarrow> length out + 1 \<le> cap"
        using unescape_loop_ok[OF wf1 _ rm] e(1) c by auto
      have eq: "parse_string E item b = (if \<not> got then Inr (False, item, b1\<lparr>pb_offset := ?s\<rparr>)
          else case u of Inl p \<Rightarrow> Inr (False, item, b1\<lparr>pb_offset := p\<rparr>)
            | Inr out \<Rightarrow> Inr (True, set_value cJSON_String (Some (cstr (out @ [NUL]))) item, b1\<lparr>pb_offset := e + 1\<rparr>))"
        using u(2) unfolding parse_string_def at andthen_simps Let_def r(1) et option.case prod.case cap_def[symmetric] a u(1)
        by (auto simp: quote put_def split: sum.splits)
      have "reads_on b (b1\<lparr>pb_offset := e + 1\<rparr>)" using c e(1) bd by (simp add: reads_on_def)
      moreover have "pb_offset b < e + 1" using bd by simp
      ultimately show ?thesis unfolding eq using fail[OF c(1,2)] u(2) e(1) assms(2) cstring_cstr
        by (cases u) (auto intro: reads_on_same)
    qed
  qed
qed

section \<open>Well-formed items\<close>

definition fresh :: "'d json_env \<Rightarrow> 'd cJSON \<Rightarrow> bool" where
  "fresh E t \<longleftrightarrow> valuestring t = None \<and> valueint t = 0 \<and> valuedouble t = d_of_int E 0 \<and> children t = []"

definition scalar_ok :: "'d json_env \<Rightarrow> 'd cJSON \<Rightarrow> bool" where
  "scalar_ok E t \<longleftrightarrow> children t = [] \<and>
     (item_type t \<in> {cJSON_NULL, cJSON_False} \<and> valuestring t = None \<and> valueint t = 0 \<and> valuedouble t = d_of_int E 0 \<or>
      item_type t = cJSON_True \<and> valuestring t = None \<and> valueint t = 1 \<and> valuedouble t = d_of_int E 0 \<or>
      item_type t = cJSON_Number \<and> valuestring t = None \<and> valueint t = saturate E (valuedouble t) \<or>
      item_type t = cJSON_String \<and> (\<exists>s. valuestring t = Some s \<and> cstring s) \<and> valueint t = 0 \<and> valuedouble t = d_of_int E 0)"

definition key_ok :: "'d cJSON \<Rightarrow> bool" where
  "key_ok t \<longleftrightarrow> (\<exists>k. item_string t = Some k \<and> cstring k)"

definition container_ok :: "'d json_env \<Rightarrow> ('d cJSON \<Rightarrow> bool) \<Rightarrow> 'd cJSON \<Rightarrow> bool" where
  "container_ok E P t \<longleftrightarrow> valuestring t = None \<and> valueint t = 0 \<and> valuedouble t = d_of_int E 0 \<and> list_all P (children t) \<and>
     (item_type t = cJSON_Array \<and> list_all (\<lambda>c. item_string c = None) (children t) \<or>
      item_type t = cJSON_Object \<and> list_all key_ok (children t))"

text \<open>What the parser builds, nested at most \<open>n\<close> deep.\<close>

primrec wf_json :: "'d json_env \<Rightarrow> nat \<Rightarrow> 'd cJSON \<Rightarrow> bool" where
  "wf_json E 0 t = scalar_ok E t"
| "wf_json E (Suc n) t = (scalar_ok E t \<or> container_ok E (wf_json E n) t)"

lemma fresh_new [simp]: "fresh E (cJSON_New_Item E)" "item_string (cJSON_New_Item E) = None"
  by (simp_all add: fresh_def cJSON_New_Item_def)

lemma scalar_wf: "scalar_ok E t \<Longrightarrow> wf_json E n t"
  by (cases n) simp_all

section \<open>Values\<close>

text \<open>What the loops rely on in the parser of a single value.\<close>

locale value_parser =
  fixes E :: "'d json_env" and pv :: "'d cJSON \<Rightarrow> parse_buffer \<Rightarrow> json_fault + (bool \<times> 'd cJSON \<times> parse_buffer)" and n :: nat
  assumes pv_ok: "wf_buf b \<Longrightarrow> CJSON_NESTING_LIMIT < pb_depth b + n \<Longrightarrow> fresh E item \<Longrightarrow>
     \<exists>ok item' b'. pv item b = Inr (ok, item', b') \<and> same_input b b' \<and>
       (ok \<longrightarrow> reads_on b b' \<and> item_string item' = item_string item \<and> wf_json E (n - 1) item')"
begin

lemma elements_loop_ok:
  assumes "wf_buf b" "CJSON_NESTING_LIMIT < pb_depth b + n" "pb_offset b < pb_length b" "pb_length b - pb_offset b < k"
    "list_all (\<lambda>c. wf_json E (n - 1) c \<and> item_string c = None) items"
  shows "\<exists>r b'. elements_loop E pv k b items = Inr (r, b') \<and> same_input b b' \<and>
     (r \<noteq> None \<longrightarrow> reads_on b b' \<and> list_all (\<lambda>c. wf_json E (n - 1) c \<and> item_string c = None) (the r))"
  using assms
proof (induction k arbitrary: b items)
  case (Suc k)
  obtain got b1 where a: "pb_allocate E 64 b = (got, b1)" by force
  note b1 = wf_allocate[OF a Suc.prems(1)]
  show ?case
  proof (cases got)
    case False
    with a b1 show ?thesis by (auto intro: reads_on_same)
  next
    case True
    have r2: "reads_on b (advance 1 b1)" using b1 Suc.prems(3) by (auto simp: reads_on_def advance_def)
    have off2: "pb_offset b < pb_offset (advance 1 b1)" using b1 by (simp add: advance_def)
    obtain b2 where b2: "buffer_skip_whitespace (advance 1 b1) = Inr b2" "reads_on (advance 1 b1) b2"
      using buffer_skip_whitespace_ok[OF reads_on_wf[OF r2 Suc.prems(1)]] by blast
    have r3: "reads_on b b2" "pb_offset b < pb_offset b2" using reads_on_trans[OF r2 b2(2)] off2 b2(2) by (auto simp: reads_on_def)
    have "CJSON_NESTING_LIMIT < pb_depth b2 + n" using r3(1) Suc.prems(2) by (simp add: reads_on_def)
    from pv_ok[OF reads_on_wf[OF r3(1) Suc.prems(1)] this fresh_new(1)] obtain ok t b3 where
      b3: "pv (cJSON_New_Item E) b2 = Inr (ok, t, b3)" "same_input b2 b3"
        "ok \<longrightarrow> reads_on b2 b3 \<and> item_string t = None \<and> wf_json E (n - 1) t" by auto
    show ?thesis
    proof (cases ok)
      case False
      with True a b2(1) b3 r3 show ?thesis by (auto intro: reads_on_same_trans)
    next
      case okT: True
      then have r4: "reads_on b b3" "pb_offset b < pb_offset b3" using b3(3) r3 reads_on_trans by (blast, auto simp: reads_on_def)
      obtain b4 where b4: "buffer_skip_whitespace b3 = Inr b4" "reads_on b3 b4"
        using buffer_skip_whitespace_ok[OF reads_on_wf[OF r4(1) Suc.prems(1)]] by blast
      have r5: "reads_on b b4" "pb_offset b < pb_offset b4" using reads_on_trans[OF r4(1) b4(2)] r4(2) b4(2) by (auto simp: reads_on_def)
      note wf4 = reads_on_wf[OF r5(1) Suc.prems(1)]
      let ?more = "pb_offset b4 < pb_length b4 \<and> pb_content b4 ! pb_offset b4 = CHR '',''"
      have eq: "elements_loop E pv (Suc k) b items =
          (if ?more then elements_loop E pv k b4 (items @ [t]) else Inr (Some (items @ [t]), b4))"
        using True okT a b2(1) b3(1) b4(1) next_is_ok[OF wf4] by simp
      have its: "list_all (\<lambda>c. wf_json E (n - 1) c \<and> item_string c = None) (items @ [t])" using Suc.prems(5) b3(3) okT by simp
      show ?thesis
      proof (cases ?more)
        case True
        have "CJSON_NESTING_LIMIT < pb_depth b4 + n" "pb_length b4 - pb_offset b4 < k"
          using r5 Suc.prems(2,4) by (auto simp: reads_on_def)
        from Suc.IH[OF wf4 this(1) _ this(2) its] True obtain r b' where
          "elements_loop E pv k b4 (items @ [t]) = Inr (r, b')" "same_input b4 b'"
          "r \<noteq> None \<longrightarrow> reads_on b4 b' \<and> list_all (\<lambda>c. wf_json E (n - 1) c \<and> item_string c = None) (the r)" by auto
        with True r5(1) show ?thesis unfolding eq by (auto intro: reads_on_same_trans reads_on_trans)
      next
        case False
        with r5(1) its show ?thesis unfolding eq by (auto intro: reads_on_same)
      qed
    qed
  qed
qed simp

lemma close_bracket_ok:
  assumes "wf_buf b" "r \<noteq> None \<longrightarrow> wf_json E m (set_children ty (the r) item)" "pb_depth b = Suc d"
  shows "\<exists>ok item' b'. close_bracket ty c item (r, b) = Inr (ok, item', b') \<and> same_input b b' \<and>
     (ok \<longrightarrow> reads_on (b\<lparr>pb_depth := d\<rparr>) b' \<and> item_string item' = item_string item \<and> wf_json E m item')"
proof -
  have k: "item_string (set_children ty its item) = item_string item" for its by (cases item) simp
  have off: "pb_offset b \<le> pb_length b" using assms(1) by (simp add: wf_buf_def)
  show ?thesis
  proof (cases r)
    case None
    with off show ?thesis by (auto simp: close_bracket_def same_input_def)
  next
    case (Some its)
    with assms off k show ?thesis
      by (auto simp: close_bracket_def next_is_ok[OF assms(1)] same_input_def reads_on_def advance_def)
  qed
qed

text \<open>Behind an opening bracket: an empty container, or the loop over its items and the closing bracket.\<close>

definition bracketed :: "nat \<Rightarrow> char \<Rightarrow> 'd cJSON \<Rightarrow> (parse_buffer \<Rightarrow> json_fault + ('d cJSON list option \<times> parse_buffer)) \<Rightarrow>
    parse_buffer \<Rightarrow> json_fault + (bool \<times> 'd cJSON \<times> parse_buffer)" where
  "bracketed ty c item loop b =
     andthen (buffer_skip_whitespace (advance 1 b)) (\<lambda>b.
       andthen (next_is b (\<lambda>d. d = c)) (\<lambda>empty.
         if empty then close_bracket ty c item (Some [], b)
         else if \<not> can_access_at_index b 0 then Inr (False, item, step_back b)
         else andthen (loop (step_back b)) (close_bracket ty c item)))"

lemma bracketed_ok:
  assumes wf1: "wf_buf b1" and d1: "pb_depth b1 = Suc d" and off1: "pb_offset b1 < pb_length b1"
    and loop: "\<And>b. reads_on b1 b \<Longrightarrow> pb_offset b < pb_length b \<Longrightarrow> \<exists>r b'. loop b = Inr (r, b') \<and> same_input b b' \<and>
      (r \<noteq> None \<longrightarrow> reads_on b b' \<and> list_all C (the r))"
    and cont: "\<And>its. list_all C its \<Longrightarrow> wf_json E n (set_children ty its item)"
  shows "\<exists>ok item' b'. bracketed ty c item loop b1 = Inr (ok, item', b') \<and> same_input b1 b' \<and>
     (ok \<longrightarrow> reads_on (b1\<lparr>pb_depth := d\<rparr>) b' \<and> item_string item' = item_string item \<and> wf_json E n item')"
proof -
  let ?good = "\<lambda>x. \<exists>ok item' b'. x = Inr (ok, item', b') \<and> same_input b1 b' \<and>
     (ok \<longrightarrow> reads_on (b1\<lparr>pb_depth := d\<rparr>) b' \<and> item_string item' = item_string item \<and> wf_json E n item')"
  have r2: "reads_on b1 (advance 1 b1)" using reads_on_advance[OF wf1, of 1] off1 by simp
  obtain b2 where b2: "buffer_skip_whitespace (advance 1 b1) = Inr b2" "reads_on (advance 1 b1) b2"
    using buffer_skip_whitespace_ok[OF reads_on_wf[OF r2 wf1]] by blast
  have r3: "reads_on b1 b2" using r2 b2(2) by (rule reads_on_trans)
  have bk: "reads_on b1 (step_back b2)" "0 < pb_offset b2" using r3 b2(2) by (auto simp: reads_on_def step_back_def advance_def)
  have close: "?good (close_bracket ty c item (Some its, b))" if "reads_on b1 b" "list_all C its" for b its
  proof -
    have "pb_depth b = Suc d" using that(1) d1 by (simp add: reads_on_def)
    from close_bracket_ok[OF reads_on_wf[OF that(1) wf1] _ this, of "Some its" n ty item c] cont[OF that(2)]
    obtain ok item' b' where "close_bracket ty c item (Some its, b) = Inr (ok, item', b')" "same_input b b'"
      "ok \<longrightarrow> reads_on (b\<lparr>pb_depth := d\<rparr>) b' \<and> item_string item' = item_string item \<and> wf_json E n item'" by auto
    with that(1) show ?thesis by (auto simp: same_input_def reads_on_def)
  qed
  let ?empty = "pb_offset b2 < pb_length b2 \<and> pb_content b2 ! pb_offset b2 = c"
  have eq: "bracketed ty c item loop b1 = (if ?empty then close_bracket ty c item (Some [], b2)
      else if \<not> can_access_at_index b2 0 then Inr (False, item, step_back b2)
      else andthen (loop (step_back b2)) (close_bracket ty c item))"
    unfolding bracketed_def b2(1) andthen_simps next_is_ok[OF reads_on_wf[OF r3 wf1]] by (rule refl)
  consider "?empty" | "\<not> ?empty" "\<not> can_access_at_index b2 0" | "\<not> ?empty" "can_access_at_index b2 0" by blast
  then show ?thesis
  proof cases
    case 1
    then show ?thesis using close[OF r3, of "[]"] unfolding eq if_P[OF 1] by simp
  next
    case 2
    then show ?thesis unfolding eq if_not_P[OF 2(1)] using reads_on_same[OF bk(1)] by auto
  next
    case 3
    then have "pb_offset (step_back b2) < pb_length (step_back b2)" using bk(2) by (simp add: step_back_def can_access_at_index_def)
    from loop[OF bk(1) this] obtain r b4 where b4: "loop (step_back b2) = Inr (r, b4)" "same_input (step_back b2) b4"
      "r \<noteq> None \<longrightarrow> reads_on (step_back b2) b4 \<and> list_all C (the r)" by blast
    have eq': "bracketed ty c item loop b1 = close_bracket ty c item (r, b4)"
      unfolding eq if_not_P[OF 3(1)] using 3(2) b4(1) by simp
    show ?thesis
    proof (cases r)
      case None
      with reads_on_same_trans[OF bk(1) b4(2)] show ?thesis unfolding eq' by (auto simp: close_bracket_def)
    next
      case (Some its)
      with b4(3) close[OF reads_on_trans[OF bk(1)], of b4 its] show ?thesis unfolding eq' by simp
    qed
  qed
qed

text \<open>The opening: the depth grows by one, and shrinks again when the container is complete.\<close>

lemma container_wf:
  assumes "fresh E item" "0 < n" "list_all (\<lambda>c. wf_json E (n - 1) c \<and> K c) its"
    "ty = cJSON_Array \<and> K = (\<lambda>c. item_string c = None) \<or> ty = cJSON_Object \<and> K = key_ok"
  shows "wf_json E n (set_children ty its item)"
proof -
  obtain m where "n = Suc m" using assms(2) by (cases n) auto
  with assms show ?thesis by (cases item) (auto simp: container_ok_def fresh_def list_all_iff)
qed

lemma opened:
  assumes "wf_buf b" "pb_depth b < CJSON_NESTING_LIMIT" "pb_offset b < pb_length b"
    and "\<exists>ok item' b'. X = Inr (ok, item', b') \<and> same_input (b\<lparr>pb_depth := Suc (pb_depth b)\<rparr>) b' \<and>
     (ok \<longrightarrow> reads_on (b\<lparr>pb_depth := Suc (pb_depth b), pb_depth := pb_depth b\<rparr>) b' \<and> item_string item' = k \<and> P item')"
  shows "\<exists>ok item' b'. X = Inr (ok, item', b') \<and> same_input b b' \<and> (ok \<longrightarrow> reads_on b b' \<and> item_string item' = k \<and> P item')"
  using assms(4) by (auto simp: same_input_def reads_on_def)

lemma parse_array_ok:
  assumes "wf_buf b" "CJSON_NESTING_LIMIT < pb_depth b + Suc n" "fresh E item" "pb_offset b < pb_length b"
  shows "\<exists>ok item' b'. parse_array E pv item b = Inr (ok, item', b') \<and> same_input b b' \<and>
     (ok \<longrightarrow> reads_on b b' \<and> item_string item' = item_string item \<and> wf_json E n item')"
proof -
  let ?b = "b\<lparr>pb_depth := Suc (pb_depth b)\<rparr>"
  let ?loop = "\<lambda>b. elements_loop E pv (Suc (pb_length b)) b []"
  let ?C = "\<lambda>c. wf_json E (n - 1) c \<and> item_string c = None"
  have at: "byte_at ?b (pb_offset ?b) = Inr (pb_content b ! pb_offset b)" using assms(1,4) by (simp add: byte_at_def wf_buf_def)
  consider "CJSON_NESTING_LIMIT \<le> pb_depth b" | "pb_depth b < CJSON_NESTING_LIMIT" "pb_content b ! pb_offset b \<noteq> CHR ''[''"
    | "pb_depth b < CJSON_NESTING_LIMIT" "pb_content b ! pb_offset b = CHR ''[''" by linarith
  then show ?thesis
  proof cases
    case 3
    have eq: "parse_array E pv item b = bracketed cJSON_Array (CHR '']'') item ?loop ?b"
      unfolding parse_array_def bracketed_def step_back_simps using 3 at by simp
    have wf: "wf_buf ?b" using assms(1) 3 by (simp add: wf_buf_def)
    have loop: "\<exists>r b''. ?loop b' = Inr (r, b'') \<and> same_input b' b'' \<and> (r \<noteq> None \<longrightarrow> reads_on b' b'' \<and> list_all ?C (the r))"
      if "reads_on ?b b'" "pb_offset b' < pb_length b'" for b'
    proof (rule elements_loop_ok[OF reads_on_wf[OF that(1) wf] _ that(2)])
      show "CJSON_NESTING_LIMIT < pb_depth b' + n" using that(1) assms(2) by (simp add: reads_on_def)
    qed simp_all
    have cont: "wf_json E n (set_children cJSON_Array its item)" if "list_all ?C its" for its
      using assms(2,3) 3 that by (intro container_wf) auto
    show ?thesis unfolding eq
      by (rule opened[OF assms(1) 3(1) assms(4)], rule bracketed_ok[OF wf _ _ loop cont]) (use assms(4) in simp_all)
  qed (use at assms(1) in \<open>auto simp: parse_array_def same_input_def wf_buf_def\<close>)
qed

lemma members_loop_ok:
  assumes "wf_buf b" "CJSON_NESTING_LIMIT < pb_depth b + n" "pb_offset b < pb_length b" "pb_length b - pb_offset b < k"
    "list_all (\<lambda>c. wf_json E (n - 1) c \<and> key_ok c) items"
  shows "\<exists>r b'. members_loop E pv k b items = Inr (r, b') \<and> same_input b b' \<and>
     (r \<noteq> None \<longrightarrow> reads_on b b' \<and> list_all (\<lambda>c. wf_json E (n - 1) c \<and> key_ok c) (the r))"
  using assms
proof (induction k arbitrary: b items)
  case (Suc k)
  obtain got b1 where a: "pb_allocate E 64 b = (got, b1)" by force
  note b1 = wf_allocate[OF a Suc.prems(1)]
  show ?case
  proof (cases "got \<and> can_access_at_index b1 1")
    case False
    with a b1 show ?thesis by (auto intro: reads_on_same)
  next
    case True
    have r2: "reads_on b (advance 1 b1)" and o2: "pb_offset (advance 1 b1) < pb_length (advance 1 b1)" "pb_offset b < pb_offset (advance 1 b1)"
      using b1 True by (auto simp: reads_on_def advance_def can_access_at_index_def)
    obtain b2 where b2: "buffer_skip_whitespace (advance 1 b1) = Inr b2" "reads_on (advance 1 b1) b2" "pb_offset b2 < pb_length b2"
      using buffer_skip_whitespace_ok[OF reads_on_wf[OF r2 Suc.prems(1)]] o2(1) by (auto simp: reads_on_def)
    have r3: "reads_on b b2" "pb_offset b < pb_offset b2" using reads_on_trans[OF r2 b2(2)] o2(2) b2(2) by (auto simp: reads_on_def)
    from parse_string_ok[OF reads_on_wf[OF r3(1) Suc.prems(1)] b2(3), of E "cJSON_New_Item E"] obtain ok t b3 where
      b3: "parse_string E (cJSON_New_Item E) b2 = Inr (ok, t, b3)" "same_input b2 b3"
        "ok \<Longrightarrow> reads_on b2 b3" "ok \<Longrightarrow> \<exists>s. t = set_value cJSON_String (Some s) (cJSON_New_Item E) \<and> cstring s" by blast
    let ?t = "set_value (item_type t) None (set_key (valuestring t) t)"
    show ?thesis
    proof (cases ok)
      case False
      with True a b2(1) b3(1) reads_on_same_trans[OF r3(1) b3(2)] show ?thesis by simp
    next
      case ok: True
      have ft: "fresh E ?t" "key_ok ?t" using b3(4)[OF ok] by (auto simp: fresh_def key_ok_def cJSON_New_Item_def)
      have r4: "reads_on b b3" "pb_offset b < pb_offset b3" using reads_on_trans[OF r3(1) b3(3)[OF ok]] r3(2) b3(3)[OF ok] by (auto simp: reads_on_def)
      obtain b4 where b4: "buffer_skip_whitespace b3 = Inr b4" "reads_on b3 b4"
        using buffer_skip_whitespace_ok[OF reads_on_wf[OF r4(1) Suc.prems(1)]] by blast
      have r5: "reads_on b b4" "pb_offset b < pb_offset b4" using reads_on_trans[OF r4(1) b4(2)] r4(2) b4(2) by (auto simp: reads_on_def)
      note wf4 = reads_on_wf[OF r5(1) Suc.prems(1)]
      let ?colon = "pb_offset b4 < pb_length b4 \<and> pb_content b4 ! pb_offset b4 = CHR '':''"
      show ?thesis
      proof (cases ?colon)
        case False
        with True ok a b2(1) b3(1) b4(1) next_is_ok[OF wf4] reads_on_same[OF r5(1)] show ?thesis by auto
      next
        case colon: True
        have r6: "reads_on b (advance 1 b4)" "pb_offset b < pb_offset (advance 1 b4)" using r5 colon by (auto simp: reads_on_def advance_def)
        obtain b5 where b5: "buffer_skip_whitespace (advance 1 b4) = Inr b5" "reads_on (advance 1 b4) b5"
          using buffer_skip_whitespace_ok[OF reads_on_wf[OF r6(1) Suc.prems(1)]] by blast
        have r7: "reads_on b b5" "pb_offset b < pb_offset b5" using reads_on_trans[OF r6(1) b5(2)] r6(2) b5(2) by (auto simp: reads_on_def)
        have "CJSON_NESTING_LIMIT < pb_depth b5 + n" using r7(1) Suc.prems(2) by (simp add: reads_on_def)
        from pv_ok[OF reads_on_wf[OF r7(1) Suc.prems(1)] this ft(1)] obtain ok2 u b6 where
          b6: "pv ?t b5 = Inr (ok2, u, b6)" "same_input b5 b6"
            "ok2 \<longrightarrow> reads_on b5 b6 \<and> item_string u = item_string ?t \<and> wf_json E (n - 1) u" by auto
        show ?thesis
        proof (cases ok2)
          case False
          with True ok colon a b2(1) b3(1) b4(1) next_is_ok[OF wf4] b5(1) b6(1) reads_on_same_trans[OF r7(1) b6(2)] show ?thesis by simp
        next
          case ok2: True
          then have r8: "reads_on b b6" "pb_offset b < pb_offset b6" using b6(3) r7 reads_on_trans by (blast, auto simp: reads_on_def)
          obtain b7 where b7: "buffer_skip_whitespace b6 = Inr b7" "reads_on b6 b7"
            using buffer_skip_whitespace_ok[OF reads_on_wf[OF r8(1) Suc.prems(1)]] by blast
          have r9: "reads_on b b7" "pb_offset b < pb_offset b7" using reads_on_trans[OF r8(1) b7(2)] r8(2) b7(2) by (auto simp: reads_on_def)
          note wf7 = reads_on_wf[OF r9(1) Suc.prems(1)]
          let ?more = "pb_offset b7 < pb_length b7 \<and> pb_content b7 ! pb_offset b7 = CHR '',''"
          have eq: "members_loop E pv (Suc k) b items =
              (if ?more then members_loop E pv k b7 (items @ [u]) else Inr (Some (items @ [u]), b7))"
            using True ok ok2 colon a b2(1) b3(1) b4(1) next_is_ok[OF wf4] b5(1) b6(1) b7(1) next_is_ok[OF wf7] by simp
          have its: "list_all (\<lambda>c. wf_json E (n - 1) c \<and> key_ok c) (items @ [u])"
            using Suc.prems(5) b6(3) ok2 ft(2) by (simp add: key_ok_def)
          show ?thesis
          proof (cases ?more)
            case True
            have "CJSON_NESTING_LIMIT < pb_depth b7 + n" "pb_length b7 - pb_offset b7 < k"
              using r9 Suc.prems(2,4) by (auto simp: reads_on_def)
            from Suc.IH[OF wf7 this(1) _ this(2) its] True obtain r b' where
              "members_loop E pv k b7 (items @ [u]) = Inr (r, b')" "same_input b7 b'"
              "r \<noteq> None \<longrightarrow> reads_on b7 b' \<and> list_all (\<lambda>c. wf_json E (n - 1) c \<and> key_ok c) (the r)" by auto
            with True r9(1) show ?thesis unfolding eq by (auto intro: reads_on_same_trans reads_on_trans)
          next
            case False
            with r9(1) its show ?thesis unfolding eq by (auto intro: reads_on_same)
          qed
        qed
      qed
    qed
  qed
qed simp

lemma parse_object_ok:
  assumes "wf_buf b" "CJSON_NESTING_LIMIT < pb_depth b + Suc n" "fresh E item" "pb_offset b < pb_length b"
  shows "\<exists>ok item' b'. parse_object E pv item b = Inr (ok, item', b') \<and> same_input b b' \<and>
     (ok \<longrightarrow> reads_on b b' \<and> item_string item' = item_string item \<and> wf_json E n item')"
proof -
  let ?b = "b\<lparr>pb_depth := Suc (pb_depth b)\<rparr>"
  let ?loop = "\<lambda>b. members_loop E pv (Suc (pb_length b)) b []"
  let ?C = "\<lambda>c. wf_json E (n - 1) c \<and> key_ok c"
  have at: "next_is ?b P = Inr (P (pb_content b ! pb_offset b))" for P
    using assms(1,4) by (simp add: next_is_def can_access_at_index_def byte_at_def wf_buf_def)
  consider "CJSON_NESTING_LIMIT \<le> pb_depth b" | "pb_depth b < CJSON_NESTING_LIMIT" "pb_content b ! pb_offset b \<noteq> CHR 0x7B"
    | "pb_depth b < CJSON_NESTING_LIMIT" "pb_content b ! pb_offset b = CHR 0x7B" by linarith
  then show ?thesis
  proof cases
    case 3
    have eq: "parse_object E pv item b = bracketed cJSON_Object (CHR 0x7D) item ?loop ?b"
      unfolding parse_object_def bracketed_def step_back_simps using 3 at by simp
    have wf: "wf_buf ?b" using assms(1) 3 by (simp add: wf_buf_def)
    have loop: "\<exists>r b''. ?loop b' = Inr (r, b'') \<and> same_input b' b'' \<and> (r \<noteq> None \<longrightarrow> reads_on b' b'' \<and> list_all ?C (the r))"
      if "reads_on ?b b'" "pb_offset b' < pb_length b'" for b'
    proof (rule members_loop_ok[OF reads_on_wf[OF that(1) wf] _ that(2)])
      show "CJSON_NESTING_LIMIT < pb_depth b' + n" using that(1) assms(2) by (simp add: reads_on_def)
    qed simp_all
    have cont: "wf_json E n (set_children cJSON_Object its item)" if "list_all ?C its" for its
      using assms(2,3) 3 that by (intro container_wf) auto
    show ?thesis unfolding eq
      by (rule opened[OF assms(1) 3(1) assms(4)], rule bracketed_ok[OF wf _ _ loop cont]) (use assms(4) in simp_all)
  qed (use at assms(1) in \<open>auto simp: parse_object_def same_input_def wf_buf_def\<close>)
qed

end

lemma literal_cases:
  assumes "wf_buf b"
  obtains "literal b s = Inr False" | "literal b s = Inr True" "reads_on b (advance (length s) b)"
proof -
  obtain r where "literal b s = Inr r" "r \<longrightarrow> pb_offset b + length s \<le> pb_length b" using literal_ok[OF assms] by blast
  with that reads_on_advance[OF assms, of "length s"] show ?thesis by (cases r) auto
qed

lemma set_value_key [simp]: "item_string (set_value ty vs t) = item_string t" "item_string (set_int i t) = item_string t"
  by (cases t; simp)+

lemma fresh_scalars:
  assumes "fresh E item"
  shows "scalar_ok E (set_value cJSON_NULL (valuestring item) item)" "scalar_ok E (set_value cJSON_False (valuestring item) item)"
    "scalar_ok E (set_int 1 (set_value cJSON_True (valuestring item) item))"
    "cstring s \<Longrightarrow> scalar_ok E (set_value cJSON_String (Some s) item)"
    "scalar_ok E (Item cJSON_Number (valuestring item) (saturate E d) d k (children item))"
  using assms by (cases item; auto simp: fresh_def scalar_ok_def)+

text \<open>One step of the recursion: a value whose elements are parsed with bound \<open>n\<close>.\<close>

lemma parse_value_Suc:
  assumes vp: "value_parser E (parse_value E n) n" and wf: "wf_buf b" and d: "CJSON_NESTING_LIMIT < pb_depth b + Suc n" and fr: "fresh E item"
  shows "\<exists>ok item' b'. parse_value E (Suc n) item b = Inr (ok, item', b') \<and> same_input b b' \<and>
       (ok \<longrightarrow> reads_on b b' \<and> item_string item' = item_string item \<and> wf_json E n item')"
proof -
  note nx = next_is_ok[OF wf] and sc = fresh_scalars[OF fr, THEN scalar_wf] and same = reads_on_same[OF reads_on_refl[OF wf]]
  note arr = value_parser.parse_array_ok[OF vp wf d fr] and obj = value_parser.parse_object_ok[OF vp wf d fr]
  have lit: "\<exists>ok item' b'. (Inr (True, it, advance k b) :: json_fault + (bool \<times> 'a cJSON \<times> parse_buffer)) = Inr (ok, item', b') \<and> same_input b b' \<and>
       (ok \<longrightarrow> reads_on b b' \<and> item_string item' = item_string item \<and> wf_json E n item')"
    if "reads_on b (advance k b)" "item_string it = item_string item" "wf_json E n it" for it k
    using that reads_on_same[OF that(1)] by blast
  show ?thesis
  proof (cases rule: literal_cases[OF wf, of "''null''"])
    case null: 1
    show ?thesis
    proof (cases rule: literal_cases[OF wf, of "''false''"])
      case false: 1
      show ?thesis
      proof (cases rule: literal_cases[OF wf, of "''true''"])
        case true: 1
        have eq: "parse_value E (Suc n) item b =
          (if pb_offset b < pb_length b \<and> pb_content b ! pb_offset b = CHR 0x22 then parse_string E item b
           else if pb_offset b < pb_length b \<and> (pb_content b ! pb_offset b = CHR ''-'' \<or> is_digit (pb_content b ! pb_offset b)) then parse_number E item b
           else if pb_offset b < pb_length b \<and> pb_content b ! pb_offset b = CHR ''['' then parse_array E (parse_value E n) item b
           else if pb_offset b < pb_length b \<and> pb_content b ! pb_offset b = CHR 0x7B then parse_object E (parse_value E n) item b
           else Inr (False, item, b))"
          unfolding parse_value.simps null false true andthen_simps nx if_False by (rule refl)
        have str: "\<exists>ok item' b'. parse_string E item b = Inr (ok, item', b') \<and> same_input b b' \<and>
            (ok \<longrightarrow> reads_on b b' \<and> item_string item' = item_string item \<and> wf_json E n item')" if "pb_offset b < pb_length b"
          using parse_string_ok[OF wf that, of E item] sc(4) by (metis set_value_key(1))
        have num: "\<exists>ok item' b'. parse_number E item b = Inr (ok, item', b') \<and> same_input b b' \<and>
            (ok \<longrightarrow> reads_on b b' \<and> item_string item' = item_string item \<and> wf_json E n item')"
        proof -
          obtain ok t b' where n: "parse_number E item b = Inr (ok, t, b')" "reads_on b b'"
            "ok \<Longrightarrow> t = Item cJSON_Number (valuestring item) (saturate E (valuedouble t)) (valuedouble t) (item_string item) (children item)"
            using parse_number_ok[OF wf, of E item] by blast
          have "item_string t = item_string item \<and> wf_json E n t" if ok
          proof -
            from n(3)[OF that] obtain d where t: "t = Item cJSON_Number (valuestring item) (saturate E d) d (item_string item) (children item)"
              by blast
            have "wf_json E n t" unfolding t by (rule scalar_wf, rule fresh_scalars(5)[OF fr])
            then show ?thesis by (simp add: t)
          qed
          with n(1,2) reads_on_same show ?thesis by blast
        qed
        define good where "good = (\<lambda>x. \<exists>ok item' b'. x = (Inr (ok, item', b') :: json_fault + (bool \<times> 'a cJSON \<times> parse_buffer)) \<and> same_input b b' \<and>
            (ok \<longrightarrow> reads_on b b' \<and> item_string item' = item_string item \<and> wf_json E n item'))"
        have "good (Inr (False, item, b))" using same by (auto simp: good_def)
        moreover note str num arr obj
        ultimately show ?thesis unfolding eq good_def[symmetric] good_def[THEN fun_cong, symmetric] by (simp split: if_split)
      next
        case 2
        have eq: "parse_value E (Suc n) item b = Inr (True, set_int 1 (set_value cJSON_True (valuestring item) item), advance 4 b)"
          unfolding parse_value.simps null false 2(1) andthen_simps if_True if_False by (rule refl)
        show ?thesis unfolding eq by (rule lit) (use 2(2) sc(3) in \<open>simp_all add: numeral_eq_Suc\<close>)
      qed
    next
      case 2
      have eq: "parse_value E (Suc n) item b = Inr (True, set_value cJSON_False (valuestring item) item, advance 5 b)"
        unfolding parse_value.simps null 2(1) andthen_simps if_True if_False by (rule refl)
      show ?thesis unfolding eq by (rule lit) (use 2(2) sc(2) in \<open>simp_all add: numeral_eq_Suc\<close>)
    qed
  next
    case 2
    have eq: "parse_value E (Suc n) item b = Inr (True, set_value cJSON_NULL (valuestring item) item, advance 4 b)"
      unfolding parse_value.simps 2(1) andthen_simps if_True if_False by (rule refl)
    show ?thesis unfolding eq by (rule lit) (use 2(2) sc(1) in \<open>simp_all add: numeral_eq_Suc\<close>)
  qed
qed

lemma value_parser_all: "value_parser E (parse_value E n) n"
proof (induction n)
  case 0
  show ?case by unfold_locales (simp add: wf_buf_def)
next
  case (Suc n)
  show ?case by unfold_locales (use parse_value_Suc[OF Suc] in simp)
qed

interpretation json: value_parser E "parse_value E n" n for E n
  by (rule value_parser_all)

lemma skip_utf8_bom_ok: "wf_buf b \<Longrightarrow> pb_offset b = 0 \<Longrightarrow> \<exists>b'. skip_utf8_bom b = Inr (Some b') \<and> reads_on b b'"
proof -
  assume b: "wf_buf b" "pb_offset b = 0"
  show ?thesis
  proof (cases "can_access_at_index b 4")
    case True
    with b have "\<exists>r. compare_at b 0 [CHR 0xEF, CHR 0xBB, CHR 0xBF] = Inr r"
      by (intro compare_at_ok) (simp_all add: can_access_at_index_def)
    with b True reads_on_advance[OF b(1), of 3] reads_on_refl[OF b(1)] show ?thesis
      by (auto simp: skip_utf8_bom_def can_access_at_index_def)
  qed (use b reads_on_refl[OF b(1)] in \<open>simp add: skip_utf8_bom_def\<close>)
qed

lemma parse_outcome:
  assumes "len \<le> length content"
  shows "\<exists>item endp err. cJSON_ParseWithLengthOpts E (Some content) len term = Inr (item, Some endp, err) \<and> endp \<le> len \<and>
    (case item of None \<Rightarrow> err = Some endp \<and> (len = 0 \<or> endp < len)
     | Some t \<Rightarrow> err = None \<and> item_string t = None \<and> wf_json E 1000 t)"
proof -
  let ?good = "\<lambda>x. \<exists>item endp err. x = Inr (item, Some endp, err) \<and> endp \<le> len \<and>
    (case item of None \<Rightarrow> err = Some endp \<and> (len = 0 \<or> endp < len) | Some t \<Rightarrow> err = None \<and> item_string t = None \<and> wf_json E 1000 t)"
  have fail: "?good (Inr (parse_failed b))" if "pb_length b = len" for b
    using that by (auto simp: parse_failed_def Let_def)
  show ?thesis
  proof (cases "len = 0")
    case True
    with fail[of "\<lparr>pb_content = content, pb_length = 0, pb_offset = 0, pb_depth = 0, pb_allocs = 0\<rparr>"] show ?thesis
      by (simp add: cJSON_ParseWithLengthOpts_def)
  next
    case False
    define b0 where "b0 = \<lparr>pb_content = content, pb_length = len, pb_offset = 0, pb_depth = 0, pb_allocs = 0\<rparr>"
    have wf0: "wf_buf b0" using assms by (simp add: b0_def wf_buf_def)
    obtain got b1 where a: "pb_allocate E 64 b0 = (got, b1)" by force
    have b1: "reads_on b0 b1" "pb_offset b1 = 0" using wf_allocate[OF a wf0] by (auto simp: b0_def)
    have wf1: "wf_buf b1" using b1(1) wf0 by (rule reads_on_wf)
    obtain b2 where b2: "skip_utf8_bom b1 = Inr (Some b2)" "reads_on b1 b2" using skip_utf8_bom_ok[OF wf1 b1(2)] by blast
    have wf2: "wf_buf b2" using b2(2) wf1 by (rule reads_on_wf)
    obtain b3 where b3: "buffer_skip_whitespace b2 = Inr b3" "reads_on b2 b3" using buffer_skip_whitespace_ok[OF wf2] by blast
    have wf3: "wf_buf b3" using b3(2) wf2 by (rule reads_on_wf)
    obtain ok t b4 where b4: "parse_value E (CJSON_NESTING_LIMIT + 1) (cJSON_New_Item E) b3 = Inr (ok, t, b4)" "same_input b3 b4"
      "ok \<longrightarrow> reads_on b3 b4 \<and> item_string t = None \<and> wf_json E 1000 t"
      using json.pv_ok[OF wf3, where E = E and n = "CJSON_NESTING_LIMIT + 1" and item = "cJSON_New_Item E"] by (auto simp del: parse_value.simps)
    have len: "pb_length b1 = len" "pb_length b2 = len" "pb_length b3 = len" "pb_length b4 = len"
      using b1(1) b2(2) b3(2) b4(2) by (auto simp: reads_on_def same_input_def b0_def)
    define rest where "rest = (if \<not> ok then Inr (parse_failed b4)
       else if \<not> term then Inr (Some t, Some (pb_offset b4), None)
       else andthen (buffer_skip_whitespace b4) (\<lambda>b.
          andthen (next_is b (\<lambda>c. c = NUL)) (\<lambda>z. if z then Inr (Some t, Some (pb_offset b), None) else Inr (parse_failed b))))"
    have eq: "cJSON_ParseWithLengthOpts E (Some content) len term = (if \<not> got then Inr (parse_failed b1) else rest)"
      unfolding cJSON_ParseWithLengthOpts_def option.case Let_def b0_def[symmetric] a prod.case b2(1) b3(1) b4(1) andthen_simps rest_def
      using False by simp
    have "?good rest"
    proof (cases "ok \<and> term")
      case True
      then have r4: "reads_on b3 b4" and wf4: "wf_buf b4" using b4(3) wf3 reads_on_wf by blast+
      obtain b5 where b5: "buffer_skip_whitespace b4 = Inr b5" "reads_on b4 b5" using buffer_skip_whitespace_ok[OF wf4] by blast
      have "rest = (if pb_offset b5 < pb_length b5 \<and> pb_content b5 ! pb_offset b5 = NUL then Inr (Some t, Some (pb_offset b5), None)
          else Inr (parse_failed b5))"
        using True by (simp add: rest_def b5(1) next_is_ok[OF reads_on_wf[OF b5(2) wf4]])
      moreover have "pb_length b5 = len" using b5(2) len(4) by (simp add: reads_on_def)
      ultimately show ?thesis using fail[of b5] b4(3) True by auto
    next
      case False
      then show ?thesis using fail[OF len(4)] b4(3) len(3) by (auto simp: rest_def reads_on_def)
    qed
    with eq fail[OF len(1)] show ?thesis by (cases got) simp_all
  qed
qed

section \<open>Properties: the parser\<close>

text \<open>C12: Parsing is total and stays inside its buffers. Whatever bytes the input holds, whatever length up to its size is
  given and whichever allocations fail, the parser returns; it reads no byte outside the input and writes none outside what
  it allocated. The stored end and error positions lie inside the input. What it accepts is a well-formed tree nested at most
  1000 deep: keys exactly in objects, string values exactly in strings, integers that are their doubles, saturated.\<close>

theorem cjson_parse_total:
  assumes "len \<le> length content"
  shows "\<exists>item endp err. cJSON_ParseWithLengthOpts E (Some content) len term = Inr (item, Some endp, err) \<and> endp \<le> len \<and>
    (case item of None \<Rightarrow> err = Some endp \<and> (len = 0 \<or> endp < len)
     | Some t \<Rightarrow> err = None \<and> item_string t = None \<and> wf_json E 1000 t)"
  by (rule parse_outcome[OF assms])

text \<open>An environment with the integers for the doubles and an allocator that never fails.\<close>

definition demo_json_env :: "int json_env" where
  "demo_json_env = \<lparr>d_of_decimal = (\<lambda>neg m e. (if neg then - int m else int m) * 10 ^ nat e), d_of_int = (\<lambda>i. i), d_to_int = (\<lambda>i. i),
     d_le = (\<le>), d_eq = (=), d_nan = (\<lambda>_. False), d_inf = (\<lambda>_. False), d_fabs = abs, d_sub = (-), d_mul = (*), d_epsilon = 0,
     d_format = (\<lambda>_. dec_int), allocate = (\<lambda>_ _. True), has_realloc = True, fresh_byte = (\<lambda>_ _. NUL)\<rparr>"

theorem cjson_parse_total_witness:
  "\<exists>item endp err. cJSON_ParseWithLengthOpts demo_json_env (Some ''[[1],2'') 6 False = Inr (item, Some endp, err) \<and> endp \<le> 6"
  using cjson_parse_total[of 6 "''[[1],2''" demo_json_env False] by auto

end
