(* ===== verification/Cjson_Print_Laws.thy ===== *)
theory Cjson_Print_Laws
  imports Cjson_Print Cjson_Laws
begin

text \<open>
  The printer against a reference text: on every buffer it writes that text and nothing
  outside the buffer, and it succeeds exactly when there is room for two bytes more than the text.
\<close>

section \<open>The reference text\<close>

definition quote_char :: "char \<Rightarrow> string" where
  "quote_char c = (if 31 < (of_char c :: nat) \<and> c \<noteq> CHR 0x22 \<and> c \<noteq> CHR 0x5C then [c]
     else CHR 0x5C # (case short_escape c of Some e \<Rightarrow> [e] | None \<Rightarrow> u_escape c))"

definition quote_text :: "string option \<Rightarrow> string" where
  "quote_text s = CHR 0x22 # concat (map quote_char (case s of None \<Rightarrow> [] | Some t \<Rightarrow> t)) @ [CHR 0x22]"

definition tcat :: "string option \<Rightarrow> string option \<Rightarrow> string option" where
  "tcat a b = (case a of None \<Rightarrow> None | Some s \<Rightarrow> map_option (\<lambda>t. s @ t) b)"

definition tabs :: "bool \<Rightarrow> nat \<Rightarrow> string" where
  "tabs fmt d = (if fmt then replicate d (CHR 0x09) else [])"

fun json_text :: "'d json_env \<Rightarrow> bool \<Rightarrow> nat \<Rightarrow> 'd cJSON \<Rightarrow> string option"
and elements_text :: "'d json_env \<Rightarrow> bool \<Rightarrow> nat \<Rightarrow> 'd cJSON list \<Rightarrow> string option"
and members_text :: "'d json_env \<Rightarrow> bool \<Rightarrow> nat \<Rightarrow> 'd cJSON list \<Rightarrow> string option" where
  "json_text E fmt d (Item ty vs vi vd key ch) =
     (let kind = ty AND 0xFF in
      if kind = cJSON_NULL then Some ''null'' else if kind = cJSON_False then Some ''false''
      else if kind = cJSON_True then Some ''true''
      else if kind = cJSON_Number then Some (number_text E (Item ty vs vi vd key ch))
      else if kind = cJSON_Raw then vs
      else if kind = cJSON_String then Some (quote_text vs)
      else if kind = cJSON_Array
        then (if CJSON_NESTING_LIMIT \<le> d then None
              else tcat (Some ''['') (tcat (elements_text E fmt (d + 1) ch) (Some '']'')))
      else if kind = cJSON_Object
        then (if CJSON_NESTING_LIMIT \<le> d then None
              else tcat (Some (CHR 0x7B # (if fmt then [CHR 0x0A] else [])))
                     (tcat (members_text E fmt (d + 1) ch) (Some (tabs fmt d @ [CHR 0x7D]))))
      else None)"
| "elements_text E fmt d [] = Some []"
| "elements_text E fmt d (c # cs) =
     tcat (json_text E fmt d c)
       (if cs = [] then Some [] else tcat (Some (CHR '','' # (if fmt then '' '' else []))) (elements_text E fmt d cs))"
| "members_text E fmt d [] = Some []"
| "members_text E fmt d (c # cs) =
     tcat (Some (tabs fmt d)) (tcat (Some (quote_text (item_string c)))
       (tcat (Some (CHR '':'' # (if fmt then [CHR 0x09] else [])))
         (tcat (json_text E fmt d c)
           (tcat (Some ((if cs \<noteq> [] then '','' else []) @ (if fmt then [CHR 0x0A] else []))) (members_text E fmt d cs)))))"

text \<open>Items whose strings are C strings and whose numbers fit \<open>number_buffer\<close>.\<close>

fun printable :: "'d json_env \<Rightarrow> 'd cJSON \<Rightarrow> bool" where
  "printable E (Item ty vs vi vd key ch) =
     (pred_option cstring vs \<and> pred_option cstring key \<and>
      (ty AND 0xFF = cJSON_Number \<longrightarrow> length (number_text E (Item ty vs vi vd key ch)) \<le> 25 \<and>
         cstring (number_text E (Item ty vs vi vd key ch))) \<and>
      list_all (printable E) ch)"

lemma tcat_simps [simp]: "tcat None b = None" "tcat a None = None" "tcat (Some s) (Some t) = Some (s @ t)"
  by (simp_all add: tcat_def split: option.split)

lemma tcat_Some_iff: "tcat a b = Some t \<longleftrightarrow> (\<exists>u v. a = Some u \<and> b = Some v \<and> t = u @ v)"
  by (cases a; cases b) auto

lemma length_quote_char: "length (quote_char c) = 1 + escape_cost c"
proof (cases "31 < (of_char c :: nat) \<and> c \<noteq> CHR 0x22 \<and> c \<noteq> CHR 0x5C")
  case True
  moreover have "c \<noteq> CHR 0x08" "c \<noteq> CHR 0x0C" "c \<noteq> CHR 0x0A" "c \<noteq> CHR 0x0D" "c \<noteq> CHR 0x09" using True by auto
  ultimately show ?thesis by (auto simp: quote_char_def escape_cost_def short_escape_def)
next
  case False
  have "short_escape c = None \<Longrightarrow> (of_char c :: nat) < 32" using False by (auto simp: short_escape_def split: if_splits)
  with False show ?thesis by (auto simp: quote_char_def escape_cost_def u_escape_def Let_def split: option.splits)
qed

lemma length_quote_chars: "length (concat (map quote_char s)) = length s + sum_list (map escape_cost s)"
  by (induction s) (simp_all add: length_quote_char)

lemma quote_chars_plain: "sum_list (map escape_cost s) = 0 \<Longrightarrow> concat (map quote_char s) = s"
proof (induction s)
  case (Cons c s)
  then have "escape_cost c = 0" by simp
  then have "quote_char c = [c]" by (auto simp: quote_char_def escape_cost_def short_escape_def split: if_splits option.splits)
  with Cons show ?case by simp
qed simp

lemma hex_char_NUL: "n < 16 \<Longrightarrow> hex_char n \<noteq> NUL"
proof
  assume "n < 16" "hex_char n = NUL"
  moreover have "of_char (hex_char n) = (if n < 10 then 48 + n else 87 + n)" if "n < 16" using that by (simp add: hex_char_def)
  ultimately show False by (auto split: if_splits)
qed

lemma cstring_append [simp]: "cstring (a @ b) \<longleftrightarrow> cstring a \<and> cstring b"
  by (auto simp: cstring_def)

lemma cstring_Cons [simp]: "cstring (c # s) \<longleftrightarrow> c \<noteq> NUL \<and> cstring s"
  by (auto simp: cstring_def)

lemma cstring_Nil [simp]: "cstring []"
  by (simp add: cstring_def)

lemma cstring_quote_char: "c \<noteq> NUL \<Longrightarrow> cstring (quote_char c)"
proof -
  have "(of_char c :: nat) div 16 < 16" by (simp add: less_mult_imp_div_less of_char_of)
  then have "cstring (u_escape c)" by (auto simp: u_escape_def Let_def hex_char_NUL)
  moreover have "c \<noteq> NUL \<Longrightarrow> cstring [e]" if "short_escape c = Some e" for e
    using that by (auto simp: short_escape_def split: if_splits)
  ultimately show "c \<noteq> NUL \<Longrightarrow> cstring (quote_char c)" by (auto simp: quote_char_def split: option.splits)
qed

lemma cstring_quote_text: "pred_option cstring s \<Longrightarrow> cstring (quote_text s)"
proof -
  have "cstring t \<Longrightarrow> cstring (concat (map quote_char t))" for t
    by (induction t) (auto simp: cstring_quote_char)
  then show "pred_option cstring s \<Longrightarrow> cstring (quote_text s)" by (cases s) (auto simp: quote_text_def)
qed

lemma cstring_tabs [simp]: "cstring (tabs fmt d)"
  by (auto simp: tabs_def cstring_def)

lemma elements_text_cstring:
  "\<forall>c \<in> set cs. \<forall>s. json_text E fmt d c = Some s \<longrightarrow> cstring s \<Longrightarrow> elements_text E fmt d cs = Some s \<Longrightarrow> cstring s"
proof (induction cs arbitrary: s)
  case (Cons c cs)
  then show ?case by (cases "cs = []") (auto simp: tcat_Some_iff)
qed auto

lemma members_text_cstring:
  "\<forall>c \<in> set cs. pred_option cstring (item_string c) \<and> (\<forall>s. json_text E fmt d c = Some s \<longrightarrow> cstring s) \<Longrightarrow>
    members_text E fmt d cs = Some s \<Longrightarrow> cstring s"
proof (induction cs arbitrary: s)
  case (Cons c cs)
  then show ?case by (auto simp: tcat_Some_iff cstring_quote_text)
qed auto

lemma printable_key: "printable E c \<Longrightarrow> pred_option cstring (item_string c)"
  by (cases c) simp

text \<open>The kinds of an item, as \<open>print_value\<close> distinguishes them.\<close>

lemma kind_cases:
  fixes ty :: nat
  obtains "ty AND 0xFF = cJSON_NULL" | "ty AND 0xFF = cJSON_False" | "ty AND 0xFF = cJSON_True" | "ty AND 0xFF = cJSON_Number"
    | "ty AND 0xFF = cJSON_Raw" | "ty AND 0xFF = cJSON_String" | "ty AND 0xFF = cJSON_Array" | "ty AND 0xFF = cJSON_Object"
    | "ty AND 0xFF \<notin> {1, 2, 4, 8, 16, 32, 64, 128}"
  by blast

lemma json_text_cstring: "printable E t \<Longrightarrow> json_text E fmt d t = Some s \<Longrightarrow> cstring s"
proof (induction t arbitrary: d s)
  case (Item ty vs vi vd key ch)
  have all: "\<forall>c \<in> set ch. printable E c" using Item.prems(1) by (simp add: list_all_iff)
  have el: "cstring u" if "elements_text E fmt (d + 1) ch = Some u" for u
    using elements_text_cstring[OF _ that] Item.IH all by blast
  have mem: "cstring u" if "members_text E fmt (d + 1) ch = Some u" for u
    using members_text_cstring[OF _ that] Item.IH all printable_key by blast
  show ?case
  proof (cases rule: kind_cases[of ty])
    case 7
    with Item.prems(2) el show ?thesis by (auto simp: tcat_Some_iff split: if_splits)
  next
    case 8
    with Item.prems(2) mem show ?thesis by (auto simp: tcat_Some_iff split: if_splits)
  qed (use Item.prems in \<open>auto simp: cstring_quote_text simp del: number_text_def\<close>)
qed

section \<open>Writing to the buffer\<close>

definition wf_out :: "'d json_env \<Rightarrow> printbuffer \<Rightarrow> bool" where
  "wf_out E p \<longleftrightarrow> (\<exists>m. pr_buffer p = Some m \<and> pr_length p \<le> length m \<and>
     (pr_offset p < pr_length p \<or> pr_length p = 0 \<and> pr_offset p = 0 \<and> (has_realloc E \<or> pr_noalloc p)))"

definition text_of :: "printbuffer \<Rightarrow> string" where
  "text_of p = take (pr_offset p) (the (pr_buffer p))"

definition same_out :: "printbuffer \<Rightarrow> printbuffer \<Rightarrow> bool" where
  "same_out p p' \<longleftrightarrow> pr_noalloc p' = pr_noalloc p \<and> pr_format p' = pr_format p \<and> pr_depth p' = pr_depth p \<and>
     (pr_noalloc p \<longrightarrow> pr_length p' = pr_length p \<and> map_option length (pr_buffer p') = map_option length (pr_buffer p))"

text \<open>How far the buffer can grow, if the allocator does not fail.\<close>

definition room_of :: "'d json_env \<Rightarrow> printbuffer \<Rightarrow> nat" where
  "room_of E p = (if pr_noalloc p then min (pr_length p) 2147483647 else if \<forall>k n. allocate E k n then 2147483647 else 0)"

definition moved :: "'d json_env \<Rightarrow> printbuffer \<Rightarrow> string \<Rightarrow> printbuffer \<Rightarrow> bool" where
  "moved E p t p' \<longleftrightarrow> wf_out E p' \<and> same_out p p' \<and> pr_offset p' = pr_offset p + length t \<and> text_of p' = text_of p @ t"

definition shown :: "'d json_env \<Rightarrow> printbuffer \<Rightarrow> string \<Rightarrow> printbuffer \<Rightarrow> bool" where
  "shown E p t p' \<longleftrightarrow> pr_offset p + length t + 2 \<le> pr_length p' \<and>
     (\<exists>u v. t = u @ v \<and> moved E p u p' \<and> prefix (v @ [NUL]) (drop (pr_offset p') (the (pr_buffer p'))))"

lemma same_out_refl [simp]: "same_out p p"
  by (simp add: same_out_def)

lemma same_out_trans: "same_out a b \<Longrightarrow> same_out b c \<Longrightarrow> same_out a c"
  by (auto simp: same_out_def)

lemma moved_refl: "wf_out E p \<Longrightarrow> moved E p [] p"
  by (simp add: moved_def)

lemma moved_trans: "moved E a s b \<Longrightarrow> moved E b t c \<Longrightarrow> moved E a (s @ t) c"
  by (auto simp: moved_def intro: same_out_trans)

lemma moved_shown:
  assumes "moved E a s b" "shown E b t c"
  shows "shown E a (s @ t) c"
proof -
  obtain u v where u: "t = u @ v" "moved E b u c" "prefix (v @ [NUL]) (drop (pr_offset c) (the (pr_buffer c)))"
    and l: "pr_offset b + length t + 2 \<le> pr_length c" using assms(2) by (auto simp: shown_def)
  have "s @ t = (s @ u) @ v" "moved E a (s @ u) c" using u(1) moved_trans[OF assms(1) u(2)] by simp_all
  moreover have "pr_offset b = pr_offset a + length s" using assms(1) by (simp add: moved_def)
  moreover have "pr_offset a + length (s @ t) + 2 \<le> pr_length c" using l calculation(3) by simp
  ultimately show ?thesis using u(3) unfolding shown_def by blast
qed

lemma room_of_same: "same_out p p' \<Longrightarrow> room_of E p' = room_of E p"
  by (auto simp: same_out_def room_of_def)

text \<open>A buffer of the caller stays where it is.\<close>

definition kept :: "printbuffer \<Rightarrow> printbuffer \<Rightarrow> bool" where
  "kept p p' \<longleftrightarrow> (pr_noalloc p \<longrightarrow> pr_noalloc p' \<and> map_option length (pr_buffer p') = map_option length (pr_buffer p))"

lemma kept_refl [simp]: "kept p p"
  by (simp add: kept_def)

lemma moved_kept: "moved E p t q \<Longrightarrow> kept q r \<Longrightarrow> kept p r"
  by (auto simp: moved_def same_out_def kept_def)

text \<open>The outcome of a step that is to write \<open>T\<close>: it returns, writes that and nothing else if it succeeds, and succeeds
  when there is room.\<close>

definition outcome :: "('d json_env \<Rightarrow> printbuffer \<Rightarrow> string \<Rightarrow> printbuffer \<Rightarrow> bool) \<Rightarrow> 'd json_env \<Rightarrow> printbuffer \<Rightarrow>
    json_fault + (bool \<times> printbuffer) \<Rightarrow> string option \<Rightarrow> bool" where
  "outcome R E p X T \<longleftrightarrow> (\<exists>ok p'. X = Inr (ok, p') \<and> (ok \<longrightarrow> (\<exists>t. T = Some t \<and> R E p t p')) \<and> (\<not> ok \<longrightarrow> kept p p') \<and>
     (\<forall>t. T = Some t \<longrightarrow> pr_offset p + length t + 2 \<le> room_of E p \<longrightarrow> ok))"

text \<open>\<open>ensure\<close>: on success the buffer has the bytes asked for and one more.\<close>

lemma grow_ok:
  assumes "wf_out E p" "pr_buffer p = Some m" "pr_length p \<le> pr_offset p + n" "pr_offset p + n < k" "\<not> pr_noalloc p"
  shows "\<exists>r p'. grow E m k p = Inr (r, p') \<and>
    (r \<noteq> None \<longrightarrow> r = Some (pr_offset p) \<and> moved E p [] p' \<and> pr_offset p + n + 1 \<le> pr_length p') \<and>
    (r = None \<longrightarrow> \<not> allocate E (pr_allocs p) k)"
proof -
  have m: "pr_length p \<le> length m" "pr_offset p < pr_length p \<or> pr_length p = 0 \<and> pr_offset p = 0 \<and> has_realloc E"
    using assms(1,2,5) by (auto simp: wf_out_def)
  let ?f = "fresh_memory E (pr_allocs p) k"
  have len: "length (take k m @ drop (length m) ?f) = k" by (simp add: fresh_memory_def)
  have t1: "take (pr_offset p) (take k m @ drop (length m) ?f) = take (pr_offset p) m" using m assms(4) by auto
  have t2: "take (pr_offset p) (take (pr_offset p + 1) m @ drop (pr_offset p + 1) ?f) = take (pr_offset p) m"
    if "pr_offset p < length m" using that by simp
  show ?thesis
  proof (cases "allocate E (pr_allocs p) k")
    case False
    then show ?thesis by (simp add: grow_def Let_def)
  next
    case True
    show ?thesis
    proof (cases "has_realloc E")
      case re: True
      with True len t1 assms(2,4,5) show ?thesis
        by (auto simp: grow_def Let_def moved_def wf_out_def same_out_def text_of_def)
    next
      case False
      then have o: "pr_offset p < pr_length p" using m(2) by simp
      then have "length (take (pr_offset p + 1) m @ drop (pr_offset p + 1) ?f) = k" using m(1) assms(4) by (simp add: fresh_memory_def)
      with True False o m(1) t2 assms(2,4,5) show ?thesis
        by (auto simp: grow_def Let_def moved_def wf_out_def same_out_def text_of_def)
    qed
  qed
qed

lemma ensure_ok:
  assumes "wf_out E p"
  shows "\<exists>r p'. ensure E n p = Inr (r, p') \<and>
    (r \<noteq> None \<longrightarrow> r = Some (pr_offset p) \<and> moved E p [] p' \<and> pr_offset p + n + 1 \<le> pr_length p') \<and>
    (r = None \<longrightarrow> kept p p') \<and> (pr_offset p + n + 1 \<le> room_of E p \<longrightarrow> r \<noteq> None)"
proof -
  obtain m where m: "pr_buffer p = Some m" using assms by (auto simp: wf_out_def)
  have off: "\<not> (0 < pr_length p \<and> pr_length p \<le> pr_offset p)" using assms by (auto simp: wf_out_def)
  have room: "room_of E p \<le> 2147483647" by (simp add: room_of_def)
  let ?n = "n + pr_offset p + 1"
  have eq: "ensure E n p = (if 2147483647 < n then Inr (None, p) else if ?n \<le> pr_length p then Inr (Some (pr_offset p), p)
     else if pr_noalloc p then Inr (None, p) else (case new_size ?n of None \<Rightarrow> Inr (None, p) | Some k \<Rightarrow> grow E m k p))"
    unfolding ensure_def m option.case if_not_P[OF off] Let_def by (rule refl)
  consider "2147483647 < n" | "n \<le> 2147483647" "?n \<le> pr_length p" | "n \<le> 2147483647" "pr_length p < ?n" "pr_noalloc p"
    | "n \<le> 2147483647" "pr_length p < ?n" "\<not> pr_noalloc p" "new_size ?n = None"
    | k where "n \<le> 2147483647" "pr_length p < ?n" "\<not> pr_noalloc p" "new_size ?n = Some k"
    by (cases "new_size ?n") (force simp: not_le)+
  then show ?thesis
  proof cases
    case 5
    then have k: "pr_offset p + n < k" by (auto simp: new_size_def split: if_splits)
    from grow_ok[OF assms m _ k 5(3)] 5(2) obtain r p' where g: "grow E m k p = Inr (r, p')"
      "r \<noteq> None \<longrightarrow> r = Some (pr_offset p) \<and> moved E p [] p' \<and> pr_offset p + n + 1 \<le> pr_length p'"
      "r = None \<longrightarrow> \<not> allocate E (pr_allocs p) k" by auto
    moreover have "r \<noteq> None" if "pr_offset p + n + 1 \<le> room_of E p" using that g(3) 5(3) by (auto simp: room_of_def split: if_splits)
    ultimately show ?thesis unfolding eq using 5 by (auto simp: kept_def)
  next
    case 4
    then show ?thesis unfolding eq using room by (auto simp: new_size_def split: if_splits)
  qed (unfold eq, use room moved_refl[OF assms] in \<open>auto simp: room_of_def split: if_splits\<close>)
qed

lemma poke_text:
  assumes "wf_out E p" "pr_offset p + length (t @ z) \<le> pr_length p" "pr_offset p + length t < pr_length p"
  shows "\<exists>q. poke (pr_offset p) (t @ z) p = Inr q \<and> moved E p [] q \<and> moved E p t (advance_out (length t) q) \<and>
    prefix (t @ z) (drop (pr_offset q) (the (pr_buffer q))) \<and> pr_length q = pr_length p \<and> pr_offset q = pr_offset p"
proof -
  obtain m where m: "pr_buffer p = Some m" "pr_length p \<le> length m" using assms(1) by (auto simp: wf_out_def)
  let ?m = "take (pr_offset p) m @ t @ z @ drop (pr_offset p + length (t @ z)) m"
  have q: "poke (pr_offset p) (t @ z) p = Inr (p\<lparr>pr_buffer := Some ?m\<rparr>)" using m assms(2) by (simp add: poke_def)
  have len: "length ?m = length m" "length (take (pr_offset p) m) = pr_offset p" using m assms(2) by simp_all
  have "drop (pr_offset p) ?m = t @ z @ drop (pr_offset p + length (t @ z)) m" using len(2) by simp
  moreover have "take (pr_offset p) ?m = take (pr_offset p) m" "take (pr_offset p + length t) ?m = take (pr_offset p) m @ t"
    using len(2) by simp_all
  ultimately show ?thesis using q len(1) m assms
    by (auto simp: moved_def wf_out_def same_out_def text_of_def advance_out_def)
qed

section \<open>Composing steps\<close>

lemma ensured_outcome:
  assumes "wf_out E p" "n \<le> length t + 1"
    and "\<And>q. moved E p [] q \<Longrightarrow> pr_offset p + n + 1 \<le> pr_length q \<Longrightarrow> \<exists>r. f (pr_offset q) q = Inr (True, r) \<and> R E p t r"
  shows "outcome R E p (ensured E n p f) (Some t)"
proof -
  obtain r q where e: "ensure E n p = Inr (r, q)"
    "r \<noteq> None \<longrightarrow> r = Some (pr_offset p) \<and> moved E p [] q \<and> pr_offset p + n + 1 \<le> pr_length q"
    "r = None \<longrightarrow> kept p q" "pr_offset p + n + 1 \<le> room_of E p \<longrightarrow> r \<noteq> None" using ensure_ok[OF assms(1)] by blast
  show ?thesis
  proof (cases r)
    case None
    with e assms(2) show ?thesis by (auto simp: outcome_def ensured_def)
  next
    case (Some i)
    with e have q: "i = pr_offset q" "moved E p [] q" "pr_offset p + n + 1 \<le> pr_length q" by (auto simp: moved_def)
    from assms(3)[OF q(2,3)] obtain r' where "f (pr_offset q) q = Inr (True, r')" "R E p t r'" by blast
    with Some e(1) q(1) show ?thesis by (auto simp: outcome_def ensured_def)
  qed
qed

lemma moved_from: "moved E p [] q \<Longrightarrow> moved E q t r \<Longrightarrow> moved E p t r"
  using moved_trans[of E p "[]" q t r] by simp

lemma ensured_moves:
  assumes "wf_out E p" "length t \<le> n" "n \<le> length t + 1" "z = [] \<or> z = [NUL]" "length (t @ z) \<le> n + 1"
  shows "outcome moved E p (ensured E n p (\<lambda>i q. andthen (poke i (t @ z) q) (\<lambda>q. Inr (True, advance_out (length t) q)))) (Some t)"
proof (rule ensured_outcome[OF assms(1,3)])
  fix q assume q: "moved E p [] q" "pr_offset p + n + 1 \<le> pr_length q"
  then have "wf_out E q" "pr_offset q + length (t @ z) \<le> pr_length q" "pr_offset q + length t < pr_length q"
    using assms(2,5) by (auto simp: moved_def)
  from poke_text[OF this] moved_from[OF q(1)]
  show "\<exists>r. andthen (poke (pr_offset q) (t @ z) q) (\<lambda>q. Inr (True, advance_out (length t) q)) = Inr (True, r) \<and> moved E p t r" by auto
qed

lemma shown_still:
  assumes "moved E p [] q" "pr_offset p + length t + 2 \<le> pr_length q" "prefix (t @ [NUL]) (drop (pr_offset q) (the (pr_buffer q)))"
  shows "shown E p t q"
  using assms unfolding shown_def by (metis append_Nil)

lemma ensured_shows:
  assumes "wf_out E p" "n = length t + 1"
  shows "outcome shown E p (ensured E n p (\<lambda>i q. wrote (poke i (t @ [NUL]) q))) (Some t)"
proof (rule ensured_outcome[OF assms(1)])
  fix q assume q: "moved E p [] q" "pr_offset p + n + 1 \<le> pr_length q"
  then have "wf_out E q" "pr_offset q + length (t @ [NUL]) \<le> pr_length q" "pr_offset q + length t < pr_length q"
    using assms(2) by (auto simp: moved_def)
  from poke_text[OF this] obtain r where r: "poke (pr_offset q) (t @ [NUL]) q = Inr r" "moved E q [] r"
    "prefix (t @ [NUL]) (drop (pr_offset r) (the (pr_buffer r)))" "pr_length r = pr_length q" by blast
  have "shown E p t r" by (rule shown_still[OF moved_from[OF q(1) r(2)] _ r(3)]) (use q(2) r(4) assms(2) in simp)
  with r(1) show "\<exists>r. wrote (poke (pr_offset q) (t @ [NUL]) q) = Inr (True, r) \<and> shown E p t r" by (simp add: wrote_def)
qed (simp add: assms(2))

lemma outcome_checked:
  assumes X: "outcome moved E p X T"
    and f: "\<And>t q. T = Some t \<Longrightarrow> moved E p t q \<Longrightarrow> outcome R E q (f q) T'"
    and R: "\<And>t q t' r. moved E p t q \<Longrightarrow> R E q t' r \<Longrightarrow> R E p (t @ t') r"
  shows "outcome R E p (checked X f) (tcat T T')"
proof -
  obtain ok q where x: "X = Inr (ok, q)" "ok \<longrightarrow> (\<exists>t. T = Some t \<and> moved E p t q)"
    "\<not> ok \<longrightarrow> kept p q" "\<forall>t. T = Some t \<longrightarrow> pr_offset p + length t + 2 \<le> room_of E p \<longrightarrow> ok" using X by (auto simp: outcome_def)
  show ?thesis
  proof (cases ok)
    case False
    with x show ?thesis by (auto simp: outcome_def checked_def tcat_Some_iff)
  next
    case True
    then obtain t where t: "T = Some t" "moved E p t q" using x(2) by blast
    from f[OF this] obtain ok' r where r: "f q = Inr (ok', r)" "ok' \<longrightarrow> (\<exists>t'. T' = Some t' \<and> R E q t' r)"
      "\<not> ok' \<longrightarrow> kept q r" "\<forall>t'. T' = Some t' \<longrightarrow> pr_offset q + length t' + 2 \<le> room_of E q \<longrightarrow> ok'" by (auto simp: outcome_def)
    have "room_of E q = room_of E p" "pr_offset q = pr_offset p + length t" using t(2) by (auto simp: moved_def intro: room_of_same)
    with True x(1) t r R[OF t(2)] moved_kept[OF t(2)] show ?thesis by (auto simp: outcome_def checked_def tcat_Some_iff)
  qed
qed

lemmas outcome_moves = outcome_checked[where R = moved, OF _ _ moved_trans]
lemmas outcome_shows = outcome_checked[where R = shown, OF _ _ moved_shown]

lemma shown_update:
  assumes "shown E p t q" "cstring t"
  shows "\<exists>q'. update_offset q = Inr q' \<and> moved E p t q'"
proof -
  obtain u v where u: "t = u @ v" "moved E p u q" "prefix (v @ [NUL]) (drop (pr_offset q) (the (pr_buffer q)))"
    and l: "pr_offset p + length t + 2 \<le> pr_length q" using assms(1) by (auto simp: shown_def)
  obtain m where m: "pr_buffer q = Some m" "pr_length q \<le> length m" using u(2) by (auto simp: moved_def wf_out_def)
  obtain z where z: "drop (pr_offset q) m = v @ NUL # z" using u(3) m(1) by (auto simp: prefix_def)
  have v: "cstr (v @ NUL # z) = v" using assms(2) u(1) by (simp add: cstr_append) (simp add: cstr_def)
  have eq: "update_offset q = Inr (q\<lparr>pr_offset := pr_offset q + length v\<rparr>)" by (simp add: update_offset_def m z v)
  have "take (pr_offset q + length v) m = take (pr_offset q) m @ v" by (simp add: take_add z)
  moreover have "pr_offset q + length v < pr_length q" using l u(1,2) by (simp add: moved_def)
  ultimately show ?thesis using u(1,2) m unfolding eq
    by (auto simp: moved_def wf_out_def same_out_def text_of_def)
qed

lemma outcome_update:
  assumes X: "outcome shown E p X T" and c: "\<And>t. T = Some t \<Longrightarrow> cstring t"
    and f: "\<And>t q. T = Some t \<Longrightarrow> moved E p t q \<Longrightarrow> outcome moved E q (f q) T'"
  shows "outcome moved E p (checked X (\<lambda>q. andthen (update_offset q) f)) (tcat T T')"
proof -
  obtain ok q where x: "X = Inr (ok, q)" "ok \<longrightarrow> (\<exists>t. T = Some t \<and> shown E p t q)"
    "\<not> ok \<longrightarrow> kept p q" "\<forall>t. T = Some t \<longrightarrow> pr_offset p + length t + 2 \<le> room_of E p \<longrightarrow> ok" using X by (auto simp: outcome_def)
  show ?thesis
  proof (cases ok)
    case False
    with x show ?thesis by (auto simp: outcome_def checked_def tcat_Some_iff)
  next
    case True
    then obtain t where t: "T = Some t" "shown E p t q" using x(2) by blast
    obtain q' where q': "update_offset q = Inr q'" "moved E p t q'" using shown_update[OF t(2) c[OF t(1)]] by blast
    have "outcome moved E p (checked (Inr (True, q')) f) (tcat T T')"
      by (rule outcome_moves[OF _ f]) (use t(1) q'(2) in \<open>auto simp: outcome_def\<close>)
    moreover have "checked (Inr (True, q')) f = checked X (\<lambda>q. andthen (update_offset q) f)"
      using x(1) True q'(1) by (simp add: checked_def)
    ultimately show ?thesis by simp
  qed
qed

section \<open>Strings and numbers\<close>

lemma poke_poke:
  assumes "pr_buffer p = Some m" "i + length (a @ b) \<le> length m" "j = i + length a"
  shows "andthen (poke i a p) (\<lambda>q. andthen (poke j b q) f) = f (p\<lparr>pr_buffer := Some (take i m @ (a @ b) @ drop (i + length (a @ b)) m)\<rparr>)"
proof -
  have "take j (take i m @ a @ drop j m) = take i m @ a" using assms(2,3) by simp
  moreover have "drop (j + length b) (take i m @ a @ drop j m) = drop (i + length (a @ b)) m"
    using assms(2,3) by (simp add: ac_simps)
  ultimately show ?thesis using assms by (simp add: poke_def)
qed

lemma quote_loop_ok:
  "pr_buffer p = Some m \<Longrightarrow> i + length (concat (map quote_char s)) + 1 \<le> length m \<Longrightarrow>
    \<exists>m'. quote_loop s i p = Inr (p\<lparr>pr_buffer := Some m'\<rparr>) \<and> length m' = length m \<and>
      take (i + length (concat (map quote_char s))) m' = take i m @ concat (map quote_char s)"
proof (induction s arbitrary: p m i)
  case Nil
  then have "p = p\<lparr>pr_buffer := Some m\<rparr>" by (cases p) simp
  then show ?case by (intro exI[of _ m]) simp
next
  case (Cons c s)
  let ?q = "quote_char c"
  define z where "z = (if length ?q = 6 then [NUL] else [])"
  let ?m = "take i m @ (?q @ z) @ drop (i + length (?q @ z)) m"
  have fits: "i + length (?q @ z) \<le> length m" using Cons.prems(2) by (auto simp: z_def)
  have len: "length ?m = length m" using fits by simp
  have t: "take (i + length ?q) ?m = take i m @ ?q" using fits by simp
  have step: "quote_loop (c # s) i p = quote_loop s (i + length ?q) (p\<lparr>pr_buffer := Some ?m\<rparr>)"
  proof (cases "31 < (of_char c :: nat) \<and> c \<noteq> CHR 0x22 \<and> c \<noteq> CHR 0x5C")
    case True
    then have q: "?q = [c]" "z = []" by (simp_all add: quote_char_def z_def)
    show ?thesis using True Cons.prems(1) fits unfolding q by (simp add: poke_def)
  next
    case False
    show ?thesis
    proof (cases "short_escape c")
      case (Some e)
      with False have q: "?q = [CHR 0x5C] @ [e]" "z = []" by (simp_all add: quote_char_def z_def)
      have f: "i + length ([CHR 0x5C] @ [e]) \<le> length m" using fits q by simp
      have n: "i + length ([CHR 0x5C] @ [e]) = i + 2" by simp
      have "quote_loop (c # s) i p = andthen (poke i [CHR 0x5C] p) (\<lambda>q. andthen (poke (i + 1) [e] q) (quote_loop s (i + 2)))"
        unfolding quote_loop.simps if_not_P[OF False] Some option.case by (rule refl)
      also have "\<dots> = quote_loop s (i + 2) (p\<lparr>pr_buffer := Some (take i m @ ([CHR 0x5C] @ [e]) @ drop (i + length ([CHR 0x5C] @ [e])) m)\<rparr>)"
        by (rule poke_poke[OF Cons.prems(1) f]) simp
      finally show ?thesis unfolding q append_Nil2 n .
    next
      case None
      have u: "length (u_escape c) = 5" by (simp add: u_escape_def Let_def)
      with False None have q: "?q = [CHR 0x5C] @ u_escape c" "z = [NUL]" by (simp_all add: quote_char_def z_def)
      have f: "i + length ([CHR 0x5C] @ (u_escape c @ [NUL])) \<le> length m" using fits q by simp
      have n: "i + length ([CHR 0x5C] @ u_escape c) = i + 6" using u by simp
      have "quote_loop (c # s) i p = andthen (poke i [CHR 0x5C] p) (\<lambda>q. andthen (poke (i + 1) (u_escape c @ [NUL]) q) (quote_loop s (i + 6)))"
        unfolding quote_loop.simps if_not_P[OF False] None option.case by (rule refl)
      also have "\<dots> = quote_loop s (i + 6) (p\<lparr>pr_buffer := Some (take i m @ ([CHR 0x5C] @ (u_escape c @ [NUL])) @ drop (i + length ([CHR 0x5C] @ (u_escape c @ [NUL]))) m)\<rparr>)"
        by (rule poke_poke[OF Cons.prems(1) f]) simp
      finally show ?thesis unfolding q n by simp
    qed
  qed
  have "i + length ?q + length (concat (map quote_char s)) + 1 \<le> length ?m" using Cons.prems(2) len by simp
  from Cons.IH[OF _ this, of "p\<lparr>pr_buffer := Some ?m\<rparr>"] obtain m' where
    "quote_loop s (i + length ?q) (p\<lparr>pr_buffer := Some ?m\<rparr>) = Inr (p\<lparr>pr_buffer := Some m'\<rparr>)" "length m' = length m"
    "take (i + length ?q + length (concat (map quote_char s))) m' = take (i + length ?q) ?m @ concat (map quote_char s)"
    using len by auto
  with step t show ?case by (auto simp: add.assoc)
qed

lemma print_string_ptr_outcome:
  assumes "wf_out E p"
  shows "outcome shown E p (print_string_ptr E s p) (Some (quote_text s))"
proof (cases s)
  case None
  have "outcome shown E p (ensured E 3 p (\<lambda>i q. wrote (poke i ([CHR 0x22, CHR 0x22] @ [NUL]) q))) (Some [CHR 0x22, CHR 0x22])"
    by (rule ensured_shows[OF assms]) simp
  then show ?thesis by (simp add: None print_string_ptr_def quote_text_def)
next
  case (Some t)
  let ?esc = "sum_list (map escape_cost t)" and ?Q = "concat (map quote_char t)"
  let ?T = "CHR 0x22 # ?Q @ [CHR 0x22]"
  have len: "length ?Q = length t + ?esc" by (rule length_quote_chars)
  have qt: "quote_text s = ?T" by (simp add: Some quote_text_def)
  show ?thesis
  proof (cases "?esc = 0")
    case True
    have "outcome shown E p (ensured E (length t + 3) p (\<lambda>i q. wrote (poke i (?T @ [NUL]) q))) (Some ?T)"
      by (rule ensured_shows[OF assms]) (simp add: len True)
    then show ?thesis unfolding Some print_string_ptr_def quote_text_def option.case Let_def True quote_chars_plain[OF True] by simp
  next
    case False
    let ?f = "\<lambda>i q. wrote (andthen (poke i [CHR 0x22] q) (\<lambda>p. andthen (quote_loop t (i + 1) p) (poke (i + (length t + ?esc) + 1) [CHR 0x22, NUL])))"
    have "outcome shown E p (ensured E (length t + ?esc + 3) p ?f) (Some ?T)"
    proof (rule ensured_outcome[OF assms])
      fix q assume q: "moved E p [] q" "pr_offset p + (length t + ?esc + 3) + 1 \<le> pr_length q"
      let ?i = "pr_offset q"
      obtain m where m: "pr_buffer q = Some m" "pr_length q \<le> length m" using q(1) by (auto simp: moved_def wf_out_def)
      have i: "?i = pr_offset p" using q(1) by (simp add: moved_def)
      let ?m1 = "take ?i m @ CHR 0x22 # drop (?i + 1) m"
      have l1: "length ?m1 = length m" using m(2) q(2) i by simp
      obtain m' where m': "quote_loop t (?i + 1) (q\<lparr>pr_buffer := Some ?m1\<rparr>) = Inr (q\<lparr>pr_buffer := Some m'\<rparr>)" "length m' = length m"
        "take (?i + 1 + length ?Q) m' = take (?i + 1) ?m1 @ ?Q"
        using quote_loop_ok[of "q\<lparr>pr_buffer := Some ?m1\<rparr>" ?m1 "?i + 1" t] l1 m(2) q(2) i len by auto
      let ?m2 = "take (?i + 1 + length ?Q) m' @ [CHR 0x22, NUL] @ drop (?i + 1 + length ?Q + 2) m'"
      have il: "?i < length m" using m(2) q(2) i by simp
      then have m2: "?m2 = take ?i m @ (?T @ [NUL]) @ drop (?i + 1 + length ?Q + 2) m'" unfolding m'(3) by simp
      have l2: "length ?m2 = length m" using m'(2) m(2) q(2) i len by simp
      have eq: "?f ?i q = Inr (True, q\<lparr>pr_buffer := Some ?m2\<rparr>)"
        using m m'(1,2) q(2) i len l1 by (simp add: wrote_def poke_def add.assoc add.commute[of _ "Suc 0"])
      have "shown E p ?T (q\<lparr>pr_buffer := Some ?m2\<rparr>)"
      proof (rule shown_still)
        show "moved E p [] (q\<lparr>pr_buffer := Some ?m2\<rparr>)"
          using q(1) m il l2 unfolding m2 by (auto simp: moved_def wf_out_def same_out_def text_of_def)
        show "pr_offset p + length ?T + 2 \<le> pr_length (q\<lparr>pr_buffer := Some ?m2\<rparr>)" using q(2) len by simp
        show "prefix (?T @ [NUL]) (drop (pr_offset (q\<lparr>pr_buffer := Some ?m2\<rparr>)) (the (pr_buffer (q\<lparr>pr_buffer := Some ?m2\<rparr>))))"
          using il unfolding m2 by simp
      qed
      with eq show "\<exists>r. ?f (pr_offset q) q = Inr (True, r) \<and> shown E p ?T r" by blast
    qed (simp add: len)
    then show ?thesis unfolding Some print_string_ptr_def quote_text_def option.case Let_def if_not_P[OF False] .
  qed
qed

lemma print_number_outcome:
  assumes "wf_out E p" "length (number_text E t) \<le> 25"
  shows "outcome shown E p (print_number E t p) (Some (number_text E t))"
proof -
  let ?t = "number_text E t"
  have "outcome shown E p (ensured E (length ?t + 1) p (\<lambda>i p.
        andthen (poke i (?t @ [NUL]) p) (\<lambda>p. Inr (True, p\<lparr>pr_offset := pr_offset p + length ?t\<rparr>)))) (Some ?t)"
  proof (rule ensured_outcome[OF assms(1)])
    fix q assume q: "moved E p [] q" "pr_offset p + (length ?t + 1) + 1 \<le> pr_length q"
    then have "wf_out E q" "pr_offset q + length (?t @ [NUL]) \<le> pr_length q" "pr_offset q + length ?t < pr_length q"
      by (auto simp: moved_def)
    from poke_text[OF this] obtain r where r: "poke (pr_offset q) (?t @ [NUL]) q = Inr r" "moved E q ?t (advance_out (length ?t) r)"
      "prefix (?t @ [NUL]) (drop (pr_offset r) (the (pr_buffer r)))" "pr_length r = pr_length q" by blast
    have "prefix [NUL] (drop (pr_offset r + length ?t) (the (pr_buffer r)))"
      using r(3) by (auto simp: prefix_def) (metis append_eq_conv_conj drop_drop add.commute)
    then have "shown E p ?t (advance_out (length ?t) r)" using moved_from[OF q(1) r(2)] q r(4) unfolding shown_def
      by (intro conjI exI[of _ ?t] exI[of _ "[]"]) (simp_all add: advance_out_def)
    with r(1) show "\<exists>r. andthen (poke (pr_offset q) (?t @ [NUL]) q) (\<lambda>p. Inr (True, p\<lparr>pr_offset := pr_offset p + length ?t\<rparr>)) = Inr (True, r) \<and>
        shown E p ?t r" by (auto simp: advance_out_def)
  qed simp
  then show ?thesis using assms(2) by (simp add: print_number_def Let_def)
qed

section \<open>Values\<close>

lemma outcome_eqI: "outcome R E p X T \<Longrightarrow> X = X' \<Longrightarrow> T = T' \<Longrightarrow> outcome R E p X' T'"
  by simp

lemma tcat_Nil [simp]: "tcat T (Some []) = T" "tcat (Some []) T = T"
  by (cases T; simp)+

lemma moved_wf: "moved E p t q \<Longrightarrow> wf_out E q"
  by (simp add: moved_def)

lemma moved_settings: "moved E p t q \<Longrightarrow> pr_format q = pr_format p \<and> pr_depth q = pr_depth p"
  by (auto simp: moved_def same_out_def)

lemma outcome_True: "wf_out E p \<Longrightarrow> outcome moved E p (Inr (True, p)) (Some [])"
  using moved_refl by (auto simp: outcome_def)

lemma outcome_False: "outcome R E p (Inr (False, p)) None"
  by (auto simp: outcome_def)

lemma print_word_outcome: "wf_out E p \<Longrightarrow> outcome shown E p (print_word E s p) (Some s)"
  unfolding print_word_def by (rule ensured_shows) simp_all

lemma ensured_moves':
  assumes "wf_out E p" "k = length t" "k \<le> n" "n \<le> k + 1" "bs = t \<or> bs = t @ [NUL] \<and> n = k + 1 \<or> bs = t @ [NUL] \<and> n = k"
  shows "outcome moved E p (ensured E n p (\<lambda>i q. andthen (poke i bs q) (\<lambda>q. Inr (True, advance_out k q)))) (Some t)"
  using ensured_moves[OF assms(1), of t n "[]"] ensured_moves[OF assms(1), of t n "[NUL]"] assms(2-) by auto

lemma print_comma_outcome:
  assumes "wf_out E p"
  shows "outcome moved E p (print_comma E p) (Some (CHR '','' # (if pr_format p then '' '' else [])))"
  unfolding print_comma_def Let_def by (rule ensured_moves'[OF assms]) auto

lemma print_indent_outcome:
  assumes "wf_out E p"
  shows "outcome moved E p (print_indent E p) (Some (tabs (pr_format p) (pr_depth p)))"
proof (cases "pr_format p")
  case True
  have "outcome moved E p (ensured E (pr_depth p) p (\<lambda>i q. andthen (poke i (replicate (pr_depth p) (CHR 0x09)) q)
      (\<lambda>q. Inr (True, advance_out (pr_depth p) q)))) (Some (replicate (pr_depth p) (CHR 0x09)))"
    by (rule ensured_moves'[OF assms]) auto
  with True show ?thesis by (simp add: print_indent_def tabs_def Let_def)
qed (use outcome_True[OF assms] in \<open>simp add: print_indent_def tabs_def\<close>)

lemma print_colon_outcome:
  assumes "wf_out E p"
  shows "outcome moved E p (print_colon E p) (Some (CHR '':'' # (if pr_format p then [CHR 0x09] else [])))"
  unfolding print_colon_def Let_def by (rule ensured_moves'[OF assms]) auto

lemma print_member_end_outcome:
  assumes "wf_out E p"
  shows "outcome moved E p (print_member_end E again p) (Some ((if again then '','' else []) @ (if pr_format p then [CHR 0x0A] else [])))"
  unfolding print_member_end_def Let_def by (rule ensured_moves'[OF assms]) auto

text \<open>Opening and closing a container: the depth is changed and restored.\<close>

lemma shown_depth: "shown E (deeper p) t q \<Longrightarrow> shown E p t (shallower q)"
  by (auto simp: shown_def moved_def wf_out_def same_out_def text_of_def deeper_def shallower_def)

lemma print_close_shown:
  assumes "wf_out E p" "n = length t + 1"
  shows "outcome (\<lambda>E p t q. \<exists>r. q = shallower r \<and> shown E p t r) E p (print_close E n t p) (Some t)"
  unfolding print_close_def
proof (rule ensured_outcome[OF assms(1)])
  fix q assume q: "moved E p [] q" "pr_offset p + n + 1 \<le> pr_length q"
  then have "wf_out E q" "pr_offset q + length (t @ [NUL]) \<le> pr_length q" "pr_offset q + length t < pr_length q"
    using assms(2) by (auto simp: moved_def)
  from poke_text[OF this] obtain r where r: "poke (pr_offset q) (t @ [NUL]) q = Inr r" "moved E q [] r"
    "prefix (t @ [NUL]) (drop (pr_offset r) (the (pr_buffer r)))" "pr_length r = pr_length q" by blast
  have "shown E p t r" by (rule shown_still[OF moved_from[OF q(1) r(2)] _ r(3)]) (use q(2) r(4) assms(2) in simp)
  with r(1) show "\<exists>r. andthen (poke (pr_offset q) (t @ [NUL]) q) (\<lambda>p. Inr (True, shallower p)) = Inr (True, r) \<and>
      (\<exists>r'. r = shallower r' \<and> shown E p t r')" by auto
qed (simp add: assms(2))

lemma print_open_outcome:
  assumes "wf_out E p" "length s \<le> n" "n \<le> length s + 1" "0 < length s"
    and "\<And>q. moved E (deeper p) s q \<Longrightarrow> outcome (\<lambda>E p t q. \<exists>r. q = shallower r \<and> shown E p t r) E q (f q) T"
  shows "outcome shown E p (print_open E n s p f) (tcat (Some s) T)"
proof -
  obtain r q where e: "ensure E n p = Inr (r, q)"
    "r \<noteq> None \<longrightarrow> r = Some (pr_offset p) \<and> moved E p [] q \<and> pr_offset p + n + 1 \<le> pr_length q"
    "r = None \<longrightarrow> kept p q" "pr_offset p + n + 1 \<le> room_of E p \<longrightarrow> r \<noteq> None" using ensure_ok[OF assms(1)] by blast
  show ?thesis
  proof (cases r)
    case None
    have "print_open E n s p f = Inr (False, q)" using e(1) None by (simp add: print_open_def ensured_def)
    moreover have "\<not> pr_offset p + length (s @ t) + 2 \<le> room_of E p" for t using e(4) None assms(3) by simp
    ultimately show ?thesis unfolding outcome_def using e(3) None by (auto simp: tcat_Some_iff)
  next
    case (Some i)
    then have q: "i = pr_offset p" "moved E p [] q" "pr_offset p + n + 1 \<le> pr_length q" using e(2) by auto
    then have pre: "wf_out E q" "pr_offset q + length (s @ []) \<le> pr_length q" "pr_offset q + length s < pr_length q"
      using assms(2) by (auto simp: moved_def)
    from poke_text[OF pre] obtain q1 where q1: "poke (pr_offset q) s q = Inr q1" "moved E q s (advance_out (length s) q1)" by auto
    let ?q = "deeper (advance_out (length s) q1)"
    have mv: "moved E p s (advance_out (length s) q1)" by (rule moved_from[OF q(2) q1(2)])
    then have d: "moved E (deeper p) s ?q"
      by (auto simp: moved_def wf_out_def same_out_def text_of_def deeper_def)
    have "i = pr_offset q" using q(1,2) by (simp add: moved_def)
    then have eq: "print_open E n s p f = f ?q" using e(1) Some q1(1) by (simp add: print_open_def ensured_def)
    from assms(5)[OF d] obtain ok r' where r': "f ?q = Inr (ok, r')" "ok \<longrightarrow> (\<exists>t r. T = Some t \<and> r' = shallower r \<and> shown E ?q t r)"
      "\<not> ok \<longrightarrow> kept ?q r'" "\<forall>t. T = Some t \<longrightarrow> pr_offset ?q + length t + 2 \<le> room_of E ?q \<longrightarrow> ok" by (auto simp: outcome_def)
    have "shown E p (s @ t) (shallower r)" if "shown E ?q t r" for t r by (rule shown_depth[OF moved_shown[OF d that]])
    moreover have "room_of E ?q = room_of E p" "pr_offset ?q = pr_offset p + length s"
      using d room_of_same[of "deeper p" ?q E] by (auto simp: moved_def deeper_def room_of_def)
    moreover have "kept (deeper p) r'" if "\<not> ok" using moved_kept[OF d] r'(3) that by blast
    then have "\<not> ok \<Longrightarrow> kept p r'" by (simp add: kept_def deeper_def)
    ultimately show ?thesis unfolding eq outcome_def using r' by (auto simp: tcat_Some_iff)
  qed
qed

lemma outcome_closed:
  assumes "outcome moved E p X T" "\<And>t q. T = Some t \<Longrightarrow> moved E p t q \<Longrightarrow>
      outcome (\<lambda>E p t q. \<exists>r. q = shallower r \<and> shown E p t r) E q (f q) T'"
  shows "outcome (\<lambda>E p t q. \<exists>r. q = shallower r \<and> shown E p t r) E p (checked X f) (tcat T T')"
  by (rule outcome_checked[OF assms]) (use moved_shown in blast)+

definition prints :: "'d json_env \<Rightarrow> 'd cJSON \<Rightarrow> bool" where
  "prints E c \<longleftrightarrow> printable E c \<and>
     (\<forall>p. wf_out E p \<longrightarrow> outcome shown E p (print_value E c p) (json_text E (pr_format p) (pr_depth p) c))"

lemma print_elements_outcome:
  "\<forall>c \<in> set cs. prints E c \<Longrightarrow> wf_out E p \<Longrightarrow>
    outcome moved E p (print_elements E cs p) (elements_text E (pr_format p) (pr_depth p) cs)"
proof (induction cs arbitrary: p)
  case Nil
  then show ?case by (simp add: outcome_True)
next
  case (Cons c cs)
  have c: "outcome shown E p (print_value E c p) (json_text E (pr_format p) (pr_depth p) c)" "printable E c"
    using Cons.prems by (simp_all add: prints_def)
  show ?case unfolding print_elements.simps elements_text.simps
  proof (rule outcome_update[OF c(1) json_text_cstring[OF c(2)]])
    fix t q assume q: "moved E p t q"
    note set = moved_settings[OF q] and wf = moved_wf[OF q]
    have "outcome moved E q (checked (print_comma E q) (print_elements E cs))
        (tcat (Some (CHR '','' # (if pr_format p then '' '' else []))) (elements_text E (pr_format p) (pr_depth p) cs))"
    proof (rule outcome_moves)
      show "outcome moved E q (print_comma E q) (Some (CHR '','' # (if pr_format p then '' '' else [])))"
        using print_comma_outcome[OF wf] set by simp
      fix t' r assume r: "moved E q t' r"
      show "outcome moved E r (print_elements E cs r) (elements_text E (pr_format p) (pr_depth p) cs)"
        using Cons.IH[OF _ moved_wf[OF r]] Cons.prems(1) moved_settings[OF r] set by simp
    qed
    then show "outcome moved E q (if cs = [] then Inr (True, q) else checked (print_comma E q) (print_elements E cs))
        (if cs = [] then Some [] else tcat (Some (CHR '','' # (if pr_format p then '' '' else []))) (elements_text E (pr_format p) (pr_depth p) cs))"
      using outcome_True[OF wf] by simp
  qed
qed

lemma print_members_outcome:
  "\<forall>c \<in> set cs. prints E c \<Longrightarrow> wf_out E p \<Longrightarrow>
    outcome moved E p (print_members E cs p) (members_text E (pr_format p) (pr_depth p) cs)"
proof (induction cs arbitrary: p)
  case Nil
  then show ?case by (simp add: outcome_True)
next
  case (Cons c cs)
  have c: "printable E c" "pred_option cstring (item_string c)" using Cons.prems printable_key by (auto simp: prints_def)
  have IH: "outcome moved E r (print_members E cs r) (members_text E (pr_format p) (pr_depth p) cs)"
    if "wf_out E r" "pr_format r = pr_format p" "pr_depth r = pr_depth p" for r
  proof -
    have "outcome moved E r (print_members E cs r) (members_text E (pr_format r) (pr_depth r) cs)" using Cons.IH[OF _ that(1)] Cons.prems(1) by simp
    then show ?thesis unfolding that(2,3) .
  qed
  have val: "outcome shown E r (print_value E c r) (json_text E (pr_format p) (pr_depth p) c)"
    if "wf_out E r" "pr_format r = pr_format p" "pr_depth r = pr_depth p" for r
  proof -
    have "outcome shown E r (print_value E c r) (json_text E (pr_format r) (pr_depth r) c)" using Cons.prems(1) that(1) by (simp add: prints_def)
    then show ?thesis unfolding that(2,3) .
  qed
  show ?case unfolding print_members.simps members_text.simps
  proof (rule outcome_moves[OF print_indent_outcome[OF Cons.prems(2)]])
    fix t1 q1 assume "moved E p t1 q1"
    note m1 = moved_wf[OF this] moved_settings[OF this]
    show "outcome moved E q1 (checked (print_string_ptr E (item_string c) q1) (\<lambda>p. andthen (update_offset p) (\<lambda>p.
        checked (print_colon E p) (\<lambda>p. checked (print_value E c p) (\<lambda>p. andthen (update_offset p) (\<lambda>p.
        checked (print_member_end E (cs \<noteq> []) p) (print_members E cs)))))))
        (tcat (Some (quote_text (item_string c))) (tcat (Some (CHR '':'' # (if pr_format p then [CHR 0x09] else [])))
         (tcat (json_text E (pr_format p) (pr_depth p) c)
           (tcat (Some ((if cs \<noteq> [] then '','' else []) @ (if pr_format p then [CHR 0x0A] else []))) (members_text E (pr_format p) (pr_depth p) cs)))))"
    proof (rule outcome_update[OF print_string_ptr_outcome[OF m1(1)]])
      show "cstring t" if "Some (quote_text (item_string c)) = Some t" for t using that cstring_quote_text[OF c(2)] by simp
      fix t2 q2 assume "moved E q1 t2 q2"
      note m2 = moved_wf[OF this] moved_settings[OF this]
      show "outcome moved E q2 (checked (print_colon E q2) (\<lambda>p. checked (print_value E c p) (\<lambda>p. andthen (update_offset p) (\<lambda>p.
        checked (print_member_end E (cs \<noteq> []) p) (print_members E cs)))))
        (tcat (Some (CHR '':'' # (if pr_format p then [CHR 0x09] else [])))
         (tcat (json_text E (pr_format p) (pr_depth p) c)
           (tcat (Some ((if cs \<noteq> [] then '','' else []) @ (if pr_format p then [CHR 0x0A] else []))) (members_text E (pr_format p) (pr_depth p) cs))))"
      proof (rule outcome_moves)
        show "outcome moved E q2 (print_colon E q2) (Some (CHR '':'' # (if pr_format p then [CHR 0x09] else [])))"
          using print_colon_outcome[OF m2(1)] m1(2) m2(2) by simp
        fix t3 q3 assume "moved E q2 t3 q3"
        note m3 = moved_wf[OF this] moved_settings[OF this]
        show "outcome moved E q3 (checked (print_value E c q3) (\<lambda>p. andthen (update_offset p) (\<lambda>p.
            checked (print_member_end E (cs \<noteq> []) p) (print_members E cs))))
          (tcat (json_text E (pr_format p) (pr_depth p) c)
           (tcat (Some ((if cs \<noteq> [] then '','' else []) @ (if pr_format p then [CHR 0x0A] else []))) (members_text E (pr_format p) (pr_depth p) cs)))"
        proof (rule outcome_update[OF val json_text_cstring[OF c(1)]])
          fix t4 q4 assume "moved E q3 t4 q4"
          note m4 = moved_wf[OF this] moved_settings[OF this]
          show "outcome moved E q4 (checked (print_member_end E (cs \<noteq> []) q4) (print_members E cs))
            (tcat (Some ((if cs \<noteq> [] then '','' else []) @ (if pr_format p then [CHR 0x0A] else []))) (members_text E (pr_format p) (pr_depth p) cs))"
          proof (rule outcome_moves)
            show "outcome moved E q4 (print_member_end E (cs \<noteq> []) q4) (Some ((if cs \<noteq> [] then '','' else []) @ (if pr_format p then [CHR 0x0A] else [])))"
              using print_member_end_outcome[OF m4(1), of "cs \<noteq> []"] m1(2) m2(2) m3(2) m4(2) by simp
            fix t5 q5 assume "moved E q4 t5 q5"
            note m5 = moved_wf[OF this] moved_settings[OF this]
            show "outcome moved E q5 (print_members E cs q5) (members_text E (pr_format p) (pr_depth p) cs)"
              by (rule IH) (use m1 m2 m3 m4 m5 in simp_all)
          qed
        qed (use m1 m2 m3 in simp_all)
      qed
    qed
  qed
qed

lemma print_value_outcome: "printable E t \<Longrightarrow> prints E t"
proof (induction t)
  case (Item ty vs vi vd key ch)
  have ch: "\<forall>c \<in> set ch. prints E c" using Item by (simp add: list_all_iff)
  have "outcome shown E p (print_value E (Item ty vs vi vd key ch) p) (json_text E (pr_format p) (pr_depth p) (Item ty vs vi vd key ch))"
    if wf: "wf_out E p" for p
  proof (cases rule: kind_cases[of ty])
    case 4
    have "length (number_text E (Item ty vs vi vd key ch)) \<le> 25" using Item.prems 4 by simp
    with 4 print_number_outcome[OF wf] show ?thesis by simp
  next
    case 5
    with print_word_outcome[OF wf] outcome_False show ?thesis by (cases vs) simp_all
  next
    case 6
    with print_string_ptr_outcome[OF wf] show ?thesis by (simp add: print_string_def)
  next
    case 7
    show ?thesis
    proof (cases "CJSON_NESTING_LIMIT \<le> pr_depth p")
      case True
      with 7 outcome_False show ?thesis by simp
    next
      case False
      have "outcome shown E p (print_open E 1 ''['' p (\<lambda>p. checked (print_elements E ch p) (print_close E 2 '']'')))
        (tcat (Some ''['') (tcat (elements_text E (pr_format p) (pr_depth p + 1) ch) (Some '']'')))"
      proof (rule print_open_outcome[OF wf])
        fix q assume "moved E (deeper p) ''['' q"
        note m = moved_wf[OF this] moved_settings[OF this]
        show "outcome (\<lambda>E p t q. \<exists>r. q = shallower r \<and> shown E p t r) E q (checked (print_elements E ch q) (print_close E 2 '']''))
            (tcat (elements_text E (pr_format p) (pr_depth p + 1) ch) (Some '']''))"
        proof (rule outcome_closed)
          show "outcome moved E q (print_elements E ch q) (elements_text E (pr_format p) (pr_depth p + 1) ch)"
            using print_elements_outcome[OF ch m(1)] m(2) by (simp add: deeper_def)
        qed (auto intro: print_close_shown moved_wf)
      qed simp_all
      with False 7 show ?thesis by simp
    qed
  next
    case 8
    show ?thesis
    proof (cases "CJSON_NESTING_LIMIT \<le> pr_depth p")
      case True
      with 8 outcome_False show ?thesis by simp
    next
      case False
      let ?s = "CHR 0x7B # (if pr_format p then [CHR 0x0A] else [])"
      let ?close = "\<lambda>r. print_close E (if pr_format p then pr_depth r + 1 else 2)
                    ((if pr_format p then replicate (pr_depth r - 1) (CHR 0x09) else []) @ [CHR 0x7D]) r"
      have "outcome shown E p (print_open E (if pr_format p then 3 else 2) ?s p (\<lambda>p. checked (print_members E ch p) ?close))
        (tcat (Some ?s) (tcat (members_text E (pr_format p) (pr_depth p + 1) ch) (Some (tabs (pr_format p) (pr_depth p) @ [CHR 0x7D]))))"
      proof (rule print_open_outcome[OF wf])
        fix q assume "moved E (deeper p) ?s q"
        note m = moved_wf[OF this] moved_settings[OF this]
        show "outcome (\<lambda>E p t q. \<exists>r. q = shallower r \<and> shown E p t r) E q (checked (print_members E ch q) ?close)
            (tcat (members_text E (pr_format p) (pr_depth p + 1) ch) (Some (tabs (pr_format p) (pr_depth p) @ [CHR 0x7D])))"
        proof (rule outcome_closed)
          show "outcome moved E q (print_members E ch q) (members_text E (pr_format p) (pr_depth p + 1) ch)"
            using print_members_outcome[OF ch m(1)] m(2) by (simp add: deeper_def)
          fix t r assume r: "moved E q t r"
          have "pr_depth r = pr_depth p + 1" using moved_settings[OF r] m(2) by (simp add: deeper_def)
          then show "outcome (\<lambda>E p t q. \<exists>r. q = shallower r \<and> shown E p t r) E r (?close r) (Some (tabs (pr_format p) (pr_depth p) @ [CHR 0x7D]))"
            using print_close_shown[OF moved_wf[OF r], of "pr_depth r + 1" "replicate (pr_depth r - 1) (CHR 0x09) @ [CHR 0x7D]"]
              print_close_shown[OF moved_wf[OF r], of 2 "[CHR 0x7D]"] by (simp add: tabs_def)
        qed
      qed simp_all
      with False 8 show ?thesis by (simp add: Let_def)
    qed
  next
    case 9
    then show ?thesis using outcome_False by simp
  qed (use print_word_outcome[OF wf] in simp_all)
  with Item.prems show ?case by (simp add: prints_def del: print_value.simps json_text.simps)
qed

lemma shown_memory:
  assumes "shown E p s q" "pr_offset p = 0"
  shows "\<exists>m. pr_buffer q = Some m \<and> take (length s + 1) m = s @ [NUL] \<and> length s + 1 < length m"
proof -
  obtain u v where u: "s = u @ v" "moved E p u q" "prefix (v @ [NUL]) (drop (pr_offset q) (the (pr_buffer q)))"
    and l: "pr_offset p + length s + 2 \<le> pr_length q" using assms(1) by (auto simp: shown_def)
  obtain m where m: "pr_buffer q = Some m" "pr_length q \<le> length m" using u(2) by (auto simp: moved_def wf_out_def)
  obtain z where z: "drop (pr_offset q) m = v @ NUL # z" using u(3) m(1) by (auto simp: prefix_def)
  have "take (pr_offset q) m = u" "pr_offset q = length u" using u(2) m(1) assms(2) by (auto simp: moved_def text_of_def)
  then have "m = u @ v @ NUL # z" using z by (metis append_take_drop_id)
  then show ?thesis using m l assms(2) u(1) by (cases z) auto
qed

lemma cstr_take: "take (length s + 1) m = s @ [NUL] \<Longrightarrow> cstring s \<Longrightarrow> cstr m = s"
  using cstr_append[of s "NUL # drop (length s + 1) m"] append_take_drop_id[of "length s + 1" m] by (simp add: cstr_def)

section \<open>Properties: the printer\<close>

lemma print_item_outcome:
  assumes "printable E t"
  shows "\<exists>r. print_item E t fmt = Inr r \<and> (\<forall>m. r = Some m \<longrightarrow> (\<exists>s. json_text E fmt 0 t = Some s \<and> cstring s \<and> m = s @ [NUL])) \<and>
    ((\<forall>k n. allocate E k n) \<and> (\<exists>s. json_text E fmt 0 t = Some s \<and> length s + 2 \<le> 2147483647) \<longrightarrow> r \<noteq> None)"
proof (cases "allocate E 0 256")
  case False
  then show ?thesis by (auto simp: print_item_def)
next
  case True
  define p where "p = \<lparr>pr_buffer = Some (fresh_memory E 0 256), pr_length = 256, pr_offset = 0, pr_depth = 0,
    pr_noalloc = False, pr_format = fmt, pr_allocs = 1\<rparr>"
  have wf: "wf_out E p" by (auto simp: p_def wf_out_def fresh_memory_def)
  from print_value_outcome[OF assms(1)] wf have "outcome shown E p (print_value E t p) (json_text E fmt 0 t)"
    by (fastforce simp: prints_def p_def)
  then obtain ok q where q: "print_value E t p = Inr (ok, q)" "ok \<Longrightarrow> \<exists>s. json_text E fmt 0 t = Some s \<and> shown E p s q"
    "\<And>s. json_text E fmt 0 t = Some s \<Longrightarrow> pr_offset p + length s + 2 \<le> room_of E p \<Longrightarrow> ok"
    by (auto simp: outcome_def)
  show ?thesis
  proof (cases ok)
    case False
    then have "print_item E t fmt = Inr None" unfolding print_item_def p_def[symmetric] q(1) andthen_simps prod.case using True by simp
    moreover have False if "\<forall>k n. allocate E k n" "json_text E fmt 0 t = Some s" "length s + 2 \<le> 2147483647" for s
    proof -
      have "pr_offset p + length s + 2 \<le> room_of E p" using that(1,3) by (simp add: room_of_def p_def)
      with q(3)[OF that(2)] False show False by simp
    qed
    ultimately show ?thesis by auto
  next
    case okT: True
    then obtain s where s: "json_text E fmt 0 t = Some s" "shown E p s q" using q(2) by blast
    have c: "cstring s" by (rule json_text_cstring[OF assms(1) s(1)])
    obtain q' where q': "update_offset q = Inr q'" "moved E p s q'" using shown_update[OF s(2) c] by blast
    obtain m where m: "pr_buffer q = Some m" "take (length s + 1) m = s @ [NUL]" "length s + 1 < length m"
      using shown_memory[OF s(2)] by (auto simp: p_def)
    have m': "pr_buffer q' = Some m" and off: "pr_offset q' = length s" and len: "pr_length q' = pr_length q"
      using q' m(1) by (auto simp: update_offset_def moved_def p_def Let_def split: if_splits)
    have l: "length s + 2 \<le> pr_length q" using s(2) by (simp add: shown_def p_def)
    let ?f = "fresh_memory E (pr_allocs q') (length s + 1)"
    have f: "drop (length m) ?f = []" "length (drop (min (pr_length q') (length s + 1)) ?f) = 0"
      using m(3) l len by (simp_all add: fresh_memory_def)
    have mn: "min (pr_length q') (length s + 1) = length s + 1" using l len by simp
    have t: "take (min (pr_length q') (length s + 1)) m = s @ [NUL]" unfolding mn by (rule m(2))
    have up: "(s @ [NUL])[length s := NUL] = s @ [NUL]" by simp
    have "print_item E t fmt = (if \<not> allocate E (pr_allocs q') (length s + 1) then Inr None else Inr (Some (s @ [NUL])))"
      unfolding print_item_def p_def[symmetric] q(1) q'(1) andthen_simps prod.case m' option.case off Let_def
      using True okT m(2) f t up by simp
    with s(1) c show ?thesis by auto
  qed
qed

text \<open>C38: Printing into a caller's buffer needs exactly two bytes more than the text. For a buffer of \<open>len\<close> bytes the call
  always returns and writes nothing outside them; it succeeds exactly when the item has a text and that text, its
  terminator and one byte fit; then the buffer holds the text.\<close>

theorem preallocated_exact:
  assumes "printable E t" "0 \<le> len" "len \<le> 2147483647" "length m = nat len"
  shows "\<exists>ok m'. cJSON_PrintPreallocated E t (Some m) len fmt = Inr (ok, Some m') \<and> length m' = length m \<and>
    ok = (case json_text E fmt 0 t of None \<Rightarrow> False | Some s \<Rightarrow> int (length s) + 2 \<le> len) \<and>
    (ok \<longrightarrow> json_text E fmt 0 t = Some (cstr m'))"
proof -
  define p where "p = \<lparr>pr_buffer = Some m, pr_length = nat len, pr_offset = 0, pr_depth = 0, pr_noalloc = True,
    pr_format = fmt, pr_allocs = 0\<rparr>"
  have wf: "wf_out E p" using assms(4) by (auto simp: p_def wf_out_def)
  from print_value_outcome[OF assms(1)] wf have "outcome shown E p (print_value E t p) (json_text E fmt 0 t)"
    by (fastforce simp: prints_def p_def)
  then obtain ok q where q: "print_value E t p = Inr (ok, q)" "ok \<Longrightarrow> \<exists>s. json_text E fmt 0 t = Some s \<and> shown E p s q"
    "\<not> ok \<Longrightarrow> kept p q" "\<And>s. json_text E fmt 0 t = Some s \<Longrightarrow> pr_offset p + length s + 2 \<le> room_of E p \<Longrightarrow> ok"
    by (auto simp: outcome_def)
  have eq: "cJSON_PrintPreallocated E t (Some m) len fmt = Inr (ok, pr_buffer q)"
    using assms(2) q(1) by (simp add: cJSON_PrintPreallocated_def p_def[symmetric])
  have room: "room_of E p = nat len" using assms(3) by (simp add: room_of_def p_def)
  show ?thesis
  proof (cases ok)
    case True
    then obtain s where s: "json_text E fmt 0 t = Some s" "shown E p s q" using q(2) by blast
    obtain m' where m': "pr_buffer q = Some m'" "take (length s + 1) m' = s @ [NUL]" using shown_memory[OF s(2)] by (auto simp: p_def)
    have c: "cstr m' = s" by (rule cstr_take[OF m'(2) json_text_cstring[OF assms(1) s(1)]])
    have "pr_length q = nat len" "length m' = length m" "pr_offset p + length s + 2 \<le> pr_length q"
      using s(2) m'(1) by (auto simp: shown_def moved_def same_out_def p_def)
    with True s(1) m'(1) c eq assms(2) show ?thesis by (auto simp: p_def)
  next
    case False
    then obtain m' where "pr_buffer q = Some m'" "length m' = length m" using q(3) by (auto simp: kept_def p_def)
    moreover have "nat len < length s + 2" if "json_text E fmt 0 t = Some s" for s
    proof (rule ccontr)
      assume "\<not> nat len < length s + 2"
      then have "pr_offset p + length s + 2 \<le> room_of E p" unfolding room by (simp add: p_def)
      with q(4)[OF that] False show False by simp
    qed
    ultimately show ?thesis using False eq assms(2) by (fastforce split: option.splits)
  qed
qed

text \<open>C39: Printing yields exactly the text. Whatever the allocator does, the printer returns; what it returns is the text of the
  item and its terminator, in memory of exactly that size. With an allocator that does not fail every item that has
  a text of less than 2 GB is printed, formatted or not.\<close>

theorem print_exact:
  assumes "printable E t"
  shows "\<exists>r. print_item E t fmt = Inr r \<and> (\<forall>m. r = Some m \<longrightarrow> (\<exists>s. json_text E fmt 0 t = Some s \<and> cstring s \<and> m = s @ [NUL])) \<and>
    ((\<forall>k n. allocate E k n) \<and> (\<exists>s. json_text E fmt 0 t = Some s \<and> length s + 2 \<le> 2147483647) \<longrightarrow> r \<noteq> None)"
  by (rule print_item_outcome[OF assms])

definition demo_item :: "int cJSON" where
  "demo_item = Item 64 None 0 0 None [Item 8 None (-7) (-7) (Some ''n'') [], Item 32 None 0 0 (Some [CHR 0x22]) [Item 16 (Some [CHR 0x0A]) 0 0 None [], Item 4 None 0 0 None []]]"

lemma demo_item_printable: "printable demo_json_env demo_item"
  by (simp add: demo_item_def demo_json_env_def number_text_def cstring_def dec_int_def dec_nat.simps digit_char_def char_of_def)

theorem preallocated_exact_witness:
  "\<exists>ok m'. cJSON_PrintPreallocated demo_json_env demo_item (Some (replicate 64 NUL)) 64 True = Inr (ok, Some m') \<and> length m' = 64"
  using preallocated_exact[OF demo_item_printable, of 64 "replicate 64 NUL" True] by auto

theorem print_exact_witness: "\<exists>r. print_item demo_json_env demo_item False = Inr r"
  using print_exact[OF demo_item_printable, of False] by blast

end
