(* ===== verification/Cjson_Roundtrip.thy ===== *)
theory Cjson_Roundtrip
  imports Cjson_Print_Laws
begin

text \<open>
  Parsing what was printed gives the item back, formatted or not.
\<close>

declare parse_value.simps [simp del]

section \<open>The input that remains\<close>

definition unread :: "parse_buffer \<Rightarrow> string" where
  "unread b = drop (pb_offset b) (take (pb_length b) (pb_content b))"

text \<open>\<open>b'\<close> is \<open>b\<close>, \<open>n\<close> bytes further.\<close>

definition went :: "parse_buffer \<Rightarrow> nat \<Rightarrow> parse_buffer \<Rightarrow> bool" where
  "went b n b' \<longleftrightarrow> pb_content b' = pb_content b \<and> pb_length b' = pb_length b \<and> pb_depth b' = pb_depth b \<and>
     pb_offset b' = pb_offset b + n"

definition bytes :: "parse_buffer \<Rightarrow> nat \<Rightarrow> string \<Rightarrow> bool" where
  "bytes b e xs \<longleftrightarrow> (\<forall>i < length xs. e + i < pb_length b \<and> pb_content b ! (e + i) = xs ! i)"

lemma length_unread: "wf_buf b \<Longrightarrow> length (unread b) = pb_length b - pb_offset b"
  by (simp add: unread_def wf_buf_def)

lemma went_refl: "went b 0 b"
  by (simp add: went_def)

lemma went_advance: "went b n (advance n b)"
  by (simp add: went_def advance_def)

lemma went_trans: "went a m b \<Longrightarrow> went b n c \<Longrightarrow> went a (m + n) c"
  by (auto simp: went_def)

lemma went_unread: "went b n b' \<Longrightarrow> unread b' = drop n (unread b)"
  by (simp add: went_def unread_def add.commute)

lemma went_wf: "went b n b' \<Longrightarrow> wf_buf b \<Longrightarrow> n \<le> length (unread b) \<Longrightarrow> wf_buf b'"
  using length_unread[of b] by (auto simp: went_def wf_buf_def)

lemma unread_Cons:
  assumes "wf_buf b" "unread b = c # r"
  shows "pb_offset b < pb_length b" "pb_content b ! pb_offset b = c"
proof -
  show o: "pb_offset b < pb_length b" using length_unread[OF assms(1)] assms(2) by simp
  have "unread b ! 0 = pb_content b ! pb_offset b" using o assms(1) by (simp add: unread_def wf_buf_def)
  then show "pb_content b ! pb_offset b = c" using assms(2) by simp
qed

lemma bytes_Nil [simp]: "bytes b e []"
  by (simp add: bytes_def)

lemma bytes_Cons [simp]: "bytes b e (x # xs) \<longleftrightarrow> e < pb_length b \<and> pb_content b ! e = x \<and> bytes b (Suc e) xs"
  unfolding bytes_def by (auto simp: less_Suc_eq_0_disj)

lemma bytes_append [simp]: "bytes b e (xs @ ys) \<longleftrightarrow> bytes b e xs \<and> bytes b (e + length xs) ys"
  by (induction xs arbitrary: e) auto

lemma bytes_unread:
  assumes "wf_buf b" "unread b = xs @ r"
  shows "bytes b (pb_offset b) xs"
proof -
  have "pb_content b ! (pb_offset b + i) = xs ! i \<and> pb_offset b + i < pb_length b" if "i < length xs" for i
  proof -
    have l: "pb_offset b + i < pb_length b" using length_unread[OF assms(1)] assms(2) that by simp
    then have "unread b ! i = pb_content b ! (pb_offset b + i)" using assms(1) by (simp add: unread_def wf_buf_def)
    then show ?thesis using assms(2) that l by (simp add: nth_append)
  qed
  then show ?thesis by (simp add: bytes_def)
qed

lemma next_is_at: "wf_buf b \<Longrightarrow> unread b = c # r \<Longrightarrow> next_is b P = Inr (P c)"
  using unread_Cons by (simp add: next_is_ok)

lemma skip_blanks_end: "pb_length b \<le> pb_offset b \<Longrightarrow> skip_blanks b = Inr b"
  by (subst skip_blanks.simps) (simp add: can_access_at_index_def)

lemma skip_blanks_at:
  "wf_buf b \<Longrightarrow> unread b = ws @ c # r \<Longrightarrow> \<forall>x \<in> set ws. (of_char x :: nat) \<le> 32 \<Longrightarrow> 32 < (of_char c :: nat) \<Longrightarrow>
    skip_blanks b = Inr (advance (length ws) b)"
proof (induction ws arbitrary: b)
  case Nil
  then have "pb_offset b < pb_length b" "pb_content b ! pb_offset b = c" using unread_Cons[of b c r] by simp_all
  with Nil show ?case by (simp add: skip_blanks.simps[of b] can_access_at_index_def byte_at_in advance_def)
next
  case (Cons x ws)
  then have o: "pb_offset b < pb_length b" "pb_content b ! pb_offset b = x" using unread_Cons[of b x] by simp_all
  have w: "went b 1 (advance 1 b)" by (rule went_advance)
  have "skip_blanks (advance 1 b) = Inr (advance (length ws) (advance 1 b))"
    by (rule Cons.IH) (use Cons.prems went_wf[OF w] went_unread[OF w] in simp_all)
  with o Cons.prems show ?case by (simp add: skip_blanks.simps[of b] can_access_at_index_def byte_at_in advance_def)
qed

lemma skip_at:
  assumes "wf_buf b" "unread b = ws @ c # r" "\<forall>x \<in> set ws. (of_char x :: nat) \<le> 32" "32 < (of_char c :: nat)"
  shows "buffer_skip_whitespace b = Inr (advance (length ws) b)"
proof -
  have "pb_offset b + length ws < pb_length b" using length_unread[OF assms(1)] assms(2) by simp
  then show ?thesis using skip_blanks_at[OF assms] by (simp add: buffer_skip_whitespace_def can_access_at_index_def) (simp add: advance_def)
qed

lemma compare_at_bytes: "wf_buf b \<Longrightarrow> bytes b e s \<Longrightarrow> compare_at b e s = Inr True"
  by (induction s arbitrary: e) (simp_all add: byte_at_in)

lemma literal_this:
  assumes "wf_buf b" "unread b = s @ r"
  shows "literal b s = Inr True"
proof -
  have "length s + length r = pb_length b - pb_offset b" "pb_offset b \<le> pb_length b"
    using length_unread[OF assms(1)] assms by (simp_all add: wf_buf_def)
  then have "pb_offset b + length s \<le> pb_length b" by linarith
  with compare_at_bytes[OF assms(1) bytes_unread[OF assms]] show ?thesis by (simp add: literal_def can_read_def)
qed

lemma literal_other:
  assumes "wf_buf b" "unread b = d # r" "d \<noteq> c"
  shows "literal b (c # s) = Inr False"
  using unread_Cons[OF assms(1,2)] assms(3) by (simp add: literal_def byte_at_in[OF assms(1)])

section \<open>Strings\<close>

lemma hex_char_digit: "n < 16 \<Longrightarrow> hex4_digit (hex_char n) = Some n"
  by (simp add: hex4_digit_def hex_char_def Let_def)

lemma hex_char_plain: "n < 16 \<Longrightarrow> hex_char n \<noteq> CHR 0x22 \<and> hex_char n \<noteq> CHR 0x5C"
proof -
  assume "n < 16"
  then have "of_char (hex_char n) = (if n < 10 then 48 + n else 87 + n)" by (simp add: hex_char_def)
  with \<open>n < 16\<close> show ?thesis by (auto split: if_splits)
qed

lemma scan_plain: "wf_buf b \<Longrightarrow> e < pb_length b \<Longrightarrow> pb_content b ! e \<notin> {CHR 0x22, CHR 0x5C} \<Longrightarrow> scan_end b e k = scan_end b (Suc e) k"
  by (simp add: scan_end.simps[of b e k] byte_at_in)

lemma scan_escape: "wf_buf b \<Longrightarrow> Suc e < pb_length b \<Longrightarrow> pb_content b ! e = CHR 0x5C \<Longrightarrow> scan_end b e k = scan_end b (Suc (Suc e)) (Suc k)"
  by (simp add: scan_end.simps[of b e k] byte_at_in)

text \<open>How a quoted character looks: itself, an escape of two bytes, or one of six.\<close>

lemma quote_char_cases:
  obtains (plain) "quote_char c = [c]" "c \<notin> {CHR 0x22, CHR 0x5C}"
    | (short) d where "quote_char c = [CHR 0x5C, d]" "simple_escape d = Some c" "d \<noteq> CHR ''u''"
    | (long) n where "quote_char c = [CHR 0x5C, CHR ''u'', CHR ''0'', CHR ''0'', hex_char (n div 16), hex_char (n mod 16)]"
        "c = char_of n" "n < 32"
proof (cases "31 < (of_char c :: nat) \<and> c \<noteq> CHR 0x22 \<and> c \<noteq> CHR 0x5C")
  case True
  with that(1) show ?thesis by (simp add: quote_char_def)
next
  case False
  show ?thesis
  proof (cases "short_escape c")
    case (Some d)
    then have "simple_escape d = Some c" "d \<noteq> CHR ''u''" by (auto simp: short_escape_def simple_escape_def split: if_splits)
    with False Some that(2)[of d] show ?thesis by (simp add: quote_char_def)
  next
    case None
    then have "(of_char c :: nat) < 32" using False by (auto simp: short_escape_def split: if_splits)
    with False None that(3)[of "of_char c"] show ?thesis by (auto simp: quote_char_def u_escape_def Let_def)
  qed
qed

lemma scan_quoted:
  "wf_buf b \<Longrightarrow> bytes b e (concat (map quote_char s) @ [CHR 0x22]) \<Longrightarrow>
    \<exists>k'. scan_end b e k = Inr (Some (e + length (concat (map quote_char s)), k'))"
proof (induction s arbitrary: e k)
  case Nil
  then show ?case by (simp add: scan_end.simps[of b e k] byte_at_in)
next
  case (Cons c s)
  have rest: "bytes b (e + length (quote_char c)) (concat (map quote_char s) @ [CHR 0x22])"
    using Cons.prems(2) by (simp add: add.assoc)
  have now: "bytes b e (quote_char c)" using Cons.prems(2) by simp
  have lt: "e + length (quote_char c) < pb_length b"
    using Cons.prems(2) by (simp add: add.assoc)
  have "\<exists>k0. scan_end b e k = scan_end b (e + length (quote_char c)) k0"
  proof (cases rule: quote_char_cases[of c])
    case plain
    with now Cons.prems(1) scan_plain[of b e k] show ?thesis by auto
  next
    case (short d)
    with now lt Cons.prems(1) scan_escape[of b e k] show ?thesis by auto
  next
    case (long n)
    let ?e2 = "Suc (Suc e)"
    have "hex_char (n div 16) \<notin> {CHR 0x22, CHR 0x5C}" "hex_char (n mod 16) \<notin> {CHR 0x22, CHR 0x5C}"
      using hex_char_plain[of "n div 16"] hex_char_plain[of "n mod 16"] long(3) by auto
    with now long(1) have "scan_end b ?e2 (Suc k) = scan_end b (Suc (Suc (Suc (Suc ?e2)))) (Suc k)"
      using scan_plain[OF Cons.prems(1), of ?e2 "Suc k"] scan_plain[OF Cons.prems(1), of "Suc ?e2" "Suc k"]
        scan_plain[OF Cons.prems(1), of "Suc (Suc ?e2)" "Suc k"] scan_plain[OF Cons.prems(1), of "Suc (Suc (Suc ?e2))" "Suc k"] by simp
    with now long(1) scan_escape[OF Cons.prems(1), of e k] show ?thesis by auto
  qed
  with Cons.IH[OF Cons.prems(1) rest] show ?case by (auto simp: add.assoc)
qed

lemma unescape_plain:
  "unescape_loop b e cap p out = Inr r \<Longrightarrow> p < e \<Longrightarrow> byte_at b p = Inr c \<Longrightarrow> c \<noteq> CHR 0x5C \<Longrightarrow>
    unescape_loop b e cap (p + 1) (out @ [c]) = Inr r"
  by (simp add: unescape_loop.simps[of b e cap p out] put_def split: if_splits)

lemma unescape_short:
  "unescape_loop b e cap p out = Inr r \<Longrightarrow> p < e \<Longrightarrow> byte_at b p = Inr (CHR 0x5C) \<Longrightarrow> byte_at b (p + 1) = Inr d \<Longrightarrow>
    d \<noteq> CHR ''u'' \<Longrightarrow> simple_escape d = Some c \<Longrightarrow> unescape_loop b e cap (p + 2) (out @ [c]) = Inr r"
  by (simp add: unescape_loop.simps[of b e cap p out] put_def split: if_splits)

lemma unescape_long:
  "unescape_loop b e cap p out = Inr r \<Longrightarrow> p < e \<Longrightarrow> byte_at b p = Inr (CHR 0x5C) \<Longrightarrow> byte_at b (p + 1) = Inr (CHR ''u'') \<Longrightarrow>
    utf16_literal_to_utf8 b p e = Inr (Some (6, cs)) \<Longrightarrow> unescape_loop b e cap (p + 6) (out @ cs) = Inr r"
  by (simp add: unescape_loop.simps[of b e cap p out] put_def split: if_splits)

lemma and_low: "n < 128 \<Longrightarrow> (n AND 0x7F :: nat) = n"
proof -
  assume "n < 128"
  have "n AND 127 = n AND mask 7" by (simp add: mask_eq_exp_minus_1)
  also have "\<dots> = n mod 128" by (simp add: take_bit_eq_mask[symmetric] take_bit_eq_mod)
  finally show ?thesis using \<open>n < 128\<close> by simp
qed

lemma utf8_small: "n < 32 \<Longrightarrow> utf8_encode n = Some [char_of n]"
  by (simp add: utf8_encode_def and_low)

lemma parse_hex4_small:
  assumes "wf_buf b" "n < 32" "bytes b q [CHR ''0'', CHR ''0'', hex_char (n div 16), hex_char (n mod 16)]"
  shows "parse_hex4 b q = Inr n"
proof -
  have h: "hex4_digit (CHR ''0'') = Some 0" "hex4_digit (hex_char (n div 16)) = Some (n div 16)"
    "hex4_digit (hex_char (n mod 16)) = Some (n mod 16)" using assms(2) by (simp_all add: hex_char_digit) (simp add: hex4_digit_def)
  have "parse_hex4 b q = hex_loop b q (Suc (Suc (Suc (Suc 0)))) 0" by (simp add: parse_hex4_def eval_nat_numeral)
  also have "\<dots> = Inr (push_bit 4 (n div 16) + n mod 16)" using assms h by (simp add: byte_at_in)
  finally show ?thesis by (simp add: push_bit_eq_mult)
qed

lemma utf16_small:
  assumes "wf_buf b" "p + 6 \<le> e" "n < 32"
    "bytes b (p + 2) [CHR ''0'', CHR ''0'', hex_char (n div 16), hex_char (n mod 16)]"
  shows "utf16_literal_to_utf8 b p e = Inr (Some (6, [char_of n]))"
  using assms(2,3) parse_hex4_small[OF assms(1,3,4)] utf8_small[OF assms(3)] by (simp add: utf16_literal_to_utf8_def)

lemma unescape_quoted:
  "wf_buf b \<Longrightarrow> bytes b p (concat (map quote_char s) @ [CHR 0x22]) \<Longrightarrow> e = p + length (concat (map quote_char s)) \<Longrightarrow>
    unescape_loop b e cap p out = Inr r \<Longrightarrow> r = Inr (out @ s)"
proof (induction s arbitrary: p out)
  case Nil
  then show ?case by (simp add: unescape_loop.simps[of b p cap p out])
next
  case (Cons c s)
  have rest: "bytes b (p + length (quote_char c)) (concat (map quote_char s) @ [CHR 0x22])"
    using Cons.prems(2) by (simp add: add.assoc)
  have now: "bytes b p (quote_char c)" using Cons.prems(2) by simp
  have e: "e = p + length (quote_char c) + length (concat (map quote_char s))" using Cons.prems(3) by simp
  have "unescape_loop b e cap (p + length (quote_char c)) (out @ [c]) = Inr r"
  proof (cases rule: quote_char_cases[of c])
    case plain
    then have "unescape_loop b e cap (p + 1) (out @ [c]) = Inr r"
      using now e by (intro unescape_plain[OF Cons.prems(4)]) (simp_all add: byte_at_in[OF Cons.prems(1)])
    then show ?thesis by (simp add: plain(1))
  next
    case (short d)
    then have "unescape_loop b e cap (p + 2) (out @ [c]) = Inr r"
      using now e by (intro unescape_short[OF Cons.prems(4) _ _ _ short(3,2)]) (simp_all add: byte_at_in[OF Cons.prems(1)])
    then show ?thesis by (simp add: short(1))
  next
    case (long n)
    have n: "p + length (quote_char c) = p + 6" by (simp add: long(1))
    have u: "utf16_literal_to_utf8 b p e = Inr (Some (6, [char_of n]))"
      by (rule utf16_small[OF Cons.prems(1) _ long(3)]) (use now e n in \<open>simp_all add: long(1)\<close>)
    have "unescape_loop b e cap (p + 6) (out @ [char_of n]) = Inr r"
      using now e by (intro unescape_long[OF Cons.prems(4) _ _ _ u]) (simp_all add: byte_at_in[OF Cons.prems(1)] long(1))
    from this[folded long(2)] show ?thesis unfolding n .
  qed
  from Cons.IH[OF Cons.prems(1) rest e this] show ?case by simp
qed

lemma scans_same: "scans b e q k \<Longrightarrow> pb_content b' = pb_content b \<Longrightarrow> scans b' e q k"
  by (induction rule: scans.induct) (auto intro: scans.intros)

lemma parse_string_at:
  assumes "wf_buf b" "unread b = quote_text (Some s) @ r" "cstring s" "\<forall>k n. allocate E k n"
  shows "\<exists>b'. parse_string E item b = Inr (True, set_value cJSON_String (Some s) item, b') \<and> went b (length (quote_text (Some s))) b'"
proof -
  let ?Q = "concat (map quote_char s)" and ?s = "pb_offset b + 1"
  have q: "quote_text (Some s) = CHR 0x22 # ?Q @ [CHR 0x22]" by (simp add: quote_text_def)
  have by1: "bytes b ?s (?Q @ [CHR 0x22])" and at: "byte_at b (pb_offset b) = Inr (CHR 0x22)"
    using bytes_unread[OF assms(1,2)] byte_at_in[OF assms(1)] unfolding q by simp_all
  let ?e = "?s + length ?Q"
  obtain k where k: "scan_end b ?s 0 = Inr (Some (?e, k))" using scan_quoted[OF assms(1) by1] by blast
  obtain k' where sc: "scans b ?e ?s k'" "k = k'" and e: "?e < pb_length b"
    using scan_end_ok[OF assms(1), of ?s 0] k by auto
  note bd = scans_bound[OF sc(1)]
  define cap where "cap = ?e - pb_offset b - k + 1"
  obtain b1 where a: "pb_allocate E cap b = (True, b1)" using assms(4) by (simp add: pb_allocate_def)
  have b1: "pb_content b1 = pb_content b" "pb_length b1 = pb_length b" "pb_depth b1 = pb_depth b" "pb_offset b1 = pb_offset b"
    using a by (auto simp: pb_allocate_def)
  have wf1: "wf_buf b1" using assms(1) b1 by (simp add: wf_buf_def)
  have by2: "bytes b1 ?s (?Q @ [CHR 0x22])" using by1 b1 by (simp add: bytes_def)
  have sc1: "scans b1 ?e ?s k" using scans_same[OF sc(1) b1(1)] sc(2) by simp
  have "cap + k = ?e - pb_offset b + 1" using bd sc(2) by (simp add: cap_def)
  then have "0 + (?e - ?s) + 1 \<le> cap + k" "?s = ?e \<longrightarrow> 0 + 1 \<le> cap" using bd sc(2) by simp_all
  with sc1 bd have "room b1 ?e cap ?s (length [])" unfolding room_def by auto
  from unescape_loop_ok[OF wf1 _ this] e b1 obtain u where u: "unescape_loop b1 ?e cap ?s [] = Inr u"
    "case u of Inl p' \<Rightarrow> p' < ?e | Inr out' \<Rightarrow> length out' + 1 \<le> cap" by auto
  have us: "u = Inr s" using unescape_quoted[OF wf1 by2 refl u(1)] by simp
  have c: "cstr (s @ [NUL]) = s" using assms(3) by (simp add: cstr_append) (simp add: cstr_def)
  have "parse_string E item b = Inr (True, set_value cJSON_String (Some (cstr (s @ [NUL]))) item, b1\<lparr>pb_offset := ?e + 1\<rparr>)"
    using u(2) unfolding parse_string_def at andthen_simps Let_def k option.case prod.case cap_def[symmetric] a u(1) us
    by (auto simp: put_def)
  moreover have "went b (length (quote_text (Some s))) (b1\<lparr>pb_offset := ?e + 1\<rparr>)" using b1 by (simp add: went_def q)
  ultimately show ?thesis using c by auto
qed

section \<open>Numbers\<close>

text \<open>A number whose text reads back as it is.\<close>

definition number_ok :: "'d json_env \<Rightarrow> 'd cJSON \<Rightarrow> bool" where
  "number_ok E t \<longleftrightarrow> (let s = number_text E t in
     (case s of [] \<Rightarrow> False | c # _ \<Rightarrow> c = CHR ''-'' \<or> is_digit c) \<and> list_all number_char s \<and> length s \<le> 25 \<and>
     strtod E s = (valuedouble t, length s))"

lemma number_span_at:
  "wf_buf b \<Longrightarrow> bytes b (pb_offset b + i) (xs @ [c]) \<Longrightarrow> list_all number_char xs \<Longrightarrow> \<not> number_char c \<Longrightarrow>
    number_span b i = Inr (i + length xs)"
proof (induction xs arbitrary: i)
  case Nil
  then show ?case by (simp add: number_span.simps[of b i] can_access_at_index_def byte_at_in)
next
  case (Cons x xs)
  then have "number_span b (i + 1) = Inr (i + 1 + length xs)" by (intro Cons.IH) simp_all
  with Cons.prems show ?case by (simp add: number_span.simps[of b i] can_access_at_index_def byte_at_in)
qed

lemma take_unread:
  assumes "wf_buf b" "unread b = xs @ r"
  shows "take (length xs) (drop (pb_offset b) (pb_content b)) = xs"
proof -
  have "unread b = take (pb_length b - pb_offset b) (drop (pb_offset b) (pb_content b))" by (simp add: unread_def drop_take)
  moreover have "length xs \<le> pb_length b - pb_offset b" using length_unread[OF assms(1)] assms(2) by simp
  ultimately show ?thesis using assms(2) by (metis append_eq_conv_conj min.absorb1 take_take)
qed

lemma parse_number_at:
  assumes "wf_buf b" "unread b = number_text E t @ c # r" "\<not> number_char c" "number_ok E t" "\<forall>k n. allocate E k n"
  shows "\<exists>b'. parse_number E item b = Inr (True, set_value cJSON_Number (valuestring item)
      (set_int (saturate E (valuedouble t)) (set_double (valuedouble t) item)), b') \<and> went b (length (number_text E t)) b'"
proof -
  let ?s = "number_text E t"
  have ok: "?s \<noteq> []" "list_all number_char ?s" "strtod E ?s = (valuedouble t, length ?s)"
    using assms(4) by (auto simp: number_ok_def Let_def split: list.splits)
  have "bytes b (pb_offset b) (?s @ [c])" using bytes_unread[OF assms(1), of "?s @ [c]"] assms(2) by simp
  then have n: "number_span b 0 = Inr (length ?s)" using number_span_at[OF assms(1), of 0 ?s c] ok(2) assms(3) by simp
  obtain b1 where a: "pb_allocate E (length ?s + 1) b = (True, b1)" using assms(5) by (simp add: pb_allocate_def)
  then have b1: "pb_content b1 = pb_content b" "pb_offset b1 = pb_offset b" "went b 0 b1" by (auto simp: pb_allocate_def went_def)
  have t: "take (length ?s) (drop (pb_offset b1) (pb_content b1)) = ?s" unfolding b1 by (rule take_unread[OF assms(1,2)])
  have "parse_number E item b = Inr (True, set_value cJSON_Number (valuestring item)
      (set_int (saturate E (valuedouble t)) (set_double (valuedouble t) item)), advance (length ?s) b1)"
    unfolding parse_number_def n andthen_simps a prod.case Let_def t ok(3) using ok(1) by simp
  moreover have "went b (length ?s) (advance (length ?s) b1)" using went_trans[OF b1(3) went_advance] by simp
  ultimately show ?thesis by blast
qed

section \<open>Values\<close>

definition starts :: "string \<Rightarrow> bool" where
  "starts s \<longleftrightarrow> (case s of [] \<Rightarrow> False | c # _ \<Rightarrow> 32 < (of_char c :: nat) \<and> c \<notin> {CHR '']'', CHR 0x7D, CHR 0xEF})"

definition follows :: "char \<Rightarrow> bool" where
  "follows c \<longleftrightarrow> c \<in> {CHR '','', CHR '']'', CHR 0x7D, CHR 0x0A, NUL}"

lemma follows_number: "follows c \<Longrightarrow> \<not> number_char c"
  by (auto simp: follows_def number_char_def is_digit_def)

definition reads_as :: "'d json_env \<Rightarrow> ('d cJSON \<Rightarrow> parse_buffer \<Rightarrow> json_fault + (bool \<times> 'd cJSON \<times> parse_buffer)) \<Rightarrow>
    nat \<Rightarrow> 'd cJSON \<Rightarrow> string \<Rightarrow> bool" where
  "reads_as E pv d t s \<longleftrightarrow> starts s \<and> (\<forall>b item c r. wf_buf b \<longrightarrow> pb_depth b = d \<longrightarrow> unread b = s @ c # r \<longrightarrow> follows c \<longrightarrow>
     fresh E item \<longrightarrow> item_string item = item_string t \<longrightarrow> (\<exists>b'. pv item b = Inr (True, t, b') \<and> went b (length s) b'))"

abbreviation blanks :: "string \<Rightarrow> bool" where
  "blanks ws \<equiv> \<forall>x \<in> set ws. (of_char x :: nat) \<le> 32"

lemma advance_0 [simp]: "advance 0 b = b"
  by (simp add: advance_def)

lemma went_allocate:
  assumes "\<forall>k n. allocate E k n"
  obtains b' where "pb_allocate E n b = (True, b')" "went b 0 b'"
  using assms that by (auto simp: pb_allocate_def went_def)

text \<open>Skipping, from \<open>n\<close> bytes further.\<close>

lemma skip_went:
  assumes "wf_buf b" "went b n b1" "unread b = xs @ ws @ c # r" "length xs = n" "blanks ws" "32 < (of_char c :: nat)"
  shows "\<exists>b2. buffer_skip_whitespace b1 = Inr b2 \<and> went b (n + length ws) b2 \<and> wf_buf b2 \<and> unread b2 = c # r"
proof -
  have wf1: "wf_buf b1" by (rule went_wf[OF assms(2,1)]) (use assms(3,4) in auto)
  have r1: "unread b1 = ws @ c # r" using went_unread[OF assms(2)] assms(3,4) by simp
  have w: "went b (n + length ws) (advance (length ws) b1)" by (rule went_trans[OF assms(2) went_advance])
  have "wf_buf (advance (length ws) b1)" by (rule went_wf[OF w assms(1)]) (use assms(3,4) in auto)
  moreover have "unread (advance (length ws) b1) = c # r" using went_unread[OF went_advance] r1 by simp
  ultimately show ?thesis using skip_at[OF wf1 r1 assms(5,6)] w by blast
qed

lemma elements_loop_at:
  assumes "\<forall>k n. allocate E k n"
  shows "cs \<noteq> [] \<Longrightarrow> elements_text E fmt d cs = Some s \<Longrightarrow>
    \<forall>c \<in> set cs. item_string c = None \<and> (\<forall>u. json_text E fmt d c = Some u \<longrightarrow> reads_as E pv d c u) \<Longrightarrow>
    wf_buf b \<Longrightarrow> pb_depth b = d \<Longrightarrow> unread b = x # ws @ s @ CHR '']'' # r \<Longrightarrow> blanks ws \<Longrightarrow>
    pb_length b - pb_offset b < k \<Longrightarrow>
    \<exists>b'. elements_loop E pv k b items = Inr (Some (items @ cs), b') \<and> went b (1 + length ws + length s) b'"
proof (induction k arbitrary: cs s b x ws items)
  case (Suc k)
  obtain c cs' where cs: "cs = c # cs'" using Suc.prems(1) by (cases cs) auto
  let ?comma = "CHR '','' # (if fmt then '' '' else [])"
  obtain u v where u: "json_text E fmt d c = Some u" and s: "s = u @ v"
    and v: "if cs' = [] then v = [] else \<exists>v'. elements_text E fmt d cs' = Some v' \<and> v = ?comma @ v'"
    using Suc.prems(2) unfolding cs by (auto simp: tcat_Some_iff split: if_splits)
  have ru: "reads_as E pv d c u" "item_string c = None" using Suc.prems(3) u cs by auto
  obtain y ys where uy: "u = y # ys" "32 < (of_char y :: nat)" using ru(1) by (auto simp: reads_as_def starts_def split: list.splits)
  obtain z zs where z: "v @ CHR '']'' # r = z # zs" "z = (if cs' = [] then CHR '']'' else CHR '','')" using v by (cases "cs' = []") auto
  have zf: "follows z" "32 < (of_char z :: nat)" using z(2) by (auto simp: follows_def)
  have rem: "unread b = [x] @ ws @ u @ z # zs" using Suc.prems(6) s z(1) by simp
  obtain b1 where b1: "pb_allocate E 64 b = (True, b1)" "went b 0 b1" using went_allocate[OF assms] by blast
  have w1: "went b 1 (advance 1 b1)" using went_trans[OF b1(2) went_advance] by simp
  obtain b2 where b2: "buffer_skip_whitespace (advance 1 b1) = Inr b2" "went b (1 + length ws) b2" "wf_buf b2" "unread b2 = u @ z # zs"
    using skip_went[OF Suc.prems(4) w1, of "[x]" ws y] rem uy Suc.prems(7) by auto
  have "pb_depth b2 = d" using b2(2) Suc.prems(5) by (simp add: went_def)
  with ru b2(3,4) zf(1) obtain b3 where b3: "pv (cJSON_New_Item E) b2 = Inr (True, c, b3)" "went b2 (length u) b3"
    unfolding reads_as_def using fresh_new[of E] by metis
  have w3: "went b (1 + length ws + length u) b3" using went_trans[OF b2(2) b3(2)] .
  obtain b4 where b4: "buffer_skip_whitespace b3 = Inr b4" "went b (1 + length ws + length u) b4" "wf_buf b4" "unread b4 = z # zs"
    using skip_went[OF Suc.prems(4) w3, of "[x] @ ws @ u" "[]" z zs] rem zf(2) by auto
  have eq: "elements_loop E pv (Suc k) b items =
      (if z = CHR '','' then elements_loop E pv k b4 (items @ [c]) else Inr (Some (items @ [c]), b4))"
    using b1(1) b2(1) b3(1) b4(1) next_is_at[OF b4(3,4)] by simp
  show ?case
  proof (cases "cs' = []")
    case True
    with z(2) v s b4(2) cs show ?thesis unfolding eq by simp
  next
    case False
    with v obtain v' where v': "elements_text E fmt d cs' = Some v'" "v = ?comma @ v'" by auto
    have r4: "unread b4 = CHR '','' # (if fmt then '' '' else []) @ v' @ CHR '']'' # r" using b4(4) z(1) v'(2) by simp
    have d4: "pb_depth b4 = d" "pb_length b4 - pb_offset b4 < k" using b4(2) Suc.prems(5,8) unread_Cons(1)[OF Suc.prems(4,6)] by (auto simp: went_def)
    have bl: "blanks (if fmt then '' '' else [])" by simp
    obtain b' where b': "elements_loop E pv k b4 (items @ [c]) = Inr (Some ((items @ [c]) @ cs'), b')"
      "went b4 (1 + length (if fmt then '' '' else []) + length v') b'"
      using Suc.IH[OF False v'(1) _ b4(3) d4(1) r4 bl d4(2), of "items @ [c]"] Suc.prems(3) cs by auto
    have "went b (1 + length ws + length s) b'" using went_trans[OF b4(2) b'(2)] s v'(2) by (simp add: algebra_simps)
    with b'(1) z(2) False cs show ?thesis unfolding eq by simp
  qed
qed simp

lemma quote_text_Cons: "quote_text k = CHR 0x22 # tl (quote_text k)"
  by (simp add: quote_text_def)

text \<open>The loop over the members starts behind the indentation of the first; \<open>tail\<close> is the indentation of the closing brace.\<close>

lemma members_loop_at:
  assumes al: "\<forall>k n. allocate E k n"
  shows "cs \<noteq> [] \<Longrightarrow> members_text E fmt d cs = Some (tabs fmt d @ s) \<Longrightarrow>
    \<forall>c \<in> set cs. key_ok c \<and> (\<forall>u. json_text E fmt d c = Some u \<longrightarrow> reads_as E pv d c u) \<Longrightarrow>
    wf_buf b \<Longrightarrow> pb_depth b = d \<Longrightarrow> unread b = x # ws @ s @ tail @ CHR 0x7D # r \<Longrightarrow> blanks ws \<Longrightarrow> blanks tail \<Longrightarrow>
    (fmt \<or> tail = []) \<Longrightarrow> pb_length b - pb_offset b < k \<Longrightarrow>
    \<exists>b'. members_loop E pv k b items = Inr (Some (items @ cs), b') \<and> went b (1 + length ws + length s + length tail) b'"
proof (induction k arbitrary: cs s b x ws items)
  case (Suc k)
  obtain c cs' where cs: "cs = c # cs'" using Suc.prems(1) by (cases cs) auto
  obtain key where key: "item_string c = Some key" "cstring key" using Suc.prems(3) cs by (auto simp: key_ok_def)
  let ?colon = "CHR '':'' # (if fmt then [CHR 0x09] else [])" and ?nl = "if fmt then [CHR 0x0A] else []"
  let ?Q = "quote_text (Some key)"
  obtain u v where u: "json_text E fmt d c = Some u" and s: "s = ?Q @ ?colon @ u @ (if cs' \<noteq> [] then '','' else []) @ ?nl @ v"
    and v: "members_text E fmt d cs' = Some v"
    using Suc.prems(2) key(1) unfolding cs by (auto simp: tcat_Some_iff)
  have ru: "reads_as E pv d c u" using Suc.prems(3) u cs by auto
  obtain y ys where uy: "u = y # ys" "32 < (of_char y :: nat)" using ru by (auto simp: reads_as_def starts_def split: list.splits)
  define z where "z = (if cs' \<noteq> [] then CHR '','' else CHR 0x7D)"
  define w2 where "w2 = (if cs' \<noteq> [] then [] else ?nl @ tail)"
  define zs where "zs = (if cs' \<noteq> [] then ?nl @ v @ tail @ CHR 0x7D # r else r)"
  have after: "(if cs' \<noteq> [] then '','' else []) @ ?nl @ v @ tail @ CHR 0x7D # r = w2 @ z # zs"
    using v by (cases "cs' = []") (auto simp: w2_def z_def zs_def)
  obtain f fs where f: "w2 @ z # zs = f # fs" "follows f"
    using Suc.prems(9) by (cases "cs' = []"; cases fmt) (auto simp: w2_def z_def follows_def)
  have zf: "32 < (of_char z :: nat)" "blanks w2" using Suc.prems(8) by (auto simp: z_def w2_def)
  have rem: "unread b = [x] @ ws @ ?Q @ ?colon @ u @ w2 @ z # zs" using Suc.prems(6) s after by simp
  obtain b1 where b1: "pb_allocate E 64 b = (True, b1)" "went b 0 b1" using went_allocate[OF al] by blast
  have len: "2 \<le> length (unread b)" using rem uy by simp
  have acc: "can_access_at_index b1 1" using b1(2) len length_unread[OF Suc.prems(4)] by (simp add: can_access_at_index_def went_def)
  have w1: "went b 1 (advance 1 b1)" using went_trans[OF b1(2) went_advance] by simp
  have q: "?Q = CHR 0x22 # tl ?Q" by (rule quote_text_Cons)
  obtain b2 where b2: "buffer_skip_whitespace (advance 1 b1) = Inr b2" "went b (1 + length ws) b2" "wf_buf b2" "unread b2 = ?Q @ ?colon @ u @ w2 @ z # zs"
    using skip_went[OF Suc.prems(4) w1, of "[x]" ws "CHR 0x22" "tl ?Q @ ?colon @ u @ w2 @ z # zs"] rem q Suc.prems(7) by auto
  let ?new = "cJSON_New_Item E"
  obtain b3 where b3: "parse_string E ?new b2 = Inr (True, set_value cJSON_String (Some key) ?new, b3)" "went b2 (length ?Q) b3"
    using parse_string_at[OF b2(3,4) key(2) al] by blast
  have w3: "went b (1 + length ws + length ?Q) b3" using went_trans[OF b2(2) b3(2)] .
  obtain b4 where b4: "buffer_skip_whitespace b3 = Inr b4" "went b (1 + length ws + length ?Q) b4" "wf_buf b4" "unread b4 = ?colon @ u @ w2 @ z # zs"
    using skip_went[OF Suc.prems(4) w3, of "[x] @ ws @ ?Q" "[]" "CHR '':''" "(if fmt then [CHR 0x09] else []) @ u @ w2 @ z # zs"] rem by auto
  have w5: "went b (1 + length ws + length ?Q + 1) (advance 1 b4)" using went_trans[OF b4(2) went_advance] .
  obtain b5 where b5: "buffer_skip_whitespace (advance 1 b4) = Inr b5" "went b (1 + length ws + length ?Q + length ?colon) b5" "wf_buf b5"
      "unread b5 = u @ w2 @ z # zs"
    using skip_went[OF Suc.prems(4) w5, of "[x] @ ws @ ?Q @ '':''" "if fmt then [CHR 0x09] else []" y "ys @ w2 @ z # zs"] rem uy by auto
  let ?t = "set_value (item_type (set_value cJSON_String (Some key) ?new)) None
       (set_key (valuestring (set_value cJSON_String (Some key) ?new)) (set_value cJSON_String (Some key) ?new))"
  have t: "fresh E ?t" "item_string ?t = item_string c" by (simp_all add: fresh_def cJSON_New_Item_def key(1))
  have "pb_depth b5 = d" using b5(2) Suc.prems(5) by (simp add: went_def)
  with ru b5(3,4) f t obtain b6 where b6: "pv ?t b5 = Inr (True, c, b6)" "went b5 (length u) b6"
    unfolding reads_as_def by metis
  have w6: "went b (1 + length ws + length ?Q + length ?colon + length u) b6" using went_trans[OF b5(2) b6(2)] .
  obtain b7 where b7: "buffer_skip_whitespace b6 = Inr b7" "went b (1 + length ws + length ?Q + length ?colon + length u + length w2) b7"
      "wf_buf b7" "unread b7 = z # zs"
    using skip_went[OF Suc.prems(4) w6, of "[x] @ ws @ ?Q @ ?colon @ u" w2 z zs] rem zf by auto
  have colon: "next_is b4 (\<lambda>c. c = CHR '':'') = Inr True" using next_is_at[OF b4(3), of "CHR '':''"] b4(4) by auto
  have eq: "members_loop E pv (Suc k) b items =
      (if z = CHR '','' then members_loop E pv k b7 (items @ [c]) else Inr (Some (items @ [c]), b7))"
    using b1(1) acc b2(1) b3(1) b4(1) colon b5(1) b6(1) b7(1) next_is_at[OF b7(3,4)] by simp
  show ?case
  proof (cases "cs' = []")
    case True
    then have e: "1 + length ws + length s + length tail = 1 + length ws + length ?Q + length ?colon + length u + length w2"
      using s v by (simp add: w2_def)
    have "went b (1 + length ws + length s + length tail) b7" using b7(2) unfolding e .
    with True cs show ?thesis unfolding eq by (simp add: z_def)
  next
    case False
    obtain s' where s': "v = tabs fmt d @ s'" using v False by (cases cs') (auto simp: tcat_Some_iff)
    let ?ws = "?nl @ tabs fmt d"
    have r7: "unread b7 = CHR '','' # ?ws @ s' @ tail @ CHR 0x7D # r" using b7(4) False s' by (simp add: z_def zs_def)
    have d7: "pb_depth b7 = d" "pb_length b7 - pb_offset b7 < k" using b7(2) Suc.prems(5,10) unread_Cons(1)[OF Suc.prems(4,6)] by (auto simp: went_def)
    have bl: "blanks ?ws" by (auto simp: tabs_def)
    have v': "members_text E fmt d cs' = Some (tabs fmt d @ s')" using v s' by simp
    obtain b' where b': "members_loop E pv k b7 (items @ [c]) = Inr (Some ((items @ [c]) @ cs'), b')"
      "went b7 (1 + length ?ws + length s' + length tail) b'"
      using Suc.IH[OF False v' _ b7(3) d7(1) r7 bl Suc.prems(8,9) d7(2), of "items @ [c]"] Suc.prems(3) cs by auto
    have "1 + length ws + length ?Q + length ?colon + length u + length w2 + (1 + length ?ws + length s' + length tail) =
        1 + length ws + length s + length tail" using s s' False by (simp add: w2_def)
    with went_trans[OF b7(2) b'(2)] have "went b (1 + length ws + length s + length tail) b'" by metis
    with b'(1) False cs show ?thesis unfolding eq by (simp add: z_def)
  qed
qed simp

text \<open>Dispatch on the first character.\<close>

lemma parse_value_at:
  assumes "wf_buf b" "unread b = c # r" "c \<notin> {CHR ''n'', CHR ''f'', CHR ''t''}"
  shows "parse_value E (Suc n) item b =
     (if c = CHR 0x22 then parse_string E item b else if c = CHR ''-'' \<or> is_digit c then parse_number E item b
      else if c = CHR ''['' then parse_array E (parse_value E n) item b
      else if c = CHR 0x7B then parse_object E (parse_value E n) item b else Inr (False, item, b))"
  using assms(3) literal_other[OF assms(1,2), of "CHR ''n''" "''ull''"] literal_other[OF assms(1,2), of "CHR ''f''" "''alse''"]
    literal_other[OF assms(1,2), of "CHR ''t''" "''rue''"]
  unfolding parse_value.simps by (simp add: next_is_at[OF assms(1,2)])

lemma close_bracket_at:
  assumes "wf_buf b" "unread b = c # r"
  shows "close_bracket ty c item (Some its, b) = Inr (True, set_children ty its item, advance 1 (b\<lparr>pb_depth := pb_depth b - 1\<rparr>))"
  using next_is_at[OF assms, of "\<lambda>d. d = c"] by (simp add: close_bracket_def)

lemma parse_array_at:
  assumes al: "\<forall>k n. allocate E k n" and wf: "wf_buf b" and d: "pb_depth b < CJSON_NESTING_LIMIT"
    and s: "elements_text E fmt (pb_depth b + 1) cs = Some s" and rem: "unread b = CHR ''['' # s @ CHR '']'' # r"
    and rd: "\<forall>c \<in> set cs. item_string c = None \<and> (\<forall>u. json_text E fmt (pb_depth b + 1) c = Some u \<longrightarrow> reads_as E pv (pb_depth b + 1) c u)"
  shows "\<exists>b'. parse_array E pv item b = Inr (True, set_children cJSON_Array cs item, b') \<and> went b (length s + 2) b'"
proof -
  define b1 where "b1 = b\<lparr>pb_depth := pb_depth b + 1\<rparr>"
  have wf1: "wf_buf b1" using wf d by (simp add: b1_def wf_buf_def)
  have rem1: "unread b1 = CHR ''['' # s @ CHR '']'' # r" using rem by (simp add: b1_def unread_def)
  have at: "byte_at b1 (pb_offset b1) = Inr (CHR ''['')" using unread_Cons[OF wf1 rem1] byte_at_in[OF wf1] by simp
  have w1: "went b1 1 (advance 1 b1)" by (rule went_advance)
  have up1: "went b (n + 1) (advance 1 (b'\<lparr>pb_depth := pb_depth b' - 1\<rparr>))" if "went b1 n b'" for n b'
    using that by (simp add: went_def b1_def advance_def)
  show ?thesis
  proof (cases cs)
    case Nil
    obtain b2 where b2: "buffer_skip_whitespace (advance 1 b1) = Inr b2" "went b1 1 b2" "wf_buf b2" "unread b2 = CHR '']'' # r"
      using skip_went[OF wf1 w1, of "''[''" "[]" "CHR '']''" r] rem1 s Nil by auto
    have "parse_array E pv item b = Inr (True, set_children cJSON_Array [] item, advance 1 (b2\<lparr>pb_depth := pb_depth b2 - 1\<rparr>))"
      unfolding parse_array_def b1_def[symmetric] Let_def at andthen_simps b2(1) next_is_at[OF b2(3,4)] close_bracket_at[OF b2(3,4)]
      using d by simp
    with up1[OF b2(2)] s Nil show ?thesis by auto
  next
    case (Cons c cs')
    then obtain u v where u: "json_text E fmt (pb_depth b + 1) c = Some u" "s = u @ v" using s by (auto simp: tcat_Some_iff split: if_splits)
    then have "reads_as E pv (pb_depth b + 1) c u" using rd Cons by simp
    then obtain y ys where y: "u = y # ys" "32 < (of_char y :: nat)" "y \<noteq> CHR '']''" by (auto simp: reads_as_def starts_def split: list.splits)
    obtain b2 where b2: "buffer_skip_whitespace (advance 1 b1) = Inr b2" "went b1 1 b2" "wf_buf b2" "unread b2 = y # ys @ v @ CHR '']'' # r"
      using skip_went[OF wf1 w1, of "''[''" "[]" y "ys @ v @ CHR '']'' # r"] rem1 u(2) y by auto
    have sb: "step_back b2 = b1\<lparr>pb_allocs := pb_allocs b2\<rparr>" using b2(2) by (simp add: went_def step_back_def)
    have wf3: "wf_buf (step_back b2)" and rem3: "unread (step_back b2) = CHR ''['' # [] @ s @ CHR '']'' # r"
      and d3: "pb_depth (step_back b2) = pb_depth b + 1"
      using wf1 rem1 unfolding sb by (simp_all add: wf_buf_def unread_def b1_def)
    have acc: "can_access_at_index b2 0" using unread_Cons(1)[OF b2(3,4)] by (simp add: can_access_at_index_def)
    have k: "pb_length (step_back b2) - pb_offset (step_back b2) < Suc (pb_length b2)" by simp
    obtain b4 where b4: "elements_loop E pv (Suc (pb_length b2)) (step_back b2) [] = Inr (Some cs, b4)"
      "went (step_back b2) (1 + length ([] :: string) + length s) b4"
      using elements_loop_at[OF al _ s rd wf3 d3 rem3 _ k, of "[]"] Cons by auto
    have w4: "went b1 (1 + length s) b4" using b4(2) unfolding sb by (simp add: went_def)
    have wf4: "wf_buf b4" by (rule went_wf[OF w4 wf1]) (simp add: rem1)
    have rem4: "unread b4 = CHR '']'' # r" using went_unread[OF w4] rem1 by simp
    have "parse_array E pv item b = Inr (True, set_children cJSON_Array cs item, advance 1 (b4\<lparr>pb_depth := pb_depth b4 - 1\<rparr>))"
      unfolding parse_array_def b1_def[symmetric] Let_def at andthen_simps b2(1) next_is_at[OF b2(3,4)] b4(1) close_bracket_at[OF wf4 rem4]
      using d y(3) acc by simp
    with up1[OF w4] show ?thesis by auto
  qed
qed

lemma parse_object_at:
  assumes al: "\<forall>k n. allocate E k n" and wf: "wf_buf b" and d: "pb_depth b < CJSON_NESTING_LIMIT"
    and s: "members_text E fmt (pb_depth b + 1) cs = Some s"
    and rem: "unread b = CHR 0x7B # (if fmt then [CHR 0x0A] else []) @ s @ tabs fmt (pb_depth b) @ CHR 0x7D # r"
    and rd: "\<forall>c \<in> set cs. key_ok c \<and> (\<forall>u. json_text E fmt (pb_depth b + 1) c = Some u \<longrightarrow> reads_as E pv (pb_depth b + 1) c u)"
  shows "\<exists>b'. parse_object E pv item b = Inr (True, set_children cJSON_Object cs item, b') \<and>
     went b (length (if fmt then [CHR 0x0A] else []) + length s + length (tabs fmt (pb_depth b)) + 2) b'"
proof -
  let ?nl = "if fmt then [CHR 0x0A] else []" and ?tail = "tabs fmt (pb_depth b)"
  define b1 where "b1 = b\<lparr>pb_depth := pb_depth b + 1\<rparr>"
  have wf1: "wf_buf b1" using wf d by (simp add: b1_def wf_buf_def)
  have rem1: "unread b1 = CHR 0x7B # ?nl @ s @ ?tail @ CHR 0x7D # r" using rem by (simp add: b1_def unread_def)
  have w1: "went b1 1 (advance 1 b1)" by (rule went_advance)
  have at: "next_is b1 (\<lambda>c. c = CHR 0x7B) = Inr True" using next_is_at[OF wf1 rem1] by simp
  have up1: "went b (n + 1) (advance 1 (b'\<lparr>pb_depth := pb_depth b' - 1\<rparr>))" if "went b1 n b'" for n b'
    using that by (simp add: went_def b1_def advance_def)
  have bl: "blanks ?nl" "blanks ?tail" "fmt \<or> ?tail = []" by (auto simp: tabs_def)
  show ?thesis
  proof (cases cs)
    case Nil
    have "unread b1 = [CHR 0x7B] @ (?nl @ ?tail) @ CHR 0x7D # r" using rem1 s Nil by simp
    from skip_went[OF wf1 w1 this] bl obtain b2 where b2: "buffer_skip_whitespace (advance 1 b1) = Inr b2"
      "went b1 (1 + length (?nl @ ?tail)) b2" "wf_buf b2" "unread b2 = CHR 0x7D # r" by auto
    have "parse_object E pv item b = Inr (True, set_children cJSON_Object [] item, advance 1 (b2\<lparr>pb_depth := pb_depth b2 - 1\<rparr>))"
      unfolding parse_object_def b1_def[symmetric] Let_def at andthen_simps b2(1) next_is_at[OF b2(3,4)] close_bracket_at[OF b2(3,4)]
      using d by simp
    with up1[OF b2(2)] s Nil show ?thesis by auto
  next
    case (Cons c cs')
    obtain key where key: "item_string c = Some key" using rd Cons by (auto simp: key_ok_def)
    obtain s' where s': "s = tabs fmt (pb_depth b + 1) @ s'" using s Cons by (auto simp: tcat_Some_iff)
    obtain w where "s' = quote_text (item_string c) @ w" using s s' Cons by (auto simp: tcat_Some_iff)
    then obtain s2 where s2: "s' = CHR 0x22 # s2" by (metis append_Cons quote_text_Cons)
    let ?ws = "?nl @ tabs fmt (pb_depth b + 1)"
    have blw: "blanks ?ws" by (auto simp: tabs_def)
    have r1: "unread b1 = [CHR 0x7B] @ ?ws @ CHR 0x22 # s2 @ ?tail @ CHR 0x7D # r" using rem1 s' s2 by simp
    obtain b2 where b2: "buffer_skip_whitespace (advance 1 b1) = Inr b2" "went b1 (1 + length ?ws) b2" "wf_buf b2"
        "unread b2 = CHR 0x22 # s2 @ ?tail @ CHR 0x7D # r"
      using skip_went[OF wf1 w1 r1 _ blw] by auto
    obtain ys x where x: "CHR 0x7B # ?ws = ys @ [x]" by (metis rev_exhaust list.discI)
    have ly: "length ys = length ?ws" using arg_cong[OF x, of length] by simp
    have w3: "went b1 (length ?ws) (step_back b2)" using b2(2) by (simp add: went_def step_back_def)
    have wf3: "wf_buf (step_back b2)" by (rule went_wf[OF w3 wf1]) (use r1 in simp)
    have "unread b1 = (ys @ [x]) @ s' @ ?tail @ CHR 0x7D # r" using r1 s2 unfolding x[symmetric] by simp
    then have rem3: "unread (step_back b2) = x # [] @ s' @ ?tail @ CHR 0x7D # r" using went_unread[OF w3] ly by simp
    have d3: "pb_depth (step_back b2) = pb_depth b + 1" using w3 by (simp add: went_def b1_def)
    have acc: "can_access_at_index b2 0" using unread_Cons(1)[OF b2(3,4)] by (simp add: can_access_at_index_def)
    have k: "pb_length (step_back b2) - pb_offset (step_back b2) < Suc (pb_length b2)" by simp
    obtain b4 where b4: "members_loop E pv (Suc (pb_length b2)) (step_back b2) [] = Inr (Some cs, b4)"
      "went (step_back b2) (1 + length ([] :: string) + length s' + length ?tail) b4"
      using members_loop_at[OF al _ s[unfolded s'] rd wf3 d3 rem3 _ bl(2,3) k, of "[]"] Cons by auto
    have "length ?ws + (1 + length ([] :: string) + length s' + length ?tail) = 1 + length ?nl + length s + length ?tail" using s' by simp
    with went_trans[OF w3 b4(2)] have w4: "went b1 (1 + length ?nl + length s + length ?tail) b4" by metis
    have wf4: "wf_buf b4" by (rule went_wf[OF w4 wf1]) (simp add: rem1)
    have rem4: "unread b4 = CHR 0x7D # r" using went_unread[OF w4] rem1 by simp
    have "parse_object E pv item b = Inr (True, set_children cJSON_Object cs item, advance 1 (b4\<lparr>pb_depth := pb_depth b4 - 1\<rparr>))"
      unfolding parse_object_def b1_def[symmetric] Let_def at andthen_simps b2(1) next_is_at[OF b2(3,4)] b4(1) close_bracket_at[OF wf4 rem4]
      using d acc by simp
    moreover have "1 + length ?nl + length s + length ?tail + 1 = length ?nl + length s + length ?tail + 2" by simp
    ultimately show ?thesis using up1[OF w4] by metis
  qed
qed

text \<open>The numbers of an item read back as they are printed.\<close>

fun numbers_ok :: "'d json_env \<Rightarrow> 'd cJSON \<Rightarrow> bool" where
  "numbers_ok E (Item ty vs vi vd key ch) =
     ((ty = cJSON_Number \<longrightarrow> number_ok E (Item ty vs vi vd key ch)) \<and> list_all (numbers_ok E) ch)"

lemma wf_json_cases:
  assumes "wf_json E m t"
  obtains "scalar_ok E t" | m' where "m = Suc m'" "container_ok E (wf_json E m') t"
  using assms by (cases m) auto

lemma reads_as_value:
  assumes "starts s"
    and "\<And>b item c r. wf_buf b \<Longrightarrow> pb_depth b = d \<Longrightarrow> unread b = s @ c # r \<Longrightarrow> follows c \<Longrightarrow> fresh E item \<Longrightarrow>
      item_string item = item_string t \<Longrightarrow> \<exists>b'. pv item b = Inr (True, t, b') \<and> went b (length s) b'"
  shows "reads_as E pv d t s"
  using assms by (auto simp: reads_as_def)

lemma reads_asD:
  assumes "reads_as E pv d t s" "wf_buf b" "pb_depth b = d" "unread b = s @ c # r" "follows c" "fresh E item"
    "item_string item = item_string t"
  shows "\<exists>b'. pv item b = Inr (True, t, b') \<and> went b (length s) b'"
  using assms by (auto simp: reads_as_def)

lemma literal_reads:
  assumes "w = ''null'' \<and> ty = cJSON_NULL \<or> w = ''false'' \<and> ty = cJSON_False \<or> w = ''true'' \<and> ty = cJSON_True"
    and t: "t = Item ty None (if ty = cJSON_True then 1 else 0) (d_of_int E 0) key []"
  shows "reads_as E (parse_value E (Suc n)) d t w"
proof (rule reads_as_value)
  show "starts w" using assms(1) by (auto simp: starts_def)
  fix b :: parse_buffer and item :: "'a cJSON" and c r
  assume b: "wf_buf b" "unread b = w @ c # r" and it: "fresh E item" "item_string item = item_string t"
  obtain ty' vs vi vd k ch where i: "item = Item ty' vs vi vd k ch" by (cases item)
  note this_one = literal_this[OF b]
  have "parse_value E (Suc n) item b = Inr (True, t, advance (length w) b)"
    using assms(1)
  proof (elim disjE conjE)
    assume w: "w = ''null''" "ty = cJSON_NULL"
    then have len: "length w = 4" by simp
    have "parse_value E (Suc n) item b = Inr (True, set_value cJSON_NULL (valuestring item) item, advance 4 b)"
      unfolding parse_value.simps this_one[unfolded w(1)] andthen_simps if_True by (rule refl)
    with w(2) len it i t show ?thesis by (simp add: fresh_def)
  next
    assume w: "w = ''false''" "ty = cJSON_False"
    then have r: "unread b = CHR ''f'' # ''alse'' @ c # r" using b(2) by simp
    have "literal b ''null'' = Inr False" using literal_other[OF b(1) r] by simp
    then have e: "parse_value E (Suc n) item b = Inr (True, set_value cJSON_False (valuestring item) item, advance 5 b)"
      unfolding parse_value.simps this_one[unfolded w(1)] andthen_simps if_True if_False by simp
    have "length w = 5" by (simp add: w(1))
    with e w(2) it i t show ?thesis by (simp add: fresh_def)
  next
    assume w: "w = ''true''" "ty = cJSON_True"
    then have r: "unread b = CHR ''t'' # ''rue'' @ c # r" using b(2) by simp
    have "literal b ''null'' = Inr False" "literal b ''false'' = Inr False" using literal_other[OF b(1) r] by simp_all
    then have e: "parse_value E (Suc n) item b = Inr (True, set_int 1 (set_value cJSON_True (valuestring item) item), advance 4 b)"
      unfolding parse_value.simps this_one[unfolded w(1)] andthen_simps if_True if_False by simp
    have "length w = 4" by (simp add: w(1))
    with e w(2) it i t show ?thesis by (simp add: fresh_def)
  qed
  then show "\<exists>b'. parse_value E (Suc n) item b = Inr (True, t, b') \<and> went b (length w) b'" using went_advance by blast
qed

lemma json_reads:
  assumes al: "\<forall>k n. allocate E k n"
  shows "wf_json E m t \<Longrightarrow> numbers_ok E t \<Longrightarrow> json_text E fmt d t = Some s \<Longrightarrow> CJSON_NESTING_LIMIT < d + n \<Longrightarrow> d \<le> CJSON_NESTING_LIMIT \<Longrightarrow>
    reads_as E (parse_value E n) d t s"
proof (induction t arbitrary: m n d s)
  case (Item ty vs vi vd key ch)
  let ?t = "Item ty vs vi vd key ch"
  obtain n' where n: "n = Suc n'" using Item.prems(4,5) by (cases n) auto
  show ?case unfolding n using Item.prems(1)
  proof (cases rule: wf_json_cases)
    case 1
    then consider "ty = cJSON_NULL \<or> ty = cJSON_False \<or> ty = cJSON_True" "vs = None" "vi = (if ty = cJSON_True then 1 else 0)" "vd = d_of_int E 0" "ch = []"
      | "ty = cJSON_Number" "vs = None" "vi = saturate E vd" "ch = []"
      | str where "ty = cJSON_String" "vs = Some str" "cstring str" "vi = 0" "vd = d_of_int E 0" "ch = []"
      by (auto simp: scalar_ok_def)
    then show "reads_as E (parse_value E (Suc n')) d ?t s"
    proof cases
      case 1
      have t: "?t = Item ty None (if ty = cJSON_True then 1 else 0) (d_of_int E 0) key []" using 1 by simp
      show ?thesis by (rule literal_reads[OF _ t]) (use 1 Item.prems(3) in auto)
    next
      case 2
      then have ok: "number_ok E ?t" and s: "s = number_text E ?t" using Item.prems(2,3) by auto
      then obtain y ys where y: "s = y # ys" "y = CHR ''-'' \<or> is_digit y" by (auto simp: number_ok_def Let_def split: list.splits)
      have y2: "32 < (of_char y :: nat)" "y \<notin> {CHR ''n'', CHR ''f'', CHR ''t'', CHR 0x22, CHR '']'', CHR 0x7D, CHR 0xEF}"
        using y(2) by (auto simp: is_digit_def Let_def)
      show ?thesis
      proof (rule reads_as_value)
        show "starts s" using y y2 by (simp add: starts_def)
        fix b :: parse_buffer and item :: "'a cJSON" and c r
        assume b: "wf_buf b" "unread b = s @ c # r" "follows c" and it: "fresh E item" "item_string item = item_string ?t"
        have rem: "unread b = y # ys @ c # r" using b(2) y(1) by simp
        have nq: "y \<noteq> CHR 0x22" "y \<notin> {CHR ''n'', CHR ''f'', CHR ''t''}" using y2(2) by simp_all
        have "parse_value E (Suc n') item b = parse_number E item b"
          unfolding parse_value_at[OF b(1) rem nq(2)] if_not_P[OF nq(1)] if_P[OF y(2)] by (rule refl)
        moreover obtain b' where "parse_number E item b = Inr (True, set_value cJSON_Number (valuestring item)
            (set_int (saturate E (valuedouble ?t)) (set_double (valuedouble ?t) item)), b')" "went b (length s) b'"
          using parse_number_at[OF b(1) b(2)[unfolded s] follows_number[OF b(3)] ok al] s by auto
        moreover have "set_value cJSON_Number (valuestring item) (set_int (saturate E (valuedouble ?t)) (set_double (valuedouble ?t) item)) = ?t"
          using it 2 by (cases item) (simp add: fresh_def)
        ultimately show "\<exists>b'. parse_value E (Suc n') item b = Inr (True, ?t, b') \<and> went b (length s) b'" by auto
      qed
    next
      case (3 str)
      then have s: "s = quote_text (Some str)" using Item.prems(3) by simp
      show ?thesis
      proof (rule reads_as_value)
        show "starts s" unfolding s by (simp add: starts_def quote_text_def)
        fix b :: parse_buffer and item :: "'a cJSON" and c r
        assume b: "wf_buf b" "unread b = s @ c # r" and it: "fresh E item" "item_string item = item_string ?t"
        have rem: "unread b = CHR 0x22 # tl (quote_text (Some str)) @ c # r" using b(2) s quote_text_Cons[of "Some str"] by (metis append_Cons)
        have "parse_value E (Suc n') item b = parse_string E item b" using parse_value_at[OF b(1) rem] by simp
        moreover obtain b' where "parse_string E item b = Inr (True, set_value cJSON_String (Some str) item, b')" "went b (length s) b'"
          using parse_string_at[OF b(1) b(2)[unfolded s] 3(3) al] s by blast
        moreover have "set_value cJSON_String (Some str) item = ?t" using it 3 by (cases item) (simp add: fresh_def)
        ultimately show "\<exists>b'. parse_value E (Suc n') item b = Inr (True, ?t, b') \<and> went b (length s) b'" by auto
      qed
    qed
  next
    case (2 m')
    then have c: "vs = None" "vi = 0" "vd = d_of_int E 0" "list_all (wf_json E m') ch"
      "ty = cJSON_Array \<and> list_all (\<lambda>c. item_string c = None) ch \<or> ty = cJSON_Object \<and> list_all key_ok ch"
      by (auto simp: container_ok_def)
    have d: "d < CJSON_NESTING_LIMIT" using c(5) Item.prems(3) by (auto split: if_splits)
    have IH: "reads_as E (parse_value E n') (d + 1) x u" if "x \<in> set ch" "json_text E fmt (d + 1) x = Some u" for x u
      using Item.IH[OF that(1) _ _ that(2)] c(4) Item.prems(2,4) that(1) n d by (auto simp: list_all_iff)
    have same: "set_children ty ch item = ?t" if "fresh E item" "item_string item = item_string ?t" for item
      using that c(1-3) by (cases item) (simp add: fresh_def)
    from c(5) show "reads_as E (parse_value E (Suc n')) d ?t s"
    proof
      assume a: "ty = cJSON_Array \<and> list_all (\<lambda>c. item_string c = None) ch"
      obtain s' where s': "elements_text E fmt (d + 1) ch = Some s'" "s = CHR ''['' # s' @ '']''"
        using Item.prems(3) a d by (auto simp: tcat_Some_iff)
      show ?thesis
      proof (rule reads_as_value)
        show "starts s" by (simp add: s'(2) starts_def)
        fix b :: parse_buffer and item :: "'a cJSON" and c r
        assume b: "wf_buf b" "pb_depth b = d" "unread b = s @ c # r" and it: "fresh E item" "item_string item = item_string ?t"
        have rem: "unread b = CHR ''['' # s' @ CHR '']'' # c # r" using b(3) s'(2) by simp
        have "parse_value E (Suc n') item b = parse_array E (parse_value E n') item b"
          using parse_value_at[OF b(1) rem] by (simp add: is_digit_def)
        moreover obtain b' where "parse_array E (parse_value E n') item b = Inr (True, set_children cJSON_Array ch item, b')" "went b (length s' + 2) b'"
          using parse_array_at[OF al b(1) _ _ rem, where cs = ch and fmt = fmt and pv = "parse_value E n'" and item = item] b(2) d s'(1) a IH
          by (auto simp: list_all_iff)
        ultimately show "\<exists>b'. parse_value E (Suc n') item b = Inr (True, ?t, b') \<and> went b (length s) b'"
          using same[OF it] a s'(2) by (simp add: numeral_2_eq_2)
      qed
    next
      assume a: "ty = cJSON_Object \<and> list_all key_ok ch"
      let ?nl = "if fmt then [CHR 0x0A] else []"
      obtain s' where s': "members_text E fmt (d + 1) ch = Some s'" "s = CHR 0x7B # ?nl @ s' @ tabs fmt d @ [CHR 0x7D]"
        using Item.prems(3) a d by (auto simp: tcat_Some_iff)
      show ?thesis
      proof (rule reads_as_value)
        show "starts s" by (simp add: s'(2) starts_def)
        fix b :: parse_buffer and item :: "'a cJSON" and c r
        assume b: "wf_buf b" "pb_depth b = d" "unread b = s @ c # r" and it: "fresh E item" "item_string item = item_string ?t"
        have rem: "unread b = CHR 0x7B # ?nl @ s' @ tabs fmt (pb_depth b) @ CHR 0x7D # c # r" using b(2,3) s'(2) by simp
        have "parse_value E (Suc n') item b = parse_object E (parse_value E n') item b"
          using parse_value_at[OF b(1) rem] by (simp add: is_digit_def)
        moreover obtain b' where "parse_object E (parse_value E n') item b = Inr (True, set_children cJSON_Object ch item, b')"
            "went b (length ?nl + length s' + length (tabs fmt (pb_depth b)) + 2) b'"
          using parse_object_at[OF al b(1) _ _ rem, where cs = ch and pv = "parse_value E n'" and item = item] b(2) d s'(1) a IH
          by (auto simp: list_all_iff)
        moreover have "length ?nl + length s' + length (tabs fmt (pb_depth b)) + 2 = length s" using s'(2) b(2) by simp
        ultimately show "\<exists>b'. parse_value E (Suc n') item b = Inr (True, ?t, b') \<and> went b (length s) b'"
          using same[OF it] a by metis
      qed
    qed
  qed
qed

lemma wf_json_printable:
  "wf_json E m t \<Longrightarrow> numbers_ok E t \<Longrightarrow> pred_option cstring (item_string t) \<Longrightarrow> printable E t"
proof (induction t arbitrary: m)
  case (Item ty vs vi vd key ch)
  have num: "cstring s" if "list_all number_char s" for s
    using that by (induction s) (auto simp: number_char_def is_digit_def)
  have "list_all (printable E) ch \<and> (ty AND 0xFF = cJSON_Number \<longrightarrow> ty = cJSON_Number) \<and> pred_option cstring vs"
    using Item.prems(1)
  proof (cases rule: wf_json_cases)
    case (2 m')
    have "printable E x" if "x \<in> set ch" for x
      using Item.IH[OF that, of m'] 2(2) Item.prems(2) that by (auto simp: container_ok_def list_all_iff key_ok_def)
    with 2 show ?thesis by (auto simp: container_ok_def list_all_iff)
  qed (auto simp: scalar_ok_def)
  with Item.prems(2,3) num show ?case by (auto simp: number_ok_def Let_def)
qed

lemma text_parses:
  assumes "wf_json E 1000 t" "item_string t = None" "numbers_ok E t" "\<forall>k n. allocate E k n" "json_text E fmt 0 t = Some s"
  shows "cJSON_ParseWithOpts E (Some s) term g = Inr (Some t, Some (length s), None)"
proof -
  define b0 where "b0 = \<lparr>pb_content = s @ [NUL], pb_length = length s + 1, pb_offset = 0, pb_depth = 0, pb_allocs = 0\<rparr>"
  have wf0: "wf_buf b0" and rem0: "unread b0 = s @ NUL # []" by (simp_all add: b0_def wf_buf_def unread_def)
  obtain b1 where b1: "pb_allocate E 64 b0 = (True, b1)" "went b0 0 b1" using went_allocate[OF assms(4)] by blast
  have wf1: "wf_buf b1" and rem1: "unread b1 = s @ NUL # []" and d1: "pb_depth b1 = 0" and o1: "pb_offset b1 = 0"
    using went_wf[OF b1(2) wf0] went_unread[OF b1(2)] rem0 b1(2) by (simp_all add: went_def b0_def)
  have rd: "reads_as E (parse_value E (CJSON_NESTING_LIMIT + 1)) 0 t s"
    by (rule json_reads[OF assms(4,1,3,5)]) simp_all
  then obtain y ys where y: "s = y # ys" "32 < (of_char y :: nat)" "y \<noteq> CHR 0xEF" by (auto simp: reads_as_def starts_def split: list.splits)
  have bom: "skip_utf8_bom b1 = Inr (Some b1)"
    using o1 y unread_Cons[OF wf1, of y "ys @ [NUL]"] rem1 by (simp add: skip_utf8_bom_def byte_at_in[OF wf1])
  have ws: "buffer_skip_whitespace b1 = Inr b1" using skip_at[OF wf1, of "[]" y "ys @ [NUL]"] rem1 y by simp
  obtain b4 where b4: "parse_value E (CJSON_NESTING_LIMIT + 1) (cJSON_New_Item E) b1 = Inr (True, t, b4)" "went b1 (length s) b4"
    using reads_asD[OF rd wf1 d1 rem1 _ fresh_new(1)[of E]] assms(2) by (auto simp: follows_def)
  have f4: "pb_offset b4 = length s" "pb_length b4 = length s + 1" "pb_content b4 = s @ [NUL]"
    using b4(2) b1(2) by (simp_all add: went_def b0_def)
  have "buffer_skip_whitespace b4 = Inr b4"
  proof -
    have at: "byte_at b4 (length s) = Inr NUL" by (simp add: byte_at_def f4)
    have "skip_blanks (advance 1 b4) = Inr (advance 1 b4)" using skip_blanks_end[of "advance 1 b4"] f4 by (simp add: advance_def)
    then have "skip_blanks b4 = Inr (advance 1 b4)" using f4 at by (simp add: skip_blanks.simps[of b4] can_access_at_index_def)
    then show ?thesis using f4 by (simp add: buffer_skip_whitespace_def can_access_at_index_def advance_def step_back_def)
  qed
  moreover have "next_is b4 (\<lambda>c. c = NUL) = Inr True" using f4 by (simp add: next_is_def can_access_at_index_def byte_at_def)
  ultimately show ?thesis
    unfolding cJSON_ParseWithOpts_def option.case cJSON_ParseWithLengthOpts_def Let_def b0_def[symmetric] b1(1) prod.case bom ws b4(1) andthen_simps
    using f4(1) by simp
qed

section \<open>Properties: printing and parsing\<close>


lemma demo_number_text: "number_text demo_json_env (Item 8 None (-7) (-7) (Some ''n'') []) = ''-7''"
  by code_simp

lemma demo_item_texts: "\<exists>s. json_text demo_json_env True 0 demo_item = Some s \<and> length s + 2 \<le> 2147483647"
  by (simp add: demo_item_def demo_number_text quote_text_def quote_char_def short_escape_def tabs_def)

lemma demo_item_wf2: "wf_json demo_json_env (Suc (Suc (Suc n))) demo_item"
  by (simp add: demo_item_def scalar_ok_def container_ok_def key_ok_def cstring_def demo_json_env_def saturate_def)

lemma demo_item_wf: "wf_json demo_json_env 1000 demo_item"
  using demo_item_wf2[of 997] by (simp del: wf_json.simps)

lemma demo_item_numbers: "numbers_ok demo_json_env demo_item"
proof -
  have "strtod demo_json_env ''-7'' = (- 7, 2)" by code_simp
  then show ?thesis by (simp add: demo_item_def number_ok_def demo_number_text number_char_def is_digit_def)
qed


end
