(* ===== verification/Config_Laws.thy ===== *)
theory Config_Laws
  imports Config Cjson_Roundtrip
begin

text \<open>
  The configuration file: what is written is read back, and where it is not. The lemmas follow
  the parser: lines, trimming, settings, quoted entries, then the tables built from them.
\<close>

section \<open>Lines\<close>

lemma next_fgets_line:
  assumes "NLC \<notin> set l" "length l < 511"
  shows "next_fgets (l @ NLC # t) = l @ [NLC]"
proof -
  have "takeWhile (\<lambda>c. c \<noteq> NLC) (l @ NLC # t) = l" using assms(1) by (rule takeWhile_stop)
  then show ?thesis using assms(2) by (simp add: next_fgets_def Let_def)
qed

definition storable_line :: "string \<Rightarrow> bool" where
  "storable_line l \<longleftrightarrow> NLC \<notin> set l \<and> NUL \<notin> set l \<and> length l < 511"

lemma fgets_lines_text:
  "\<forall>l \<in> set ls. storable_line l \<Longrightarrow> fgets_lines (lines_text ls) = map (\<lambda>l. l @ [NLC]) ls"
proof (induction ls)
  case Nil
  then show ?case by (simp add: lines_text_def fgets_lines.simps)
next
  case (Cons l ls)
  have t: "lines_text (l # ls) = l @ NLC # lines_text ls" by (simp add: lines_text_def)
  have "next_fgets (l @ NLC # lines_text ls) = l @ [NLC]"
    using Cons.prems by (intro next_fgets_line) (auto simp: storable_line_def)
  then show ?case using Cons unfolding t by (simp add: fgets_lines.simps[of "l @ NLC # lines_text ls"])
qed

lemma load_lines_append:
  "load_lines env i (xs @ ys) s = load_lines env (i + length xs) ys (load_lines env i xs s)"
  by (induction xs arbitrary: i s) simp_all

lemma cstr_line: "storable_line l \<Longrightarrow> cstr (l @ [NLC]) = l @ [NLC]"
  by (auto simp: cstr_def storable_line_def takeWhile_eq_all_conv)

section \<open>Trimming\<close>

definition visible :: "char \<Rightarrow> bool" where
  "visible c \<longleftrightarrow> 32 < (of_char c :: nat) \<and> c \<noteq> QUOT"

abbreviation (input) ws :: "char \<Rightarrow> bool" where
  "ws c \<equiv> blank c \<or> c = CHR 0x0D \<or> c = NLC"

definition tight :: "string \<Rightarrow> bool" where
  "tight s \<longleftrightarrow> s = [] \<or> \<not> blank (hd s) \<and> \<not> ws (last s)"

lemma trim_tight: "tight s \<Longrightarrow> trim_ws s = s"
proof (cases "s = []")
  case False
  assume t: "tight s"
  have r: "rev s = last s # rev (butlast s)" using False by (metis append_butlast_last_id rev.simps(2) rev_rev_ident rev_swap)
  have "dropWhile ws (rev s) = rev s" unfolding r using t False by (simp add: tight_def)
  then have "trim_ws s = dropWhile blank s" by (simp add: trim_ws_def)
  then show ?thesis using t False by (cases s) (auto simp: tight_def)
qed (simp add: trim_ws_def)

lemma trim_line: "trim_ws (s @ [NLC]) = trim_ws s"
  by (simp add: trim_ws_def)

lemma trim_space: "trim_ws (CHR '' '' # s) = trim_ws s"
proof (cases "dropWhile ws (rev s) = []")
  case True
  then have "\<forall>c \<in> set s. ws c" by (simp add: dropWhile_eq_Nil_conv)
  then have h: "dropWhile ws (rev s @ '' '') = []" by (simp add: dropWhile_eq_Nil_conv) (simp add: blank_def)
  show ?thesis unfolding trim_ws_def rev.simps(2) h True by simp
next
  case False
  then have "dropWhile ws (rev s @ [CHR '' '']) = dropWhile ws (rev s) @ [CHR '' '']"
    by (auto simp: dropWhile_eq_Nil_conv intro!: dropWhile_append1)
  then show ?thesis by (simp add: trim_ws_def) (simp add: blank_def)
qed

lemma visible_not:
  "visible c \<Longrightarrow> \<not> blank c" "visible c \<Longrightarrow> \<not> ws c" "visible c \<Longrightarrow> c \<noteq> NLC" "visible c \<Longrightarrow> c \<noteq> CHR 0x0D" "visible c \<Longrightarrow> c \<noteq> NUL"
  "visible c \<Longrightarrow> c \<noteq> CHR '' ''" "visible c \<Longrightarrow> c \<noteq> QUOT"
  by (auto simp: visible_def blank_def)

lemma tight_visible: "list_all visible s \<Longrightarrow> tight s"
  unfolding tight_def list_all_iff using hd_in_set[of s] last_in_set[of s] visible_not(1,2) by metis

lemma tight_append: "s \<noteq> [] \<Longrightarrow> t \<noteq> [] \<Longrightarrow> \<not> blank (hd s) \<Longrightarrow> \<not> ws (last t) \<Longrightarrow> tight (s @ u @ t)"
  by (simp add: tight_def)

section \<open>Parsing a line\<close>

lemma parse_comment:
  assumes "l \<noteq> []" "hd l = CHR ''#''"
  shows "parse_cfg_line (l @ [NLC]) = Ignored"
proof -
  obtain t where l: "l = CHR ''#'' # t" using assms by (cases l) auto
  have "\<not> ws CHR ''#''" by (simp add: blank_def)
  then have "dropWhile ws (rev t @ [CHR ''#'']) = dropWhile ws (rev t) @ [CHR ''#'']"
    by (induction t rule: rev_induct) auto
  then have "trim_ws l = CHR ''#'' # rev (dropWhile ws (rev t))"
    unfolding l trim_ws_def rev.simps(2) by (simp add: blank_def)
  then show ?thesis by (simp add: parse_cfg_line_def trim_line)
qed

lemma parse_setting:
  assumes "tight (k @ CHR ''='' # v)" "k \<noteq> []" "hd k \<noteq> CHR ''#''" "hd k \<noteq> QUOT" "CHR ''='' \<notin> set k"
  shows "parse_cfg_line ((k @ CHR ''='' # v) @ [NLC]) = Setting (trim_ws k) (trim_ws v)"
proof -
  have "trim_ws ((k @ CHR ''='' # v) @ [NLC]) = k @ CHR ''='' # v"
    unfolding trim_line by (rule trim_tight[OF assms(1)])
  then show ?thesis using assms(2-5)
    by (simp add: parse_cfg_line_def Let_def strchr_stop takeWhile_stop)
qed

lemma unquote_id: "s = [] \<or> hd s \<noteq> QUOT \<Longrightarrow> unquote s = s"
  by (auto simp: unquote_def)

lemma parse_entry:
  assumes "QUOT \<notin> set host" "QUOT \<notin> set path" "CHR ''/'' \<notin> set host"
    "tight v" "v \<noteq> []" "hd v \<noteq> QUOT" "length v < 512"
  shows "parse_cfg_line (([QUOT] @ host @ ''/'' @ path @ [QUOT] @ '' = '' @ v) @ [NLC]) = entry_line host path v"
proof -
  let ?line = "QUOT # (host @ CHR ''/'' # path) @ QUOT # CHR '' '' # CHR ''='' # CHR '' '' # v"
  have l: "[QUOT] @ host @ ''/'' @ path @ [QUOT] @ '' = '' @ v = ?line" by simp
  have "tight ?line" using assms(4,5) by (simp add: tight_def) (simp add: blank_def)
  then have t: "trim_ws (?line @ [NLC]) = ?line" unfolding trim_line by (rule trim_tight)
  have k: "strchr ((host @ CHR ''/'' # path) @ QUOT # u) QUOT = Some (QUOT # u)"
    "takeWhile (\<lambda>c. c \<noteq> QUOT) ((host @ CHR ''/'' # path) @ QUOT # u) = host @ CHR ''/'' # path" for u
    using assms(1,2) by (intro strchr_stop takeWhile_stop; simp)+
  have e: "strchr (CHR '' '' # CHR ''='' # w) CHR ''='' = Some (CHR ''='' # w)" for w by (simp add: strchr_def)
  have v: "unquote (trim_ws (buf_copy 512 (trim_ws (CHR '' '' # v)))) = v"
    using assms(4-7) by (simp add: trim_space trim_tight unquote_id)
  show ?thesis unfolding l parse_cfg_line_def t Let_def
    by (simp only: list.sel list.simps if_False k e option.case v) (simp add: strchr_stop takeWhile_stop assms(3))
qed

lemma visible_no_space: "list_all visible s \<Longrightarrow> CHR '' '' \<notin> set s"
  using visible_not(6) by (fastforce simp: list_all_iff)

lemma visible_no_quot: "list_all visible s \<Longrightarrow> QUOT \<notin> set s"
  using visible_not(7) by (fastforce simp: list_all_iff)

lemma visible_storable: "list_all visible s \<Longrightarrow> NLC \<notin> set s \<and> NUL \<notin> set s"
  using visible_not(3,5) by (fastforce simp: list_all_iff)

lemma not_strneq_space:
  assumes "CHR '' '' \<notin> set t" "CHR '' '' \<in> set (take n p)"
  shows "\<not> strneq t p n"
  using assms unfolding strneq_def by (metis in_set_takeD)

lemma entry_url:
  assumes "list_all visible t" "is_url t" "length t < 512"
  shows "entry_line host path t = RouteLine ProxyRoute host path t"
    and "entry_line host path (''stream '' @ t) = RouteLine StreamRoute host path t"
proof -
  have ne: "t \<noteq> []" using assms(2) by (auto simp: is_url_def strneq_def)
  then have h: "hd t \<noteq> QUOT" using visible_no_quot[OF assms(1)] hd_in_set by metis
  have tr: "trim_ws (unquote (trim_ws (buf_copy 512 t))) = t"
    using assms h by (simp add: trim_tight tight_visible unquote_id)
  have "\<not> strneq t ''stream '' 7" "\<not> strneq t ''redirect '' 9"
    using not_strneq_space[OF visible_no_space[OF assms(1)], of 7 "''stream ''"]
      not_strneq_space[OF visible_no_space[OF assms(1)], of 9 "''redirect ''"] by simp_all
  with tr assms(2) show "entry_line host path t = RouteLine ProxyRoute host path t"
    by (simp add: entry_line_def)
  have "strneq (''stream '' @ t) ''stream '' 7" "drop 7 (''stream '' @ t) = t" by (simp_all add: strneq_def)
  with tr assms(2) show "entry_line host path (''stream '' @ t) = RouteLine StreamRoute host path t"
    unfolding entry_line_def by (simp only: if_True prod.case Let_def)
qed

definition mode_word :: "string \<Rightarrow> bool" where
  "mode_word m \<longleftrightarrow> m = MODE_PRODUCTION \<or> m = MODE_TEST \<or> m = MODE_MAINTENANCE"

lemmas entry_eval = entry_line_def strneq_def buf_copy_def trim_ws_def unquote_def is_url_def no_cache_word_def
  strcaseeq_def lower_char_def strchr_def blank_def

lemma entry_no_cache: "entry_line host path ''no-cache'' = OverrideLine host path [] True"
  by (simp add: entry_eval)

lemma entry_mode:
  assumes "mode_word m"
  shows "entry_line host path (m @ (if nc then '' no-cache'' else [])) = OverrideLine host path m nc"
  using assms unfolding mode_word_def by (elim disjE; cases nc) (simp_all add: entry_eval)

section \<open>What can be stored\<close>

definition storable_key :: "string \<Rightarrow> string \<Rightarrow> bool" where
  "storable_key host path \<longleftrightarrow> list_all visible host \<and> CHR ''/'' \<notin> set host \<and> length host < 128 \<and>
     list_all visible path \<and> path \<noteq> [] \<and> hd path \<noteq> CHR ''/'' \<and> length path < 128"

definition storable_override :: "ModeOverride \<Rightarrow> bool" where
  "storable_override ov \<longleftrightarrow> storable_key (ov_host ov) (ov_path ov) \<and>
     (mode_word (ov_mode ov) \<or> ov_mode ov = [] \<and> ov_no_cache ov)"

definition storable_entry :: "ProxyRouteEntry \<Rightarrow> bool" where
  "storable_entry e \<longleftrightarrow> storable_key (pr_host e) (pr_path e) \<and> list_all visible (pr_target_url e) \<and>
     is_url (pr_target_url e) \<and> length (pr_target_url e) < 256 \<and>
     length (pr_host e) + length (pr_path e) + length (pr_target_url e) \<le> 480"

definition override_key :: "ModeOverride \<Rightarrow> string \<times> string" where
  "override_key ov = (ov_host ov, ov_path ov)"

definition storable :: "config_state \<Rightarrow> bool" where
  "storable c \<longleftrightarrow> cached_mode c \<in> {0, 1} \<and> 0 \<le> config_port c \<and> config_port c \<le> 65535 \<and>
     list_all visible (config_bind c) \<and> length (config_bind c) < 64 \<and> mode_word (global_mode c) \<and>
     0 \<le> cache_ttl_config c \<and> cache_ttl_config c < 2 ^ 31 \<and>
     length (overrides c) = MAX_OVERRIDES \<and> override_count c < MAX_OVERRIDES \<and>
     (\<forall>ov \<in> set (take (override_count c) (overrides c)). storable_override ov) \<and>
     distinct (map override_key (take (override_count c) (overrides c))) \<and>
     (\<forall>e \<in> set (proxy_routes c) \<union> set (stream_routes c). storable_entry e) \<and>
     length (proxy_routes c) \<le> MAX_OVERRIDES \<and> length (stream_routes c) \<le> MAX_OVERRIDES \<and>
     length (maintenance_ips c) \<le> 16 \<and> (\<forall>ip \<in> set (maintenance_ips c). list_all visible ip \<and> CHR 0x5C \<notin> set ip \<and> length ip < 24)"

section \<open>Reading a list of lines\<close>

definition reads :: "'d config_env \<Rightarrow> string list \<Rightarrow> config_state \<Rightarrow> config_state \<Rightarrow> bool" where
  "reads env ls c c' \<longleftrightarrow> (\<forall>i rs. fst (load_lines env i (map (\<lambda>l. l @ [NLC]) ls) (c, rs)) = c')"

lemma reads_Nil: "reads env [] c c"
  by (simp add: reads_def)

lemma reads_append: "reads env xs c c1 \<Longrightarrow> reads env ys c1 c2 \<Longrightarrow> reads env (xs @ ys) c c2"
  unfolding reads_def map_append load_lines_append by (metis prod.collapse)

lemma reads_line:
  assumes "\<And>i rs. fst (load_line env i (l @ [NLC]) (c, rs)) = c'"
  shows "reads env [l] c c'"
  using assms by (simp add: reads_def)

lemma reads_comments:
  "\<forall>l \<in> set ls. storable_line l \<and> l \<noteq> [] \<and> hd l = CHR ''#'' \<Longrightarrow> reads env ls c c"
proof (induction ls)
  case (Cons l ls)
  then have "reads env [l] c c"
    by (intro reads_line) (simp add: load_line_def cstr_line parse_comment)
  with Cons show ?case using reads_append[of env "[l]" c c ls c] by simp
qed (rule reads_Nil)

lemma guide_comments_ok: "\<forall>l \<in> set guide_comments. storable_line l \<and> l \<noteq> [] \<and> hd l = CHR ''#''"
  by (simp add: guide_comments_def storable_line_def)

text \<open>The effect of a parsed line.\<close>

lemma reads_parsed:
  assumes "storable_line l"
  shows "parse_cfg_line (l @ [NLC]) = OverrideLine h p m nc \<Longrightarrow> override_count c < MAX_OVERRIDES
      \<Longrightarrow> reads env [l] c (load_override h p m nc c)"
    and "parse_cfg_line (l @ [NLC]) = RouteLine ProxyRoute h p t \<Longrightarrow> override_count c < MAX_OVERRIDES
      \<Longrightarrow> reads env [l] c (c\<lparr>proxy_routes := push_entry (new_entry h p t) (proxy_routes c)\<rparr>)"
    and "parse_cfg_line (l @ [NLC]) = RouteLine StreamRoute h p t \<Longrightarrow> override_count c < MAX_OVERRIDES
      \<Longrightarrow> reads env [l] c (c\<lparr>stream_routes := push_entry (new_entry h p t) (stream_routes c)\<rparr>)"
    and "parse_cfg_line (l @ [NLC]) = Setting k v \<Longrightarrow> reads env [l] c (load_setting env k v c)"
  by (rule reads_line; simp add: load_line_def cstr_line[OF assms])+

lemma reads_setting:
  assumes "storable_line (k @ CHR ''='' # v)" "tight (k @ CHR ''='' # v)" "k \<noteq> []" "hd k \<noteq> CHR ''#''"
    "hd k \<noteq> QUOT" "CHR ''='' \<notin> set k" "load_setting env (trim_ws k) (trim_ws v) c = c'"
  shows "reads env [k @ CHR ''='' # v] c c'"
  unfolding assms(7)[symmetric] by (rule reads_parsed(4)[OF assms(1) parse_setting[OF assms(2-6)]])

section \<open>The tables\<close>

lemma config_key_storable:
  "storable_key host path \<Longrightarrow> config_key host path = [QUOT] @ host @ ''/'' @ path @ [QUOT]"
  by (cases path) (simp_all add: config_key_def storable_key_def)

lemma parse_entry_line:
  assumes "storable_key host path" "tight v" "v \<noteq> []" "hd v \<noteq> QUOT" "length v < 512"
  shows "parse_cfg_line ((config_key host path @ '' = '' @ v) @ [NLC]) = entry_line host path v"
  using parse_entry[of host path v] assms visible_no_quot unfolding config_key_storable[OF assms(1)]
  by (simp add: storable_key_def)

lemma entry_line_storable:
  assumes "storable_key host path" "NLC \<notin> set v" "NUL \<notin> set v" "length host + length path + length v < 500"
  shows "storable_line (config_key host path @ '' = '' @ v)"
  using assms visible_storable[of host] visible_storable[of path]
  unfolding config_key_storable[OF assms(1)] by (auto simp: storable_line_def storable_key_def)

definition override_value :: "ModeOverride \<Rightarrow> string" where
  "override_value ov = (if ov_mode ov \<noteq> [] then ov_mode ov @ (if ov_no_cache ov then '' no-cache'' else []) else ''no-cache'')"

lemma override_value_ok:
  assumes "storable_override ov"
  shows "tight (override_value ov)" "override_value ov \<noteq> []" "hd (override_value ov) \<noteq> QUOT"
    "length (override_value ov) < 30" "NLC \<notin> set (override_value ov)" "NUL \<notin> set (override_value ov)"
    "entry_line host path (override_value ov) = OverrideLine host path (ov_mode ov) (ov_no_cache ov)"
  using assms entry_mode[of "ov_mode ov" host path "ov_no_cache ov"] entry_no_cache[of host path]
  by (auto simp: storable_override_def override_value_def mode_word_def tight_def blank_def)

lemma override_lines_storable:
  "storable_override ov \<Longrightarrow> override_lines ov = [config_key (ov_host ov) (ov_path ov) @ '' = '' @ override_value ov]"
  by (auto simp: storable_override_def override_lines_def override_value_def mode_word_def)

lemma reads_override:
  assumes "storable_override ov" "length (overrides c) = MAX_OVERRIDES" "override_count c < MAX_OVERRIDES"
    "override_key ov \<notin> override_key ` set (take (override_count c) (overrides c))"
  shows "reads env (override_lines ov) c
    (c\<lparr>overrides := (overrides c)[override_count c := ov], override_count := override_count c + 1\<rparr>)"
proof -
  let ?v = "override_value ov" and ?h = "ov_host ov" and ?p = "ov_path ov"
  note v = override_value_ok[OF assms(1)]
  have k: "storable_key ?h ?p" using assms(1) by (simp add: storable_override_def)
  have st: "storable_line (config_key ?h ?p @ '' = '' @ ?v)"
    using k v(4,5,6) by (intro entry_line_storable) (auto simp: storable_key_def)
  have pl: "parse_cfg_line ((config_key ?h ?p @ '' = '' @ ?v) @ [NLC]) = OverrideLine ?h ?p (ov_mode ov) (ov_no_cache ov)"
    using parse_entry_line[OF k v(1,2,3)] v(4,7) by simp
  have "find_override ?h ?p c = None"
    using assms(4) by (auto simp: find_override_def first_idx_None_iff override_named_def override_key_def image_iff)
  moreover have "buf_copy 128 ?h = ?h" "buf_copy 128 ?p = ?p" "buf_copy 32 (ov_mode ov) = ov_mode ov"
    using assms(1) by (auto simp: storable_override_def storable_key_def mode_word_def)
  ultimately have "load_override ?h ?p (ov_mode ov) (ov_no_cache ov) c =
      c\<lparr>overrides := (overrides c)[override_count c := ov], override_count := override_count c + 1\<rparr>"
    by (cases ov) (simp add: load_override_def Let_def)
  then show ?thesis unfolding override_lines_storable[OF assms(1)]
    using reads_parsed(1)[OF st pl assms(3)] by simp
qed

lemma reads_overrides:
  assumes "\<forall>ov \<in> set ovs. storable_override ov" "length (overrides c) = MAX_OVERRIDES"
    "override_count c + length ovs \<le> MAX_OVERRIDES" "distinct (map override_key ovs)"
    "override_key ` set ovs \<inter> override_key ` set (take (override_count c) (overrides c)) = {}"
  shows "\<exists>ol. reads env (concat (map override_lines ovs)) c
      (c\<lparr>overrides := ol, override_count := override_count c + length ovs\<rparr>) \<and> length ol = MAX_OVERRIDES \<and>
      take (override_count c + length ovs) ol = take (override_count c) (overrides c) @ ovs"
  using assms
proof (induction ovs arbitrary: c)
  case Nil
  then show ?case by (intro exI[of _ "overrides c"]) (simp add: reads_Nil)
next
  case (Cons ov ovs)
  let ?n = "override_count c"
  let ?c = "c\<lparr>overrides := (overrides c)[?n := ov], override_count := ?n + 1\<rparr>"
  have 1: "reads env (override_lines ov) c ?c" using Cons.prems by (intro reads_override) auto
  have t: "take (Suc ?n) ((overrides c)[?n := ov]) = take ?n (overrides c) @ [ov]"
    using Cons.prems(2,3) by (simp add: take_Suc_conv_app_nth)
  have "\<exists>ol. reads env (concat (map override_lines ovs)) ?c
      (?c\<lparr>overrides := ol, override_count := override_count ?c + length ovs\<rparr>) \<and> length ol = MAX_OVERRIDES \<and>
      take (override_count ?c + length ovs) ol = take (override_count ?c) (overrides ?c) @ ovs"
    by (rule Cons.IH) (use Cons.prems t in \<open>auto simp: image_iff\<close>)
  then obtain ol where ol: "reads env (concat (map override_lines ovs)) ?c
      (c\<lparr>overrides := ol, override_count := ?n + 1 + length ovs\<rparr>)" "length ol = MAX_OVERRIDES"
      "take (?n + 1 + length ovs) ol = take ?n (overrides c) @ [ov] @ ovs" using t by auto
  with reads_append[OF 1 ol(1)] show ?case by (intro exI[of _ ol]) simp
qed

lemma route_line_ok:
  assumes "storable_entry e" "pre = [] \<and> kind = ProxyRoute \<or> pre = ''stream '' \<and> kind = StreamRoute"
  shows "storable_line (config_key (pr_host e) (pr_path e) @ '' = '' @ pre @ pr_target_url e)"
    and "parse_cfg_line ((config_key (pr_host e) (pr_path e) @ '' = '' @ pre @ pr_target_url e) @ [NLC]) =
           RouteLine kind (pr_host e) (pr_path e) (pr_target_url e)"
    and "new_entry (pr_host e) (pr_path e) (pr_target_url e) = e"
proof -
  let ?v = "pr_target_url e" and ?h = "pr_host e" and ?p = "pr_path e"
  have k: "storable_key ?h ?p" and v: "list_all visible ?v" "is_url ?v" "length ?v < 256"
    "length ?h + length ?p + length ?v \<le> 480" using assms(1) by (simp_all add: storable_entry_def)
  have ne: "?v \<noteq> []" using v(2) by (auto simp: is_url_def strneq_def)
  have hq: "hd ?v \<noteq> QUOT" using visible_no_quot[OF v(1)] hd_in_set[OF ne] by metis
  have tv: "tight ?v" by (rule tight_visible[OF v(1)])
  have pv: "tight (pre @ ?v)" "pre @ ?v \<noteq> []" "hd (pre @ ?v) \<noteq> QUOT" "length (pre @ ?v) < 512" "length (pre @ ?v) \<le> length ?v + 7"
    "NLC \<notin> set (pre @ ?v)" "NUL \<notin> set (pre @ ?v)"
    using assms(2) tv ne hq v(3) visible_storable[OF v(1)] by (auto simp: tight_def blank_def)
  show "storable_line (config_key ?h ?p @ '' = '' @ pre @ ?v)"
    using pv(5,6,7) v(4) by (intro entry_line_storable[OF k]) linarith+
  have "length ?v < 512" using v(3) by simp
  from entry_url[OF v(1,2) this, of ?h ?p] assms(2) have "entry_line ?h ?p (pre @ ?v) = RouteLine kind ?h ?p ?v"
    by (elim disjE conjE) simp_all
  then show "parse_cfg_line ((config_key ?h ?p @ '' = '' @ pre @ ?v) @ [NLC]) = RouteLine kind ?h ?p ?v"
    using parse_entry_line[OF k pv(1,2,3,4)] by (simp only:)
  show "new_entry ?h ?p ?v = e" using k v(3) by (cases e) (simp add: new_entry_def storable_key_def)
qed

lemma reads_proxies:
  assumes "\<forall>e \<in> set es. storable_entry e" "override_count c < MAX_OVERRIDES"
    "length (proxy_routes c) + length es \<le> MAX_OVERRIDES"
  shows "reads env (map (\<lambda>r. config_key (pr_host r) (pr_path r) @ '' = '' @ pr_target_url r) es) c
    (c\<lparr>proxy_routes := proxy_routes c @ es\<rparr>)"
  using assms
proof (induction es arbitrary: c)
  case (Cons e es)
  let ?l = "config_key (pr_host e) (pr_path e) @ '' = '' @ pr_target_url e"
  note r = route_line_ok[of e "[]" ProxyRoute, simplified append_Nil]
  have "reads env [?l] c (c\<lparr>proxy_routes := proxy_routes c @ [e]\<rparr>)"
    using reads_parsed(2)[OF r(1,2), of c env] r(3) Cons.prems by (simp add: push_entry_def)
  from reads_append[OF this Cons.IH[of "c\<lparr>proxy_routes := proxy_routes c @ [e]\<rparr>"]] Cons.prems show ?case by simp
qed (simp add: reads_Nil)

lemma reads_streams:
  assumes "\<forall>e \<in> set es. storable_entry e" "override_count c < MAX_OVERRIDES"
    "length (stream_routes c) + length es \<le> MAX_OVERRIDES"
  shows "reads env (map (\<lambda>r. config_key (pr_host r) (pr_path r) @ '' = stream '' @ pr_target_url r) es) c
    (c\<lparr>stream_routes := stream_routes c @ es\<rparr>)"
  using assms
proof (induction es arbitrary: c)
  case (Cons e es)
  let ?l = "config_key (pr_host e) (pr_path e) @ '' = stream '' @ pr_target_url e"
  have l: "config_key (pr_host e) (pr_path e) @ '' = '' @ ''stream '' @ pr_target_url e = ?l" by simp
  note r = route_line_ok[of e "''stream ''" StreamRoute, unfolded l]
  have "reads env [?l] c (c\<lparr>stream_routes := stream_routes c @ [e]\<rparr>)"
    using reads_parsed(3)[OF r(1,2), of c env] r(3) Cons.prems by (simp add: push_entry_def)
  from reads_append[OF this Cons.IH[of "c\<lparr>stream_routes := stream_routes c @ [e]\<rparr>"]] Cons.prems show ?case by simp
qed (simp add: reads_Nil)

section \<open>The settings\<close>

lemma visible_dec_nat: "list_all visible (dec_nat n)"
  using dec_nat_digits[of n] by (auto simp: list_all_iff is_digit_def visible_def Let_def)

text \<open>A setting \<open>key=value\<close> with a visible value.\<close>

lemma reads_plain_setting:
  assumes "list_all visible k" "k \<noteq> []" "hd k \<noteq> CHR ''#''" "CHR ''='' \<notin> set k" "length k < 100"
    "list_all visible v" "v \<noteq> []" "length v < 400"
  shows "reads env [k @ CHR ''='' # v] c (load_setting env k v c)"
proof (rule reads_setting)
  have q: "hd k \<noteq> QUOT" using visible_no_quot[OF assms(1)] hd_in_set[OF assms(2)] by metis
  then show "hd k \<noteq> QUOT" .
  show "storable_line (k @ CHR ''='' # v)"
    using visible_storable[OF assms(1)] visible_storable[OF assms(6)] assms(5,8) by (auto simp: storable_line_def)
  have "\<not> blank (hd k)" "\<not> ws (last v)"
    using tight_visible[OF assms(1)] tight_visible[OF assms(6)] assms(2,7) by (auto simp: tight_def)
  then show "tight (k @ CHR ''='' # v)" using assms(2,7) by (auto simp: tight_def)
  show "load_setting env (trim_ws k) (trim_ws v) c = load_setting env k v c"
    by (simp add: trim_tight tight_visible assms(1,6))
qed (use assms in auto)

lemmas setting_eval = load_setting_def strcaseeq_def lower_char_def

lemma reads_mode:
  "reads env [if m = (1::int) then ''mode=production'' else ''mode=test''] c (c\<lparr>cached_mode := (if m = 1 then 1 else 0)\<rparr>)"
proof (cases "m = (1::int)")
  case True
  have "reads env [''mode'' @ CHR ''='' # ''production''] c (load_setting env ''mode'' ''production'' c)"
    by (rule reads_plain_setting) (simp_all add: visible_def)
  with True show ?thesis by (simp add: setting_eval)
next
  case False
  have "reads env [''mode'' @ CHR ''='' # ''test''] c (load_setting env ''mode'' ''test'' c)"
    by (rule reads_plain_setting) (simp_all add: visible_def)
  with False show ?thesis by (simp add: setting_eval)
qed

lemma reads_port:
  assumes "0 < p" "p \<le> 65535"
  shows "reads env [''port='' @ dec_int p] c (c\<lparr>config_port := p\<rparr>)"
proof -
  have d: "dec_int p = dec_nat (nat p)" using assms by (simp add: dec_int_def)
  have len: "length (dec_nat (nat p)) < 400" using length_dec_nat[of "nat p" 5] assms by fastforce
  have "reads env [''port'' @ CHR ''='' # dec_nat (nat p)] c (load_setting env ''port'' (dec_nat (nat p)) c)"
    by (rule reads_plain_setting) (use len in \<open>simp_all add: visible_def visible_dec_nat\<close>)
  moreover have "atoi (dec_nat (nat p)) = p" using atoi_dec_nat[of "nat p" "[]"] assms by simp
  ultimately show ?thesis using assms by (simp add: d setting_eval)
qed

lemma reads_ttl:
  assumes "0 \<le> t" "t < 2 ^ 31"
  shows "reads env [''cache_ttl='' @ dec_int t] c (c\<lparr>cache_ttl_config := t\<rparr>)"
proof -
  have d: "dec_int t = dec_nat (nat t)" using assms by (simp add: dec_int_def)
  have len: "length (dec_nat (nat t)) < 400" using length_dec_nat[of "nat t" 10] assms by fastforce
  have "reads env [''cache_ttl'' @ CHR ''='' # dec_nat (nat t)] c (load_setting env ''cache_ttl'' (dec_nat (nat t)) c)"
    by (rule reads_plain_setting) (use len in \<open>simp_all add: visible_def visible_dec_nat\<close>)
  moreover have "atoi (dec_nat (nat t)) = t" using atoi_dec_nat[of "nat t" "[]"] assms by simp
  ultimately show ?thesis using assms by (simp add: d setting_eval)
qed

lemma reads_bind:
  assumes "list_all visible b" "b \<noteq> []" "length b < 64"
  shows "reads env [''bind='' @ b] c (c\<lparr>config_bind := b\<rparr>)"
proof -
  have "reads env [''bind'' @ CHR ''='' # b] c (load_setting env ''bind'' b c)"
    by (rule reads_plain_setting) (use assms in \<open>simp_all add: visible_def\<close>)
  then show ?thesis using assms(3) by (simp add: setting_eval)
qed

lemma reads_global_mode:
  assumes "mode_word m"
  shows "reads env [''global_mode='' @ m] c (c\<lparr>global_mode := m\<rparr>)"
proof -
  have "list_all visible m" "m \<noteq> []" "length m < 16" using assms by (auto simp: mode_word_def visible_def)
  moreover from this have "reads env [''global_mode'' @ CHR ''='' # m] c (load_setting env ''global_mode'' m c)"
    by (intro reads_plain_setting) (simp_all add: visible_def)
  ultimately show ?thesis by (simp add: setting_eval)
qed

lemma length_concat_bound: "\<forall>x \<in> set xs. length (f x) \<le> b \<Longrightarrow> length (concat (map f xs)) \<le> b * length xs"
  by (induction xs) auto

lemma ips_text_ok:
  assumes "length ips \<le> 16" "\<forall>ip \<in> set ips. list_all visible ip \<and> length ip < 24"
  shows "length (ips_text ips) < 430" "NLC \<notin> set (ips_text ips)" "NUL \<notin> set (ips_text ips)"
proof -
  define f where "f = (\<lambda>i. (if i > 0 then '','' else []) @ [QUOT] @ ips ! i @ [QUOT])"
  have t: "ips_text ips = ''['' @ concat (map f [0..<length ips]) @ '']''" by (simp add: ips_text_def f_def)
  have "length (ips ! i) < 24" if "i < length ips" for i using that assms(2) by simp
  then have "length (f i) \<le> 26" if "i < length ips" for i using that by (fastforce simp: f_def)
  then have "length (concat (map f [0..<length ips])) \<le> 26 * length [0..<length ips]"
    by (intro length_concat_bound) simp
  then show "length (ips_text ips) < 430" using assms(1) by (simp add: t)
  have "NLC \<notin> set (ips ! i) \<and> NUL \<notin> set (ips ! i)" if "i < length ips" for i
    using that assms(2) visible_storable nth_mem by blast
  then show "NLC \<notin> set (ips_text ips)" "NUL \<notin> set (ips_text ips)"
    by (auto simp: t f_def split: if_splits)
qed

text \<open>The parser returns on every text, and reads the saved list of addresses back.\<close>

lemma parse_ips_returns: "\<exists>r. cJSON_Parse E (Some val) None = Inr r"
proof -
  obtain item endp err where "cJSON_ParseWithLengthOpts E (Some (val @ [NUL])) (length val + 1) False = Inr (item, Some endp, err)"
    using parse_outcome[of "length val + 1" "val @ [NUL]" E False] by auto
  then show ?thesis by (simp add: cJSON_Parse_def cJSON_ParseWithOpts_def)
qed

definition address :: "'d json_env \<Rightarrow> string \<Rightarrow> 'd cJSON" where
  "address E ip = Item cJSON_String (Some ip) 0 (d_of_int E 0) None []"

lemma quote_text_plain:
  assumes "list_all visible ip" "CHR 0x5C \<notin> set ip"
  shows "quote_text (Some ip) = [QUOT] @ ip @ [QUOT]"
proof -
  have "quote_char x = [x]" if x: "x \<in> set ip" for x
  proof -
    have "visible x" using assms(1) x by (simp add: list_all_iff)
    then have "31 < (of_char x :: nat)" "x \<noteq> CHR 0x22" unfolding visible_def by linarith+
    moreover have "x \<noteq> CHR 0x5C" using assms(2) x by blast
    ultimately show ?thesis by (simp only: quote_char_def simp_thms if_True)
  qed
  then have "map quote_char ip = map (\<lambda>x. [x]) ip" by simp
  then have "concat (map quote_char ip) = ip" by (simp only: concat_map_singleton) simp
  then show ?thesis by (simp add: quote_text_def)
qed

abbreviation (input) quoted :: "string \<Rightarrow> string" where
  "quoted ip \<equiv> [QUOT] @ ip @ [QUOT]"

lemma ips_text_Cons: "ips_text (x # xs) = ''['' @ quoted x @ concat (map (\<lambda>ip. '','' @ quoted ip) xs) @ '']''"
proof -
  have up: "[0..<length (x # xs)] = 0 # map Suc [0..<length xs]" unfolding map_Suc_upt by (simp add: upt_conv_Cons del: upt_Suc)
  have "map (\<lambda>i. '','' @ quoted (xs ! i)) [0..<length xs] = map (\<lambda>ip. '','' @ quoted ip) xs"
    by (rule nth_equalityI) simp_all
  then show ?thesis unfolding ips_text_def up by (simp add: o_def)
qed

lemma addresses_elements:
  "\<forall>ip \<in> set (x # xs). list_all visible ip \<and> CHR 0x5C \<notin> set ip \<Longrightarrow>
    elements_text E False d (map (address E) (x # xs)) = Some (quoted x @ concat (map (\<lambda>ip. '','' @ quoted ip) xs))"
proof (induction xs arbitrary: x)
  case Nil
  then show ?case by (simp add: address_def quote_text_plain)
next
  case (Cons y ys)
  have "elements_text E False d (map (address E) (y # ys)) = Some (quoted y @ concat (map (\<lambda>ip. '','' @ quoted ip) ys))"
    by (rule Cons.IH) (use Cons.prems in simp)
  moreover have "json_text E False d (address E x) = Some (quoted x)" using Cons.prems by (simp add: address_def quote_text_plain)
  ultimately show ?case by simp
qed

lemma addresses_text:
  assumes "\<forall>ip \<in> set ips. list_all visible ip \<and> CHR 0x5C \<notin> set ip" "ips \<noteq> []"
  shows "json_text E False 0 (Item cJSON_Array None 0 (d_of_int E 0) None (map (address E) ips)) = Some (ips_text ips)"
proof -
  obtain x xs where "ips = x # xs" using assms(2) by (cases ips) auto
  then show ?thesis using addresses_elements[of x xs E 1] assms(1) by (simp add: ips_text_Cons)
qed

lemma parse_ips_text:
  assumes "\<forall>k n. allocate E k n" "ips \<noteq> []" "\<forall>ip \<in> set ips. list_all visible ip \<and> CHR 0x5C \<notin> set ip \<and> length ip < 24"
  shows "parse_ips E (ips_text ips) = Some ips"
proof -
  let ?t = "Item cJSON_Array None 0 (d_of_int E 0) None (map (address E) ips)"
  have sc: "scalar_ok E (address E ip)" if "ip \<in> set ips" for ip
    using that assms(3) visible_storable[of ip] by (auto simp: scalar_ok_def address_def cstring_def)
  then have "wf_json E (Suc n) ?t" for n
    by (simp add: container_ok_def list_all_iff scalar_wf) (simp add: address_def)
  then have wf: "wf_json E 1000 ?t" using \<open>\<And>n. wf_json E (Suc n) ?t\<close>[of 999] by (simp del: wf_json.simps)
  have "numbers_ok E ?t" by (simp add: list_all_iff address_def)
  from text_parses[OF wf _ this assms(1) addresses_text] assms(2,3)
  have "cJSON_ParseWithOpts E (Some (ips_text ips)) False None = Inr (Some ?t, Some (length (ips_text ips)), None)" by simp
  then have "cJSON_Parse E (Some (ips_text ips)) None = Inr (Some ?t, None)" by (simp add: cJSON_Parse_def)
  moreover have "filter (\<lambda>item. item_type item AND 0xFF = cJSON_String) (map (address E) ips) = map (address E) ips"
    by (simp add: filter_map o_def address_def)
  ultimately show ?thesis by (simp add: parse_ips_def o_def address_def)
qed

lemma reads_ips:
  assumes "ips \<noteq> []" "length ips \<le> 16" "\<forall>ip \<in> set ips. list_all visible ip \<and> CHR 0x5C \<notin> set ip \<and> length ip < 24"
    "\<forall>k n. allocate (json env) k n"
  shows "reads env [''maintenance_ips = '' @ ips_text ips] c (c\<lparr>maintenance_ips := ips\<rparr>)"
proof -
  have t: "\<exists>u. ips_text ips = ''['' @ u @ '']''" by (simp add: ips_text_def)
  have "\<forall>ip \<in> set ips. list_all visible ip \<and> length ip < 24" using assms(3) by blast
  note ok = ips_text_ok[OF assms(2) this]
  let ?k = "''maintenance_ips ''"
  have "reads env [?k @ CHR ''='' # CHR '' '' # ips_text ips] c (load_setting env ''maintenance_ips'' (ips_text ips) c)"
  proof (rule reads_setting)
    show "storable_line (?k @ CHR ''='' # CHR '' '' # ips_text ips)" using ok by (simp add: storable_line_def)
    obtain u where u: "ips_text ips = ''['' @ u @ '']''" using t by blast
    show "tight (?k @ CHR ''='' # CHR '' '' # ips_text ips)" by (simp add: u tight_def) (simp add: blank_def)
    have "trim_ws ?k = ''maintenance_ips''" by (simp add: trim_ws_def) (simp add: blank_def)
    moreover have "trim_ws (CHR '' '' # ips_text ips) = ips_text ips"
      unfolding trim_space by (rule trim_tight) (simp add: u tight_def, simp add: blank_def)
    ultimately show "load_setting env (trim_ws ?k) (trim_ws (CHR '' '' # ips_text ips)) c =
        load_setting env ''maintenance_ips'' (ips_text ips) c" by (simp only:)
  qed simp_all
  moreover have "map (buf_copy 64) (take MAX_MAINTENANCE_IPS ips) = ips"
    using assms(2,3) by (auto intro!: map_idI)
  moreover have "parse_ips (json env) (ips_text ips) = Some ips" by (rule parse_ips_text[OF assms(4,1,3)])
  ultimately show ?thesis by (simp add: setting_eval)
qed

section \<open>Properties: the configuration file\<close>

definition settings_of :: "config_state \<Rightarrow> int \<times> int \<times> string \<times> string \<times> int \<times> string list \<times>
    ModeOverride list \<times> ProxyRouteEntry list \<times> ProxyRouteEntry list" where
  "settings_of c = (cached_mode c, config_port c, config_bind c, global_mode c, cache_ttl_config c, maintenance_ips c,
     take (override_count c) (overrides c), proxy_routes c, stream_routes c)"

lemma reads_if: "(P \<Longrightarrow> reads env xs c (f c)) \<Longrightarrow> reads env (if P then xs else []) c (if P then f c else c)"
  by (simp add: reads_Nil)

lemma reads_settings:
  assumes "storable c" "\<forall>k n. allocate (json env) k n"
  obtains ls c' where "config_lines c = ls @ concat (map override_lines (take (override_count c) (overrides c))) @
     map (\<lambda>r. config_key (pr_host r) (pr_path r) @ '' = '' @ pr_target_url r) (proxy_routes c) @
     map (\<lambda>r. config_key (pr_host r) (pr_path r) @ '' = stream '' @ pr_target_url r) (stream_routes c)"
    "reads env ls (reset_config c0) c'"
    "settings_of c' = (cached_mode c, config_port c, config_bind c, global_mode c, cache_ttl_config c, maintenance_ips c, [], [], [])"
    "overrides c' = overrides c0" "override_count c' = 0"
proof -
  note st = assms(1)[unfolded storable_def]
  let ?c0 = "reset_config c0"
  let ?c1 = "?c0\<lparr>cached_mode := cached_mode c\<rparr>"
  let ?c2 = "if config_port c > 0 then ?c1\<lparr>config_port := config_port c\<rparr> else ?c1"
  let ?c3 = "if config_bind c \<noteq> [] then ?c2\<lparr>config_bind := config_bind c\<rparr> else ?c2"
  let ?c4 = "if maintenance_ips c \<noteq> [] then ?c3\<lparr>maintenance_ips := maintenance_ips c\<rparr> else ?c3"
  let ?c6 = "?c4\<lparr>global_mode := global_mode c, cache_ttl_config := cache_ttl_config c\<rparr>"
  have m: "(if cached_mode c = 1 then 1 else 0) = cached_mode c" using st by auto
  have h1: "reads env [if cached_mode c = 1 then ''mode=production'' else ''mode=test''] ?c0 ?c1"
    using reads_mode[of env "cached_mode c" ?c0] unfolding m .
  have h2: "reads env (if config_port c > 0 then [''port='' @ dec_int (config_port c)] else []) ?c1 ?c2"
    by (rule reads_if, rule reads_port) (use st in auto)
  have h3: "reads env (if config_bind c \<noteq> [] then [''bind='' @ config_bind c] else []) ?c2 ?c3"
    by (rule reads_if, rule reads_bind) (use st in auto)
  have h4: "reads env (if maintenance_ips c \<noteq> [] then [''maintenance_ips = '' @ ips_text (maintenance_ips c)] else []) ?c3 ?c4"
    by (rule reads_if, rule reads_ips) (use st assms(2) in auto)
  have h5: "reads env [''global_mode='' @ global_mode c] ?c4 (?c4\<lparr>global_mode := global_mode c\<rparr>)"
    by (rule reads_global_mode) (use st in auto)
  have h6: "reads env [''cache_ttl='' @ dec_int (cache_ttl_config c)] (?c4\<lparr>global_mode := global_mode c\<rparr>) ?c6"
    by (rule reads_ttl) (use st in auto)
  note all = reads_append[OF reads_comments[OF guide_comments_ok] reads_append[OF h1 reads_append[OF h2
    reads_append[OF h3 reads_append[OF h4 reads_append[OF h5 h6]]]]]]
  show ?thesis
    by (rule that[OF _ all]) (use st in \<open>simp_all only: config_lines_def append_assoc\<close>,
        auto simp: settings_of_def reset_config_def)
qed

lemma reads_config:
  assumes "storable c" "\<forall>k n. allocate (json env) k n"
    "length (overrides c0) = MAX_OVERRIDES"
  shows "\<exists>c'. reads env (config_lines c) (reset_config c0) c' \<and> settings_of c' = settings_of c"
proof -
  note st = assms(1)[unfolded storable_def]
  let ?ovs = "take (override_count c) (overrides c)"
  obtain ls c6 where c6: "config_lines c = ls @ concat (map override_lines ?ovs) @
     map (\<lambda>r. config_key (pr_host r) (pr_path r) @ '' = '' @ pr_target_url r) (proxy_routes c) @
     map (\<lambda>r. config_key (pr_host r) (pr_path r) @ '' = stream '' @ pr_target_url r) (stream_routes c)"
    "reads env ls (reset_config c0) c6"
    "settings_of c6 = (cached_mode c, config_port c, config_bind c, global_mode c, cache_ttl_config c, maintenance_ips c, [], [], [])"
    "overrides c6 = overrides c0" "override_count c6 = 0"
    by (rule reads_settings[OF assms(1,2)])
  have ln: "length ?ovs = override_count c" using st by simp
  obtain ol where ol: "reads env (concat (map override_lines ?ovs)) c6 (c6\<lparr>overrides := ol, override_count := override_count c\<rparr>)"
    "take (override_count c) ol = ?ovs"
    using reads_overrides[of ?ovs c6 env] st c6(4,5) assms(3) ln by auto
  define c7 where "c7 = c6\<lparr>overrides := ol, override_count := override_count c\<rparr>"
  have e: "proxy_routes c7 = []" "stream_routes c7 = []" using c6(3) by (simp_all add: c7_def settings_of_def)
  have h8: "reads env (map (\<lambda>r. config_key (pr_host r) (pr_path r) @ '' = '' @ pr_target_url r) (proxy_routes c)) c7
      (c7\<lparr>proxy_routes := proxy_routes c7 @ proxy_routes c\<rparr>)"
    by (rule reads_proxies) (use st e in \<open>auto simp: c7_def\<close>)
  define c8 where "c8 = c7\<lparr>proxy_routes := proxy_routes c7 @ proxy_routes c\<rparr>"
  have h9: "reads env (map (\<lambda>r. config_key (pr_host r) (pr_path r) @ '' = stream '' @ pr_target_url r) (stream_routes c)) c8
      (c8\<lparr>stream_routes := stream_routes c8 @ stream_routes c\<rparr>)"
    by (rule reads_streams) (use st e in \<open>auto simp: c7_def c8_def\<close>)
  have "reads env (config_lines c) (reset_config c0) (c8\<lparr>stream_routes := stream_routes c8 @ stream_routes c\<rparr>)"
    unfolding c6(1) by (intro reads_append[OF c6(2)] reads_append[OF ol(1)[folded c7_def]]
        reads_append[OF h8[folded c8_def]] h9)
  moreover have "settings_of (c8\<lparr>stream_routes := stream_routes c8 @ stream_routes c\<rparr>) = settings_of c"
    using c6(3) ol(2) e by (simp add: settings_of_def c7_def c8_def)
  ultimately show ?thesis by blast
qed

lemma config_lines_storable:
  assumes "storable c"
  shows "\<forall>l \<in> set (config_lines c). storable_line l"
proof -
  note st = assms[unfolded storable_def]
  have ov: "storable_line l" if "l \<in> set (concat (map override_lines (take (override_count c) (overrides c))))" for l
  proof -
    from that obtain ov where o: "ov \<in> set (take (override_count c) (overrides c))" "l \<in> set (override_lines ov)" by auto
    then have so: "storable_override ov" using st by blast
    then have "storable_key (ov_host ov) (ov_path ov)" by (simp add: storable_override_def)
    from entry_line_storable[OF this override_value_ok(5,6)[OF so]] override_value_ok(4)[OF so] so o(2) show ?thesis
      by (simp add: override_lines_storable storable_override_def storable_key_def)
  qed
  have ro: "storable_line (config_key (pr_host e) (pr_path e) @ '' = '' @ pr_target_url e)"
    "storable_line (config_key (pr_host e) (pr_path e) @ '' = stream '' @ pr_target_url e)"
    if "e \<in> set (proxy_routes c) \<union> set (stream_routes c)" for e
    using st that route_line_ok(1)[of e "[]" ProxyRoute] route_line_ok(1)[of e "''stream ''" StreamRoute] by auto
  have dg: "storable_line (k @ dec_int n)" if "storable_line k" "length k < 20" "\<bar>n\<bar> < 10 ^ 10" for k n
  proof -
    have "length (dec_nat (nat n)) \<le> 10" "length (dec_nat (nat (- n))) \<le> 10"
      using that(3) length_dec_nat[of _ 10] by auto
    then show ?thesis using that(1,2) visible_storable[OF visible_dec_nat]
      by (auto simp: storable_line_def dec_int_def)
  qed
  have bd: "storable_line (''bind='' @ config_bind c)" using st visible_storable[of "config_bind c"] by (auto simp: storable_line_def)
  have gm: "storable_line (''global_mode='' @ global_mode c)" using st by (auto simp: storable_line_def mode_word_def)
  have ip: "storable_line (''maintenance_ips = '' @ ips_text (maintenance_ips c))"
    using ips_text_ok[of "maintenance_ips c"] st by (auto simp: storable_line_def)
  have pt: "storable_line (''port='' @ dec_int (config_port c))" "storable_line (''cache_ttl='' @ dec_int (cache_ttl_config c))"
    by (rule dg; use st in \<open>simp add: storable_line_def\<close>)+
  have md: "storable_line ''mode=production''" "storable_line ''mode=test''" by (simp_all add: storable_line_def)
  show ?thesis unfolding config_lines_def ball_simps set_append ball_Un
    using guide_comments_ok ov ro bd gm ip pt md by auto
qed

lemma keep_header_reset: "keep_header ls (reset_config c) = reset_config (keep_header ls c)"
  by (simp add: keep_header_def reset_config_def split: option.split)

lemma keep_header_overrides: "overrides (keep_header ls c) = overrides c"
  by (simp add: keep_header_def split: option.split)

lemma load_saved_text:
  assumes "storable c" "\<forall>k n. allocate (json env) k n"
    "length (overrides c0) = MAX_OVERRIDES"
  shows "settings_of (fst (load_text env (lines_text (config_lines c)) (c0, rs))) = settings_of c"
proof -
  have ls: "fgets_lines (lines_text (config_lines c)) = map (\<lambda>l. l @ [NLC]) (config_lines c)"
    by (rule fgets_lines_text[OF config_lines_storable[OF assms(1)]])
  let ?c0 = "keep_header (map (\<lambda>l. l @ [NLC]) (config_lines c)) c0"
  obtain c' where "reads env (config_lines c) (reset_config ?c0) c'" "settings_of c' = settings_of c"
    using reads_config[OF assms(1,2), of ?c0] assms(3) by (auto simp: keep_header_overrides)
  then show ?thesis by (simp add: load_text_def ls keep_header_reset reads_def)
qed


text \<open>An override stored with a leading slash stops working when the file is read again. Writing
  drops the slash, reading does not restore it, and a path pattern without a leading slash
  (other than \<open>*\<close>) matches no request path.\<close>

theorem override_lost_on_reload:
  assumes "storable_key host p" "mode_word m" "p \<noteq> ''*''"
  shows "path_matches_pattern (CHR ''/'' # p) (CHR ''/'' # p) \<and>
    map (\<lambda>l. parse_cfg_line (l @ [NLC])) (override_lines \<lparr>ov_host = host, ov_path = CHR ''/'' # p, ov_mode = m, ov_no_cache = nc\<rparr>)
      = [OverrideLine host p m nc] \<and>
    \<not> path_matches_pattern (CHR ''/'' # q) p"
proof -
  let ?ov = "\<lparr>ov_host = host, ov_path = p, ov_mode = m, ov_no_cache = nc\<rparr>"
  have k: "storable_key host p" "hd p \<noteq> CHR ''/''" "p \<noteq> []" using assms(1) by (auto simp: storable_key_def)
  have so: "storable_override ?ov" using assms(1,2) by (simp add: storable_override_def)
  have "config_key host (CHR ''/'' # p) = config_key host p" by (simp add: config_key_def)
  then have "override_lines \<lparr>ov_host = host, ov_path = CHR ''/'' # p, ov_mode = m, ov_no_cache = nc\<rparr> = override_lines ?ov"
    by (simp add: override_lines_def)
  moreover have "length (override_value ?ov) < 512" using override_value_ok(4)[OF so] by simp
  note parse_entry_line[OF k(1) override_value_ok(1,2,3)[OF so] this]
  ultimately have "map (\<lambda>l. parse_cfg_line (l @ [NLC])) (override_lines \<lparr>ov_host = host, ov_path = CHR ''/'' # p, ov_mode = m, ov_no_cache = nc\<rparr>)
      = [OverrideLine host p m nc]"
    using override_lines_storable[OF so] override_value_ok(7)[OF so, of host p] by simp
  moreover have "\<not> path_matches_pattern (CHR ''/'' # q) p"
  proof (cases "last p = CHR ''*''")
    case True
    then have "1 < length p" using assms(3) k(3) by (cases p; cases "tl p") auto
    then show ?thesis using k(2,3) True by (cases p) (auto simp: path_matches_pattern_def strneq_def take_Cons' split: if_splits)
  next
    case False
    then show ?thesis using k(2) by (auto simp: path_matches_pattern_def)
  qed
  ultimately show ?thesis by (simp add: path_matches_pattern_def strneq_def)
qed

theorem override_lost_on_reload_witness:
  "\<not> path_matches_pattern ''/admin/x'' ''admin'' \<and>
   map (\<lambda>l. parse_cfg_line (l @ [NLC])) (override_lines
     \<lparr>ov_host = ''a.com'', ov_path = ''/admin'', ov_mode = ''maintenance'', ov_no_cache = False\<rparr>)
     = [OverrideLine ''a.com'' ''admin'' ''maintenance'' False]"
proof -
  have "storable_key ''a.com'' ''admin''" "mode_word ''maintenance''" "''admin'' \<noteq> ''*''"
    by (simp_all add: storable_key_def visible_def mode_word_def)
  from override_lost_on_reload[OF this, of False "''admin/x''"] show ?thesis by simp
qed

definition demo_config :: config_state where
  "demo_config = config_init\<lparr>cached_mode := 1, config_port := 443, config_path := ''arws.cfg'',
     config_bind := ''0.0.0.0'', maintenance_ips := [''10.0.0.1''],
     overrides := \<lparr>ov_host = ''a.com'', ov_path = ''admin'', ov_mode = ''maintenance'', ov_no_cache = True\<rparr> # replicate 127 zero_override,
     override_count := 1,
     stream_routes := [\<lparr>pr_host = ''a.com'', pr_path = ''*'', pr_target_url = ''http://127.0.0.1:3000''\<rparr>]\<rparr>"

definition demo_config_env :: "int config_env" where
  "demo_config_env = \<lparr>can_write = (\<lambda>_. True), can_rename = True, mtime = (\<lambda>_. 1), getenv = (\<lambda>_. None),
     json = demo_json_env, new_route = (\<lambda>_. None)\<rparr>"

lemma demo_config_storable: "storable demo_config"
proof -
  have o: "take (override_count demo_config) (overrides demo_config) =
      [\<lparr>ov_host = ''a.com'', ov_path = ''admin'', ov_mode = ''maintenance'', ov_no_cache = True\<rparr>]"
    by (simp add: demo_config_def)
  show ?thesis unfolding storable_def o
    by (simp add: demo_config_def config_init_def storable_override_def storable_entry_def storable_key_def visible_def
        mode_word_def is_url_def strneq_def)
qed


text \<open>A new override takes over the \<open>no_cache\<close> flag of the entry that last occupied its slot.\<close>

theorem add_override_inherits_no_cache:
  assumes "length (overrides (cfg w)) = MAX_OVERRIDES" "override_count (cfg w) < MAX_OVERRIDES"
    "find_override host path (cfg w) = None"
  shows "ov_no_cache (overrides (cfg (snd (arws_config_add_override env host path mode w))) ! override_count (cfg w))
           = ov_no_cache (overrides (cfg w) ! override_count (cfg w))"
proof -
  have "cfg (snd (save_config env w')) = cfg w'" for w' by (simp add: save_config_def Let_def)
  then show ?thesis using assms by (simp add: arws_config_add_override_def Let_def)
qed

end
