(* ===== verification/Gateway_Laws.thy ===== *)
theory Gateway_Laws
  imports Gateway Dispatch_Laws Config_Laws
begin

text \<open>
  Properties of the gateway: maintenance mode, the table of named applications, queries between
  applications, what a disconnecting application leaves behind, and the replies of the gateway's own
  commands.
\<close>

section \<open>Names of applications\<close>

lemma alias_refl [simp]: "match_app_alias n n"
  by (simp add: match_app_alias_def)

lemma alias_sym: "match_app_alias a b \<Longrightarrow> match_app_alias b a"
  by (auto simp: match_app_alias_def list_ex_iff)

lemma app_aliases_disjoint:
  assumes "xs \<in> set app_aliases" "ys \<in> set app_aliases" "n \<in> set xs" "n \<in> set ys"
  shows "xs = ys"
proof -
  have "distinct (concat app_aliases)" by code_simp
  with assms show ?thesis unfolding distinct_concat_iff by blast
qed

lemma alias_trans:
  assumes "match_app_alias a b" "match_app_alias b c"
  shows "match_app_alias a c"
  using assms app_aliases_disjoint unfolding match_app_alias_def list_ex_iff by metis

lemma named_find_first:
  assumes "i < length tab" "tab ! i = (n, fd)" "match_app_alias n name" "\<And>j. j < i \<Longrightarrow> \<not> match_app_alias (fst (tab ! j)) name"
  shows "named_find name tab = fd"
proof -
  have "find (\<lambda>(n, f). match_app_alias n name) tab = Some (tab ! i)"
    unfolding find_Some_iff using assms by (auto simp: case_prod_beta)
  then show ?thesis by (simp add: named_find_def assms(2))
qed

lemma named_add_found:
  assumes "length name < 64" "length tab < mx \<or> (\<exists>e \<in> set tab. snd e = fd \<or> match_app_alias (fst e) name)" "match_app_alias name al"
  shows "named_find al (named_add mx fd name tab) = fd"
proof (cases "first_idx (\<lambda>(n, f). f = fd \<or> match_app_alias n name) tab")
  case None
  then have no: "\<not> match_app_alias (fst e) name" "snd e \<noteq> fd" if "e \<in> set tab" for e
    using that by (auto simp: first_idx_None_iff)
  with assms(2) have "named_add mx fd name tab = tab @ [(name, fd)]"
    using None assms(1) by (auto simp: named_add_def)
  moreover have "\<not> match_app_alias (fst (tab ! j)) al" if "j < length tab" for j
    using no(1)[OF nth_mem[OF that]] alias_trans alias_sym[OF assms(3)] by blast
  ultimately show ?thesis using assms(3) by (intro named_find_first[of "length tab" _ name]) (simp_all add: nth_append)
next
  case (Some i)
  note i = first_idx_SomeD[OF Some]
  have "named_add mx fd name tab = tab[i := (name, fd)]" using Some assms(1) by (simp add: named_add_def)
  moreover have "\<not> match_app_alias (fst (tab ! j)) al" if "j < i" for j
    using i(3)[OF that] alias_trans alias_sym[OF assms(3)] by (auto simp: case_prod_beta)
  ultimately show ?thesis using assms(3) i(1) by (intro named_find_first[of i _ name]) simp_all
qed

section \<open>Disconnection\<close>

lemma remove_first_gone:
  assumes "distinct (map f xs)" "first_idx (\<lambda>x. f x = k) xs = Some i"
  shows "k \<notin> f ` set (swap_remove xs i)"
  using distinct_map_swap_remove(2)[OF assms(1) first_idx_SomeD(1)[OF assms(2)]] first_idx_SomeD(2)[OF assms(2)] by simp

lemma named_remove_gone:
  assumes "distinct (map snd tab)"
  shows "fd \<notin> snd ` set (named_remove fd tab)"
proof (cases "first_idx (\<lambda>(n, f). f = fd) tab")
  case None
  then have "\<forall>e \<in> set tab. snd e \<noteq> fd" by (auto simp: first_idx_None_iff)
  with None show ?thesis by (auto simp: named_remove_def)
next
  case (Some i)
  then show ?thesis using remove_first_gone[OF assms, of fd i] by (simp add: named_remove_def case_prod_beta')
qed

lemma remove_client_gone:
  assumes "distinct fds"
  shows "fd \<notin> set (remove_client_fd fd fds)"
proof (cases "first_idx (\<lambda>f. f = fd) fds")
  case None
  then have "fd \<notin> set fds" by (auto simp: first_idx_None_iff)
  with None show ?thesis by (simp add: remove_client_fd_def)
next
  case (Some i)
  then show ?thesis using remove_first_gone[of "\<lambda>x. x" fds fd i] assms by (simp add: remove_client_fd_def)
qed

lemma named_find_in: "named_find n tab = -1 \<or> named_find n tab \<in> snd ` set tab"
proof (cases "find (\<lambda>(n', f). match_app_alias n' n) tab")
  case (Some e)
  then have "e \<in> set tab" by (metis find_Some_iff nth_mem)
  with Some show ?thesis by (auto simp: named_find_def split: prod.splits intro!: image_eqI[of _ _ e])
qed (simp add: named_find_def)

lemma drop_backend_simps:
  "routes (gw_config (world (drop_backend b g))) = snd (arws_remove_routes_by_backend b (routes (gw_config (world g))))"
  "gw_registry (world (drop_backend b g)) = snd (arws_unregister_backend b (gw_registry (world g)))"
  "named_clients (drop_backend b g) = named_clients g" "admin_client_fds (drop_backend b g) = admin_client_fds g"
  by (simp_all add: drop_backend_def set_config_def Let_def)

definition one_backend :: "int \<Rightarrow> registry_state \<Rightarrow> bool" where
  "one_backend fd rg \<longleftrightarrow> (\<forall>b \<in> set (backends rg). \<forall>c \<in> set (backends rg). be_fd b = fd \<longrightarrow> be_fd c = fd \<longrightarrow> b = c)"

lemma unregister_by_fd:
  assumes "wf_registry rg" "one_backend fd rg" "b \<in> set (backends rg)" "be_fd b = fd"
  shows "arws_find_backend_id_by_fd fd rg = be_id b"
    and "c \<in> set (backends (snd (arws_unregister_backend (be_id b) rg))) \<Longrightarrow> be_fd c \<noteq> fd"
proof -
  have r: "\<forall>b \<in> set (backends rg). registered b" and d: "distinct (map be_id (backends rg))"
    using assms(1) by (simp_all add: wf_registry_def)
  obtain i where i: "first_idx (\<lambda>b. be_fd b = fd \<and> registered b) (backends rg) = Some i"
    using assms(3,4) r by (metis (mono_tags, lifting) first_idx_None_iff not_Some_eq)
  from first_idx_SomeD(1,2)[OF i] have "backends rg ! i = b"
    using assms(2-4) by (auto simp: one_backend_def)
  then show "arws_find_backend_id_by_fd fd rg = be_id b" using i by (simp add: arws_find_backend_id_by_fd_def)
  obtain j where j: "first_idx (\<lambda>c. be_id c = be_id b) (backends rg) = Some j"
    using assms(3) by (metis (mono_tags, lifting) first_idx_None_iff not_Some_eq)
  assume c: "c \<in> set (backends (snd (arws_unregister_backend (be_id b) rg)))"
  then have c': "c \<in> set (swap_remove (backends rg) j)" using j by (simp add: arws_unregister_backend_def)
  then have "c \<in> set (backends rg)" using set_swap_remove first_idx_SomeD(1)[OF j] by blast
  moreover have "be_id c \<noteq> be_id b" using remove_first_gone[OF d j] c' by (metis imageI)
  ultimately show "be_fd c \<noteq> fd" using assms(2-4) by (auto simp: one_backend_def)
qed

section \<open>Properties: the gateway\<close>


definition demo_gateway :: gateway_state where
  "demo_gateway = \<lparr>world = demo_backend_world, limits = arws_ratelimit_init \<lparr>rl_entries = [], rl_rules = []\<rparr>,
     named_clients = [(''app'', 5)], admin_client_fds = [5], queries = query_init\<rparr>"


text \<open>With two backends on one connection the clean-up removes only the first: the other stays
  registered with the closed descriptor, and its routes stay too.\<close>

theorem disconnect_leaves_second:
  assumes "wf_registry rg" "gw_registry (world g) = rg" "b \<in> set (backends rg)" "c \<in> set (backends rg)" "b \<noteq> c"
    "be_fd b = fd" "be_fd c = fd"
  shows "\<exists>d \<in> set (backends (gw_registry (world (fst (client_cleanup fd g))))). be_fd d = fd \<and> registered d"
proof -
  have reg: "\<forall>b \<in> set (backends rg). registered b" using assms(1) by (simp add: wf_registry_def)
  have "\<exists>e \<in> set (backends (snd (arws_unregister_backend k rg))). be_fd e = fd \<and> registered e" for k
  proof (cases "first_idx (\<lambda>b. be_id b = k) (backends rg)")
    case None
    then show ?thesis using assms(3,6) reg by (auto simp: arws_unregister_backend_def)
  next
    case (Some i)
    note i = first_idx_SomeD(1)[OF Some]
    obtain e where e: "e \<in> set (backends rg)" "e \<noteq> backends rg ! i" "be_fd e = fd" using assms(3-7) by metis
    have "e \<in># mset (backends rg) - {#backends rg ! i#}" using e(1,2) by (simp add: in_diff_count)
    then have "e \<in> set (swap_remove (backends rg) i)" using mset_swap_remove[OF i] by (metis set_mset_mset)
    then show ?thesis using e reg Some by (auto simp: arws_unregister_backend_def)
  qed
  moreover have "\<exists>e \<in> set (backends rg). be_fd e = fd \<and> registered e" using assms(3,6) reg by blast
  ultimately show ?thesis using assms(2) by (simp add: client_cleanup_def Let_def drop_backend_simps)
qed

text \<open>C34: Maintenance mode closes the gateway. While the global mode is maintenance, a client whose address is
  not on the list of allowed ones gets the maintenance page, or 429 if it is over its rate limit, and its
  request changes neither routes, upstreams, cache, backends nor configuration; a listed client that is within its
  limit is served as in production.\<close>

theorem maintenance_gate:
  assumes "global_mode (cfg (gw_config (world g))) = ''maintenance''"
  shows "if client_ip conn \<in> set (maintenance_ips (cfg (gw_config (world g))))
    then fst (arws_ratelimit_check (ge_time1 env) (ge_time2 env) (client_ip conn) (Some (rq_host req)) (rq_path req) (limits g)) \<longrightarrow>
      (case handler_func env req body conn g of
         Inl e \<Rightarrow> arws_dispatch (ge_dispatch env) req body ''production'' conn (world g) = Inl e
       | Inr (c, g') \<Rightarrow> \<exists>rc. arws_dispatch (ge_dispatch env) req body ''production'' conn (world g) = Inr (rc, c, world g'))
    else \<exists>l. handler_func env req body conn g =
        Inr (arws_send_429 (Some ''Rate limit exceeded'') conn, g\<lparr>limits := l\<rparr>) \<or>
      handler_func env req body conn g = Inr (arws_send_maintenance (de_web (ge_dispatch env)) conn, g\<lparr>limits := l\<rparr>)"
proof -
  obtain ok l where rl: "arws_ratelimit_check (ge_time1 env) (ge_time2 env) (client_ip conn) (Some (rq_host req)) (rq_path req) (limits g) = (ok, l)"
    by fastforce
  have md: "arws_config_get_effective_mode (rq_host req) (rq_path req) (Some (client_ip conn)) (cfg (gw_config (world g))) =
      (if client_ip conn \<in> set (maintenance_ips (cfg (gw_config (world g)))) then ''production'' else ''maintenance'')"
    using assms by (auto simp: arws_config_get_effective_mode_def Let_def list_ex_iff)
  have "handler_func env req body conn g =
     (if \<not> ok then Inr (arws_send_429 (Some ''Rate limit exceeded'') conn, g\<lparr>limits := l\<rparr>)
      else if client_ip conn \<notin> set (maintenance_ips (cfg (gw_config (world g))))
      then Inr (arws_send_maintenance (de_web (ge_dispatch env)) conn, g\<lparr>limits := l\<rparr>)
      else case arws_dispatch (ge_dispatch env) req body ''production'' conn (world g) of
             Inl e \<Rightarrow> Inl e | Inr (rc, c, w) \<Rightarrow> Inr (c, g\<lparr>limits := l, world := w\<rparr>))"
    using md by (simp add: handler_func_def server_get_client_ip_def rl Let_def)
  then show ?thesis using rl by (auto split: sum.splits)
qed

theorem maintenance_gate_witness:
  "\<exists>env l. handler_func env empty_request [] demo_conn (set_config ((gw_config demo_world)\<lparr>cfg := config_init\<lparr>global_mode := ''maintenance''\<rparr>\<rparr>) demo_gateway) =
       Inr (arws_send_429 (Some ''Rate limit exceeded'') demo_conn,
         (set_config ((gw_config demo_world)\<lparr>cfg := config_init\<lparr>global_mode := ''maintenance''\<rparr>\<rparr>) demo_gateway)\<lparr>limits := l\<rparr>) \<or>
     handler_func env empty_request [] demo_conn (set_config ((gw_config demo_world)\<lparr>cfg := config_init\<lparr>global_mode := ''maintenance''\<rparr>\<rparr>) demo_gateway) =
       Inr (arws_send_maintenance (de_web (ge_dispatch env)) demo_conn,
         (set_config ((gw_config demo_world)\<lparr>cfg := config_init\<lparr>global_mode := ''maintenance''\<rparr>\<rparr>) demo_gateway)\<lparr>limits := l\<rparr>)"
proof -
  let ?g = "set_config ((gw_config demo_world)\<lparr>cfg := config_init\<lparr>global_mode := ''maintenance''\<rparr>\<rparr>) demo_gateway"
  have m: "global_mode (cfg (gw_config (world ?g))) = ''maintenance''" by (simp add: set_config_def)
  have "client_ip demo_conn \<notin> set (maintenance_ips (cfg (gw_config (world ?g))))"
    by (simp add: set_config_def config_init_def)
  from maintenance_gate[OF m, of demo_conn, unfolded if_not_P[OF this]] show ?thesis by blast
qed


definition demo_gateway_env :: "int gateway_env" where
  "demo_gateway_env = \<lparr>ge_dispatch = demo_dispatch, ge_config = demo_config_env, ge_route = (\<lambda>_. None), ge_buf_size = 65536,
     ge_max_clients = 64, ge_code = (\<lambda>k. if k = IPC_QUERY_RESP then 12 else 4), ge_heap = None, ge_time1 = 0, ge_time2 = 0,
     ge_grow1 = True, ge_grow2 = True\<rparr>"


text \<open>Listing the upstreams discloses heap memory. The reply to \<open>upstream list\<close> is printed with the size of the
  pointer, eight, instead of the buffer's; with no pool registered the reply still has the full length of the
  message, so that after seven letters and a NUL it carries 22 bytes of uninitialised memory.\<close>

theorem upstream_list_leaks:
  assumes "ge_heap env = Some mem" "length mem = ge_buf_size env" "31 < ge_buf_size env"
    and "snd (arws_upstream_get_all_pools (int ARWS_MAX_POOLS) (gw_upstream (world g))) = []"
  shows "\<exists>g'. handle_arws_query env ''upstream list'' g = Inr (Some (''No upst'' @ [NUL] @ take 22 (drop 8 mem)), g')"
proof -
  obtain ups where p: "arws_upstream_get_all_pools (int ARWS_MAX_POOLS) (gw_upstream (world g)) = (ups, [])"
    using assms(4) by (metis prod.collapse)
  have w: "scan_word 31 '' list'' = Some (''list'', [])" by (simp add: scan_word_def is_space_def)
  have r: "run_query env ''upstream list'' mem g = query_upstream (ge_buf_size env) '' list'' mem g"
    by (simp add: run_query_def query_separator_def cstr_def)
  have l: "upstream_list [] mem = Inr (30, ''No upst'' @ [NUL] @ drop 8 mem)"
    using assms(2,3) by (simp add: upstream_list_def print_reply_def put_text_def) (simp add: eval_nat_numeral)
  have "query_upstream (ge_buf_size env) '' list'' mem g = (Inr (30, ''No upst'' @ [NUL] @ drop 8 mem), set_upstream ups g)"
    using p l unfolding query_upstream_def w by simp
  then show ?thesis using assms(1,3) by (simp add: handle_arws_query_def r)
qed

theorem upstream_list_leaks_witness:
  "\<exists>g'. handle_arws_query (demo_gateway_env\<lparr>ge_buf_size := 64, ge_heap := Some (replicate 64 CHR ''s'')\<rparr>) ''upstream list''
      (set_upstream zero_upstream demo_gateway) = Inr (Some (''No upst'' @ [NUL] @ replicate 22 CHR ''s''), g')"
proof -
  let ?env = "demo_gateway_env\<lparr>ge_buf_size := 64, ge_heap := Some (replicate 64 CHR ''s'')\<rparr>"
  have "snd (arws_upstream_get_all_pools (int ARWS_MAX_POOLS) (gw_upstream (world (set_upstream zero_upstream demo_gateway)))) = []"
    by (simp add: arws_upstream_get_all_pools_def set_upstream_def zero_upstream_def arws_upstream_init_def zero_pool_def)
  from upstream_list_leaks[OF _ _ _ this, of ?env "replicate 64 CHR ''s''"] show ?thesis by simp
qed

end
