(* ===== verification/System_Laws.thy ===== *)
theory System_Laws
  imports System Rate_Laws Gateway_Laws
begin

text \<open>
  Properties of the process as a whole: what the listening socket ends up as, how a request is counted on its
  way through server and gateway, the order of start-up, and what shut-down closes.
\<close>

lemma set_config_keeps [simp]: "gw_cache (world (set_config cw g)) = gw_cache (world g)" "gw_registry (world (set_config cw g)) = gw_registry (world g)"
  by (simp_all add: set_config_def)

section \<open>Properties: the process\<close>

text \<open>The server listens where it was told to, or says so. If it starts, it listens on the requested port with
  the requested security (TLS only with a certificate), or, when the requested port is 80 or 443 and cannot be
  bound, on port 8080 without TLS and with the configured port changed to match; and it starts whenever the
  requested port can be bound and the system calls succeed.\<close>

theorem listen_outcome:
  "(case server_start env addr port mode c of
      (Some l, c') \<Rightarrow>
        ls_port l = port \<and> be_bind env addr port \<and> c' = c \<and> (ls_ssl l \<longrightarrow> mode = MODE_SECURE \<and> be_ctx env \<and> (\<exists>d. be_cert env d)) \<or>
        privileged port \<and> \<not> be_bind env addr port \<and> be_bind env addr 8080 \<and> ls_port l = 8080 \<and> \<not> ls_ssl l \<and> c' = c\<lparr>config_port := 8080\<rparr>
    | (None, c') \<Rightarrow> \<not> (be_bind env addr port \<and> be_socket env 0 \<and> be_listen env \<and> be_poll env \<and> be_events env))"
proof -
  obtain ssl m where t: "tls_setup env mode = (ssl, m)" by fastforce
  then have cert: "ssl \<Longrightarrow> mode = MODE_SECURE \<and> be_ctx env \<and> (\<exists>d. be_cert env d)" by (auto simp: tls_setup_def split: if_splits)
  let ?l = "\<lparr>ls_port = port, ls_ssl = ssl, ls_mode = m\<rparr>" and ?f = "\<lparr>ls_port = 8080, ls_ssl = False, ls_mode = 0\<rparr>"
  have f: "open_listener env i addr ?f c' = (if be_socket env i \<and> be_bind env addr 8080 \<and> be_listen env \<and> be_poll env \<and> be_events env then (Some ?f, c') else (None, c'))" for i c'
    by (simp add: open_listener.simps privileged_def)
  have "server_start env addr port mode c = open_listener env 0 addr ?l c" by (simp add: server_start_def t)
  also have "\<dots> = (if \<not> be_socket env 0 then (None, c)
      else if \<not> be_bind env addr port then (if privileged port then open_listener env 1 addr ?f (c\<lparr>config_port := 8080\<rparr>) else (None, c))
      else if be_listen env \<and> be_poll env \<and> be_events env then (Some ?l, c) else (None, c))"
    by (simp add: open_listener.simps[of env 0] arws_config_set_port_def)
  finally show ?thesis using cert by (simp add: f)
qed

text \<open>A request is counted twice against its rate limit, once by the server and once by the gateway's
  handler. So under a limit of one request per window the very first request of a client is
  refused, and reaches neither routes nor backends.\<close>

theorem limit_counts_twice:
  assumes "parse_client_request henv raw content_length conn = Handle c req" "client_ip c \<noteq> []" "length (client_ip c) < 64"
    and "rl_room 2 (limits g)" "rl_limits (rl_rules (limits g)) (Some (rq_host req)) (rq_path req) = (1, w)" "0 < (word_of_int w :: uint64)"
    and "ge_time2 env div 1000 - t2 div 1000 < word_of_int w"
    and "rl_counter (client_ip c) (limits g) = None" "\<not> rl_barred (client_ip c) (limits g)"
  shows "\<exists>c' g'. serve_request env henv t1 t2 raw content_length body conn g = Inr (c', g') \<and> world g' = world g \<and>
    (c' = server_send_response 429 ''text/html'' (Some body_429) c \<or> c' = arws_send_429 (Some ''Rate limit exceeded'') c)"
proof -
  let ?r = "(t1, t2, client_ip c, Some (rq_host req), rq_path req) :: rl_request"
  let ?q = "(ge_time1 env, ge_time2 env, client_ip c, Some (rq_host req), rq_path req) :: rl_request"
  obtain a l where a: "rl_check ?r (limits g) = (a, l)" by fastforce
  obtain b l' where b: "rl_check ?q l = (b, l')" by fastforce
  have ok: "rl_ok ?r" "rl_ok ?q" using assms(2,3) by (simp_all add: rl_ok_def)
  have run: "run_checks rl_check [?r, ?q] (limits g) = ([a, b], l')" using a b by simp
  have two: "rl_room (Suc (length [?q])) (limits g)" using assms(4) by (simp add: numeral_2_eq_2)
  have "allowed_of rl_key (rl_key ?r) [?r, ?q] [a, b] = min (Suc (asked_of rl_key (rl_key ?r) [?q])) (nat 1)"
    by (rule rl.fresh_window_exact[OF two ok(1) refl _ _ assms(6) _ _ _ _ _ run])
      (use assms(5,7,8,9) ok in simp_all)
  then have "\<not> (a \<and> b)" by auto
  moreover have "arws_ratelimit_check t1 t2 (client_ip c) (Some (rq_host req)) (rq_path req) (limits g) = (a, l)"
    "arws_ratelimit_check (ge_time1 env) (ge_time2 env) (client_ip c) (Some (rq_host req)) (rq_path req) l = (b, l')"
    using a b by simp_all
  ultimately show ?thesis
    using assms(1) by (auto simp: serve_request_def handler_func_def server_get_client_ip_def Let_def)
qed

text \<open>The configured time to live is not in force after start-up: the cache takes over the value before the
  configuration is read.\<close>

theorem configured_ttl_ignored:
  assumes "arws_entry cenv env ht fd (\<lambda>s. s) s = (rc, l, s')" "0 < cache_ttl_config (cfg (gw_config (world (sys_gateway s))))"
  shows "cache_ttl (gw_cache (world (sys_gateway s'))) = cache_ttl_config (cfg (gw_config (world (sys_gateway s))))"
proof -
  have start: "gw_cache (world (sys_gateway s2)) = gw_cache (world (sys_gateway s1))"
    if "arws_start env addr fd (\<lambda>s. s) port mode s1 = (rc1, l1, s2)" for addr port mode s1 rc1 l1 s2
    using that by (auto simp: arws_start_def set_running_def Let_def split: if_splits prod.splits)
  show ?thesis using assms
    by (auto simp: arws_entry_def arws_init_def arws_config_get_cache_ttl_def arws_cache_set_ttl_def arws_cache_init_def Let_def
        dest!: start split: prod.splits)
qed

text \<open>Shut-down closes the descriptor of a connected backend twice, as a client and as a backend.\<close>

theorem stop_closes_twice:
  assumes "b \<in> set (backends (gw_registry (world (sys_gateway s))))" "be_fd b \<in> set (admin_client_fds (sys_gateway s))" "0 < be_fd b"
  shows "2 \<le> count_list (snd (arws_stop s)) (be_fd b)"
proof -
  have pos: "x \<in> set xs \<Longrightarrow> 1 \<le> count_list xs x" for x :: int and xs by (metis count_list_0_iff less_one not_le)
  let ?cs = "filter (\<lambda>fd. fd \<ge> 0) (admin_client_fds (sys_gateway s))"
  let ?bs = "map be_fd (filter (\<lambda>b. be_fd b > 0) (backends (gw_registry (world (sys_gateway s)))))"
  have "1 \<le> count_list ?cs (be_fd b)" using assms(2,3) by (intro pos) simp
  moreover have "1 \<le> count_list ?bs (be_fd b)" using assms(1,3) by (intro pos) auto
  moreover have "snd (arws_stop s) = (if admin_server_fd s \<ge> 0 then [admin_server_fd s] else []) @ ?cs @ ?bs"
    by (simp add: arws_stop_def set_running_def arws_close_all_backends_def Let_def)
  ultimately show ?thesis unfolding count_list_append by simp
qed

text \<open>The witness: one request per minute is allowed, and the first one is refused.\<close>

definition demo_limited :: gateway_state where
  "demo_limited = demo_gateway\<lparr>limits := \<lparr>rl_entries = replicate 8 zero_rl_entry,
     rl_rules = [\<lparr>rule_host = ''*'', path_pattern = ''/*'', max_requests = 1, window_seconds = 60\<rparr>]\<rparr>\<rparr>"

lemma demo_limited_free:
  "rl_room 2 (limits demo_limited)" "rl_counter ip (limits demo_limited) = None \<or> ip = []" "ip \<noteq> [] \<Longrightarrow> \<not> rl_barred ip (limits demo_limited)"
proof -
  have "ips_distinct rl_ip (replicate n zero_rl_entry)" for n
    by (auto simp: ips_distinct_def zero_rl_entry_def)
  then show "rl_room 2 (limits demo_limited)" by (simp add: rl_room_def demo_limited_def empties_def zero_rl_entry_def)
  have "ip \<noteq> [] \<Longrightarrow> entry_of rl_ip ip (rl_entries (limits demo_limited)) = None"
    by (simp add: entry_of_None_iff demo_limited_def zero_rl_entry_def)
  then show "rl_counter ip (limits demo_limited) = None \<or> ip = []" "ip \<noteq> [] \<Longrightarrow> \<not> rl_barred ip (limits demo_limited)"
    by (auto simp: rl_counter_def rl_barred_def)
qed

lemma handled_client_ip:
  assumes "parse_client_request demo_env raw cl conn = Handle c req"
  shows "client_ip c = client_ip conn"
  using assms
proof (rule parse_client_HandleD)
  fix meth tgt headers body full
  assume c: "c = assign_anon_id (env_random demo_env) req (client_of_request demo_env req (conn\<lparr>current_path := buf_copy 256 tgt\<rparr>))"
  have "\<not> ip_is_trusted_proxy (env_nets demo_env) ip" for ip
    by (simp add: demo_env_def ip_is_trusted_proxy_def split: option.splits)
  then show "client_ip c = client_ip conn"
    by (simp add: c client_of_request_def assign_anon_id_def demo_env_def Let_def split: option.splits)
qed

theorem limit_counts_twice_witness:
  "\<exists>c' g'. serve_request demo_gateway_env demo_env 0 0 (''GET /a%20b?x=1 HTTP/1.1'' @ CRLF @ CRLF) 0 [] demo_conn demo_limited = Inr (c', g') \<and>
     world g' = world demo_limited"
proof -
  obtain c where c: "parse_client_request demo_env (''GET /a%20b?x=1 HTTP/1.1'' @ CRLF @ CRLF) 0 demo_conn =
      Handle c (build_request ''GET'' ''/a b?x=1'' None [])"
    using demo_parse[of demo_env] by (auto simp: demo_env_def)
  have ip: "client_ip c = ''9.9.9.9''" using handled_client_ip[OF c] by (simp add: demo_conn_def)
  have path: "rq_path (build_request ''GET'' ''/a b?x=1'' None []) = ''/a b''"
    by (simp add: build_request_path split_target_path)
  have lim: "rl_limits (rl_rules (limits demo_limited)) h ''/a b'' = (1, 60)" for h
    by (simp add: rl_limits_def demo_limited_def rule_matches_def path_matches_def strneq_def Let_def)
  have t: "ge_time2 demo_gateway_env div 1000 - 0 div 1000 < word_of_int 60" "0 < (word_of_int 60 :: uint64)"
    by (simp_all add: demo_gateway_env_def)
  have ne: "client_ip c \<noteq> []" "length (client_ip c) < 64" by (simp_all add: ip)
  have ctr: "rl_counter (client_ip c) (limits demo_limited) = None" using demo_limited_free(2)[of "client_ip c"] ne by simp
  show ?thesis
    using limit_counts_twice[OF c ne demo_limited_free(1) _ t(2,1) ctr demo_limited_free(3)[OF ne(1)]] lim unfolding path by blast
qed

end
