(* ===== verification/Cjson_Minify.thy ===== *)
theory Cjson_Minify
  imports Cjson_Roundtrip
begin

text \<open>
  Minifying, \<open>cJSON_Minify\<close> of \<open>src/src/cJSON.c\<close>: the text is rewritten in place, the output following the input through the same
  memory. Every access is checked. The laws compare it with a function on texts, and with the printer.
\<close>

section \<open>The code\<close>

definition mem_get :: "char list \<Rightarrow> nat \<Rightarrow> json_fault + char" where
  "mem_get m i = (if i < length m then Inr (m ! i) else Inl (Bad OutOfBounds))"

definition mem_put :: "nat \<Rightarrow> char \<Rightarrow> char list \<Rightarrow> json_fault + char list" where
  "mem_put o' c m = (if o' < length m then Inr (m[o' := c]) else Inl (Bad OutOfBounds))"

text \<open>The loops of \<open>skip_oneline_comment\<close> and \<open>skip_multiline_comment\<close>; the result is the new input position.\<close>

function oneline_loop :: "char list \<Rightarrow> nat \<Rightarrow> json_fault + nat" where
  "oneline_loop m i =
     (case mem_get m i of Inl e \<Rightarrow> Inl e
      | Inr c \<Rightarrow> if c = NUL then Inr i else if c = CHR 0x0A then Inr (i + 1) else oneline_loop m (i + 1))"
  by pat_completeness auto
termination
  by (relation "measure (\<lambda>(m, i). length m - i)") (auto simp: mem_get_def split: if_splits)

definition skip_oneline_comment :: "char list \<Rightarrow> nat \<Rightarrow> json_fault + nat" where
  "skip_oneline_comment m i = oneline_loop m (i + 2)"

function multiline_loop :: "char list \<Rightarrow> nat \<Rightarrow> json_fault + nat" where
  "multiline_loop m i =
     (case mem_get m i of Inl e \<Rightarrow> Inl e
      | Inr c \<Rightarrow>
          if c = NUL then Inr i
          else if c = CHR ''*''
          then (case mem_get m (i + 1) of Inl e \<Rightarrow> Inl e
                | Inr d \<Rightarrow> if d = CHR ''/'' then Inr (i + 2) else multiline_loop m (i + 1))
          else multiline_loop m (i + 1))"
  by pat_completeness auto
termination
  by (relation "measure (\<lambda>(m, i). length m - i)") (auto simp: mem_get_def split: if_splits)

definition skip_multiline_comment :: "char list \<Rightarrow> nat \<Rightarrow> json_fault + nat" where
  "skip_multiline_comment m i = multiline_loop m (i + 2)"

text \<open>\<open>minify_string\<close>, after the opening quote: memory, input and output position. An escaped quote is copied with its backslash.\<close>

function string_loop :: "char list \<Rightarrow> nat \<Rightarrow> nat \<Rightarrow> json_fault + (char list \<times> nat \<times> nat)" where
  "string_loop m i j =
     (case mem_get m i of Inl e \<Rightarrow> Inl e
      | Inr c \<Rightarrow>
          if c = NUL then Inr (m, i, j)
          else (case mem_put j c m of Inl e \<Rightarrow> Inl e
                | Inr m1 \<Rightarrow>
                    if m1 ! i = CHR 0x22 then andthen (mem_put j (CHR 0x22) m1) (\<lambda>m2. Inr (m2, i + 1, j + 1))
                    else if m1 ! i = CHR 0x5C
                    then (case mem_get m1 (i + 1) of Inl e \<Rightarrow> Inl e
                          | Inr d \<Rightarrow>
                              if d = CHR 0x22
                              then (case mem_put (j + 1) d m1 of Inl e \<Rightarrow> Inl e | Inr m2 \<Rightarrow> string_loop m2 (i + 2) (j + 2))
                              else string_loop m1 (i + 1) (j + 1))
                    else string_loop m1 (i + 1) (j + 1)))"
  by pat_completeness auto
termination
  by (relation "measure (\<lambda>(m, i, j). length m - i)") (auto simp: mem_get_def mem_put_def split: if_splits)

definition minify_string :: "char list \<Rightarrow> nat \<Rightarrow> nat \<Rightarrow> json_fault + (char list \<times> nat \<times> nat)" where
  "minify_string m i j = andthen (mem_get m i) (\<lambda>c. andthen (mem_put j c m) (\<lambda>m1. string_loop m1 (i + 1) (j + 1)))"

declare oneline_loop.simps [simp del] multiline_loop.simps [simp del] string_loop.simps [simp del]

text \<open>The loops move the input forward, and keep the memory's size.\<close>

lemma oneline_progress: "oneline_loop m i = Inr i' \<Longrightarrow> i \<le> i'"
proof (induction m i rule: oneline_loop.induct)
  case (1 m i)
  note IH = "1.IH" and eq = oneline_loop.simps[of m i]
  show ?case using "1.prems" unfolding eq by (fastforce dest: IH split: sum.splits if_splits)
qed

lemma multiline_progress: "multiline_loop m i = Inr i' \<Longrightarrow> i \<le> i'"
proof (induction m i rule: multiline_loop.induct)
  case (1 m i)
  note IH = "1.IH" and eq = multiline_loop.simps[of m i]
  show ?case using "1.prems" unfolding eq by (fastforce dest: IH split: sum.splits if_splits)
qed

lemma mem_put_length: "mem_put j c m = Inr m' \<Longrightarrow> length m' = length m"
  by (auto simp: mem_put_def split: if_splits)

lemma string_progress: "string_loop m i j = Inr (m', i', j') \<Longrightarrow> i \<le> i' \<and> length m' = length m"
proof (induction m i j rule: string_loop.induct)
  case (1 m i j)
  note IH = "1.IH" and eq = string_loop.simps[of m i j]
  show ?case using "1.prems" unfolding eq by (fastforce simp: andthen_def dest: IH mem_put_length split: sum.splits if_splits)
qed

text \<open>The loop of \<open>cJSON_Minify\<close>: memory, input position \<open>json\<close> and output position \<open>into\<close>.\<close>

function minify_loop :: "char list \<Rightarrow> nat \<Rightarrow> nat \<Rightarrow> json_fault + (char list \<times> nat)" where
  "minify_loop m i j =
     (case mem_get m i of Inl e \<Rightarrow> Inl e
      | Inr c \<Rightarrow>
          if c = NUL then Inr (m, j)
          else if c = CHR '' '' \<or> c = CHR 0x09 \<or> c = CHR 0x0D \<or> c = CHR 0x0A then minify_loop m (i + 1) j
          else if c = CHR ''/''
          then (case mem_get m (i + 1) of Inl e \<Rightarrow> Inl e
                | Inr d \<Rightarrow>
                    if d = CHR ''/''
                    then (case skip_oneline_comment m i of Inl e \<Rightarrow> Inl e | Inr i' \<Rightarrow> minify_loop m i' j)
                    else if d = CHR ''*''
                    then (case skip_multiline_comment m i of Inl e \<Rightarrow> Inl e | Inr i' \<Rightarrow> minify_loop m i' j)
                    else minify_loop m (i + 1) j)
          else if c = CHR 0x22
          then (case minify_string m i j of Inl e \<Rightarrow> Inl e | Inr (m', i', j') \<Rightarrow> minify_loop m' i' j')
          else (case mem_put j c m of Inl e \<Rightarrow> Inl e | Inr m' \<Rightarrow> minify_loop m' (i + 1) (j + 1)))"
  by pat_completeness auto
termination
  by (relation "measure (\<lambda>(m, i, j). length m - i)")
    (auto simp: mem_get_def mem_put_def skip_oneline_comment_def skip_multiline_comment_def minify_string_def andthen_def
      dest!: oneline_progress multiline_progress string_progress split: if_splits sum.splits)

declare minify_loop.simps [simp del]

definition cJSON_Minify :: "char list option \<Rightarrow> json_fault + char list option" where
  "cJSON_Minify json =
     (case json of None \<Rightarrow> Inr None
      | Some m \<Rightarrow> andthen (minify_loop m 0 0) (\<lambda>(m', j). andthen (mem_put j NUL m') (\<lambda>m'. Inr (Some m'))))"

section \<open>Minifying a text\<close>

fun after_line :: "string \<Rightarrow> string" where
  "after_line [] = []"
| "after_line (c # s) = (if c = CHR 0x0A then s else after_line s)"

fun after_comment :: "string \<Rightarrow> string" where
  "after_comment [] = []"
| "after_comment (c # s) = (if c = CHR ''*'' \<and> s \<noteq> [] \<and> hd s = CHR ''/'' then tl s else after_comment s)"

text \<open>What is copied of a string after its opening quote, and what follows it.\<close>

fun string_part :: "string \<Rightarrow> string \<times> string" where
  "string_part [] = ([], [])"
| "string_part (c # s) =
     (if c = CHR 0x22 then ([c], s)
      else (case s of
          d # s' \<Rightarrow> if c = CHR 0x5C \<and> d = CHR 0x22 then (case string_part s' of (x, r) \<Rightarrow> (c # d # x, r))
                    else (case string_part s of (x, r) \<Rightarrow> (c # x, r))
        | [] \<Rightarrow> ([c], [])))"

lemma after_line_length [termination_simp]: "length (after_line s) \<le> length s"
  by (induction s) auto

lemma after_comment_length [termination_simp]: "length (after_comment s) \<le> length s"
proof (induction s rule: after_comment.induct)
  case (2 c s)
  then show ?case by (cases s) auto
qed simp

lemma string_part_append: "fst (string_part s) @ snd (string_part s) = s"
proof (induction s rule: string_part.induct)
  case (2 c s)
  show ?case
  proof (cases "c = CHR 0x22 \<or> s = []")
    case True
    then show ?thesis by auto
  next
    case False
    then obtain d s' where s: "s = d # s'" by (cases s) auto
    show ?thesis
    proof (cases "c = CHR 0x5C \<and> d = CHR 0x22")
      case True
      with 2(1)[OF _ s True] show ?thesis by (simp add: s case_prod_beta)
    next
      case F: False
      with 2(2)[OF _ s F] False show ?thesis by (auto simp: s case_prod_beta)
    qed
  qed
qed simp

lemma string_part_length: "length (snd (string_part s)) \<le> length s"
  using arg_cong[OF string_part_append[of s], of length] by simp

definition blank_char :: "char \<Rightarrow> bool" where
  "blank_char c \<longleftrightarrow> c = CHR '' '' \<or> c = CHR 0x09 \<or> c = CHR 0x0D \<or> c = CHR 0x0A"

function minify_text :: "string \<Rightarrow> string" where
  "minify_text [] = []"
| "minify_text (c # s) =
     (if blank_char c then minify_text s
      else if c = CHR ''/''
      then (if s \<noteq> [] \<and> hd s = CHR ''/'' then minify_text (after_line (tl s))
            else if s \<noteq> [] \<and> hd s = CHR ''*'' then minify_text (after_comment (tl s))
            else minify_text s)
      else if c = CHR 0x22 then c # fst (string_part s) @ minify_text (snd (string_part s))
      else c # minify_text s)"
  by pat_completeness auto
termination
  by (relation "measure length")
    (auto simp: less_Suc_eq_le string_part_length intro: le_trans[OF after_line_length] le_trans[OF after_comment_length])

section \<open>In place\<close>

text \<open>The unread text \<open>s\<close> stands at \<open>i\<close> in the memory, with its terminator.\<close>

definition text_at :: "char list \<Rightarrow> nat \<Rightarrow> string \<Rightarrow> bool" where
  "text_at m i s \<longleftrightarrow> cstring s \<and> (\<exists>r. drop i m = s @ NUL # r)"

lemma text_at_bound: "text_at m i s \<Longrightarrow> i + length s < length m"
proof -
  assume "text_at m i s"
  then obtain r where "drop i m = s @ NUL # r" by (auto simp: text_at_def)
  then have "length m - i = length s + 1 + length r" by (metis length_drop length_append length_Cons add.assoc add_Suc_right plus_1_eq_Suc add.commute)
  then show ?thesis by simp
qed

lemma text_at_Nil: "text_at m i [] \<Longrightarrow> mem_get m i = Inr NUL"
  using text_at_bound[of m i "[]"] by (auto simp: text_at_def mem_get_def) (metis Cons_nth_drop_Suc list.inject)

lemma text_at_Cons:
  assumes "text_at m i (c # s)"
  shows "mem_get m i = Inr c" "m ! i = c" "text_at m (i + 1) s" "c \<noteq> NUL"
proof -
  obtain r where r: "drop i m = c # s @ NUL # r" and "cstring (c # s)" using assms by (auto simp: text_at_def)
  moreover have "i < length m" using text_at_bound[OF assms] by simp
  moreover from this r have "m ! i = c" "drop (i + 1) m = s @ NUL # r" by (metis Cons_nth_drop_Suc list.inject Suc_eq_plus1)+
  ultimately show "mem_get m i = Inr c" "m ! i = c" "text_at m (i + 1) s" "c \<noteq> NUL"
    by (auto simp: mem_get_def text_at_def cstring_def)
qed

lemma text_at_put: "text_at m i s \<Longrightarrow> j < i \<Longrightarrow> text_at (m[j := c]) i s"
  by (simp add: text_at_def)

lemma text_at_get: "text_at m i s \<Longrightarrow> mem_get m i = Inr (if s = [] then NUL else hd s)"
  by (cases s) (auto dest: text_at_Nil text_at_Cons)

lemma oneline_at: "text_at m i s \<Longrightarrow> \<exists>i'. oneline_loop m i = Inr i' \<and> i \<le> i' \<and> text_at m i' (after_line s)"
proof (induction s arbitrary: i)
  case Nil
  then show ?case by (subst oneline_loop.simps) (simp add: text_at_Nil)
next
  case (Cons c s)
  note c = text_at_Cons[OF Cons.prems]
  show ?case
  proof (cases "c = CHR 0x0A")
    case True
    then show ?thesis using c by (subst oneline_loop.simps) simp
  next
    case False
    obtain i' where "oneline_loop m (i + 1) = Inr i'" "i + 1 \<le> i'" "text_at m i' (after_line s)" using Cons.IH[OF c(3)] by blast
    then show ?thesis using c False by (subst oneline_loop.simps) simp
  qed
qed

lemma multiline_at: "text_at m i s \<Longrightarrow> \<exists>i'. multiline_loop m i = Inr i' \<and> i \<le> i' \<and> text_at m i' (after_comment s)"
proof (induction s arbitrary: i)
  case Nil
  then show ?case by (subst multiline_loop.simps) (simp add: text_at_Nil)
next
  case (Cons c s)
  note c = text_at_Cons[OF Cons.prems]
  obtain i' where ih: "multiline_loop m (i + 1) = Inr i'" "i + 1 \<le> i'" "text_at m i' (after_comment s)" using Cons.IH[OF c(3)] by blast
  show ?case
  proof (cases "c = CHR ''*'' \<and> s \<noteq> [] \<and> hd s = CHR ''/''")
    case True
    then have "s = CHR ''/'' # tl s" by (cases s) auto
    with c(3) have "text_at m (i + 1) (CHR ''/'' # tl s)" by metis
    then have "text_at m (i + 2) (tl s)" using text_at_Cons(3)[of m "i + 1"] by (simp add: numeral_2_eq_2)
    then show ?thesis using True c text_at_get[OF c(3)] by (subst multiline_loop.simps) simp
  next
    case False
    then have "multiline_loop m i = multiline_loop m (i + 1)"
      using c text_at_get[OF c(3)] by (subst multiline_loop.simps) auto
    then show ?thesis using ih False by (auto simp del: after_comment.simps simp: after_comment.simps(2))
  qed
qed

text \<open>The output so far is \<open>out\<close>.\<close>

definition written :: "char list \<Rightarrow> nat \<Rightarrow> string \<Rightarrow> bool" where
  "written m j out \<longleftrightarrow> j \<le> length m \<and> take j m = out"

lemma written_put: "written m j out \<Longrightarrow> j < length m \<Longrightarrow> mem_put j c m = Inr (m[j := c]) \<and> written (m[j := c]) (j + 1) (out @ [c])"
  by (simp add: written_def mem_put_def take_Suc_conv_app_nth)

lemma string_at:
  "text_at m i s \<Longrightarrow> written m j out \<Longrightarrow> j \<le> i \<Longrightarrow>
    \<exists>m' i' j'. string_loop m i j = Inr (m', i', j') \<and> length m' = length m \<and> j' \<le> i' \<and> text_at m' i' (snd (string_part s)) \<and>
      written m' j' (out @ fst (string_part s))"
proof (induction s arbitrary: m i j out rule: string_part.induct)
  case 1
  then show ?case by (subst string_loop.simps) (simp add: text_at_Nil)
next
  case (2 c s)
  note c = text_at_Cons[OF "2.prems"(1)]
  have len: "i < length m" using text_at_bound[OF "2.prems"(1)] by simp
  then have jl: "j < length m" using "2.prems"(3) by simp
  let ?m = "m[j := c]"
  have p: "mem_put j c m = Inr ?m" "written ?m (j + 1) (out @ [c])" using written_put[OF "2.prems"(2) jl] by simp_all
  have t1: "text_at ?m (i + 1) s" by (rule text_at_put[OF c(3)]) (use "2.prems"(3) in simp)
  have mi: "?m ! i = c" using c(2) len by (cases "i = j") simp_all
  have g1: "mem_get ?m (i + 1) = Inr (if s = [] then NUL else hd s)" by (rule text_at_get[OF t1])
  show ?case
  proof (cases "c = CHR 0x22")
    case True
    have "mem_put j c ?m = Inr ?m" using jl by (simp add: mem_put_def)
    then have "string_loop m i j = Inr (?m, i + 1, j + 1)" using c p(1) mi True by (subst string_loop.simps) (simp add: andthen_def)
    then show ?thesis using True t1 p(2) "2.prems"(3) by simp
  next
    case nq: False
    show ?thesis
    proof (cases s)
      case Nil
      have e: "string_loop m i j = string_loop ?m (i + 1) (j + 1)"
        using c p(1) mi nq g1 Nil by (subst string_loop.simps) auto
      have "string_loop ?m (i + 1) (j + 1) = Inr (?m, i + 1, j + 1)"
        using t1 Nil by (subst string_loop.simps) (simp add: text_at_Nil)
      then show ?thesis using e Nil t1 p(2) "2.prems"(3) nq by simp
    next
      case (Cons d s')
      show ?thesis
      proof (cases "c = CHR 0x5C \<and> d = CHR 0x22")
        case True
        let ?m2 = "?m[j + 1 := d]"
        have jl2: "j + 1 < length ?m" using text_at_bound[OF t1] Cons "2.prems"(3) by simp
        have p2: "mem_put (j + 1) d ?m = Inr ?m2" "written ?m2 (j + 2) (out @ [c, d])"
          using written_put[OF p(2) jl2, of d] by (simp_all add: numeral_2_eq_2)
        have t2: "text_at ?m2 (i + 2) s'"
          using text_at_put[OF text_at_Cons(3)[of ?m "i + 1" d s'], of "j + 1" d] t1 Cons "2.prems"(3) by (simp add: numeral_2_eq_2)
        have "string_loop m i j = string_loop ?m2 (i + 2) (j + 2)"
          using c p(1) mi nq g1 Cons True p2(1) by (subst string_loop.simps) simp
        moreover obtain m' i' j' where "string_loop ?m2 (i + 2) (j + 2) = Inr (m', i', j')" "length m' = length ?m2" "j' \<le> i'"
          "text_at m' i' (snd (string_part s'))" "written m' j' ((out @ [c, d]) @ fst (string_part s'))"
          using "2.IH"(1)[OF nq Cons True t2 p2(2)] "2.prems"(3) by auto
        ultimately show ?thesis using nq Cons True by (simp add: case_prod_beta)
      next
        case False
        have "string_loop m i j = string_loop ?m (i + 1) (j + 1)"
          using c p(1) mi nq g1 Cons False by (subst string_loop.simps) auto
        moreover obtain m' i' j' where "string_loop ?m (i + 1) (j + 1) = Inr (m', i', j')" "length m' = length ?m" "j' \<le> i'"
          "text_at m' i' (snd (string_part s))" "written m' j' ((out @ [c]) @ fst (string_part s))"
          using "2.IH"(2)[OF nq Cons False t1 p(2)] "2.prems"(3) by auto
        moreover have "string_part (c # s) = (c # fst (string_part s), snd (string_part s))"
          using nq False by (auto simp: Cons case_prod_beta)
        ultimately show ?thesis by simp
      qed
    qed
  qed
qed

lemma minify_at:
  "text_at m i s \<Longrightarrow> written m j out \<Longrightarrow> j \<le> i \<Longrightarrow>
    \<exists>m' j'. minify_loop m i j = Inr (m', j') \<and> length m' = length m \<and> j' < length m' \<and> written m' j' (out @ minify_text s)"
proof (induction s arbitrary: m i j out rule: minify_text.induct)
  case 1
  then show ?case using text_at_bound[OF "1"(1)] by (subst minify_loop.simps) (simp add: text_at_Nil)
next
  case (2 c s)
  note c = text_at_Cons[OF "2.prems"(1)]
  have jl: "j < length m" using text_at_bound[OF "2.prems"(1)] "2.prems"(3) by simp
  have g1: "mem_get m (i + 1) = Inr (if s = [] then NUL else hd s)" by (rule text_at_get[OF c(3)])
  have step: "text_at m (i + 2) (tl s)" if "s \<noteq> []"
    using text_at_Cons(3)[of m "i + 1" "hd s" "tl s"] c(3) that by (simp add: numeral_2_eq_2)
  show ?case
  proof (cases "blank_char c")
    case True
    then have "minify_loop m i j = minify_loop m (i + 1) j" using c by (subst minify_loop.simps) (auto simp: blank_char_def)
    then show ?thesis using "2.IH"(1)[OF True c(3) "2.prems"(2)] "2.prems"(3) True by simp
  next
    case nb: False
    then have b: "\<not> (c = CHR '' '' \<or> c = CHR 0x09 \<or> c = CHR 0x0D \<or> c = CHR 0x0A)" by (simp add: blank_char_def)
    show ?thesis
    proof (cases "c = CHR ''/''")
      case sl: True
      show ?thesis
      proof (cases "s \<noteq> [] \<and> hd s = CHR ''/''")
        case True
        obtain i' where i': "oneline_loop m (i + 2) = Inr i'" "i + 2 \<le> i'" "text_at m i' (after_line (tl s))"
          using oneline_at[OF step] True by blast
        have "minify_loop m i j = minify_loop m i' j"
          using c b sl True g1 i'(1) by (subst minify_loop.simps) (simp add: skip_oneline_comment_def)
        then show ?thesis using "2.IH"(2)[OF nb sl True i'(3) "2.prems"(2)] "2.prems"(3) i'(2) nb sl True by simp
      next
        case n1: False
        show ?thesis
        proof (cases "s \<noteq> [] \<and> hd s = CHR ''*''")
          case True
          obtain i' where i': "multiline_loop m (i + 2) = Inr i'" "i + 2 \<le> i'" "text_at m i' (after_comment (tl s))"
            using multiline_at[OF step] True by blast
          have "minify_loop m i j = minify_loop m i' j"
            using c b sl True g1 i'(1) by (subst minify_loop.simps) (simp add: skip_multiline_comment_def)
          then show ?thesis using "2.IH"(3)[OF nb sl n1 True i'(3) "2.prems"(2)] "2.prems"(3) i'(2) nb sl True n1 by simp
        next
          case False
          have "minify_loop m i j = minify_loop m (i + 1) j"
            using c b sl False n1 g1 by (subst minify_loop.simps) auto
          then show ?thesis using "2.IH"(4)[OF nb sl n1 False c(3) "2.prems"(2)] "2.prems"(3) nb sl False n1 by auto
        qed
      qed
    next
      case ns: False
      show ?thesis
      proof (cases "c = CHR 0x22")
        case True
        let ?m = "m[j := c]"
        have p: "mem_put j c m = Inr ?m" "written ?m (j + 1) (out @ [c])" using written_put[OF "2.prems"(2) jl] by simp_all
        have t1: "text_at ?m (i + 1) s" by (rule text_at_put[OF c(3)]) (use "2.prems"(3) in simp)
        obtain m' i' j' where l: "string_loop ?m (i + 1) (j + 1) = Inr (m', i', j')" "length m' = length ?m" "j' \<le> i'"
          "text_at m' i' (snd (string_part s))" "written m' j' ((out @ [c]) @ fst (string_part s))"
          using string_at[OF t1 p(2)] "2.prems"(3) by auto
        have "minify_loop m i j = minify_loop m' i' j'"
          using c b ns True p(1) l(1) by (subst minify_loop.simps) (simp add: minify_string_def andthen_def)
        then show ?thesis using "2.IH"(5)[OF nb ns True l(4,5,3)] l(2) nb ns True by simp
      next
        case False
        let ?m = "m[j := c]"
        have p: "mem_put j c m = Inr ?m" "written ?m (j + 1) (out @ [c])" using written_put[OF "2.prems"(2) jl] by simp_all
        have t1: "text_at ?m (i + 1) s" by (rule text_at_put[OF c(3)]) (use "2.prems"(3) in simp)
        have "minify_loop m i j = minify_loop ?m (i + 1) (j + 1)"
          using c b ns False p(1) by (subst minify_loop.simps) simp
        then show ?thesis using "2.IH"(6)[OF nb ns False t1 p(2)] "2.prems"(3) nb ns False by simp
      qed
    qed
  qed
qed

lemma string_part_set: "set (fst (string_part s)) \<subseteq> set s" "set (snd (string_part s)) \<subseteq> set s"
  using arg_cong[OF string_part_append[of s], of set] by auto

lemma after_line_set: "set (after_line s) \<subseteq> set s"
  by (induction s) auto

lemma after_comment_set: "set (after_comment s) \<subseteq> set s"
proof (induction s)
  case (Cons c s)
  then show ?case by (cases s) auto
qed simp

lemma minify_text_set: "set (minify_text s) \<subseteq> set s"
proof (induction s rule: minify_text.induct)
  case (2 c s)
  have tl: "set (tl s) \<subseteq> set s" by (cases s) auto
  show ?case
  proof (cases "blank_char c \<or> c \<noteq> CHR ''/'' \<and> c \<noteq> CHR 0x22")
    case True
    then show ?thesis using "2.IH"(1,6) by (cases "blank_char c") auto
  next
    case False
    then have nb: "\<not> blank_char c" by simp
    show ?thesis
    proof (cases "c = CHR 0x22")
      case True
      then have "set (minify_text (snd (string_part s))) \<subseteq> set s" using "2.IH"(5)[OF nb] string_part_set(2)[of s] by force
      then show ?thesis using True nb string_part_set(1)[of s] by auto
    next
      case F: False
      with False have c: "c = CHR ''/''" by simp
      have "set (minify_text (after_line (tl s))) \<subseteq> set s" if "s \<noteq> [] \<and> hd s = CHR ''/''"
        using "2.IH"(2)[OF nb c that] after_line_set[of "tl s"] tl by blast
      moreover have "set (minify_text (after_comment (tl s))) \<subseteq> set s" if "\<not> (s \<noteq> [] \<and> hd s = CHR ''/'')" "s \<noteq> [] \<and> hd s = CHR ''*''"
        using "2.IH"(3)[OF nb c that] after_comment_set[of "tl s"] tl by blast
      moreover have "set (minify_text s) \<subseteq> set s" if "\<not> (s \<noteq> [] \<and> hd s = CHR ''/'')" "\<not> (s \<noteq> [] \<and> hd s = CHR ''*'')"
        using "2.IH"(4)[OF nb c that] .
      ultimately show ?thesis using nb c by auto
    qed
  qed
qed simp

lemma minify_run:
  assumes "cstring s"
  shows "\<exists>m'. cJSON_Minify (Some (s @ NUL # r)) = Inr (Some m') \<and> length m' = length (s @ NUL # r) \<and> cstr m' = minify_text s"
proof -
  let ?m = "s @ NUL # r"
  have "text_at ?m 0 s" "written ?m 0 []" using assms by (auto simp: text_at_def written_def)
  from minify_at[OF this] obtain m' j where j: "minify_loop ?m 0 0 = Inr (m', j)" "length m' = length ?m" "j < length m'"
    "written m' j (minify_text s)" by auto
  have "m'[j := NUL] = minify_text s @ NUL # drop (j + 1) m'" using j(3,4) by (simp add: written_def upd_conv_take_nth_drop)
  moreover have "cstring (minify_text s)" using minify_text_set[of s] assms by (auto simp: cstring_def)
  ultimately have "cstr (m'[j := NUL]) = minify_text s" using cstr_append[of "minify_text s" "NUL # drop (j + 1) m'"] by (simp add: cstr_def)
  then show ?thesis using j by (simp add: cJSON_Minify_def andthen_def mem_put_def)
qed

section \<open>Minifying what was printed\<close>

text \<open>A string that does not end in a backslash is passed over as a whole.\<close>

definition plain_end :: "string \<Rightarrow> bool" where
  "plain_end s \<longleftrightarrow> s = [] \<or> last s \<noteq> CHR 0x5C"

lemma string_part_other:
  "c \<noteq> CHR 0x22 \<Longrightarrow> c \<noteq> CHR 0x5C \<Longrightarrow> s \<noteq> [] \<Longrightarrow> string_part (c # s) = (c # fst (string_part s), snd (string_part s))"
  by (cases s) (simp_all add: case_prod_beta)

lemma string_part_backslash:
  "d \<noteq> CHR 0x22 \<Longrightarrow> string_part (CHR 0x5C # d # s) = (CHR 0x5C # fst (string_part (d # s)), snd (string_part (d # s)))"
  by (simp add: case_prod_beta)

lemma hex_char_unquoted: "n < 16 \<Longrightarrow> hex_char n \<noteq> CHR 0x22 \<and> hex_char n \<noteq> CHR 0x5C"
proof -
  assume n: "n < 16"
  have "(of_char (hex_char n) :: nat) = (if n < 10 then 48 + n else 87 + n)" using n by (simp add: hex_char_def)
  then show ?thesis using n by (auto split: if_splits)
qed

lemma quote_char_shape:
  obtains "quote_char c = [c]" "c \<noteq> CHR 0x22" "c \<noteq> CHR 0x5C"
  | "quote_char c = [CHR 0x5C, CHR 0x22]"
  | "quote_char c = [CHR 0x5C, CHR 0x5C]" "c = CHR 0x5C"
  | e es where "quote_char c = CHR 0x5C # e # es" "list_all (\<lambda>x. x \<noteq> CHR 0x22 \<and> x \<noteq> CHR 0x5C) (e # es)"
proof (cases "31 < (of_char c :: nat) \<and> c \<noteq> CHR 0x22 \<and> c \<noteq> CHR 0x5C")
  case True
  then show ?thesis using that(1) by (simp add: quote_char_def)
next
  case F: False
  show ?thesis
  proof (cases "short_escape c")
    case None
    then have "c \<noteq> CHR 0x22" "c \<noteq> CHR 0x5C" by (auto simp: short_escape_def)
    then have "(of_char c :: nat) < 32" using F by simp
    then have "of_char c div 16 < (16 :: nat)" "of_char c mod 16 < (16 :: nat)" by simp_all
    then have "list_all (\<lambda>x. x \<noteq> CHR 0x22 \<and> x \<noteq> CHR 0x5C) (u_escape c)" using hex_char_unquoted by (simp add: u_escape_def Let_def)
    moreover obtain e es where "u_escape c = e # es" by (simp add: u_escape_def Let_def)
    ultimately show ?thesis using that(4)[of e es] F None by (auto simp: quote_char_def)
  next
    case (Some e)
    then show ?thesis using that(2,3) that(4)[of e "[]"] F by (auto simp: quote_char_def short_escape_def split: if_splits)
  qed
qed

lemma quoted_hd: "hd (concat (map quote_char (c # t)) @ s) \<noteq> CHR 0x22" "concat (map quote_char (c # t)) @ s \<noteq> []"
  by (cases c rule: quote_char_shape; simp)+

lemma string_part_others:
  "list_all (\<lambda>x. x \<noteq> CHR 0x22 \<and> x \<noteq> CHR 0x5C) xs \<Longrightarrow> s \<noteq> [] \<Longrightarrow> string_part (xs @ s) = (xs @ fst (string_part s), snd (string_part s))"
  by (induction xs) (simp_all add: string_part_other del: string_part.simps)

lemma string_part_quoted:
  "plain_end t \<Longrightarrow> string_part (concat (map quote_char t) @ CHR 0x22 # r) = (concat (map quote_char t) @ [CHR 0x22], r)"
proof (induction t)
  case (Cons c t)
  have pe: "plain_end t" using Cons.prems by (auto simp: plain_end_def split: if_splits)
  let ?s = "concat (map quote_char t) @ CHR 0x22 # r"
  have s: "?s \<noteq> []" "fst (string_part ?s) = concat (map quote_char t) @ [CHR 0x22]" "snd (string_part ?s) = r" using Cons.IH[OF pe] by simp_all
  show ?case
  proof (cases c rule: quote_char_shape)
    case 1
    then show ?thesis using s string_part_other[of c ?s] by (simp del: string_part.simps)
  next
    case 2
    have "string_part (CHR 0x5C # CHR 0x22 # ?s) = (CHR 0x5C # CHR 0x22 # fst (string_part ?s), snd (string_part ?s))"
      by (simp add: case_prod_beta)
    then show ?thesis using 2 s by (simp del: string_part.simps)
  next
    case 3
    then obtain d t' where t: "t = d # t'" using Cons.prems by (cases t) (auto simp: plain_end_def)
    then have "hd ?s \<noteq> CHR 0x22" using quoted_hd(1) by metis
    then obtain x xs where x: "?s = x # xs" "x \<noteq> CHR 0x22" using s(1) by (cases ?s) auto
    have "string_part (CHR 0x5C # CHR 0x5C # ?s) = (CHR 0x5C # CHR 0x5C # fst (string_part ?s), snd (string_part ?s))"
      unfolding x(1) using string_part_backslash[OF x(2), of xs] string_part_backslash[of "CHR 0x5C" "x # xs"]
      by (simp del: string_part.simps)
    then show ?thesis using 3 s by (simp del: string_part.simps)
  next
    case (4 e es)
    have "string_part (CHR 0x5C # (e # es) @ ?s) = (CHR 0x5C # fst (string_part ((e # es) @ ?s)), snd (string_part ((e # es) @ ?s)))"
      using string_part_backslash[of e "es @ ?s"] 4(2) by (simp del: string_part.simps)
    then show ?thesis using 4(1) s string_part_others[OF 4(2) s(1)] by (simp del: string_part.simps)
  qed
qed simp

text \<open>Items with such strings, without raw texts, and with numbers printed as numbers.\<close>

fun minifiable :: "'d json_env \<Rightarrow> 'd cJSON \<Rightarrow> bool" where
  "minifiable E (Item ty vs vi vd key ch) =
     (ty AND 0xFF \<noteq> cJSON_Raw \<and> pred_option plain_end vs \<and> pred_option plain_end key \<and>
      (ty AND 0xFF = cJSON_Number \<longrightarrow> list_all number_char (number_text E (Item ty vs vi vd key ch))) \<and>
      list_all (minifiable E) ch)"

lemma minify_quoted: "pred_option plain_end t \<Longrightarrow> minify_text (quote_text t @ r) = quote_text t @ minify_text r"
  using string_part_quoted[of "case t of None \<Rightarrow> [] | Some u \<Rightarrow> u" r]
  by (cases t) (simp_all add: quote_text_def blank_char_def plain_end_def)

lemma minify_blank: "blank_char c \<Longrightarrow> minify_text (c # r) = minify_text r"
  by simp

lemma minify_other: "\<not> blank_char c \<Longrightarrow> c \<noteq> CHR ''/'' \<Longrightarrow> c \<noteq> CHR 0x22 \<Longrightarrow> minify_text (c # r) = c # minify_text r"
  by simp

lemma minify_number: "list_all number_char xs \<Longrightarrow> minify_text (xs @ r) = xs @ minify_text r"
proof (induction xs)
  case (Cons x xs)
  then have x: "\<not> blank_char x" "x \<noteq> CHR ''/''" "x \<noteq> CHR 0x22" by (auto simp: number_char_def blank_char_def is_digit_def)
  then show ?case using Cons by simp
qed simp

lemma minify_tabs: "minify_text (tabs fmt d @ r) = minify_text r"
  by (cases fmt) (induction d, simp_all add: tabs_def blank_char_def)

text \<open>\<open>X\<close> is a formatted text, \<open>Y\<close> the same without blanks.\<close>

definition mini :: "string option \<Rightarrow> string option \<Rightarrow> bool" where
  "mini X Y \<longleftrightarrow> (case X of None \<Rightarrow> True | Some s \<Rightarrow> \<exists>u. Y = Some u \<and> (\<forall>r. minify_text (s @ r) = u @ minify_text r))"

lemma mini_None [simp]: "mini None Y"
  by (simp add: mini_def)

lemma mini_Some: "(\<And>r. minify_text (s @ r) = u @ minify_text r) \<Longrightarrow> mini (Some s) (Some u)"
  by (simp add: mini_def)

lemma mini_tcat: "mini a a' \<Longrightarrow> mini b b' \<Longrightarrow> mini (tcat a b) (tcat a' b')"
  by (auto simp: mini_def tcat_def split: option.splits)

lemma mini_newline: "mini a b \<Longrightarrow> mini (tcat a (Some [CHR 0x0A])) b"
  by (auto simp: mini_def tcat_def blank_char_def split: option.splits)

lemma mini_words:
  "mini (Some ''null'') (Some ''null'')" "mini (Some ''true'') (Some ''true'')" "mini (Some ''false'') (Some ''false'')"
  "mini (Some ''['') (Some ''['')" "mini (Some '']'') (Some '']'')" "mini (Some []) (Some [])"
  "mini (Some [CHR '','', CHR '' '']) (Some [CHR '',''])" "mini (Some [CHR 0x7B, CHR 0x0A]) (Some [CHR 0x7B])"
  "mini (Some [CHR '':'', CHR 0x09]) (Some [CHR '':''])" "mini (Some [CHR '','', CHR 0x0A]) (Some [CHR '',''])" "mini (Some [CHR 0x0A]) (Some [])"
  by (rule mini_Some, simp add: blank_char_def)+

lemma mini_tabs: "mini (Some (tabs True d)) (Some (tabs False d))"
  by (rule mini_Some) (simp add: minify_tabs, simp add: tabs_def)

lemma mini_close: "mini (Some (tabs True d @ [CHR 0x7D])) (Some (tabs False d @ [CHR 0x7D]))"
  by (rule mini_Some) (simp add: minify_tabs, simp add: tabs_def blank_char_def)

lemma mini_quoted: "pred_option plain_end t \<Longrightarrow> mini (Some (quote_text t)) (Some (quote_text t))"
  by (rule mini_Some) (rule minify_quoted)

lemma mini_number: "list_all number_char s \<Longrightarrow> mini (Some s) (Some s)"
  by (rule mini_Some) (rule minify_number)

lemma mini_printed:
  "minifiable E t \<Longrightarrow> mini (json_text E True d t) (json_text E False d t)"
  "list_all (minifiable E) ts \<Longrightarrow> mini (elements_text E True d ts) (elements_text E False d ts)"
  "list_all (minifiable E) us \<Longrightarrow> mini (members_text E True d us) (members_text E False d us)"
proof (induction E "True" d t and E "True" d ts and E "True" d us rule: json_text_elements_text_members_text.induct)
  case (1 E d ty vs vi vd key ch)
  let ?k = "ty AND 0xFF"
  show ?case
  proof (cases "?k = cJSON_Array \<or> ?k = cJSON_Object")
    case False
    then show ?thesis using 1 by (auto simp: Let_def mini_words mini_quoted mini_number)
  next
    case True
    then have "mini (elements_text E True (d + 1) ch) (elements_text E False (d + 1) ch) \<or> CJSON_NESTING_LIMIT \<le> d \<or> ?k \<noteq> cJSON_Array"
      "mini (members_text E True (d + 1) ch) (members_text E False (d + 1) ch) \<or> CJSON_NESTING_LIMIT \<le> d \<or> ?k \<noteq> cJSON_Object"
      using 1 by auto
    then show ?thesis using True by (auto simp: Let_def intro!: mini_tcat mini_words mini_close)
  qed
next
  case (2 E d)
  then show ?case by (simp add: mini_words)
next
  case (3 E d c cs)
  then show ?case by (auto intro!: mini_tcat mini_words)
next
  case (4 E d)
  then show ?case by (simp add: mini_words)
next
  case (5 E d c cs)
  have "pred_option plain_end (item_string c)" using "5.prems" by (cases c) simp
  with 5 show ?case by (auto intro!: mini_newline mini_tcat mini_words mini_tabs mini_quoted)
qed

section \<open>Properties: minifying\<close>

text \<open>Minifying in place is minifying the text. For any text in memory, with anything behind its terminator, the
  call returns, reads and writes only that memory, which keeps its size, and leaves there, terminated, the text with blanks and comments
  outside strings removed and everything else in order. Comments and strings may be unterminated.\<close>

theorem minify_exact:
  assumes "cstring s"
  shows "\<exists>m'. cJSON_Minify (Some (s @ NUL # r)) = Inr (Some m') \<and> length m' = length (s @ NUL # r) \<and> cstr m' = minify_text s"
  by (rule minify_run[OF assms])


text \<open>Where a string ends in a backslash, the end is taken for an escaped quote, and the blanks of the next string are lost.\<close>

theorem minify_loses_blanks:
  "minify_text ([CHR 0x22, CHR 0x5C, CHR 0x5C, CHR 0x22] @ '','' @ [CHR 0x22] @ ''a b'' @ [CHR 0x22]) =
    [CHR 0x22, CHR 0x5C, CHR 0x5C, CHR 0x22] @ '','' @ [CHR 0x22] @ ''ab'' @ [CHR 0x22]"
  by (simp add: blank_char_def)

theorem minify_exact_witness:
  "\<exists>m'. cJSON_Minify (Some (''[1 /* x */ , 2]'' @ [NUL])) = Inr (Some m') \<and> length m' = length (''[1 /* x */ , 2]'' @ [NUL]) \<and> cstr m' = ''[1,2]''"
  using minify_exact[of "''[1 /* x */ , 2]''" "[]"] by (simp add: cstring_def blank_char_def)


end
