(* ===== verification/Cjson_List.thy ===== *)
theory Cjson_List
  imports Cjson
begin

text \<open>
  The linked items of \<open>src/src/cJSON.c\<close>: arrays and objects as the code keeps them, with the links \<open>next\<close>, \<open>prev\<close> and
  \<open>child\<close> between nodes of a heap. The first child's \<open>prev\<close> is the last child, so that appending needs no walk.

  A pointer is the address of a node or NULL. Addresses are never used twice, so that an access to a freed node is always seen; it is
  a fault, as are an access through NULL and a walk or recursion that does not end. Such a walk is
  cut off after more steps than there are addresses. Strings are values: of the memory of keys and values only
  the success of its allocation is modelled.
\<close>

section \<open>Nodes\<close>

type_synonym ptr = "nat option"

record 'd node =
  j_next :: ptr
  j_prev :: ptr
  j_child :: ptr
  j_type :: nat
  j_valuestring :: "string option"
  j_valueint :: int
  j_valuedouble :: 'd
  j_string :: "string option"

record 'd heap =
  nodes :: "nat \<Rightarrow> 'd node option"
  top :: nat
  allocs :: nat

datatype link_fault = NullLink | Freed | NoEnd

section \<open>Steps on the heap\<close>

definition return :: "'a \<Rightarrow> 's \<Rightarrow> 'e + 'a \<times> 's" where
  "return x s = Inr (x, s)"

definition seq :: "('s \<Rightarrow> 'e + 'a \<times> 's) \<Rightarrow> ('a \<Rightarrow> 's \<Rightarrow> 'e + 'b \<times> 's) \<Rightarrow> 's \<Rightarrow> 'e + 'b \<times> 's" where
  "seq m f s = (case m s of Inl e \<Rightarrow> Inl e | Inr (x, s') \<Rightarrow> f x s')"

definition only_if :: "bool \<Rightarrow> ('s \<Rightarrow> 'e + unit \<times> 's) \<Rightarrow> 's \<Rightarrow> 'e + unit \<times> 's" where
  "only_if b m = (if b then m else return ())"

definition load :: "ptr \<Rightarrow> 'd heap \<Rightarrow> link_fault + 'd node \<times> 'd heap" where
  "load p h = (case p of None \<Rightarrow> Inl NullLink
     | Some a \<Rightarrow> (case nodes h a of None \<Rightarrow> Inl Freed | Some n \<Rightarrow> Inr (n, h)))"

definition store :: "ptr \<Rightarrow> ('d node \<Rightarrow> 'd node) \<Rightarrow> 'd heap \<Rightarrow> link_fault + unit \<times> 'd heap" where
  "store p f h = (case p of None \<Rightarrow> Inl NullLink
     | Some a \<Rightarrow> (case nodes h a of None \<Rightarrow> Inl Freed | Some n \<Rightarrow> Inr ((), h\<lparr>nodes := (nodes h)(a := Some (f n))\<rparr>)))"

abbreviation set_next :: "ptr \<Rightarrow> ptr \<Rightarrow> 'd heap \<Rightarrow> link_fault + unit \<times> 'd heap" where
  "set_next p q \<equiv> store p (j_next_update (\<lambda>_. q))"

abbreviation set_prev :: "ptr \<Rightarrow> ptr \<Rightarrow> 'd heap \<Rightarrow> link_fault + unit \<times> 'd heap" where
  "set_prev p q \<equiv> store p (j_prev_update (\<lambda>_. q))"

abbreviation set_child :: "ptr \<Rightarrow> ptr \<Rightarrow> 'd heap \<Rightarrow> link_fault + unit \<times> 'd heap" where
  "set_child p q \<equiv> store p (j_child_update (\<lambda>_. q))"

definition free_node :: "nat \<Rightarrow> 'd heap \<Rightarrow> link_fault + unit \<times> 'd heap" where
  "free_node a h = (case nodes h a of None \<Rightarrow> Inl Freed | Some _ \<Rightarrow> Inr ((), h\<lparr>nodes := (nodes h)(a := None)\<rparr>))"

text \<open>The allocation of a node cleared to zero, and of a copy of a string.\<close>

definition zero_node :: "'d json_env \<Rightarrow> 'd node" where
  "zero_node E = \<lparr>j_next = None, j_prev = None, j_child = None, j_type = 0, j_valuestring = None, j_valueint = 0,
     j_valuedouble = d_of_int E 0, j_string = None\<rparr>"

definition new_item :: "'d json_env \<Rightarrow> 'd heap \<Rightarrow> link_fault + ptr \<times> 'd heap" where
  "new_item E h = (if allocate E (allocs h) 64
     then Inr (Some (top h), h\<lparr>nodes := (nodes h)(top h := Some (zero_node E)), top := top h + 1, allocs := allocs h + 1\<rparr>)
     else Inr (None, h\<lparr>allocs := allocs h + 1\<rparr>))"

definition cJSON_strdup :: "'d json_env \<Rightarrow> string \<Rightarrow> 'd heap \<Rightarrow> link_fault + string option \<times> 'd heap" where
  "cJSON_strdup E s h = Inr (if allocate E (allocs h) (length s + 1) then Some s else None, h\<lparr>allocs := allocs h + 1\<rparr>)"

section \<open>Deleting\<close>

definition is_reference :: "'d node \<Rightarrow> bool" where
  "is_reference n \<longleftrightarrow> j_type n AND cJSON_IsReference \<noteq> 0"

definition string_is_const :: "'d node \<Rightarrow> bool" where
  "string_is_const n \<longleftrightarrow> j_type n AND cJSON_StringIsConst \<noteq> 0"

fun delete_from :: "nat \<Rightarrow> ptr \<Rightarrow> 'd heap \<Rightarrow> link_fault + unit \<times> 'd heap" where
  "delete_from 0 p h = Inl NoEnd"
| "delete_from (Suc n) None h = Inr ((), h)"
| "delete_from (Suc n) (Some a) h =
     seq (load (Some a)) (\<lambda>item.
       seq (only_if (\<not> is_reference item \<and> j_child item \<noteq> None) (delete_from n (j_child item))) (\<lambda>_.
         seq (free_node a) (\<lambda>_. delete_from n (j_next item)))) h"

definition cJSON_Delete :: "ptr \<Rightarrow> 'd heap \<Rightarrow> link_fault + unit \<times> 'd heap" where
  "cJSON_Delete p h = delete_from (top h + 1) p h"

section \<open>Looking up\<close>

fun size_from :: "nat \<Rightarrow> ptr \<Rightarrow> 'd heap \<Rightarrow> link_fault + nat \<times> 'd heap" where
  "size_from 0 p h = Inl NoEnd"
| "size_from (Suc n) None h = return 0 h"
| "size_from (Suc n) (Some a) h = seq (load (Some a)) (\<lambda>c. seq (size_from n (j_next c)) (\<lambda>k. return (k + 1))) h"

definition cJSON_GetArraySize :: "ptr \<Rightarrow> 'd heap \<Rightarrow> link_fault + int \<times> 'd heap" where
  "cJSON_GetArraySize arr h =
     (if arr = None then return 0 h
      else seq (load arr) (\<lambda>a. seq (size_from (top h + 1) (j_child a)) (\<lambda>k. return (wrap32 (int k)))) h)"

fun item_from :: "nat \<Rightarrow> ptr \<Rightarrow> 'd heap \<Rightarrow> link_fault + ptr \<times> 'd heap" where
  "item_from index None = return None"
| "item_from 0 (Some a) = return (Some a)"
| "item_from (Suc index) (Some a) = seq (load (Some a)) (\<lambda>c. item_from index (j_next c))"

definition get_array_item :: "ptr \<Rightarrow> nat \<Rightarrow> 'd heap \<Rightarrow> link_fault + ptr \<times> 'd heap" where
  "get_array_item arr index =
     (if arr = None then return None else seq (load arr) (\<lambda>a. item_from index (j_child a)))"

definition cJSON_GetArrayItem :: "ptr \<Rightarrow> int \<Rightarrow> 'd heap \<Rightarrow> link_fault + ptr \<times> 'd heap" where
  "cJSON_GetArrayItem arr index = (if index < 0 then return None else get_array_item arr (nat index))"

text \<open>The search that respects case stops at a member without a key, the other passes over it.\<close>

definition key_stops :: "bool \<Rightarrow> string \<Rightarrow> string option \<Rightarrow> bool" where
  "key_stops case_sensitive name key =
     (case key of None \<Rightarrow> case_sensitive | Some k \<Rightarrow> if case_sensitive then name = k else strcaseeq name k)"

fun member_from :: "nat \<Rightarrow> bool \<Rightarrow> string \<Rightarrow> ptr \<Rightarrow> 'd heap \<Rightarrow> link_fault + ptr \<times> 'd heap" where
  "member_from 0 cs name p h = Inl NoEnd"
| "member_from (Suc n) cs name None h = return None h"
| "member_from (Suc n) cs name (Some a) h =
     seq (load (Some a)) (\<lambda>c. if key_stops cs name (j_string c) then return (Some a) else member_from n cs name (j_next c)) h"

definition get_object_item :: "ptr \<Rightarrow> string option \<Rightarrow> bool \<Rightarrow> 'd heap \<Rightarrow> link_fault + ptr \<times> 'd heap" where
  "get_object_item obj name case_sensitive h =
     (case name of None \<Rightarrow> return None h
      | Some s \<Rightarrow> if obj = None then return None h
          else seq (load obj) (\<lambda>ob. seq (member_from (top h + 1) case_sensitive s (j_child ob)) (\<lambda>p.
                 if p = None then return None
                 else seq (load p) (\<lambda>c. return (if j_string c = None then None else p)))) h)"

definition cJSON_GetObjectItem :: "ptr \<Rightarrow> string option \<Rightarrow> 'd heap \<Rightarrow> link_fault + ptr \<times> 'd heap" where
  "cJSON_GetObjectItem obj name = get_object_item obj name False"

definition cJSON_GetObjectItemCaseSensitive :: "ptr \<Rightarrow> string option \<Rightarrow> 'd heap \<Rightarrow> link_fault + ptr \<times> 'd heap" where
  "cJSON_GetObjectItemCaseSensitive obj name = get_object_item obj name True"

definition cJSON_HasObjectItem :: "ptr \<Rightarrow> string option \<Rightarrow> 'd heap \<Rightarrow> link_fault + bool \<times> 'd heap" where
  "cJSON_HasObjectItem obj name = seq (cJSON_GetObjectItem obj name) (\<lambda>p. return (p \<noteq> None))"

section \<open>Adding\<close>

text \<open>The bit \<open>cJSON_StringIsConst\<close> cleared.\<close>

definition not_const :: "nat \<Rightarrow> nat" where
  "not_const ty = ty - (ty AND cJSON_StringIsConst)"

definition suffix_object :: "ptr \<Rightarrow> ptr \<Rightarrow> 'd heap \<Rightarrow> link_fault + unit \<times> 'd heap" where
  "suffix_object pr item = seq (set_next pr item) (\<lambda>_. set_prev item pr)"

definition create_reference :: "'d json_env \<Rightarrow> ptr \<Rightarrow> 'd heap \<Rightarrow> link_fault + ptr \<times> 'd heap" where
  "create_reference E item =
     (if item = None then return None
      else seq (new_item E) (\<lambda>r.
        if r = None then return None
        else seq (load item) (\<lambda>n.
          seq (store r (\<lambda>_. n\<lparr>j_string := None, j_type := j_type n OR cJSON_IsReference, j_next := None, j_prev := None\<rparr>)) (\<lambda>_.
            return r))))"

definition add_item_to_array :: "ptr \<Rightarrow> ptr \<Rightarrow> 'd heap \<Rightarrow> link_fault + bool \<times> 'd heap" where
  "add_item_to_array arr item =
     (if item = None \<or> arr = None \<or> arr = item then return False
      else seq (load arr) (\<lambda>a.
        if j_child a = None
        then seq (set_child arr item) (\<lambda>_. seq (set_prev item item) (\<lambda>_. seq (set_next item None) (\<lambda>_. return True)))
        else seq (load (j_child a)) (\<lambda>c.
          seq (only_if (j_prev c \<noteq> None)
                (seq (suffix_object (j_prev c) item) (\<lambda>_. seq (load arr) (\<lambda>a. set_prev (j_child a) item)))) (\<lambda>_.
            return True))))"

definition cJSON_AddItemToArray :: "ptr \<Rightarrow> ptr \<Rightarrow> 'd heap \<Rightarrow> link_fault + bool \<times> 'd heap" where
  "cJSON_AddItemToArray arr item = add_item_to_array arr item"

definition add_item_to_object :: "'d json_env \<Rightarrow> ptr \<Rightarrow> string option \<Rightarrow> ptr \<Rightarrow> bool \<Rightarrow> 'd heap \<Rightarrow> link_fault + bool \<times> 'd heap" where
  "add_item_to_object E obj name item constant_key =
     (case name of None \<Rightarrow> return False
      | Some s \<Rightarrow>
          if obj = None \<or> item = None \<or> obj = item then return False
          else seq (if constant_key then return (Some s) else cJSON_strdup E s) (\<lambda>key.
            if key = None then return False
            else seq (store item (\<lambda>i. i\<lparr>j_string := key,
                j_type := if constant_key then j_type i OR cJSON_StringIsConst else not_const (j_type i)\<rparr>)) (\<lambda>_.
              add_item_to_array obj item)))"

definition cJSON_AddItemToObject :: "'d json_env \<Rightarrow> ptr \<Rightarrow> string option \<Rightarrow> ptr \<Rightarrow> 'd heap \<Rightarrow> link_fault + bool \<times> 'd heap" where
  "cJSON_AddItemToObject E obj name item = add_item_to_object E obj name item False"

definition cJSON_AddItemToObjectCS :: "'d json_env \<Rightarrow> ptr \<Rightarrow> string option \<Rightarrow> ptr \<Rightarrow> 'd heap \<Rightarrow> link_fault + bool \<times> 'd heap" where
  "cJSON_AddItemToObjectCS E obj name item = add_item_to_object E obj name item True"

definition cJSON_AddItemReferenceToArray :: "'d json_env \<Rightarrow> ptr \<Rightarrow> ptr \<Rightarrow> 'd heap \<Rightarrow> link_fault + bool \<times> 'd heap" where
  "cJSON_AddItemReferenceToArray E arr item =
     (if arr = None then return False else seq (create_reference E item) (\<lambda>r. add_item_to_array arr r))"

definition cJSON_AddItemReferenceToObject ::
  "'d json_env \<Rightarrow> ptr \<Rightarrow> string option \<Rightarrow> ptr \<Rightarrow> 'd heap \<Rightarrow> link_fault + bool \<times> 'd heap" where
  "cJSON_AddItemReferenceToObject E obj name item =
     (if obj = None \<or> name = None then return False
      else seq (create_reference E item) (\<lambda>r. add_item_to_object E obj name r False))"

section \<open>Removing, inserting, replacing\<close>

definition cJSON_DetachItemViaPointer :: "ptr \<Rightarrow> ptr \<Rightarrow> 'd heap \<Rightarrow> link_fault + ptr \<times> 'd heap" where
  "cJSON_DetachItemViaPointer parent item =
     (if parent = None \<or> item = None then return None
      else seq (load parent) (\<lambda>p. seq (load item) (\<lambda>i.
        if item \<noteq> j_child p \<and> j_prev i = None then return None
        else
          seq (only_if (item \<noteq> j_child p) (set_next (j_prev i) (j_next i))) (\<lambda>_.
          seq (load item) (\<lambda>i.
          seq (only_if (j_next i \<noteq> None) (set_prev (j_next i) (j_prev i))) (\<lambda>_.
          seq (load parent) (\<lambda>p.
          seq (load item) (\<lambda>i.
          seq (if item = j_child p then set_child parent (j_next i)
               else only_if (j_next i = None) (set_prev (j_child p) (j_prev i))) (\<lambda>_.
          seq (set_prev item None) (\<lambda>_.
          seq (set_next item None) (\<lambda>_.
          return item)))))))))))"

definition cJSON_DetachItemFromArray :: "ptr \<Rightarrow> int \<Rightarrow> 'd heap \<Rightarrow> link_fault + ptr \<times> 'd heap" where
  "cJSON_DetachItemFromArray arr which =
     (if which < 0 then return None
      else seq (get_array_item arr (nat which)) (\<lambda>item. cJSON_DetachItemViaPointer arr item))"

definition cJSON_DeleteItemFromArray :: "ptr \<Rightarrow> int \<Rightarrow> 'd heap \<Rightarrow> link_fault + unit \<times> 'd heap" where
  "cJSON_DeleteItemFromArray arr which = seq (cJSON_DetachItemFromArray arr which) cJSON_Delete"

definition cJSON_DetachItemFromObject :: "ptr \<Rightarrow> string option \<Rightarrow> 'd heap \<Rightarrow> link_fault + ptr \<times> 'd heap" where
  "cJSON_DetachItemFromObject obj name = seq (cJSON_GetObjectItem obj name) (\<lambda>item. cJSON_DetachItemViaPointer obj item)"

definition cJSON_DetachItemFromObjectCaseSensitive :: "ptr \<Rightarrow> string option \<Rightarrow> 'd heap \<Rightarrow> link_fault + ptr \<times> 'd heap" where
  "cJSON_DetachItemFromObjectCaseSensitive obj name =
     seq (cJSON_GetObjectItemCaseSensitive obj name) (\<lambda>item. cJSON_DetachItemViaPointer obj item)"

definition cJSON_DeleteItemFromObject :: "ptr \<Rightarrow> string option \<Rightarrow> 'd heap \<Rightarrow> link_fault + unit \<times> 'd heap" where
  "cJSON_DeleteItemFromObject obj name = seq (cJSON_DetachItemFromObject obj name) cJSON_Delete"

definition cJSON_DeleteItemFromObjectCaseSensitive :: "ptr \<Rightarrow> string option \<Rightarrow> 'd heap \<Rightarrow> link_fault + unit \<times> 'd heap" where
  "cJSON_DeleteItemFromObjectCaseSensitive obj name = seq (cJSON_DetachItemFromObjectCaseSensitive obj name) cJSON_Delete"

definition cJSON_InsertItemInArray :: "ptr \<Rightarrow> int \<Rightarrow> ptr \<Rightarrow> 'd heap \<Rightarrow> link_fault + bool \<times> 'd heap" where
  "cJSON_InsertItemInArray arr which newitem =
     (if which < 0 \<or> newitem = None then return False
      else seq (get_array_item arr (nat which)) (\<lambda>after.
        if after = None then add_item_to_array arr newitem
        else seq (load arr) (\<lambda>a. seq (load after) (\<lambda>f.
          if after \<noteq> j_child a \<and> j_prev f = None then return False
          else
            seq (set_next newitem after) (\<lambda>_.
            seq (load after) (\<lambda>f.
            seq (set_prev newitem (j_prev f)) (\<lambda>_.
            seq (set_prev after newitem) (\<lambda>_.
            seq (load arr) (\<lambda>a.
            seq (if after = j_child a then set_child arr newitem
                 else seq (load newitem) (\<lambda>n. set_next (j_prev n) newitem)) (\<lambda>_.
            return True))))))))))"

text \<open>\<open>exchange_links\<close> puts the replacement in the place of the item, and takes the item out.\<close>

definition exchange_links :: "ptr \<Rightarrow> ptr \<Rightarrow> ptr \<Rightarrow> 'd heap \<Rightarrow> link_fault + unit \<times> 'd heap" where
  "exchange_links parent item replacement =
     seq (load item) (\<lambda>i.
     seq (set_next replacement (j_next i)) (\<lambda>_.
     seq (set_prev replacement (j_prev i)) (\<lambda>_.
     seq (only_if (j_next i \<noteq> None) (set_prev (j_next i) replacement)) (\<lambda>_.
     seq (load parent) (\<lambda>p.
     seq (if j_child p = item
          then seq (load item) (\<lambda>c. seq (only_if (j_prev c = item) (set_prev replacement replacement)) (\<lambda>_.
                 set_child parent replacement))
          else seq (load replacement) (\<lambda>r. seq (only_if (j_prev r \<noteq> None) (set_next (j_prev r) replacement)) (\<lambda>_.
                 seq (load replacement) (\<lambda>r. only_if (j_next r = None)
                   (seq (load parent) (\<lambda>p. set_prev (j_child p) replacement)))))) (\<lambda>_.
     seq (set_next item None) (\<lambda>_.
     set_prev item None)))))))"

definition cJSON_ReplaceItemViaPointer :: "ptr \<Rightarrow> ptr \<Rightarrow> ptr \<Rightarrow> 'd heap \<Rightarrow> link_fault + bool \<times> 'd heap" where
  "cJSON_ReplaceItemViaPointer parent item replacement =
     (if parent = None then return False
      else seq (load parent) (\<lambda>p.
        if j_child p = None \<or> replacement = None \<or> item = None then return False
        else if replacement = item then return True
        else seq (exchange_links parent item replacement) (\<lambda>_. seq (cJSON_Delete item) (\<lambda>_. return True))))"

definition cJSON_ReplaceItemInArray :: "ptr \<Rightarrow> int \<Rightarrow> ptr \<Rightarrow> 'd heap \<Rightarrow> link_fault + bool \<times> 'd heap" where
  "cJSON_ReplaceItemInArray arr which newitem =
     (if which < 0 then return False
      else seq (get_array_item arr (nat which)) (\<lambda>item. cJSON_ReplaceItemViaPointer arr item newitem))"

definition replace_item_in_object ::
  "'d json_env \<Rightarrow> ptr \<Rightarrow> string option \<Rightarrow> ptr \<Rightarrow> bool \<Rightarrow> 'd heap \<Rightarrow> link_fault + bool \<times> 'd heap" where
  "replace_item_in_object E obj name replacement case_sensitive =
     (case name of None \<Rightarrow> return False
      | Some s \<Rightarrow>
          if replacement = None then return False
          else seq (cJSON_strdup E s) (\<lambda>key.
            seq (store replacement (\<lambda>r. r\<lparr>j_string := key\<rparr>)) (\<lambda>_.
              if key = None then return False
              else seq (store replacement (\<lambda>r. r\<lparr>j_type := not_const (j_type r)\<rparr>)) (\<lambda>_.
                seq (get_object_item obj name case_sensitive) (\<lambda>item.
                  cJSON_ReplaceItemViaPointer obj item replacement)))))"

definition cJSON_ReplaceItemInObject ::
  "'d json_env \<Rightarrow> ptr \<Rightarrow> string option \<Rightarrow> ptr \<Rightarrow> 'd heap \<Rightarrow> link_fault + bool \<times> 'd heap" where
  "cJSON_ReplaceItemInObject E obj name newitem = replace_item_in_object E obj name newitem False"

definition cJSON_ReplaceItemInObjectCaseSensitive ::
  "'d json_env \<Rightarrow> ptr \<Rightarrow> string option \<Rightarrow> ptr \<Rightarrow> 'd heap \<Rightarrow> link_fault + bool \<times> 'd heap" where
  "cJSON_ReplaceItemInObjectCaseSensitive E obj name newitem = replace_item_in_object E obj name newitem True"

section \<open>Creating\<close>

definition create_item :: "'d json_env \<Rightarrow> ('d node \<Rightarrow> 'd node) \<Rightarrow> 'd heap \<Rightarrow> link_fault + ptr \<times> 'd heap" where
  "create_item E f =
     seq (new_item E) (\<lambda>item. seq (only_if (item \<noteq> None) (store item f)) (\<lambda>_. return item))"

definition cJSON_CreateNull :: "'d json_env \<Rightarrow> 'd heap \<Rightarrow> link_fault + ptr \<times> 'd heap" where
  "cJSON_CreateNull E = create_item E (j_type_update (\<lambda>_. cJSON_NULL))"

definition cJSON_CreateTrue :: "'d json_env \<Rightarrow> 'd heap \<Rightarrow> link_fault + ptr \<times> 'd heap" where
  "cJSON_CreateTrue E = create_item E (j_type_update (\<lambda>_. cJSON_True))"

definition cJSON_CreateFalse :: "'d json_env \<Rightarrow> 'd heap \<Rightarrow> link_fault + ptr \<times> 'd heap" where
  "cJSON_CreateFalse E = create_item E (j_type_update (\<lambda>_. cJSON_False))"

definition cJSON_CreateBool :: "'d json_env \<Rightarrow> bool \<Rightarrow> 'd heap \<Rightarrow> link_fault + ptr \<times> 'd heap" where
  "cJSON_CreateBool E b = create_item E (j_type_update (\<lambda>_. if b then cJSON_True else cJSON_False))"

definition cJSON_CreateNumber :: "'d json_env \<Rightarrow> 'd \<Rightarrow> 'd heap \<Rightarrow> link_fault + ptr \<times> 'd heap" where
  "cJSON_CreateNumber E num =
     create_item E (\<lambda>n. n\<lparr>j_type := cJSON_Number, j_valuedouble := num, j_valueint := saturate E num\<rparr>)"

text \<open>An item with a copy of a string; the copy of NULL is NULL, as is one that cannot be allocated.\<close>

definition create_text :: "'d json_env \<Rightarrow> nat \<Rightarrow> string option \<Rightarrow> 'd heap \<Rightarrow> link_fault + ptr \<times> 'd heap" where
  "create_text E ty s =
     seq (create_item E (j_type_update (\<lambda>_. ty))) (\<lambda>item.
       if item = None then return None
       else seq (case s of None \<Rightarrow> return None | Some t \<Rightarrow> cJSON_strdup E t) (\<lambda>copy.
         seq (store item (j_valuestring_update (\<lambda>_. copy))) (\<lambda>_.
           if copy = None then seq (cJSON_Delete item) (\<lambda>_. return None) else return item)))"

definition cJSON_CreateString :: "'d json_env \<Rightarrow> string option \<Rightarrow> 'd heap \<Rightarrow> link_fault + ptr \<times> 'd heap" where
  "cJSON_CreateString E s = create_text E cJSON_String s"

definition cJSON_CreateRaw :: "'d json_env \<Rightarrow> string option \<Rightarrow> 'd heap \<Rightarrow> link_fault + ptr \<times> 'd heap" where
  "cJSON_CreateRaw E s = create_text E cJSON_Raw s"

definition cJSON_CreateStringReference :: "'d json_env \<Rightarrow> string option \<Rightarrow> 'd heap \<Rightarrow> link_fault + ptr \<times> 'd heap" where
  "cJSON_CreateStringReference E s =
     create_item E (\<lambda>n. n\<lparr>j_type := cJSON_String OR cJSON_IsReference, j_valuestring := s\<rparr>)"

definition cJSON_CreateObjectReference :: "'d json_env \<Rightarrow> ptr \<Rightarrow> 'd heap \<Rightarrow> link_fault + ptr \<times> 'd heap" where
  "cJSON_CreateObjectReference E c = create_item E (\<lambda>n. n\<lparr>j_type := cJSON_Object OR cJSON_IsReference, j_child := c\<rparr>)"

definition cJSON_CreateArrayReference :: "'d json_env \<Rightarrow> ptr \<Rightarrow> 'd heap \<Rightarrow> link_fault + ptr \<times> 'd heap" where
  "cJSON_CreateArrayReference E c = create_item E (\<lambda>n. n\<lparr>j_type := cJSON_Array OR cJSON_IsReference, j_child := c\<rparr>)"

definition cJSON_CreateArray :: "'d json_env \<Rightarrow> 'd heap \<Rightarrow> link_fault + ptr \<times> 'd heap" where
  "cJSON_CreateArray E = create_item E (j_type_update (\<lambda>_. cJSON_Array))"

definition cJSON_CreateObject :: "'d json_env \<Rightarrow> 'd heap \<Rightarrow> link_fault + ptr \<times> 'd heap" where
  "cJSON_CreateObject E = create_item E (j_type_update (\<lambda>_. cJSON_Object))"

text \<open>The loop shared by the arrays of integers, floats, doubles and strings: \<open>mk\<close> creates an element, \<open>p\<close> is the last one. The
  result is \<open>False\<close> when an element cannot be created; the array has then been deleted.\<close>

fun fill_array :: "('x \<Rightarrow> 'd heap \<Rightarrow> link_fault + ptr \<times> 'd heap) \<Rightarrow> ptr \<Rightarrow> ptr \<Rightarrow> 'x list \<Rightarrow> 'd heap \<Rightarrow> link_fault + (bool \<times> ptr) \<times> 'd heap" where
  "fill_array mk a p [] = return (True, p)"
| "fill_array mk a p (x # xs) =
     seq (mk x) (\<lambda>n.
       if n = None then seq (cJSON_Delete a) (\<lambda>_. return (False, None))
       else seq (if p = None then set_child a n else suffix_object p n) (\<lambda>_. fill_array mk a n xs))"

definition create_array_of ::
  "'d json_env \<Rightarrow> ('x \<Rightarrow> 'd heap \<Rightarrow> link_fault + ptr \<times> 'd heap) \<Rightarrow> 'x list option \<Rightarrow> 'd heap \<Rightarrow> link_fault + ptr \<times> 'd heap" where
  "create_array_of E mk xs =
     (case xs of None \<Rightarrow> return None
      | Some vs \<Rightarrow> seq (cJSON_CreateArray E) (\<lambda>a.
          if a = None then return None
          else seq (fill_array mk a None vs) (\<lambda>(ok, n).
            if \<not> ok then return None
            else seq (load a) (\<lambda>an. seq (only_if (j_child an \<noteq> None) (set_prev (j_child an) n)) (\<lambda>_. return a)))))"

text \<open>The arguments are the first \<open>count\<close> numbers; a negative count or NULL is \<open>None\<close>. Floats are given as the doubles they are.\<close>

definition cJSON_CreateIntArray :: "'d json_env \<Rightarrow> int list option \<Rightarrow> 'd heap \<Rightarrow> link_fault + ptr \<times> 'd heap" where
  "cJSON_CreateIntArray E = create_array_of E (\<lambda>i. cJSON_CreateNumber E (d_of_int E i))"

definition cJSON_CreateFloatArray :: "'d json_env \<Rightarrow> 'd list option \<Rightarrow> 'd heap \<Rightarrow> link_fault + ptr \<times> 'd heap" where
  "cJSON_CreateFloatArray E = create_array_of E (cJSON_CreateNumber E)"

definition cJSON_CreateDoubleArray :: "'d json_env \<Rightarrow> 'd list option \<Rightarrow> 'd heap \<Rightarrow> link_fault + ptr \<times> 'd heap" where
  "cJSON_CreateDoubleArray E = create_array_of E (cJSON_CreateNumber E)"

definition cJSON_CreateStringArray :: "'d json_env \<Rightarrow> string option list option \<Rightarrow> 'd heap \<Rightarrow> link_fault + ptr \<times> 'd heap" where
  "cJSON_CreateStringArray E = create_array_of E (cJSON_CreateString E)"

text \<open>\<open>cJSON_AddNullToObject\<close> and its companions: create, add, and delete again what was not added.\<close>

definition add_created ::
  "'d json_env \<Rightarrow> ptr \<Rightarrow> string option \<Rightarrow> ('d heap \<Rightarrow> link_fault + ptr \<times> 'd heap) \<Rightarrow> 'd heap \<Rightarrow> link_fault + ptr \<times> 'd heap" where
  "add_created E obj name mk =
     seq mk (\<lambda>item. seq (add_item_to_object E obj name item False) (\<lambda>ok.
       if ok then return item else seq (cJSON_Delete item) (\<lambda>_. return None)))"

definition cJSON_AddNullToObject :: "'d json_env \<Rightarrow> ptr \<Rightarrow> string option \<Rightarrow> 'd heap \<Rightarrow> link_fault + ptr \<times> 'd heap" where
  "cJSON_AddNullToObject E obj name = add_created E obj name (cJSON_CreateNull E)"

definition cJSON_AddTrueToObject :: "'d json_env \<Rightarrow> ptr \<Rightarrow> string option \<Rightarrow> 'd heap \<Rightarrow> link_fault + ptr \<times> 'd heap" where
  "cJSON_AddTrueToObject E obj name = add_created E obj name (cJSON_CreateTrue E)"

definition cJSON_AddFalseToObject :: "'d json_env \<Rightarrow> ptr \<Rightarrow> string option \<Rightarrow> 'd heap \<Rightarrow> link_fault + ptr \<times> 'd heap" where
  "cJSON_AddFalseToObject E obj name = add_created E obj name (cJSON_CreateFalse E)"

definition cJSON_AddBoolToObject :: "'d json_env \<Rightarrow> ptr \<Rightarrow> string option \<Rightarrow> bool \<Rightarrow> 'd heap \<Rightarrow> link_fault + ptr \<times> 'd heap" where
  "cJSON_AddBoolToObject E obj name b = add_created E obj name (cJSON_CreateBool E b)"

definition cJSON_AddNumberToObject :: "'d json_env \<Rightarrow> ptr \<Rightarrow> string option \<Rightarrow> 'd \<Rightarrow> 'd heap \<Rightarrow> link_fault + ptr \<times> 'd heap" where
  "cJSON_AddNumberToObject E obj name num = add_created E obj name (cJSON_CreateNumber E num)"

definition cJSON_AddStringToObject ::
  "'d json_env \<Rightarrow> ptr \<Rightarrow> string option \<Rightarrow> string option \<Rightarrow> 'd heap \<Rightarrow> link_fault + ptr \<times> 'd heap" where
  "cJSON_AddStringToObject E obj name s = add_created E obj name (cJSON_CreateString E s)"

definition cJSON_AddRawToObject ::
  "'d json_env \<Rightarrow> ptr \<Rightarrow> string option \<Rightarrow> string option \<Rightarrow> 'd heap \<Rightarrow> link_fault + ptr \<times> 'd heap" where
  "cJSON_AddRawToObject E obj name s = add_created E obj name (cJSON_CreateRaw E s)"

definition cJSON_AddObjectToObject :: "'d json_env \<Rightarrow> ptr \<Rightarrow> string option \<Rightarrow> 'd heap \<Rightarrow> link_fault + ptr \<times> 'd heap" where
  "cJSON_AddObjectToObject E obj name = add_created E obj name (cJSON_CreateObject E)"

definition cJSON_AddArrayToObject :: "'d json_env \<Rightarrow> ptr \<Rightarrow> string option \<Rightarrow> 'd heap \<Rightarrow> link_fault + ptr \<times> 'd heap" where
  "cJSON_AddArrayToObject E obj name = add_created E obj name (cJSON_CreateArray E)"

section \<open>Duplicating\<close>

text \<open>\<open>copy_node\<close> is the part of \<open>cJSON_Duplicate_rec\<close> before the children: the new node, or \<open>None\<close> after the code's \<open>fail\<close>.\<close>

definition copy_node :: "'d json_env \<Rightarrow> 'd node \<Rightarrow> 'd heap \<Rightarrow> link_fault + ptr \<times> 'd heap" where
  "copy_node E item =
     seq (new_item E) (\<lambda>new.
       if new = None then return None
       else seq (store new (\<lambda>n. n\<lparr>j_type := j_type item - (j_type item AND cJSON_IsReference),
               j_valueint := j_valueint item, j_valuedouble := j_valuedouble item\<rparr>)) (\<lambda>_.
         seq (case j_valuestring item of None \<Rightarrow> return (True, None)
              | Some s \<Rightarrow> seq (cJSON_strdup E s) (\<lambda>c. return (c \<noteq> None, c))) (\<lambda>(ok, vs).
           if \<not> ok then seq (cJSON_Delete new) (\<lambda>_. return None)
           else seq (store new (j_valuestring_update (\<lambda>_. vs))) (\<lambda>_.
             seq (case j_string item of None \<Rightarrow> return (True, None)
                  | Some s \<Rightarrow> if string_is_const item then return (True, Some s)
                              else seq (cJSON_strdup E s) (\<lambda>c. return (c \<noteq> None, c))) (\<lambda>(ok, key).
               if \<not> ok then seq (cJSON_Delete new) (\<lambda>_. return None)
               else seq (store new (j_string_update (\<lambda>_. key))) (\<lambda>_. return new))))))"

definition CJSON_CIRCULAR_LIMIT :: nat where
  "CJSON_CIRCULAR_LIMIT = 10000"

text \<open>The first argument is a fuel. In \<open>duplicate_children\<close>, \<open>latest\<close> is the source's \<open>next\<close>, the copy of the previous child.\<close>

fun duplicate_rec :: "'d json_env \<Rightarrow> nat \<Rightarrow> ptr \<Rightarrow> nat \<Rightarrow> bool \<Rightarrow> 'd heap \<Rightarrow> link_fault + ptr \<times> 'd heap"
and duplicate_children :: "'d json_env \<Rightarrow> nat \<Rightarrow> ptr \<Rightarrow> nat \<Rightarrow> ptr \<Rightarrow> ptr \<Rightarrow> 'd heap \<Rightarrow> link_fault + ptr \<times> 'd heap" where
  "duplicate_rec E 0 p depth recurse h = Inl NoEnd"
| "duplicate_rec E (Suc n) None depth recurse h = return None h"
| "duplicate_rec E (Suc n) (Some a) depth recurse h =
     seq (load (Some a)) (\<lambda>item. seq (copy_node E item) (\<lambda>new.
       if new = None \<or> \<not> recurse then return new
       else duplicate_children E n (j_child item) depth new None)) h"
| "duplicate_children E 0 c depth new latest h = Inl NoEnd"
| "duplicate_children E (Suc n) None depth new latest h =
     seq (load new) (\<lambda>nn. seq (only_if (j_child nn \<noteq> None) (set_prev (j_child nn) latest)) (\<lambda>_. return new)) h"
| "duplicate_children E (Suc n) (Some c) depth new latest h =
     (if CJSON_CIRCULAR_LIMIT \<le> depth then seq (cJSON_Delete new) (\<lambda>_. return None) h
      else seq (duplicate_rec E n (Some c) (depth + 1) True) (\<lambda>newchild.
        if newchild = None then seq (cJSON_Delete new) (\<lambda>_. return None)
        else seq (if latest \<noteq> None then suffix_object latest newchild else set_child new newchild) (\<lambda>_.
          seq (load (Some c)) (\<lambda>cn. duplicate_children E n (j_next cn) depth new newchild))) h)"

definition cJSON_Duplicate :: "'d json_env \<Rightarrow> ptr \<Rightarrow> bool \<Rightarrow> 'd heap \<Rightarrow> link_fault + ptr \<times> 'd heap" where
  "cJSON_Duplicate E p recurse h = duplicate_rec E (2 * top h + 2) p 0 recurse h"

end
