(* ===== verification/Cjson_List_Laws.thy ===== *)
theory Cjson_List_Laws
  imports Cjson_List
begin

text \<open>
  The links of an array or object represent a list of addresses, and the operations of \<open>Cjson_List\<close> on it are the operations on lists;
  deleting frees the nodes of a tree once each.
\<close>

section \<open>Running steps\<close>

lemma seq_simps [simp]:
  "seq (return x) f h = f x h"
  "nodes h a = Some n \<Longrightarrow> seq (load (Some a)) g h = g n h"
  "nodes h a = Some n \<Longrightarrow> seq (store (Some a) u) g' h = g' () (h\<lparr>nodes := (nodes h)(a := Some (u n))\<rparr>)"
  "seq (only_if b m) k h = (if b then seq m k h else k () h)"
  "seq (seq m1 f1) f2 h = seq m1 (\<lambda>x. seq (f1 x) f2) h"
  by (auto simp: seq_def return_def load_def store_def only_if_def split: sum.splits)

lemma seq_if: "seq (if b then m else m') f h = (if b then seq m f h else seq m' f h)"
  by simp

lemma step_simps [simp]:
  "return x h = Inr (x, h)"
  "nodes h a = Some n \<Longrightarrow> load (Some a) h = Inr (n, h)"
  "nodes h a = Some n \<Longrightarrow> store (Some a) u h = Inr ((), h\<lparr>nodes := (nodes h)(a := Some (u n))\<rparr>)"
  by (simp_all add: return_def load_def store_def)

lemma seq_Inr: "m h = Inr (x, h') \<Longrightarrow> seq m f h = f x h'"
  by (simp add: seq_def)

section \<open>Lists of nodes\<close>

definition first :: "nat list \<Rightarrow> ptr" where
  "first ps = (case ps of [] \<Rightarrow> None | x # _ \<Rightarrow> Some x)"

text \<open>The nodes \<open>ps\<close> are linked both ways, between \<open>pv\<close> before the first and \<open>nx\<close> after the last.\<close>

fun links :: "'d heap \<Rightarrow> nat \<Rightarrow> nat list \<Rightarrow> ptr \<Rightarrow> bool" where
  "links h pv [] nx = True"
| "links h pv (x # xs) nx =
     ((\<exists>n. nodes h x = Some n \<and> j_prev n = Some pv \<and> j_next n = (if xs = [] then nx else Some (hd xs))) \<and> links h x xs nx)"

definition array_at :: "'d heap \<Rightarrow> nat \<Rightarrow> nat list \<Rightarrow> bool" where
  "array_at h a ps \<longleftrightarrow> (\<exists>n. nodes h a = Some n \<and> j_child n = first ps) \<and> distinct (a # ps) \<and> (ps \<noteq> [] \<longrightarrow> links h (last ps) ps None)"

definition loose :: "'d heap \<Rightarrow> nat \<Rightarrow> bool" where
  "loose h x \<longleftrightarrow> (\<exists>n. nodes h x = Some n \<and> j_next n = None)"

lemma first_simps [simp]: "first [] = None" "first (x # xs) = Some x" "first ps = None \<longleftrightarrow> ps = []"
  by (simp_all add: first_def split: list.split)

lemma first_append: "first (xs @ ys) = (if xs = [] then first ys else first xs)"
  by (cases xs) simp_all

lemma links_append:
  "links h pv (xs @ ys) nx \<longleftrightarrow> links h pv xs (if ys = [] then nx else Some (hd ys)) \<and> links h (if xs = [] then pv else last xs) ys nx"
  by (induction xs arbitrary: pv) auto

lemma links_frame: "(\<And>x. x \<in> set ps \<Longrightarrow> nodes h' x = nodes h x) \<Longrightarrow> links h' pv ps nx = links h pv ps nx"
  by (induction ps arbitrary: pv) auto

lemma links_upd [simp]: "b \<notin> set ps \<Longrightarrow> links (h\<lparr>nodes := f(b := v)\<rparr>) pv ps nx = links (h\<lparr>nodes := f\<rparr>) pv ps nx"
  by (rule links_frame) auto

lemma links_same [simp]: "links (h\<lparr>nodes := nodes h\<rparr>) pv ps nx = links h pv ps nx"
  by (rule links_frame) simp

lemma links_live: "links h pv ps nx \<Longrightarrow> x \<in> set ps \<Longrightarrow> \<exists>n. nodes h x = Some n"
  by (induction ps arbitrary: pv) auto

text \<open>What an operation on the array \<open>a\<close> leaves alone: nodes outside \<open>S\<close>, all but the links of a node, all but the
  child of the array.\<close>

definition data :: "'d node option \<Rightarrow> 'd node option" where
  "data = map_option (\<lambda>n. n\<lparr>j_next := None, j_prev := None\<rparr>)"

definition relinked :: "nat \<Rightarrow> nat set \<Rightarrow> 'd heap \<Rightarrow> 'd heap \<Rightarrow> bool" where
  "relinked a S h h' \<longleftrightarrow> top h' = top h \<and> allocs h' = allocs h \<and> (\<forall>b. b \<notin> insert a S \<longrightarrow> nodes h' b = nodes h b) \<and>
     (\<forall>b. b \<noteq> a \<longrightarrow> data (nodes h' b) = data (nodes h b)) \<and>
     map_option (j_child_update (\<lambda>_. None)) (nodes h' a) = map_option (j_child_update (\<lambda>_. None)) (nodes h a)"

lemma relinked_refl: "relinked a S h h"
  by (simp add: relinked_def)

section \<open>Appending\<close>

lemma add_refines:
  assumes "array_at h a ps" "loose h x" "x \<notin> set ps" "x \<noteq> a"
  shows "\<exists>h'. add_item_to_array (Some a) (Some x) h = Inr (True, h') \<and> array_at h' a (ps @ [x]) \<and> relinked a (insert x (set ps)) h h'"
proof -
  obtain an where an: "nodes h a = Some an" "j_child an = first ps" using assms(1) by (auto simp: array_at_def)
  obtain xn where xn: "nodes h x = Some xn" "j_next xn = None" using assms(2) by (auto simp: loose_def)
  have d: "a \<notin> set ps" "distinct ps" using assms(1) by (auto simp: array_at_def)
  show ?thesis
  proof (cases ps rule: rev_cases)
    case Nil
    then show ?thesis using an xn assms(3,4)
      by (auto simp: add_item_to_array_def array_at_def relinked_def data_def)
  next
    case (snoc us u)
    obtain c cs where "us @ [u] = c # cs" by (cases us) auto
    with snoc have c: "ps = c # cs" by simp
    have l: "links h u ps None" using assms(1) snoc by (auto simp: array_at_def)
    then obtain cn where cn: "nodes h c = Some cn" "j_prev cn = Some u" using c by auto
    obtain un where un: "nodes h u = Some un" using links_live[OF l, of u] snoc by auto
    show ?thesis
    proof (cases us)
      case Nil
      then show ?thesis using an xn assms(3,4) snoc d cn un c l
        by (auto simp: add_item_to_array_def array_at_def relinked_def data_def suffix_object_def)
    next
      case (Cons w ws)
      then show ?thesis using an xn assms(3,4) snoc d cn un c l
        by (auto simp: add_item_to_array_def array_at_def relinked_def data_def suffix_object_def links_append hd_append)
    qed
  qed
qed

section \<open>Looking up\<close>

lemma item_from_links:
  "links h pv ps None \<Longrightarrow> item_from i (first ps) h = Inr (if i < length ps then Some (ps ! i) else None, h)"
proof (induction ps arbitrary: pv i)
  case (Cons x xs)
  then show ?case by (cases i; cases xs) (auto simp: first_def)
qed simp

lemma get_array_item_at:
  assumes "array_at h a ps"
  shows "get_array_item (Some a) i h = Inr (if i < length ps then Some (ps ! i) else None, h)"
  using assms item_from_links[of h "last ps" ps i] by (cases "ps = []") (auto simp: get_array_item_def array_at_def)

lemma size_from_links: "links h pv ps None \<Longrightarrow> length ps < n \<Longrightarrow> size_from n (first ps) h = Inr (length ps, h)"
proof (induction ps arbitrary: pv n)
  case Nil
  then show ?case by (cases n) simp_all
next
  case (Cons x xs)
  obtain m where n: "n = Suc m" using Cons.prems(2) by (cases n) auto
  obtain nd where nd: "nodes h x = Some nd" "j_next nd = first xs" using Cons.prems(1) by (cases xs) auto
  have "size_from m (first xs) h = Inr (length xs, h)" by (rule Cons.IH) (use Cons.prems n in auto)
  then show ?case using nd by (simp add: n seq_Inr)
qed

section \<open>Inserting\<close>

lemma insert_refines:
  assumes "array_at h a ps" "loose h x" "x \<notin> set ps" "x \<noteq> a" "0 \<le> i"
  shows "\<exists>h'. cJSON_InsertItemInArray (Some a) i (Some x) h = Inr (True, h') \<and>
    array_at h' a (take (nat i) ps @ x # drop (nat i) ps) \<and> relinked a (insert x (set ps)) h h'"
proof (cases "nat i < length ps")
  case False
  then have get: "get_array_item (Some a) (nat i) h = Inr (None, h)" using get_array_item_at[OF assms(1)] by simp
  show ?thesis using add_refines[OF assms(1-4)] assms(5) False
    by (simp add: cJSON_InsertItemInArray_def seq_Inr[where m = "get_array_item (Some a) (nat i)", OF get])
next
  case True
  define us where "us = take (nat i) ps"
  define y where "y = ps ! nat i"
  define ys where "ys = drop (Suc (nat i)) ps"
  have ps: "ps = us @ y # ys" and dr: "drop (nat i) ps = y # ys" using True id_take_nth_drop[of "nat i" ps] Cons_nth_drop_Suc[OF True]
    by (simp_all add: us_def y_def ys_def)
  obtain an where an: "nodes h a = Some an" "j_child an = first ps" using assms(1) by (auto simp: array_at_def)
  obtain xn where xn: "nodes h x = Some xn" using assms(2) by (auto simp: loose_def)
  have d: "a \<notin> set ps" "distinct ps" using assms(1) by (auto simp: array_at_def)
  have l: "links h (last ps) ps None" using assms(1) ps by (auto simp: array_at_def)
  have get: "get_array_item (Some a) (nat i) h = Inr (Some y, h)" using get_array_item_at[OF assms(1)] True by (simp add: y_def)
  show ?thesis
  proof (cases us rule: rev_cases)
    case Nil
    obtain yn where yn: "nodes h y = Some yn" "j_prev yn = Some (last ps)" using l ps Nil by auto
    show ?thesis using an xn assms(3-5) d l ps Nil yn
      unfolding us_def[symmetric] dr cJSON_InsertItemInArray_def
      by (auto simp: seq_Inr[where m = "get_array_item (Some a) (nat i)", OF get] array_at_def relinked_def data_def)
  next
    case (snoc ws w)
    obtain yn where yn: "nodes h y = Some yn" "j_prev yn = Some w" using l ps snoc by (auto simp: links_append)
    obtain wn where wn: "nodes h w = Some wn" using l ps snoc by (auto simp: links_append)
    have f: "first ps \<noteq> Some y" using d ps snoc by (cases ws) auto
    show ?thesis using an xn assms(3-5) d l ps snoc yn wn f first_append[of ws]
      unfolding us_def[symmetric] dr cJSON_InsertItemInArray_def
      by (auto simp: seq_Inr[where m = "get_array_item (Some a) (nat i)", OF get] array_at_def relinked_def data_def links_append hd_append)
  qed
qed

section \<open>Detaching\<close>

lemma detach_refines:
  assumes "array_at h a (us @ x # ys)"
  shows "\<exists>h'. cJSON_DetachItemViaPointer (Some a) (Some x) h = Inr (Some x, h') \<and> array_at h' a (us @ ys) \<and> loose h' x \<and>
    relinked a (set (us @ x # ys)) h h'"
proof -
  obtain an where an: "nodes h a = Some an" "j_child an = first (us @ x # ys)" using assms by (auto simp: array_at_def)
  have d: "a \<notin> set (us @ x # ys)" "distinct (us @ x # ys)" using assms by (auto simp: array_at_def)
  have l: "links h (last (us @ x # ys)) (us @ x # ys) None" using assms by (auto simp: array_at_def)
  then obtain xn where xn: "nodes h x = Some xn" "j_prev xn \<noteq> None" by (auto simp: links_append)
  note defs = cJSON_DetachItemViaPointer_def array_at_def relinked_def data_def loose_def links_append hd_append
  show ?thesis
  proof (cases us rule: rev_cases)
    case Nil
    show ?thesis
    proof (cases ys)
      case Nil
      with \<open>us = []\<close> show ?thesis using an xn d l by (auto simp: defs)
    next
      case (Cons v vs)
      with \<open>us = []\<close> show ?thesis using an xn d l by (auto simp: defs)
    qed
  next
    case (snoc ws w)
    obtain wn where wn: "nodes h w = Some wn" using l snoc by (auto simp: links_append)
    have xw: "j_prev xn = Some w" using l snoc xn by (auto simp: links_append)
    have f: "first (us @ x # ys) = first us" "first us \<noteq> Some x" "first us = Some (hd us)" using d snoc
      by (cases ws; auto simp: first_append)+
    obtain cn where cn: "nodes h (hd us) = Some cn" using links_live[OF l, of "hd us"] snoc by (cases ws) auto
    show ?thesis
    proof (cases ys)
      case Nil
      show ?thesis
      proof (cases ws)
        case Nil
        then show ?thesis using an xn d l snoc \<open>ys = []\<close> wn xw f cn by (auto simp: defs)
      next
        case (Cons c cs)
        then show ?thesis using an xn d l snoc \<open>ys = []\<close> wn xw f cn by (auto simp: defs)
      qed
    next
      case (Cons v vs)
      show ?thesis
      proof (cases ws)
        case Nil
        then show ?thesis using an xn d l snoc Cons wn xw f cn by (auto simp: defs)
      next
        case (Cons c cs)
        then show ?thesis using an xn d l snoc \<open>ys = v # vs\<close> wn xw f cn by (auto simp: defs)
      qed
    qed
  qed
qed

section \<open>Deleting\<close>

text \<open>The trees that hang together by \<open>next\<close> and \<open>child\<close>: a reference does not own its children.\<close>

datatype rose = Rose nat "rose list"

fun addrs :: "rose list \<Rightarrow> nat list" where
  "addrs [] = []"
| "addrs (Rose a ts # us) = a # addrs ts @ addrs us"

definition owned_child :: "'d node \<Rightarrow> ptr" where
  "owned_child n = (if is_reference n then None else j_child n)"

fun owns :: "'d heap \<Rightarrow> ptr \<Rightarrow> rose list \<Rightarrow> bool" where
  "owns h p [] = (p = None)"
| "owns h p (Rose a ts # us) =
     (p = Some a \<and> (\<exists>n. nodes h a = Some n \<and> owns h (owned_child n) ts \<and> owns h (j_next n) us))"

definition heap_ok :: "'d heap \<Rightarrow> bool" where
  "heap_ok h \<longleftrightarrow> (\<forall>b. nodes h b \<noteq> None \<longrightarrow> b < top h)"

definition without :: "nat set \<Rightarrow> 'd heap \<Rightarrow> 'd heap" where
  "without S h = h\<lparr>nodes := (nodes h) |` (- S)\<rparr>"

lemma without_simps [simp]:
  "without {} h = h" "nodes (without S h) b = (if b \<in> S then None else nodes h b)" "top (without S h) = top h"
  "without T (without S h) = without (S \<union> T) h"
  by (auto simp: without_def restrict_map_def intro!: heap.equality)

lemma owns_frame: "(\<And>x. x \<in> set (addrs ts) \<Longrightarrow> nodes h' x = nodes h x) \<Longrightarrow> owns h' p ts = owns h p ts"
  by (induction ts arbitrary: p rule: addrs.induct) auto

lemma owns_live: "owns h p ts \<Longrightarrow> x \<in> set (addrs ts) \<Longrightarrow> \<exists>n. nodes h x = Some n"
  by (induction ts arbitrary: p rule: addrs.induct) auto

lemma delete_from_owns:
  "owns h p ts \<Longrightarrow> distinct (addrs ts) \<Longrightarrow> length (addrs ts) < n \<Longrightarrow> delete_from n p h = Inr ((), without (set (addrs ts)) h)"
proof (induction ts arbitrary: h p n rule: addrs.induct)
  case 1
  then show ?case by (cases n) simp_all
next
  case (2 a ts us)
  obtain m where n: "n = Suc m" using "2.prems"(3) by (cases n) auto
  obtain nd where nd: "p = Some a" "nodes h a = Some nd" "owns h (owned_child nd) ts" "owns h (j_next nd) us"
    using "2.prems"(1) by auto
  have del: "delete_from m (owned_child nd) h = Inr ((), without (set (addrs ts)) h)"
    by (rule "2.IH"(1)) (use "2.prems" nd n in auto)
  have c: "only_if (\<not> is_reference nd \<and> j_child nd \<noteq> None) (delete_from m (j_child nd)) h = Inr ((), without (set (addrs ts)) h)"
  proof (cases "owned_child nd = None")
    case True
    then have "ts = []" using nd(3) by (cases ts rule: addrs.cases) auto
    then show ?thesis using True by (auto simp: only_if_def owned_child_def split: if_splits)
  next
    case False
    then show ?thesis using del by (auto simp: only_if_def owned_child_def split: if_splits)
  qed
  let ?h = "without (insert a (set (addrs ts))) h"
  have "without (set (addrs ts)) h\<lparr>nodes := (nodes (without (set (addrs ts)) h))(a := None)\<rparr> = ?h"
    by (rule heap.equality) (auto simp: without_def restrict_map_def fun_eq_iff)
  then have f: "free_node a (without (set (addrs ts)) h) = Inr ((), ?h)" using nd(2) "2.prems"(2) by (simp add: free_node_def)
  have o: "owns ?h (j_next nd) us" using nd(4) "2.prems"(2) by (subst owns_frame) auto
  have "delete_from m (j_next nd) ?h = Inr ((), without (set (addrs us)) ?h)"
    by (rule "2.IH"(2)[OF o]) (use "2.prems" n in auto)
  then have "delete_from (Suc m) (Some a) h = Inr ((), without (set (addrs us)) ?h)"
    by (simp only: delete_from.simps seq_def step_simps(2)[OF nd(2)] sum.case prod.case c f)
  then show ?case by (simp add: n nd(1) Un_commute)
qed

lemma live_bound:
  assumes "heap_ok h" "distinct xs" "\<And>x. x \<in> set xs \<Longrightarrow> \<exists>n. nodes h x = Some n"
  shows "length xs \<le> top h"
proof -
  have "set xs \<subseteq> {..<top h}" using assms(1,3) by (fastforce simp: heap_ok_def)
  then show ?thesis using distinct_card[OF assms(2)] card_mono[of "{..<top h}" "set xs"] by simp
qed

lemma delete_owns:
  assumes "heap_ok h" "owns h p ts" "distinct (addrs ts)"
  shows "cJSON_Delete p h = Inr ((), without (set (addrs ts)) h)"
  using live_bound[OF assms(1,3) owns_live[OF assms(2)]] unfolding cJSON_Delete_def by (intro delete_from_owns[OF assms(2,3)]) simp

section \<open>Replacing\<close>

lemma exchange_refines:
  assumes "array_at h a (us @ x # ys)" "nodes h r \<noteq> None" "r \<notin> insert a (set (us @ x # ys))"
  shows "\<exists>h'. exchange_links (Some a) (Some x) (Some r) h = Inr ((), h') \<and> array_at h' a (us @ r # ys) \<and> loose h' x \<and>
    relinked a (insert r (set (us @ x # ys))) h h'"
proof -
  obtain an where an: "nodes h a = Some an" "j_child an = first (us @ x # ys)" using assms by (auto simp: array_at_def)
  obtain rn where rn: "nodes h r = Some rn" using assms(2) by auto
  have d: "a \<notin> set (us @ x # ys)" "distinct (us @ x # ys)" using assms by (auto simp: array_at_def)
  have l: "links h (last (us @ x # ys)) (us @ x # ys) None" using assms by (auto simp: array_at_def)
  then obtain xn where xn: "nodes h x = Some xn" by (auto simp: links_append)
  note defs = exchange_links_def array_at_def relinked_def data_def loose_def links_append hd_append
  show ?thesis
  proof (cases us rule: rev_cases)
    case Nil
    show ?thesis
    proof (cases ys)
      case Nil
      with \<open>us = []\<close> show ?thesis using an xn rn d l assms(3) by (auto simp: defs)
    next
      case (Cons v vs)
      with \<open>us = []\<close> show ?thesis using an xn rn d l assms(3) by (auto simp: defs)
    qed
  next
    case (snoc ws w)
    obtain wn where wn: "nodes h w = Some wn" using l snoc by (auto simp: links_append)
    have xw: "j_prev xn = Some w" using l snoc xn by (auto simp: links_append)
    have f: "first (us @ x # ys) = first us" "first us \<noteq> Some x" "first us = Some (hd us)" using d snoc
      by (cases ws; auto simp: first_append)+
    obtain cn where cn: "nodes h (hd us) = Some cn" using links_live[OF l, of "hd us"] snoc by (cases ws) auto
    show ?thesis
    proof (cases ys)
      case Nil
      then show ?thesis using an xn rn d l assms(3) snoc wn xw f cn by (cases ws) (auto simp: defs)
    next
      case (Cons v vs)
      then show ?thesis using an xn rn d l assms(3) snoc wn xw f cn by (cases ws) (auto simp: defs)
    qed
  qed
qed

section \<open>Histories\<close>

text \<open>An operation on an array, on the list of its items and on the heap. \<open>L\<close> is the set of nodes outside the array.\<close>

datatype array_op = Append nat | InsertAt int nat | DetachAt int | GetAt int | Size

datatype op_result = Flag bool | Pointer ptr | Number int

fun list_op :: "array_op \<Rightarrow> nat list \<times> nat set \<Rightarrow> op_result \<times> nat list \<times> nat set" where
  "list_op (Append x) (ps, L) = (Flag True, ps @ [x], L - {x})"
| "list_op (InsertAt i x) (ps, L) =
     (if i < 0 then (Flag False, ps, L) else (Flag True, take (nat i) ps @ x # drop (nat i) ps, L - {x}))"
| "list_op (DetachAt i) (ps, L) =
     (if 0 \<le> i \<and> nat i < length ps
      then (Pointer (Some (ps ! nat i)), take (nat i) ps @ drop (nat i + 1) ps, insert (ps ! nat i) L)
      else (Pointer None, ps, L))"
| "list_op (GetAt i) (ps, L) = (Pointer (if 0 \<le> i \<and> nat i < length ps then Some (ps ! nat i) else None), ps, L)"
| "list_op Size (ps, L) = (Number (wrap32 (int (length ps))), ps, L)"

fun heap_op :: "nat \<Rightarrow> array_op \<Rightarrow> 'd heap \<Rightarrow> link_fault + op_result \<times> 'd heap" where
  "heap_op a (Append x) h = seq (cJSON_AddItemToArray (Some a) (Some x)) (\<lambda>b. return (Flag b)) h"
| "heap_op a (InsertAt i x) h = seq (cJSON_InsertItemInArray (Some a) i (Some x)) (\<lambda>b. return (Flag b)) h"
| "heap_op a (DetachAt i) h = seq (cJSON_DetachItemFromArray (Some a) i) (\<lambda>p. return (Pointer p)) h"
| "heap_op a (GetAt i) h = seq (cJSON_GetArrayItem (Some a) i) (\<lambda>p. return (Pointer p)) h"
| "heap_op a Size h = seq (cJSON_GetArraySize (Some a)) (\<lambda>k. return (Number k)) h"

text \<open>The item that an operation adds is one of those outside.\<close>

fun usable :: "array_op \<Rightarrow> nat list \<times> nat set \<Rightarrow> bool" where
  "usable (Append x) (ps, L) = (x \<in> L)"
| "usable (InsertAt i x) (ps, L) = (x \<in> L)"
| "usable _ _ = True"

locale list_store =
  fixes R :: "'s \<Rightarrow> 't \<Rightarrow> bool"
    and run_op :: "'o \<Rightarrow> 's \<Rightarrow> 'e + 'r \<times> 's"
    and spec_op :: "'o \<Rightarrow> 't \<Rightarrow> 'r \<times> 't"
    and may :: "'o \<Rightarrow> 't \<Rightarrow> bool"
  assumes op_refines: "R s t \<Longrightarrow> may x t \<Longrightarrow> \<exists>s'. run_op x s = Inr (fst (spec_op x t), s') \<and> R s' (snd (spec_op x t))"

fun run_ops :: "('o \<Rightarrow> 's \<Rightarrow> 'e + 'r \<times> 's) \<Rightarrow> 'o list \<Rightarrow> 's \<Rightarrow> 'e + 'r list \<times> 's" where
  "run_ops f [] = return []"
| "run_ops f (x # xs) = seq (f x) (\<lambda>r. seq (run_ops f xs) (\<lambda>rs. return (r # rs)))"

fun spec_ops :: "('o \<Rightarrow> 't \<Rightarrow> 'r \<times> 't) \<Rightarrow> 'o list \<Rightarrow> 't \<Rightarrow> 'r list \<times> 't" where
  "spec_ops g [] t = ([], t)"
| "spec_ops g (x # xs) t = (let (r, t1) = g x t; (rs, t2) = spec_ops g xs t1 in (r # rs, t2))"

fun all_may :: "('o \<Rightarrow> 't \<Rightarrow> 'r \<times> 't) \<Rightarrow> ('o \<Rightarrow> 't \<Rightarrow> bool) \<Rightarrow> 'o list \<Rightarrow> 't \<Rightarrow> bool" where
  "all_may g P [] t = True"
| "all_may g P (x # xs) t = (P x t \<and> all_may g P xs (snd (g x t)))"

context list_store
begin

lemma ops_refine:
  "R s t \<Longrightarrow> all_may spec_op may xs t \<Longrightarrow>
    \<exists>s'. run_ops run_op xs s = Inr (fst (spec_ops spec_op xs t), s') \<and> R s' (snd (spec_ops spec_op xs t))"
proof (induction xs arbitrary: s t)
  case (Cons x xs)
  then obtain s1 where s1: "run_op x s = Inr (fst (spec_op x t), s1)" "R s1 (snd (spec_op x t))" using op_refines by fastforce
  from Cons.IH[OF s1(2)] Cons.prems(2) obtain s2 where
    "run_ops run_op xs s1 = Inr (fst (spec_ops spec_op xs (snd (spec_op x t))), s2)" "R s2 (snd (spec_ops spec_op xs (snd (spec_op x t))))"
    by auto
  with s1(1) show ?case by (simp add: seq_def return_def Let_def case_prod_beta)
qed (simp add: return_def)

end

text \<open>The relation between heap and list; \<open>h0\<close> is the heap before the history.\<close>

definition represents :: "'d heap \<Rightarrow> nat \<Rightarrow> 'd heap \<Rightarrow> nat list \<times> nat set \<Rightarrow> bool" where
  "represents h0 a h t \<longleftrightarrow> (case t of (ps, L) \<Rightarrow> array_at h a ps \<and> (\<forall>x \<in> L. loose h x) \<and> L \<inter> insert a (set ps) = {} \<and>
     heap_ok h \<and> top h = top h0 \<and> (\<forall>b. b \<noteq> a \<longrightarrow> data (nodes h b) = data (nodes h0 b)) \<and>
     map_option (j_child_update (\<lambda>_. None)) (nodes h a) = map_option (j_child_update (\<lambda>_. None)) (nodes h0 a))"

lemma relinked_ok: "relinked a S h h' \<Longrightarrow> heap_ok h \<Longrightarrow> heap_ok h'"
  unfolding heap_ok_def relinked_def data_def by (metis map_option_is_None)

lemma represents_relinked:
  assumes "represents h0 a h (ps, L)" "relinked a S h h'" "array_at h' a ps'" "\<forall>x \<in> L'. loose h' x \<or> (x \<in> L \<and> x \<notin> S)"
    "L' \<inter> insert a (set ps') = {}"
  shows "represents h0 a h' (ps', L')"
proof -
  have "loose h' x" if "x \<in> L'" for x
  proof -
    have "x \<noteq> a" using that assms(5) by auto
    then show ?thesis using that assms(1,2,4) by (fastforce simp: represents_def relinked_def loose_def)
  qed
  then show ?thesis using assms relinked_ok[OF assms(2)] by (auto simp: represents_def relinked_def)
qed

lemma get_item_at:
  "array_at h a ps \<Longrightarrow> 0 \<le> i \<Longrightarrow> cJSON_GetArrayItem (Some a) i h = Inr (if nat i < length ps then Some (ps ! nat i) else None, h)"
  by (simp add: cJSON_GetArrayItem_def get_array_item_at)

lemma size_at:
  assumes "array_at h a ps" "heap_ok h"
  shows "cJSON_GetArraySize (Some a) h = Inr (wrap32 (int (length ps)), h)"
proof -
  obtain an where an: "nodes h a = Some an" "j_child an = first ps" using assms(1) by (auto simp: array_at_def)
  have l: "links h (last ps) ps None" using assms(1) by (cases "ps = []") (auto simp: array_at_def)
  have "length ps \<le> top h"
    by (rule live_bound[OF assms(2) _ links_live[OF l]]) (use assms(1) in \<open>simp add: array_at_def\<close>)
  then have "length ps < top h + 1" by simp
  with l have sz: "size_from (top h + 1) (first ps) h = Inr (length ps, h)" by (rule size_from_links)
  have "seq (size_from (top h + 1) (first ps)) (\<lambda>k. return (wrap32 (int k))) h = Inr (wrap32 (int (length ps)), h)"
    unfolding seq_def sz by (simp add: return_def)
  with an show ?thesis by (simp add: cJSON_GetArraySize_def)
qed

lemma detach_at:
  assumes "array_at h a ps" "0 \<le> i" "nat i < length ps"
  shows "\<exists>h'. cJSON_DetachItemFromArray (Some a) i h = Inr (Some (ps ! nat i), h') \<and>
    array_at h' a (take (nat i) ps @ drop (nat i + 1) ps) \<and> loose h' (ps ! nat i) \<and> relinked a (set ps) h h'"
proof -
  have "ps = take (nat i) ps @ ps ! nat i # drop (nat i + 1) ps" using id_take_nth_drop[OF assms(3)] by simp
  with detach_refines[of h a "take (nat i) ps" "ps ! nat i" "drop (nat i + 1) ps"] assms(1) obtain h' where
    h': "cJSON_DetachItemViaPointer (Some a) (Some (ps ! nat i)) h = Inr (Some (ps ! nat i), h')"
    "array_at h' a (take (nat i) ps @ drop (nat i + 1) ps)" "loose h' (ps ! nat i)" "relinked a (set ps) h h'" by metis
  have "get_array_item (Some a) (nat i) h = Inr (Some (ps ! nat i), h)" using get_array_item_at[OF assms(1)] assms(3) by simp
  with h' assms(2) show ?thesis by (simp add: cJSON_DetachItemFromArray_def seq_def)
qed

lemma heap_op_refines:
  assumes "represents h0 a h t" "usable x t"
  shows "\<exists>h'. heap_op a x h = Inr (fst (list_op x t), h') \<and> represents h0 a h' (snd (list_op x t))"
proof -
  obtain ps L where t: "t = (ps, L)" by force
  have ar: "array_at h a ps" and ok: "heap_ok h" and L: "L \<inter> insert a (set ps) = {}" "\<And>x. x \<in> L \<Longrightarrow> loose h x"
    using assms(1) by (auto simp: represents_def t)
  note moved = represents_relinked[OF assms(1)[unfolded t]]
  show ?thesis
  proof (cases x)
    case (Append y)
    then have y: "y \<in> L" using assms(2) t by simp
    with add_refines[OF ar L(2)[OF y]] L(1) obtain h' where h': "add_item_to_array (Some a) (Some y) h = Inr (True, h')"
      "array_at h' a (ps @ [y])" "relinked a (insert y (set ps)) h h'" by auto
    have "represents h0 a h' (ps @ [y], L - {y})" by (rule moved[OF h'(3,2)]) (use L(1) in auto)
    with h'(1) show ?thesis by (simp add: Append t cJSON_AddItemToArray_def seq_def)
  next
    case (InsertAt i y)
    show ?thesis
    proof (cases "i < 0")
      case True
      then show ?thesis using assms(1) by (simp add: InsertAt t cJSON_InsertItemInArray_def)
    next
      case False
      have y: "y \<in> L" using assms(2) t InsertAt by simp
      with insert_refines[OF ar L(2)[OF y], of i] L(1) False obtain h' where h': "cJSON_InsertItemInArray (Some a) i (Some y) h = Inr (True, h')"
        "array_at h' a (take (nat i) ps @ y # drop (nat i) ps)" "relinked a (insert y (set ps)) h h'" by auto
      have "represents h0 a h' (take (nat i) ps @ y # drop (nat i) ps, L - {y})"
        by (rule moved[OF h'(3,2)]) (use L(1) in \<open>auto dest: in_set_takeD in_set_dropD\<close>)
      with h'(1) False show ?thesis by (simp add: InsertAt t seq_def)
    qed
  next
    case (DetachAt i)
    show ?thesis
    proof (cases "0 \<le> i \<and> nat i < length ps")
      case True
      then obtain h' where h': "cJSON_DetachItemFromArray (Some a) i h = Inr (Some (ps ! nat i), h')"
        "array_at h' a (take (nat i) ps @ drop (nat i + 1) ps)" "loose h' (ps ! nat i)" "relinked a (set ps) h h'"
        using detach_at[OF ar] by blast
      have "distinct ps" "a \<notin> set ps" using ar by (auto simp: array_at_def)
      then have "ps ! nat i \<notin> set (take (nat i) ps @ drop (nat i + 1) ps)" using True id_take_nth_drop[of "nat i" ps]
        by (metis Suc_eq_plus1 distinct_append not_distinct_conv_prefix disjoint_insert(1) distinct.simps(2) list.simps(15) UnE set_append)
      then have "represents h0 a h' (take (nat i) ps @ drop (nat i + 1) ps, insert (ps ! nat i) L)"
        by (intro moved[OF h'(4,2)]) (use L(1) h'(3) True \<open>a \<notin> set ps\<close> in \<open>auto dest: in_set_takeD in_set_dropD\<close>)
      with h'(1) True show ?thesis by (simp add: DetachAt t seq_def)
    next
      case False
      have "cJSON_DetachItemFromArray (Some a) i h = Inr (None, h)"
      proof (cases "i < 0")
        case True
        then show ?thesis by (simp add: cJSON_DetachItemFromArray_def)
      next
        case False
        then have "get_array_item (Some a) (nat i) h = Inr (None, h)"
          using get_array_item_at[OF ar] \<open>\<not> (0 \<le> i \<and> nat i < length ps)\<close> by simp
        with False show ?thesis by (simp add: cJSON_DetachItemFromArray_def seq_def cJSON_DetachItemViaPointer_def)
      qed
      with False assms(1) show ?thesis by (auto simp: DetachAt t seq_def)
    qed
  next
    case (GetAt i)
    show ?thesis
    proof (cases "i < 0")
      case True
      then show ?thesis using assms(1) by (simp add: GetAt t cJSON_GetArrayItem_def)
    next
      case False
      with get_item_at[OF ar, of i] assms(1) show ?thesis by (simp add: GetAt t seq_def)
    qed
  next
    case Size
    with size_at[OF ar ok] assms(1) show ?thesis by (simp add: t seq_def)
  qed
qed

interpretation items: list_store "represents h0 a" "heap_op a" list_op usable for h0 :: "'d heap" and a
  by unfold_locales (rule heap_op_refines)

lemma replace_at:
  assumes "array_at h a (us @ x # ys)" "nodes h r \<noteq> None" "r \<notin> insert a (set (us @ x # ys))" "heap_ok h"
    "nodes h x = Some xn" "owns h (owned_child xn) ts" "distinct (addrs ts)"
    "set (addrs ts) \<inter> insert a (insert r (set (us @ x # ys))) = {}"
  shows "\<exists>h1. cJSON_ReplaceItemViaPointer (Some a) (Some x) (Some r) h = Inr (True, without (insert x (set (addrs ts))) h1) \<and>
    array_at (without (insert x (set (addrs ts))) h1) a (us @ r # ys) \<and> relinked a (insert r (set (us @ x # ys))) h h1"
proof -
  from exchange_refines[OF assms(1-3)] obtain h1 where h1: "exchange_links (Some a) (Some x) (Some r) h = Inr ((), h1)"
    "array_at h1 a (us @ r # ys)" "loose h1 x" "relinked a (insert r (set (us @ x # ys))) h h1" by blast
  have ax: "a \<noteq> x" "x \<notin> set us" "x \<notin> set ys" "r \<noteq> x" using assms(1,3) by (auto simp: array_at_def)
  obtain xn' where xn': "nodes h1 x = Some xn'" "j_next xn' = None" using h1(3) by (auto simp: loose_def)
  have "data (nodes h1 x) = data (nodes h x)" using h1(4) ax(1) by (simp add: relinked_def)
  then have "xn\<lparr>j_next := None, j_prev := None\<rparr> = xn'\<lparr>j_next := None, j_prev := None\<rparr>" using xn'(1) assms(5) by (simp add: data_def)
  then have same: "owned_child xn' = owned_child xn" by (cases xn; cases xn') (simp add: owned_child_def is_reference_def)
  have "owns h1 (owned_child xn) ts" using assms(6,8) h1(4) by (subst owns_frame[of ts h1 h]) (auto simp: relinked_def)
  then have o: "owns h1 (Some x) [Rose x ts]" using xn' same by simp
  have nx: "x \<notin> set (addrs ts)" using assms(8) by auto
  have del: "cJSON_Delete (Some x) h1 = Inr ((), without (insert x (set (addrs ts))) h1)"
    using delete_owns[OF relinked_ok[OF h1(4) assms(4)] o] assms(7) nx by simp
  have "nodes (without (insert x (set (addrs ts))) h1) b = nodes h1 b" if "b \<in> insert a (set (us @ r # ys))" for b
    using that assms(8) ax by auto
  then have "array_at (without (insert x (set (addrs ts))) h1) a (us @ r # ys)"
    using h1(2) links_frame[of "us @ r # ys" "without (insert x (set (addrs ts))) h1" h1] by (auto simp: array_at_def)
  moreover obtain an where "nodes h a = Some an" "j_child an \<noteq> None" using assms(1) by (cases us) (auto simp: array_at_def)
  ultimately show ?thesis using h1 del ax by (auto simp: cJSON_ReplaceItemViaPointer_def seq_def)
qed

section \<open>Properties: linked items\<close>

text \<open>C16: An array is the list of its items, through every history. Items are appended, inserted at a position, detached,
  looked up and counted in any order, each time with an item that is outside the array; no link is followed to NULL or to a freed node, each
  result is that of the same operation on the list of addresses, and afterwards the links represent the list that
  came out, the detached items can be added again, and of no other node anything but its links has changed.\<close>

theorem array_refines_list:
  assumes "array_at h a ps" "heap_ok h" "\<forall>x \<in> L. loose h x" "L \<inter> insert a (set ps) = {}" "all_may list_op usable ops (ps, L)"
    "spec_ops list_op ops (ps, L) = (rs, ps', L')"
  shows "\<exists>h'. run_ops (heap_op a) ops h = Inr (rs, h') \<and> array_at h' a ps' \<and> heap_ok h' \<and> (\<forall>x \<in> L'. loose h' x) \<and>
    (\<forall>b. b \<noteq> a \<longrightarrow> data (nodes h' b) = data (nodes h b))"
proof -
  have "represents h a h (ps, L)" using assms(1-4) by (simp add: represents_def)
  from items.ops_refine[OF this assms(5)] assms(6) show ?thesis by (auto simp: represents_def)
qed

text \<open>C17: Deleting frees a tree exactly. For the items that hang together by \<open>next\<close> and \<open>child\<close>, where a reference does not own its
  children, each node is freed once, no freed node is touched, and every other node stays as it was.\<close>

theorem delete_exact:
  assumes "heap_ok h" "owns h p ts" "distinct (addrs ts)"
  shows "cJSON_Delete p h = Inr ((), without (set (addrs ts)) h)"
  by (rule delete_owns[OF assms])

text \<open>Replacing an item of an array puts the new one in its place and frees the old one with everything it owns, and nothing else; no
  freed node is touched, wherever in the array the item stands.\<close>

theorem replace_exact:
  assumes "array_at h a (us @ x # ys)" "nodes h r \<noteq> None" "r \<notin> insert a (set (us @ x # ys))" "heap_ok h"
    "nodes h x = Some xn" "owns h (owned_child xn) ts" "distinct (addrs ts)"
    "set (addrs ts) \<inter> insert a (insert r (set (us @ x # ys))) = {}"
  shows "\<exists>h'. cJSON_ReplaceItemViaPointer (Some a) (Some x) (Some r) h = Inr (True, h') \<and> array_at h' a (us @ r # ys) \<and>
    (\<forall>b. b \<noteq> a \<longrightarrow> data (nodes h' b) = (if b = x \<or> b \<in> set (addrs ts) then None else data (nodes h b)))"
proof -
  from replace_at[OF assms] obtain h1 where h1:
    "cJSON_ReplaceItemViaPointer (Some a) (Some x) (Some r) h = Inr (True, without (insert x (set (addrs ts))) h1)"
    "array_at (without (insert x (set (addrs ts))) h1) a (us @ r # ys)" "relinked a (insert r (set (us @ x # ys))) h h1" by blast
  moreover have "data None = None" by (simp add: data_def)
  ultimately show ?thesis by (auto simp: relinked_def)
qed

text \<open>An array (0) of two items (1, 2), the second with a child (4), and an item outside (3).\<close>

definition demo_heap :: "int heap" where
  "demo_heap = \<lparr>nodes = [0 \<mapsto> \<lparr>j_next = None, j_prev = None, j_child = Some 1, j_type = 32, j_valuestring = None, j_valueint = 0, j_valuedouble = 0, j_string = None\<rparr>,
      1 \<mapsto> \<lparr>j_next = Some 2, j_prev = Some 2, j_child = None, j_type = 4, j_valuestring = None, j_valueint = 0, j_valuedouble = 0, j_string = None\<rparr>,
      2 \<mapsto> \<lparr>j_next = None, j_prev = Some 1, j_child = Some 4, j_type = 32, j_valuestring = None, j_valueint = 0, j_valuedouble = 0, j_string = None\<rparr>,
      3 \<mapsto> \<lparr>j_next = None, j_prev = None, j_child = None, j_type = 16, j_valuestring = Some ''s'', j_valueint = 0, j_valuedouble = 0, j_string = None\<rparr>,
      4 \<mapsto> \<lparr>j_next = None, j_prev = Some 4, j_child = None, j_type = 8, j_valuestring = None, j_valueint = 7, j_valuedouble = 7, j_string = None\<rparr>],
    top = 5, allocs = 5\<rparr>"

lemma demo_heap_ok: "heap_ok demo_heap" "array_at demo_heap 0 [1, 2]" "loose demo_heap 3"
  by (auto simp: demo_heap_def heap_ok_def array_at_def loose_def)

theorem array_refines_list_witness:
  "\<exists>h'. run_ops (heap_op 0) [Append 3, DetachAt 0, InsertAt 1 1, GetAt 5, Size] demo_heap =
     Inr ([Flag True, Pointer (Some 1), Flag True, Pointer None, Number 3], h') \<and> array_at h' 0 [2, 1, 3]"
  using array_refines_list[OF demo_heap_ok(2,1), of "{3}" "[Append 3, DetachAt 0, InsertAt 1 1, GetAt 5, Size]"] demo_heap_ok(3)
  by (auto simp: wrap32_def)

theorem delete_exact_witness: "cJSON_Delete (Some 0) demo_heap = Inr ((), without {0, 1, 2, 4} demo_heap)"
  using delete_exact[OF demo_heap_ok(1), of "Some 0" "[Rose 0 [Rose 1 [], Rose 2 [Rose 4 []]]]"]
  by (simp add: demo_heap_def owned_child_def is_reference_def insert_commute)

theorem replace_exact_witness:
  "\<exists>h'. cJSON_ReplaceItemViaPointer (Some 0) (Some 2) (Some 3) demo_heap = Inr (True, h') \<and> array_at h' 0 [1, 3]"
proof -
  obtain n where n: "nodes demo_heap 2 = Some n" "owns demo_heap (owned_child n) [Rose 4 []]"
    by (simp add: demo_heap_def owned_child_def is_reference_def)
  have "nodes demo_heap 3 \<noteq> None" using demo_heap_ok(3) by (auto simp: loose_def)
  with replace_exact[of demo_heap 0 "[1]" 2 "[]" 3 n "[Rose 4 []]"] demo_heap_ok(1,2) n show ?thesis by auto
qed

end
