(* ===== verification/Cjson_Duplicate.thy ===== *)
theory Cjson_Duplicate
  imports Cjson_List_Laws Cjson_Laws
begin

text \<open>
  Duplicating an item, \<open>cJSON_Duplicate\<close> in \<open>src/src/cJSON.c\<close>: the copy is the same tree on new nodes, correctly linked, or
  there is no copy and nothing is left of the attempt.
\<close>

section \<open>Trees on the heap\<close>

definition node_is :: "'d node \<Rightarrow> 'd cJSON \<Rightarrow> bool" where
  "node_is n t \<longleftrightarrow> j_type n = item_type t \<and> j_valuestring n = valuestring t \<and> j_valueint n = valueint t \<and>
     j_valuedouble n = valuedouble t \<and> j_string n = item_string t"

text \<open>The nodes \<open>rs\<close>, from \<open>p\<close> on along \<open>next\<close> and \<open>child\<close>, hold the items \<open>ts\<close>.\<close>

fun denotes :: "'d heap \<Rightarrow> ptr \<Rightarrow> rose list \<Rightarrow> 'd cJSON list \<Rightarrow> bool" where
  "denotes h p [] [] = (p = None)"
| "denotes h p (Rose a rs # us) (t # ts) =
     (p = Some a \<and> (\<exists>n. nodes h a = Some n \<and> node_is n t \<and> denotes h (j_child n) rs (children t) \<and> denotes h (j_next n) us ts))"
| "denotes h p _ _ = False"

primrec root :: "rose \<Rightarrow> nat" where
  "root (Rose a rs) = a"

primrec kids :: "rose \<Rightarrow> rose list" where
  "kids (Rose a rs) = rs"

text \<open>The children of every node are linked as in an array.\<close>

fun wired :: "'d heap \<Rightarrow> rose list \<Rightarrow> bool" where
  "wired h [] = True"
| "wired h (Rose a rs # us) = (array_at h a (map root rs) \<and> wired h rs \<and> wired h us)"

text \<open>The items without the mark of references, and how deep they are nested.\<close>

definition not_reference :: "nat \<Rightarrow> nat" where
  "not_reference ty = ty - (ty AND cJSON_IsReference)"

fun unref :: "'d cJSON \<Rightarrow> 'd cJSON" where
  "unref (Item ty vs vi vd key ch) = Item (not_reference ty) vs vi vd key (map unref ch)"

fun levels :: "'d cJSON list \<Rightarrow> nat" where
  "levels [] = 0"
| "levels (Item ty vs vi vd key ch # us) = max (1 + levels ch) (levels us)"

lemma not_reference_and: "not_reference ty AND 256 = 0"
proof -
  have e: "n AND 256 = (if bit n 8 then 256 else 0)" for n :: nat
  proof (rule bit_eqI)
    fix k
    have "bit (256 :: nat) k \<longleftrightarrow> k = 8" using bit_exp_iff[of 8 k, where 'a = nat] by simp
    then show "bit (n AND 256) k = bit (if bit n 8 then 256 else 0 :: nat) k" by (auto simp: bit_and_iff)
  qed
  have "\<not> bit (ty - 256) 8" if "bit ty 8" for ty :: nat
  proof -
    have "odd (ty div 256)" using that by (simp add: bit_iff_odd)
    then have "(ty - 256) div 256 = ty div 256 - 1" "0 < ty div 256" by (simp_all add: odd_pos)
    with \<open>odd (ty div 256)\<close> show ?thesis by (simp add: bit_iff_odd)
  qed
  then show ?thesis by (simp add: not_reference_def e)
qed

lemma addrs_append: "addrs (rs @ us) = addrs rs @ addrs us"
  by (induction rs rule: addrs.induct) simp_all

lemma distinct_roots: "distinct (addrs rs) \<Longrightarrow> distinct (map root rs)"
proof (induction rs rule: addrs.induct)
  case (2 a ts us)
  have "root ` set us \<subseteq> set (addrs us)" by (induction us rule: addrs.induct) auto
  with 2 show ?case by auto
qed simp

lemma root_in_addrs: "r \<in> set rs \<Longrightarrow> root r \<in> set (addrs rs)"
  by (induction rs rule: addrs.induct) auto

lemma denotes_frame:
  assumes "\<And>x. x \<in> set (addrs rs) \<Longrightarrow> map_option (j_prev_update (\<lambda>_. None)) (nodes h' x) = map_option (j_prev_update (\<lambda>_. None)) (nodes h x)"
    "denotes h p rs ts"
  shows "denotes h' p rs ts"
  using assms
proof (induction h p rs ts rule: denotes.induct)
  case (2 h p a rs us t ts)
  from "2.prems"(2) obtain n where n: "p = Some a" "nodes h a = Some n" "node_is n t" "denotes h (j_child n) rs (children t)"
    "denotes h (j_next n) us ts" by auto
  from "2.prems"(1)[of a] n(2) obtain n' where n': "nodes h' a = Some n'" "n'\<lparr>j_prev := None\<rparr> = n\<lparr>j_prev := None\<rparr>" by auto
  then have same: "j_child n' = j_child n" "j_next n' = j_next n" "node_is n' t = node_is n t"
    by (cases n; cases n'; simp add: node_is_def)+
  have "denotes h' (j_child n) rs (children t)" by (rule "2.IH"(1)) (use "2.prems"(1) n in auto)
  moreover have "denotes h' (j_next n) us ts" by (rule "2.IH"(2)) (use "2.prems"(1) n in auto)
  ultimately show ?case using n n' same by auto
qed auto

lemma denotes_live: "denotes h p rs ts \<Longrightarrow> x \<in> set (addrs rs) \<Longrightarrow> \<exists>n. nodes h x = Some n"
  by (induction h p rs ts rule: denotes.induct) auto

lemma denotes_unreached:
  assumes "denotes h p rs ts" "\<And>x. x \<in> set (addrs rs) \<Longrightarrow> nodes h' x = nodes h x"
  shows "denotes h' p rs ts"
  using denotes_frame[OF _ assms(1), of h'] assms(2) by simp

lemma denotes_first: "denotes h p rs ts \<Longrightarrow> p = first (map root rs)"
  by (induction h p rs ts rule: denotes.induct) auto

lemma denotes_length: "denotes h p rs ts \<Longrightarrow> length rs = length ts"
  by (induction h p rs ts rule: denotes.induct) auto

lemma denotes_owns:
  "denotes h p rs ts \<Longrightarrow> (\<And>x. x \<in> set (addrs rs) \<Longrightarrow> \<not> is_reference (the (nodes h x))) \<Longrightarrow> owns h p rs"
proof (induction h p rs ts rule: denotes.induct)
  case (2 h p a rs us t ts)
  then obtain n where n: "p = Some a" "nodes h a = Some n" "denotes h (j_child n) rs (children t)" "denotes h (j_next n) us ts" by auto
  then have "\<not> is_reference n" using "2.prems"(2)[of a] by simp
  moreover have "owns h (j_child n) rs" "owns h (j_next n) us" using "2.IH" "2.prems"(2) n(3,4) by auto
  ultimately show ?case using n by (auto simp: owned_child_def)
qed auto

lemma denotes_snoc:
  assumes "denotes h p ds ts" "ds \<noteq> []" "distinct (addrs ds)" "nodes h (root (last ds)) = Some n"
    and h': "h' = h\<lparr>nodes := (nodes h)(root (last ds) := Some (n\<lparr>j_next := Some c\<rparr>))\<rparr>" and r: "denotes h' (Some c) [r] [t]"
  shows "denotes h' p (ds @ [r]) (ts @ [t])"
  using assms(1-4) h' r
proof (induction h p ds ts rule: denotes.induct)
  case (2 h p a rs us u ts)
  obtain m where m: "p = Some a" "nodes h a = Some m" "node_is m u" "denotes h (j_child m) rs (children u)" "denotes h (j_next m) us ts"
    using "2.prems"(1) by auto
  show ?case
  proof (cases "us = []")
    case True
    have "denotes h' (j_child m) rs (children u)" by (rule denotes_unreached[OF m(4)]) (use "2.prems"(3,5) True in auto)
    moreover have "ts = []" using m(5) True by (cases ts) auto
    ultimately show ?thesis using m "2.prems"(4-6) True by (simp add: node_is_def)
  next
    case False
    have l: "root (last us) \<in> set (addrs us)" using False by (simp add: root_in_addrs)
    have "denotes h' (j_child m) rs (children u)" by (rule denotes_unreached[OF m(4)]) (use "2.prems"(3,5) False l in auto)
    moreover have "denotes h' (j_next m) (us @ [r]) (ts @ [t])"
      by (rule "2.IH"(2)) (use m(5) False "2.prems" in auto)
    moreover have "nodes h' a = Some m" using m(2) "2.prems"(3,5) l False by auto
    ultimately show ?thesis using m by simp
  qed
qed auto

lemma array_at_frame:
  assumes "array_at h a ps" "nodes h' a = Some n'" "\<And>n. nodes h a = Some n \<Longrightarrow> j_child n' = j_child n" "\<And>x. x \<in> set ps \<Longrightarrow> nodes h' x = nodes h x"
  shows "array_at h' a ps"
  using assms links_frame[of ps h' h] by (auto simp: array_at_def)

lemma wired_unreached: "wired h rs \<Longrightarrow> (\<And>x. x \<in> set (addrs rs) \<Longrightarrow> nodes h' x = nodes h x) \<Longrightarrow> wired h' rs"
proof (induction h rs rule: wired.induct)
  case (2 h a rs us)
  have ar: "array_at h a (map root rs)" using "2.prems"(1) by simp
  then obtain n where n: "nodes h a = Some n" by (auto simp: array_at_def)
  have "array_at h' a (map root rs)"
    by (rule array_at_frame[OF ar, of _ n]) (use n "2.prems"(2) root_in_addrs in auto)
  with 2 show ?case by simp
qed simp

text \<open>Changing a node, but not its child pointer, at the top of the trees.\<close>

lemma wired_top:
  "wired h rs \<Longrightarrow> distinct (addrs rs) \<Longrightarrow> nodes h x = Some n \<Longrightarrow> j_child n' = j_child n \<Longrightarrow> x \<in> root ` set rs \<Longrightarrow>
    wired (h\<lparr>nodes := (nodes h)(x := Some n')\<rparr>) rs"
proof (induction h rs rule: wired.induct)
  case (2 h a rs us)
  let ?h = "h\<lparr>nodes := (nodes h)(x := Some n')\<rparr>"
  have x: "x \<notin> set (addrs rs)" using "2.prems"(2,5) root_in_addrs by fastforce
  have r: "root ` set rs \<subseteq> set (addrs rs)" by (auto simp: root_in_addrs)
  have w: "wired ?h rs" by (rule wired_unreached[of h]) (use "2.prems"(1) x in auto)
  have ar: "array_at h a (map root rs)" using "2.prems"(1) by simp
  then obtain m where m: "nodes h a = Some m" by (auto simp: array_at_def)
  have "nodes ?h y = nodes h y" if "y \<in> set (map root rs)" for y using that x r by auto
  note frame = array_at_frame[OF ar _ _ this]
  have "array_at ?h a (map root rs)"
    by (cases "x = a") (use frame[of n'] frame[of m] m "2.prems"(3,4) in auto)
  moreover have "wired ?h us"
  proof (cases "x \<in> root ` set us")
    case True
    show ?thesis by (rule "2.IH"(2)) (use "2.prems" True in simp_all)
  next
    case False
    then have "x = a" using "2.prems"(5) by auto
    then have "nodes ?h y = nodes h y" if "y \<in> set (addrs us)" for y using that "2.prems"(2) by auto
    moreover have "wired h us" using "2.prems"(1) by simp
    ultimately show ?thesis using wired_unreached by blast
  qed
  ultimately show ?case using w by (simp only: wired.simps simp_thms)
qed simp

section \<open>Copying one node\<close>

definition plenty :: "'d json_env \<Rightarrow> bool" where
  "plenty E \<longleftrightarrow> (\<forall>k n. allocate E k n)"

text \<open>\<open>h'\<close> has the nodes of \<open>h\<close>, and may have used addresses and allocations.\<close>

definition restored :: "'d heap \<Rightarrow> 'd heap \<Rightarrow> bool" where
  "restored h h' \<longleftrightarrow> heap_ok h' \<and> top h \<le> top h' \<and> nodes h' = nodes h"

lemma new_item_cases:
  assumes "heap_ok h"
  obtains "new_item E h = Inr (None, h\<lparr>allocs := allocs h + 1\<rparr>)" "\<not> plenty E"
  | "new_item E h = Inr (Some (top h), h\<lparr>nodes := (nodes h)(top h := Some (zero_node E)), top := top h + 1, allocs := allocs h + 1\<rparr>)"
  using that by (cases "allocate E (allocs h) 64") (auto simp: new_item_def plenty_def)

lemma strdup_cases:
  obtains "cJSON_strdup E s h = Inr (None, h\<lparr>allocs := allocs h + 1\<rparr>)" "\<not> plenty E"
  | "cJSON_strdup E s h = Inr (Some s, h\<lparr>allocs := allocs h + 1\<rparr>)"
  using that by (cases "allocate E (allocs h) (length s + 1)") (auto simp: cJSON_strdup_def plenty_def)

lemma delete_fresh:
  assumes "nodes h = (nodes h0)(top h0 := Some n)" "top h = top h0 + 1" "heap_ok h0" "j_next n = None" "j_child n = None"
  shows "cJSON_Delete (Some (top h0)) h = Inr ((), without {top h0} h) \<and> restored h0 (without {top h0} h)"
proof -
  have fresh: "nodes h0 (top h0) = None" using assms(3) by (auto simp: heap_ok_def)
  have ok: "heap_ok h" using assms(1-3) by (auto simp: heap_ok_def less_Suc_eq)
  have "owns h (Some (top h0)) [Rose (top h0) []]" using assms by (simp add: owned_child_def)
  with delete_owns[OF ok this] have "cJSON_Delete (Some (top h0)) h = Inr ((), without {top h0} h)" by simp
  moreover have "nodes (without {top h0} h) = nodes h0" using assms(1) fresh by (auto simp: fun_eq_iff)
  ultimately show ?thesis using assms(2,3) by (auto simp: restored_def heap_ok_def less_Suc_eq)
qed

lemma copied_string:
  "\<exists>ok c k. (case s of None \<Rightarrow> return (True, None) | Some t \<Rightarrow> seq (cJSON_strdup E t) (\<lambda>c. return (c \<noteq> None, c))) g
     = Inr ((ok, c), g\<lparr>allocs := k\<rparr>) \<and> (if ok then c = s else \<not> plenty E)"
proof (cases s)
  case None
  then show ?thesis by (intro exI[of _ True] exI[of _ s] exI[of _ "allocs g"]) simp
next
  case (Some t)
  then show ?thesis by (cases rule: strdup_cases[of E t g]) (auto simp: seq_def)
qed

lemma copied_key:
  "\<exists>ok c k. (case s of None \<Rightarrow> return (True, None) | Some t \<Rightarrow>
       if b then return (True, Some t) else seq (cJSON_strdup E t) (\<lambda>c. return (c \<noteq> None, c))) g
     = Inr ((ok, c), g\<lparr>allocs := k\<rparr>) \<and> (if ok then c = s else \<not> plenty E)"
proof (cases "b \<and> s \<noteq> None")
  case True
  then show ?thesis by (intro exI[of _ True] exI[of _ s] exI[of _ "allocs g"]) auto
next
  case False
  then have "(case s of None \<Rightarrow> return (True, None) | Some t \<Rightarrow>
       if b then return (True, Some t) else seq (cJSON_strdup E t) (\<lambda>c. return (c \<noteq> None, c))) g =
    (case s of None \<Rightarrow> return (True, None) | Some t \<Rightarrow> seq (cJSON_strdup E t) (\<lambda>c. return (c \<noteq> None, c))) g"
    by (cases s) auto
  with copied_string[of E s g] show ?thesis by simp
qed

lemma seq_Inr_eq: "m h = Inr (x, h') \<Longrightarrow> f x h' = r \<Longrightarrow> seq m f h = r"
  by (simp add: seq_def)

lemma copy_node_outcome:
  assumes "heap_ok h" "node_is item t"
  shows "\<exists>q h'. copy_node E item h = Inr (q, h') \<and>
    (case q of None \<Rightarrow> restored h h' \<and> \<not> plenty E
     | Some b \<Rightarrow> b = top h \<and> top h' = top h + 1 \<and> (\<exists>n. nodes h' = (nodes h)(b := Some n) \<and> node_is n (unref t) \<and>
         j_next n = None \<and> j_prev n = None \<and> j_child n = None))"
  using assms(1)
proof (cases rule: new_item_cases[of h E])
  case 1
  then have "copy_node E item h = Inr (None, h\<lparr>allocs := allocs h + 1\<rparr>)" by (simp add: copy_node_def seq_def)
  with 1 assms(1) show ?thesis by (auto simp: restored_def heap_ok_def)
next
  case 2
  let ?n1 = "(zero_node E)\<lparr>j_type := j_type item - (j_type item AND cJSON_IsReference), j_valueint := j_valueint item,
      j_valuedouble := j_valuedouble item\<rparr>"
  define g1 where "g1 = h\<lparr>top := top h + 1, allocs := allocs h + 1, nodes := (nodes h)(top h := Some ?n1)\<rparr>"
  obtain ok vs k where vs: "(case j_valuestring item of None \<Rightarrow> return (True, None)
        | Some s \<Rightarrow> seq (cJSON_strdup E s) (\<lambda>c. return (c \<noteq> None, c))) g1 = Inr ((ok, vs), g1\<lparr>allocs := k\<rparr>)"
      "if ok then vs = j_valuestring item else \<not> plenty E" using copied_string by blast
  define g2 where "g2 = g1\<lparr>allocs := k, nodes := (nodes g1)(top h := Some (?n1\<lparr>j_valuestring := vs\<rparr>))\<rparr>"
  obtain ok' key k' where key: "(case j_string item of None \<Rightarrow> return (True, None)
        | Some s \<Rightarrow> if string_is_const item then return (True, Some s) else seq (cJSON_strdup E s) (\<lambda>c. return (c \<noteq> None, c))) g2
      = Inr ((ok', key), g2\<lparr>allocs := k'\<rparr>)" "if ok' then key = j_string item else \<not> plenty E" using copied_key by blast
  have z: "j_next (zero_node E) = None" "j_child (zero_node E) = None" "j_prev (zero_node E) = None" by (simp_all add: zero_node_def)
  let ?done = "\<lambda>r. \<exists>q h'. r = Inr (q, h') \<and> (case q of None \<Rightarrow> restored h h' \<and> \<not> plenty E
     | Some b \<Rightarrow> b = top h \<and> top h' = top h + 1 \<and> (\<exists>n. nodes h' = (nodes h)(b := Some n) \<and> node_is n (unref t) \<and>
         j_next n = None \<and> j_prev n = None \<and> j_child n = None))"
  have fail: "?done (seq (cJSON_Delete (Some (top h))) (\<lambda>_. return None) g)"
    if "nodes g = (nodes h)(top h := Some n)" "top g = top h + 1" "j_next n = None" "j_child n = None" "\<not> plenty E" for g :: "'a heap" and n
  proof -
    have "seq (cJSON_Delete (Some (top h))) (\<lambda>_. return None) g = Inr (None, without {top h} g)"
      using delete_fresh[OF that(1,2) assms(1) that(3,4)] by (simp add: seq_def)
    then show ?thesis using delete_fresh[OF that(1,2) assms(1) that(3,4)] that(5)
      by (intro exI[of _ None] exI[of _ "without {top h} g"]) simp
  qed
  let ?second = "\<lambda>(ok, key). if \<not> ok then seq (cJSON_Delete (Some (top h))) (\<lambda>_. return None)
      else seq (store (Some (top h)) (j_string_update (\<lambda>_. key))) (\<lambda>_. return (Some (top h)))"
  have second: "?done (?second (ok', key) (g2\<lparr>allocs := k'\<rparr>))" if ok
  proof (cases ok')
    case True
    have "node_is (?n1\<lparr>j_valuestring := vs, j_string := key\<rparr>) (unref t)"
      using assms(2) vs(2) key(2) True \<open>ok\<close> by (cases t) (simp add: node_is_def not_reference_def)
    then show ?thesis using True z by (auto simp: g2_def g1_def)
  next
    case False
    then have e: "?second (ok', key) (g2\<lparr>allocs := k'\<rparr>) = seq (cJSON_Delete (Some (top h))) (\<lambda>_. return None) (g2\<lparr>allocs := k'\<rparr>)" by simp
    show ?thesis unfolding e
      by (rule fail[of _ "?n1\<lparr>j_valuestring := vs\<rparr>"]) (use key(2) False z in \<open>simp_all add: g2_def g1_def\<close>)
  qed
  let ?first = "\<lambda>(ok, vs). if \<not> ok then seq (cJSON_Delete (Some (top h))) (\<lambda>_. return None)
      else seq (store (Some (top h)) (j_valuestring_update (\<lambda>_. vs))) (\<lambda>_.
        seq (case j_string item of None \<Rightarrow> return (True, None)
             | Some s \<Rightarrow> if string_is_const item then return (True, Some s)
                         else seq (cJSON_strdup E s) (\<lambda>c. return (c \<noteq> None, c))) ?second)"
  have first: "?done (?first (ok, vs) (g1\<lparr>allocs := k\<rparr>))"
  proof (cases ok)
    case True
    have "seq (store (Some (top h)) (j_valuestring_update (\<lambda>_. vs))) f (g1\<lparr>allocs := k\<rparr>) = f () g2" for f :: "unit \<Rightarrow> 'a heap \<Rightarrow> link_fault + ptr \<times> 'a heap"
      by (simp add: g1_def g2_def)
    moreover have "seq (case j_string item of None \<Rightarrow> return (True, None)
        | Some s \<Rightarrow> if string_is_const item then return (True, Some s) else seq (cJSON_strdup E s) (\<lambda>c. return (c \<noteq> None, c))) ?second g2
      = ?second (ok', key) (g2\<lparr>allocs := k'\<rparr>)" by (rule seq_Inr_eq, rule key(1), rule refl)
    ultimately have "?first (ok, vs) (g1\<lparr>allocs := k\<rparr>) = ?second (ok', key) (g2\<lparr>allocs := k'\<rparr>)" using True by (simp only: prod.case simp_thms if_False)
    with second[OF True] show ?thesis by (simp only:)
  next
    case False
    then have e: "?first (ok, vs) (g1\<lparr>allocs := k\<rparr>) = seq (cJSON_Delete (Some (top h))) (\<lambda>_. return None) (g1\<lparr>allocs := k\<rparr>)" by simp
    show ?thesis unfolding e by (rule fail[of _ ?n1]) (use vs(2) False z in \<open>simp_all add: g1_def\<close>)
  qed
  have "copy_node E item h = ?first (ok, vs) (g1\<lparr>allocs := k\<rparr>)"
  proof -
    have "copy_node E item h = seq (case j_valuestring item of None \<Rightarrow> return (True, None)
        | Some s \<Rightarrow> seq (cJSON_strdup E s) (\<lambda>c. return (c \<noteq> None, c))) ?first g1"
      unfolding copy_node_def by (rule seq_Inr_eq, rule 2, simp add: g1_def)
    also have "\<dots> = ?first (ok, vs) (g1\<lparr>allocs := k\<rparr>)" by (rule seq_Inr_eq, rule vs(1), rule refl)
    finally show ?thesis .
  qed
  with first show ?thesis by (simp only:)
qed

section \<open>Building the copy\<close>

text \<open>The links of the children while they are added: the first one's \<open>prev\<close> is set at the end.\<close>

definition open_links :: "'d heap \<Rightarrow> nat list \<Rightarrow> bool" where
  "open_links h ps \<longleftrightarrow> (case ps of [] \<Rightarrow> True
     | x # xs \<Rightarrow> \<exists>n. nodes h x = Some n \<and> j_next n = first xs \<and> links h x xs None)"

lemma open_links_snoc:
  assumes "open_links h ps" "ps \<noteq> []" "distinct (ps @ [k])" "nodes h (last ps) = Some nl" "nodes h k = Some nk" "j_next nk = None"
  shows "open_links (h\<lparr>nodes := (nodes h)(last ps := Some (nl\<lparr>j_next := Some k\<rparr>), k := Some (nk\<lparr>j_prev := Some (last ps)\<rparr>))\<rparr>) (ps @ [k])"
proof -
  obtain x xs where ps: "ps = x # xs" using assms(2) by (cases ps) auto
  show ?thesis
  proof (cases xs rule: rev_cases)
    case Nil
    then show ?thesis using assms ps by (auto simp: open_links_def)
  next
    case (snoc ys y)
    then show ?thesis using assms ps by (auto simp: open_links_def links_append hd_append first_append)
  qed
qed

lemma open_links_close:
  assumes "open_links h ps" "ps \<noteq> []" "distinct ps" "nodes h (hd ps) = Some n"
  shows "links (h\<lparr>nodes := (nodes h)(hd ps := Some (n\<lparr>j_prev := Some (last ps)\<rparr>))\<rparr>) (last ps) ps None"
proof -
  obtain x xs where ps: "ps = x # xs" using assms(2) by (cases ps) auto
  then show ?thesis using assms by (cases xs) (auto simp: open_links_def)
qed

lemma wired_append: "wired h (rs @ us) \<longleftrightarrow> wired h rs \<and> wired h us"
  by (induction rs rule: addrs.induct) auto

lemma last_root: "ds \<noteq> [] \<Longrightarrow> last (map root ds) = root (last ds)"
  by (simp add: last_map)

lemma denotes_unref: "denotes h p rs (map unref ts) \<Longrightarrow> x \<in> set (addrs rs) \<Longrightarrow> \<not> is_reference (the (nodes h x))"
proof (induction rs arbitrary: p ts rule: addrs.induct)
  case (2 a rs us)
  then obtain t ts' where ts: "ts = t # ts'" by (cases ts) auto
  obtain n where n: "nodes h a = Some n" "node_is n (unref t)" "denotes h (j_child n) rs (children (unref t))"
    "denotes h (j_next n) us (map unref ts')" using "2.prems"(1) ts by auto
  have "children (unref t) = map unref (children t)" by (cases t) simp
  moreover have "j_type n AND 256 = 0" using n(2) not_reference_and by (cases t) (simp add: node_is_def)
  ultimately show ?case using "2.IH" "2.prems"(2) n by (auto simp: is_reference_def)
qed simp

text \<open>The outcome for the item \<open>t\<close>: a copy on new nodes, or nothing changed, which happens only if not \<open>can\<close>.\<close>

definition copied :: "bool \<Rightarrow> 'd heap \<Rightarrow> 'd cJSON \<Rightarrow> ptr \<Rightarrow> 'd heap \<Rightarrow> bool" where
  "copied can h t q h' \<longleftrightarrow> heap_ok h' \<and> top h \<le> top h' \<and>
     (case q of None \<Rightarrow> nodes h' = nodes h \<and> \<not> can
      | Some b \<Rightarrow> \<exists>rs. denotes h' q [Rose b rs] [unref t] \<and> wired h' [Rose b rs] \<and> distinct (addrs [Rose b rs]) \<and>
          set (addrs [Rose b rs]) \<subseteq> {top h..<top h'} \<and> (\<forall>x. x \<notin> set (addrs [Rose b rs]) \<longrightarrow> nodes h' x = nodes h x))"

text \<open>The new node \<open>b\<close> for \<open>t\<close> has the children \<open>ds\<close>, copies of \<open>dn\<close>; \<open>h0\<close> is the heap before \<open>b\<close> was made.\<close>

definition building :: "'d heap \<Rightarrow> 'd heap \<Rightarrow> nat \<Rightarrow> rose list \<Rightarrow> 'd cJSON \<Rightarrow> 'd cJSON list \<Rightarrow> bool" where
  "building h0 h b ds t dn \<longleftrightarrow> heap_ok h \<and> top h0 \<le> top h \<and> distinct (b # addrs ds) \<and> set (b # addrs ds) \<subseteq> {top h0..<top h} \<and>
     (\<forall>x. x \<notin> set (b # addrs ds) \<longrightarrow> nodes h x = nodes h0 x) \<and>
     (\<exists>n. nodes h b = Some n \<and> node_is n (unref t) \<and> j_child n = first (map root ds) \<and> j_next n = None) \<and>
     denotes h (first (map root ds)) ds (map unref dn) \<and> wired h ds \<and> open_links h (map root ds)"

definition latest_of :: "rose list \<Rightarrow> ptr" where
  "latest_of ds = (if ds = [] then None else Some (root (last ds)))"

lemma building_abandoned:
  assumes "building h0 h b ds t dn" "nodes g = nodes h" "heap_ok g" "top h \<le> top g" "heap_ok h0"
  shows "\<exists>g'. seq (cJSON_Delete (Some b)) (\<lambda>_. return None) g = Inr (None :: ptr, g') \<and> heap_ok g' \<and> top h0 \<le> top g' \<and> nodes g' = nodes h0"
proof -
  obtain n where n: "nodes h b = Some n" "node_is n (unref t)" "j_child n = first (map root ds)" "j_next n = None"
    and b: "distinct (b # addrs ds)" "denotes h (first (map root ds)) ds (map unref dn)" using assms(1) by (auto simp: building_def)
  have d: "denotes g (first (map root ds)) ds (map unref dn)" by (rule denotes_unreached[OF b(2)]) (simp add: assms(2))
  have o: "owns g (first (map root ds)) ds" by (rule denotes_owns[OF d denotes_unref[OF d]])
  have "\<not> is_reference n" using n(2) not_reference_and by (cases t) (simp add: node_is_def is_reference_def)
  then have "owns g (Some b) [Rose b ds]" using n o assms(2) by (simp add: owned_child_def)
  from delete_owns[OF assms(3) this] b(1) have "cJSON_Delete (Some b) g = Inr ((), without (set (b # addrs ds)) g)" by simp
  moreover have "nodes (without (set (b # addrs ds)) g) = nodes h0"
  proof
    fix x
    show "nodes (without (set (b # addrs ds)) g) x = nodes h0 x"
    proof (cases "x \<in> set (b # addrs ds)")
      case True
      then have "top h0 \<le> x" using assms(1) by (auto simp: building_def)
      then have "nodes h0 x = None" using assms(5) unfolding heap_ok_def by (meson leD)
      with True show ?thesis by simp
    next
      case False
      then have "nodes h x = nodes h0 x" using assms(1) unfolding building_def by blast
      with False assms(2) show ?thesis by simp
    qed
  qed
  moreover have "heap_ok (without (set (b # addrs ds)) g)" using assms(3) by (simp add: heap_ok_def)
  ultimately show ?thesis using assms(1,4) by (auto simp: building_def seq_def)
qed

lemma denotes_top:
  assumes "denotes h (Some k) [Rose k rs] [t]" "k \<notin> set (addrs rs)" "nodes h k = Some n"
  shows "denotes (h\<lparr>nodes := (nodes h)(k := Some (n\<lparr>j_prev := v\<rparr>))\<rparr>) (Some k) [Rose k rs] [t]"
  by (rule denotes_frame[OF _ assms(1)]) (use assms(3) in auto)

lemma open_links_frame: "open_links h ps \<Longrightarrow> (\<And>x. x \<in> set ps \<Longrightarrow> nodes h' x = nodes h x) \<Longrightarrow> open_links h' ps"
  using links_frame[of "tl ps" h' h] by (auto simp: open_links_def split: list.splits)

text \<open>The step that hangs the next copy in.\<close>

lemma building_linked:
  assumes "heap_ok h0" "building h0 h b ds t dn" "copied can h u (Some k) h1"
  shows "\<exists>h2 rs. (if latest_of ds \<noteq> None then suffix_object (latest_of ds) (Some k) else set_child (Some b) (Some k)) h1 = Inr ((), h2) \<and>
    building h0 h2 b (ds @ [Rose k rs]) t (dn @ [u])"
proof -
  obtain rs where rs: "denotes h1 (Some k) [Rose k rs] [unref u]" "wired h1 [Rose k rs]" "distinct (addrs [Rose k rs])"
    "set (addrs [Rose k rs]) \<subseteq> {top h..<top h1}" "\<forall>x. x \<notin> set (addrs [Rose k rs]) \<longrightarrow> nodes h1 x = nodes h x"
    using assms(3) by (auto simp: copied_def)
  have ok1: "heap_ok h1" "top h \<le> top h1" using assms(3) by (auto simp: copied_def)
  note B = assms(2)[unfolded building_def]
  have old: "nodes h1 x = nodes h x" if "x \<in> set (b # addrs ds)" for x
  proof -
    have "x < top h" using that B by auto
    then have "x \<notin> set (addrs [Rose k rs])" using rs(4) by (meson atLeastLessThan_iff leD subsetD)
    then show ?thesis using rs(5) by blast
  qed
  have apart: "set (b # addrs ds) \<inter> set (addrs [Rose k rs]) = {}"
  proof -
    have "set (b # addrs ds) \<subseteq> {..<top h}" using B by auto
    with rs(4) show ?thesis by fastforce
  qed
  obtain nb where nb: "nodes h1 b = Some nb" "node_is nb (unref t)" "j_child nb = first (map root ds)" "j_next nb = None"
    using B old[of b] by auto
  obtain nk where nk: "nodes h1 k = Some nk" "j_next nk = None" using rs(1) by auto
  have den1: "denotes h1 (first (map root ds)) ds (map unref dn)" by (rule denotes_unreached[of h]) (use B old in auto)
  have wir1: "wired h1 ds" by (rule wired_unreached[of h]) (use B old in auto)
  have opn1: "open_links h1 (map root ds)" by (rule open_links_frame[of h]) (use B old root_in_addrs in auto)
  have dist: "distinct (b # addrs (ds @ [Rose k rs]))" using B rs(3) apart by (auto simp: addrs_append)
  have range: "set (b # addrs (ds @ [Rose k rs])) \<subseteq> {top h0..<top h1}" using B rs(4) ok1(2) by (fastforce simp: addrs_append)
  have else1: "nodes h1 x = nodes h0 x" if "x \<notin> set (b # addrs (ds @ [Rose k rs]))" for x
  proof -
    have "nodes h1 x = nodes h x" using that rs(5) by (simp add: addrs_append)
    moreover have "nodes h x = nodes h0 x" using that B by (simp add: addrs_append)
    ultimately show ?thesis by simp
  qed
  show ?thesis
  proof (cases "ds = []")
    case True
    let ?h = "h1\<lparr>nodes := (nodes h1)(b := Some (nb\<lparr>j_child := Some k\<rparr>))\<rparr>"
    have bk: "b \<notin> set (addrs [Rose k rs])" using apart by auto
    have "denotes ?h (Some k) [Rose k rs] [unref u]" by (rule denotes_unreached[OF rs(1)]) (use bk in auto)
    moreover have "wired ?h [Rose k rs]" by (rule wired_unreached[OF rs(2)]) (use bk in auto)
    moreover have "dn = []" using B True by (cases dn) auto
    moreover have "heap_ok ?h" using ok1(1) nb(1) by (auto simp: heap_ok_def)
    moreover have "node_is (nb\<lparr>j_child := Some k\<rparr>) (unref t)" using nb(2) by (simp add: node_is_def)
    moreover have "top h0 \<le> top h1" using B ok1(2) by linarith
    ultimately have "building h0 ?h b (ds @ [Rose k rs]) t (dn @ [u])"
      unfolding building_def using True nb nk dist range else1 bk by (auto simp: open_links_def)
    moreover have "set_child (Some b) (Some k) h1 = Inr ((), ?h)" using nb(1) by simp
    ultimately show ?thesis using True by (auto simp: latest_of_def)
  next
    case False
    let ?l = "root (last ds)"
    have l: "?l \<in> set (addrs ds)" using False by (simp add: root_in_addrs)
    then have lk: "?l \<notin> set (addrs [Rose k rs])" "?l \<noteq> b" using apart B by auto
    obtain nl where nl: "nodes h1 ?l = Some nl" using denotes_live[OF den1 l] by auto
    let ?g = "h1\<lparr>nodes := (nodes h1)(?l := Some (nl\<lparr>j_next := Some k\<rparr>))\<rparr>"
    let ?h = "?g\<lparr>nodes := (nodes ?g)(k := Some (nk\<lparr>j_prev := Some ?l\<rparr>))\<rparr>"
    have gk: "nodes ?g k = Some nk" using nk lk by auto
    have kk: "k \<notin> set (addrs ds)" "k \<notin> set (addrs rs)" "k \<noteq> b" using apart rs(3) by auto
    have r: "denotes ?g (Some k) [Rose k rs] [unref u]" by (rule denotes_unreached[OF rs(1)]) (use lk in auto)
    have "denotes ?g (first (map root ds)) (ds @ [Rose k rs]) (map unref dn @ [unref u])"
      by (rule denotes_snoc[OF den1 False _ nl refl r]) (use B in auto)
    then have den2: "denotes ?h (first (map root ds)) (ds @ [Rose k rs]) (map unref (dn @ [u]))"
      by (intro denotes_frame[of "ds @ [Rose k rs]" ?h ?g]) (use gk in auto)
    have "wired ?g ds" by (rule wired_top[OF wir1 _ nl]) (use B False in auto)
    then have "wired ?h ds" by (rule wired_unreached) (use kk in auto)
    moreover have "wired ?g [Rose k rs]" by (rule wired_unreached[OF rs(2)]) (use lk in auto)
    then have "wired ?h [Rose k rs]" by (rule wired_top[OF _ rs(3) gk]) auto
    ultimately have wir2: "wired ?h (ds @ [Rose k rs])" by (simp add: wired_append)
    have "distinct (map root ds @ [k])" using distinct_roots[of ds] B kk(1) root_in_addrs by fastforce
    from open_links_snoc[OF opn1 _ this _ nk] nl False have opn2: "open_links ?h (map root (ds @ [Rose k rs]))"
      by (simp add: last_map)
    have ok2: "heap_ok ?h" using ok1(1) nl nk by (auto simp: heap_ok_def)
    have nb2: "nodes ?h b = Some nb" using nb(1) lk(2) kk(3) by simp
    have f: "first (map root (ds @ [Rose k rs])) = first (map root ds)" using False by (simp add: first_append)
    have else2: "nodes ?h x = nodes h0 x" if "x \<notin> set (b # addrs (ds @ [Rose k rs]))" for x
      using else1[OF that] that l by (auto simp: addrs_append)
    have "top h0 \<le> top ?h" using B ok1(2) by simp
    with ok2 dist range else2 nb2 nb(2-4) den2 wir2 opn2 f have "building h0 ?h b (ds @ [Rose k rs]) t (dn @ [u])"
      unfolding building_def by auto
    moreover have "suffix_object (Some ?l) (Some k) h1 = Inr ((), ?h)" using nl gk by (simp add: suffix_object_def)
    ultimately show ?thesis using False by (auto simp: latest_of_def)
  qed
qed

text \<open>The end: the first child's \<open>prev\<close> is set to the last.\<close>

lemma building_finished:
  assumes "building h0 h b ds t dn" "children t = dn"
  shows "\<exists>h'. seq (load (Some b)) (\<lambda>nn. seq (only_if (j_child nn \<noteq> None) (set_prev (j_child nn) (latest_of ds))) (\<lambda>_. return (Some b))) h
    = Inr (Some b, h') \<and> copied can h0 t (Some b) h'"
proof -
  note B = assms(1)[unfolded building_def]
  obtain nb where nb: "nodes h b = Some nb" "node_is nb (unref t)" "j_child nb = first (map root ds)" "j_next nb = None" using B by auto
  have ch: "children (unref t) = map unref dn" using assms(2) by (cases t) simp
  have den: "denotes h (Some b) [Rose b ds] [unref t]" using nb B by (simp add: ch)
  show ?thesis
  proof (cases ds)
    case Nil
    then have "wired h [Rose b ds]" using nb by (auto simp: array_at_def)
    with den B Nil nb show ?thesis by (auto simp: copied_def)
  next
    case (Cons d us)
    let ?f = "root d"
    have f: "first (map root ds) = Some ?f" "hd (map root ds) = ?f" using Cons by simp_all
    have fd: "?f \<in> set (addrs ds)" using Cons by (auto intro: root_in_addrs)
    then have fb: "?f \<noteq> b" using B by auto
    obtain nf where nf: "nodes h ?f = Some nf" using denotes_live[of h _ ds] B fd by blast
    let ?h = "h\<lparr>nodes := (nodes h)(?f := Some (nf\<lparr>j_prev := latest_of ds\<rparr>))\<rparr>"
    have la: "latest_of ds = Some (last (map root ds))" using Cons by (simp add: latest_of_def last_map)
    have dr: "distinct (map root ds)" using B by (auto intro: distinct_roots)
    have "links ?h (last (map root ds)) (map root ds) None"
      using open_links_close[of h "map root ds" nf] B dr nf Cons unfolding la f(2) by simp
    moreover have "root ` set ds \<subseteq> set (addrs ds)" by (auto simp: root_in_addrs)
    ultimately have ar: "array_at ?h b (map root ds)" using nb dr B fb by (auto simp: array_at_def)
    have "wired ?h ds" by (rule wired_top[OF _ _ nf]) (use B Cons in auto)
    with ar have wir: "wired ?h [Rose b ds]" by simp
    have den2: "denotes ?h (Some b) [Rose b ds] [unref t]" by (rule denotes_frame[OF _ den]) (use nf in auto)
    have "heap_ok ?h" using B nf by (auto simp: heap_ok_def)
    moreover have "nodes ?h x = nodes h0 x" if "x \<notin> set (addrs [Rose b ds])" for x
    proof -
      have "x \<noteq> ?f" "x \<notin> set (b # addrs ds)" using that fd by auto
      moreover from this(2) have "nodes h x = nodes h0 x" using B by blast
      ultimately show ?thesis by simp
    qed
    moreover have "top h0 \<le> top ?h" "distinct (addrs [Rose b ds])" "set (addrs [Rose b ds]) \<subseteq> {top h0..<top ?h}" using B by simp_all
    ultimately have "copied can h0 t (Some b) ?h" unfolding copied_def option.case using den2 wir by blast
    moreover have "set_prev (Some ?f) (latest_of ds) h = Inr ((), ?h)" using nf by simp
    moreover have "seq (load (Some b)) (\<lambda>nn. seq (only_if (j_child nn \<noteq> None) (set_prev (j_child nn) (latest_of ds))) (\<lambda>_. return (Some b))) h
      = Inr (Some b, ?h)" using nb(1,3) nf f(1) by simp
    ultimately show ?thesis by blast
  qed
qed

lemma copied_mono: "copied can h t q h' \<Longrightarrow> (can' \<Longrightarrow> can) \<Longrightarrow> copied can' h t q h'"
  by (auto simp: copied_def split: option.splits)

lemma denotes_node: "denotes h0 (Some a) (Rose a rs # us) (t # ts) \<Longrightarrow>
    \<exists>n. nodes h0 a = Some n \<and> node_is n t \<and> denotes h0 (j_child n) rs (children t) \<and> denotes h0 (j_next n) us ts"
  by simp

lemma denotes_later:
  assumes "heap_ok h0" "denotes h0 p rs ts" "\<And>x. x < top h0 \<Longrightarrow> nodes h x = nodes h0 x"
  shows "denotes h p rs ts"
proof (rule denotes_unreached[OF assms(2)])
  fix x assume "x \<in> set (addrs rs)"
  with denotes_live[OF assms(2)] have "nodes h0 x \<noteq> None" by auto
  then show "nodes h x = nodes h0 x" using assms(1,3) by (auto simp: heap_ok_def)
qed

lemma building_source:
  assumes "building h0 h b ds t dn" "x < top h0"
  shows "nodes h x = nodes h0 x"
proof -
  have "set (b # addrs ds) \<subseteq> {top h0..}" using assms(1) by (auto simp: building_def)
  then have "x \<notin> set (b # addrs ds)" using assms(2) by (meson atLeast_iff leD subsetD)
  then show ?thesis using assms(1) unfolding building_def by blast
qed

lemma copied_None: "heap_ok h' \<Longrightarrow> top h \<le> top h' \<Longrightarrow> nodes h' = nodes h \<Longrightarrow> \<not> can \<Longrightarrow> copied can h t None h'"
  by (simp add: copied_def)

lemma levels_children: "levels (t # ts) = max (1 + levels (children t)) (levels ts)"
  by (cases t) simp

lemma duplicate_outcome:
  "(\<forall>h a rs t d nd. heap_ok h \<longrightarrow> nodes h a = Some nd \<longrightarrow> node_is nd t \<longrightarrow> denotes h (j_child nd) rs (children t) \<longrightarrow>
      2 * (length (addrs rs) + 1) \<le> n \<longrightarrow>
      (\<exists>q h'. duplicate_rec E n (Some a) d True h = Inr (q, h') \<and> copied (plenty E \<and> d + levels (children t) \<le> CJSON_CIRCULAR_LIMIT) h t q h')) \<and>
   (\<forall>h0 h c rs ts d b ds t dn. heap_ok h0 \<longrightarrow> denotes h0 c rs ts \<longrightarrow> 2 * length (addrs rs) + 1 \<le> n \<longrightarrow> building h0 h b ds t dn \<longrightarrow>
      children t = dn @ ts \<longrightarrow>
      (\<exists>q h'. duplicate_children E n c d (Some b) (latest_of ds) h = Inr (q, h') \<and> copied (plenty E \<and> d + levels ts \<le> CJSON_CIRCULAR_LIMIT) h0 t q h'))"
proof (induction n)
  case 0
  then show ?case by simp
next
  case (Suc n)
  note IHr = Suc[THEN conjunct1, rule_format] and IHc = Suc[THEN conjunct2, rule_format]
  have "\<exists>q h'. duplicate_rec E (Suc n) (Some a) d True h = Inr (q, h') \<and>
      copied (plenty E \<and> d + levels (children t) \<le> CJSON_CIRCULAR_LIMIT) h t q h'"
    if a: "heap_ok h" "nodes h a = Some nd" "node_is nd t" "denotes h (j_child nd) rs (children t)" "2 * (length (addrs rs) + 1) \<le> Suc n"
    for h a rs t d nd
  proof -
    obtain q h1 where q: "copy_node E nd h = Inr (q, h1)" and
      out: "case q of None \<Rightarrow> restored h h1 \<and> \<not> plenty E
     | Some b \<Rightarrow> b = top h \<and> top h1 = top h + 1 \<and> (\<exists>n. nodes h1 = (nodes h)(b := Some n) \<and> node_is n (unref t) \<and>
         j_next n = None \<and> j_prev n = None \<and> j_child n = None)"
      using copy_node_outcome[OF a(1,3)] by blast
    have e: "duplicate_rec E (Suc n) (Some a) d True h =
        (if q = None then return None h1 else duplicate_children E n (j_child nd) d q None h1)"
      using a(2) by (simp add: seq_def[of "copy_node E nd"] q)
    show ?thesis
    proof (cases q)
      case None
      then show ?thesis using e out by (auto simp: copied_def restored_def)
    next
      case (Some b)
      then have "building h h1 b [] t []" using out a(1) by (auto simp: building_def heap_ok_def less_Suc_eq open_links_def)
      from IHc[OF a(1,4) _ this, of d] a(5) obtain q' h' where
        "duplicate_children E n (j_child nd) d (Some b) (latest_of []) h1 = Inr (q', h')"
        "copied (plenty E \<and> d + levels (children t) \<le> CJSON_CIRCULAR_LIMIT) h t q' h'" by auto
      then show ?thesis using e Some by (simp add: latest_of_def)
    qed
  qed
  moreover have "\<exists>q h'. duplicate_children E (Suc n) c d (Some b) (latest_of ds) h = Inr (q, h') \<and>
      copied (plenty E \<and> d + levels ts \<le> CJSON_CIRCULAR_LIMIT) h0 t q h'"
    if a: "heap_ok h0" "denotes h0 c rs ts" "2 * length (addrs rs) + 1 \<le> Suc n" "building h0 h b ds t dn" "children t = dn @ ts"
    for h0 h c rs ts d b ds t dn
  proof (cases rs)
    case Nil
    with a(2) have "c = None" "ts = []" by (cases ts; simp)+
    then show ?thesis using building_finished[OF a(4)] a(5) by fastforce
  next
    case (Cons r us)
    then obtain k rk where r: "r = Rose k rk" by (cases r)
    then obtain u ts' where ts: "ts = u # ts'" and c: "c = Some k" using a(2) Cons by (cases ts) auto
    obtain nk where nk: "nodes h0 k = Some nk" "node_is nk u" "denotes h0 (j_child nk) rk (children u)" "denotes h0 (j_next nk) us ts'"
      using denotes_node a(2) Cons r ts c by blast
    have lt: "k < top h0" using nk(1) a(1) by (auto simp: heap_ok_def)
    have okh: "heap_ok h" using a(4) by (simp add: building_def)
    have nkh: "nodes h k = Some nk" using nk(1) building_source[OF a(4) lt] by simp
    have dh: "denotes h (j_child nk) rk (children u)" by (rule denotes_later[OF a(1) nk(3) building_source[OF a(4)]])
    show ?thesis
    proof (cases "CJSON_CIRCULAR_LIMIT \<le> d")
      case True
      from building_abandoned[OF a(4) refl okh order_refl a(1)] obtain g' where
        g': "seq (cJSON_Delete (Some b)) (\<lambda>_. return None) h = Inr (None :: ptr, g')" "heap_ok g'" "top h0 \<le> top g'" "nodes g' = nodes h0" by blast
      have "\<not> (plenty E \<and> d + levels ts \<le> CJSON_CIRCULAR_LIMIT)" using True by (auto simp: ts levels_children)
      from copied_None[OF g'(2-4) this] g'(1) show ?thesis using True
        by (intro exI[of _ None] exI[of _ g']) (simp add: c)
    next
      case False
      from IHr[OF okh nkh nk(2) dh, of "d + 1"] a(3) Cons r obtain q h1 where
        q: "duplicate_rec E n (Some k) (d + 1) True h = Inr (q, h1)"
        "copied (plenty E \<and> d + 1 + levels (children u) \<le> CJSON_CIRCULAR_LIMIT) h u q h1" by auto
      let ?link = "\<lambda>newchild. seq (if latest_of ds \<noteq> None then suffix_object (latest_of ds) newchild else set_child (Some b) newchild) (\<lambda>_.
          seq (load (Some k)) (\<lambda>cn. duplicate_children E n (j_next cn) d (Some b) newchild))"
      have e: "duplicate_children E (Suc n) c d (Some b) (latest_of ds) h =
        (if q = None then seq (cJSON_Delete (Some b)) (\<lambda>_. return None) h1 else ?link q h1)"
        using False by (simp add: c seq_def[of "duplicate_rec E n (Some k) (Suc d) True"] q(1)[simplified])
      show ?thesis
      proof (cases q)
        case None
        then have "heap_ok h1" "top h \<le> top h1" "nodes h1 = nodes h" "\<not> (plenty E \<and> d + 1 + levels (children u) \<le> CJSON_CIRCULAR_LIMIT)"
          using q(2) by (auto simp: copied_def)
        with building_abandoned[OF a(4), of h1] a(1) obtain g' where
          g': "seq (cJSON_Delete (Some b)) (\<lambda>_. return None) h1 = Inr (None :: ptr, g')" "heap_ok g'" "top h0 \<le> top g'" "nodes g' = nodes h0" by auto
        have "\<not> (plenty E \<and> d + levels ts \<le> CJSON_CIRCULAR_LIMIT)"
          using \<open>\<not> (plenty E \<and> d + 1 + levels (children u) \<le> CJSON_CIRCULAR_LIMIT)\<close> by (auto simp: ts levels_children)
        from copied_None[OF g'(2-4) this] g'(1) show ?thesis using e None
          by (intro exI[of _ None] exI[of _ g']) simp
      next
        case (Some k')
        from building_linked[OF a(1,4) q(2)[unfolded Some]] obtain h2 rs' where
          h2: "(if latest_of ds \<noteq> None then suffix_object (latest_of ds) (Some k') else set_child (Some b) (Some k')) h1 = Inr ((), h2)"
          "building h0 h2 b (ds @ [Rose k' rs']) t (dn @ [u])" by blast
        have nh: "nodes h2 k = Some nk" using nk(1) building_source[OF h2(2) lt] by simp
        have "?link (Some k') h1 = duplicate_children E n (j_next nk) d (Some b) (Some k') h2"
          by (rule seq_Inr_eq, rule h2(1), simp add: nh)
        moreover have "latest_of (ds @ [Rose k' rs']) = Some k'" by (simp add: latest_of_def)
        moreover obtain q' h' where q': "duplicate_children E n (j_next nk) d (Some b) (latest_of (ds @ [Rose k' rs'])) h2 = Inr (q', h')"
          "copied (plenty E \<and> d + levels ts' \<le> CJSON_CIRCULAR_LIMIT) h0 t q' h'"
          using IHc[OF a(1) nk(4) _ h2(2), of d] a(3,5) Cons r ts by auto
        ultimately have "duplicate_children E (Suc n) c d (Some b) (latest_of ds) h = Inr (q', h')" unfolding e Some
          using q'(1) by (simp only: option.distinct if_False)
        moreover have "copied (plenty E \<and> d + levels ts \<le> CJSON_CIRCULAR_LIMIT) h0 t q' h'"
          by (rule copied_mono[OF q'(2)]) (auto simp: ts levels_children)
        ultimately show ?thesis by blast
      qed
    qed
  qed
  ultimately show ?case by blast
qed

lemma duplicate_run:
  assumes "heap_ok h" "nodes h a = Some n" "node_is n t" "denotes h (j_child n) rs (children t)" "distinct (addrs rs)"
  shows "\<exists>q h'. cJSON_Duplicate E (Some a) True h = Inr (q, h') \<and> copied (plenty E \<and> levels (children t) \<le> CJSON_CIRCULAR_LIMIT) h t q h'"
proof -
  have "length (addrs rs) \<le> top h" by (rule live_bound[OF assms(1,5) denotes_live[OF assms(4)]])
  then have "2 * (length (addrs rs) + 1) \<le> 2 * top h + 2" by simp
  with duplicate_outcome[of "2 * top h + 2" E] assms(1-4) obtain q h' where
    "duplicate_rec E (2 * top h + 2) (Some a) 0 True h = Inr (q, h')"
    "copied (plenty E \<and> 0 + levels (children t) \<le> CJSON_CIRCULAR_LIMIT) h t q h'" by blast
  then show ?thesis by (simp add: cJSON_Duplicate_def)
qed

section \<open>Properties: duplicating\<close>

text \<open>C18: A duplicate is a copy in full, or nothing. For an item and its tree on the heap the call returns. Either it gives the same
  tree without the marks of references, on nodes that did not exist before, linked as arrays at every level, and no other
  node has changed; or it gives NULL, and not one node is left of the attempt. With an allocator that does not fail
  and at most 10000 levels it does not give NULL.\<close>

theorem duplicate_copies:
  assumes "heap_ok h" "nodes h a = Some n" "node_is n t" "denotes h (j_child n) rs (children t)" "distinct (addrs rs)"
  shows "\<exists>q h'. cJSON_Duplicate E (Some a) True h = Inr (q, h') \<and>
    (case q of None \<Rightarrow> nodes h' = nodes h \<and> \<not> ((\<forall>k n. allocate E k n) \<and> levels (children t) \<le> 10000)
     | Some b \<Rightarrow> \<exists>rs'. denotes h' (Some b) [Rose b rs'] [unref t] \<and> wired h' [Rose b rs'] \<and> distinct (addrs [Rose b rs']) \<and>
         set (addrs [Rose b rs']) \<subseteq> {top h..<top h'} \<and> (\<forall>x. x \<notin> set (addrs [Rose b rs']) \<longrightarrow> nodes h' x = nodes h x))"
proof -
  obtain q h' where q: "cJSON_Duplicate E (Some a) True h = Inr (q, h')"
    "copied (plenty E \<and> levels (children t) \<le> CJSON_CIRCULAR_LIMIT) h t q h'" using duplicate_run[OF assms] by blast
  show ?thesis
    by (intro exI[of _ q] exI[of _ h'] conjI q(1)) (use q(2) in \<open>cases q; simp add: copied_def plenty_def CJSON_CIRCULAR_LIMIT_def\<close>)
qed

definition demo_tree :: "int cJSON" where
  "demo_tree = Item 32 None 0 0 None [Item 4 None 0 0 None [], Item 32 None 0 0 None [Item 8 None 7 7 None []]]"

theorem duplicate_copies_witness:
  "\<exists>b rs' h'. cJSON_Duplicate demo_json_env (Some 0) True demo_heap = Inr (Some b, h') \<and> denotes h' (Some b) [Rose b rs'] [demo_tree]"
proof -
  obtain n where n: "nodes demo_heap 0 = Some n" "node_is n demo_tree"
    "denotes demo_heap (j_child n) [Rose 1 [], Rose 2 [Rose 4 []]] (children demo_tree)"
    by (simp add: demo_heap_def demo_tree_def node_is_def)
  have "unref demo_tree = demo_tree" by (simp add: demo_tree_def not_reference_def)
  moreover have "\<forall>k n. allocate demo_json_env k n" "levels (children demo_tree) \<le> 10000" by (simp_all add: demo_json_env_def demo_tree_def)
  moreover have "distinct (addrs [Rose 1 [], Rose 2 [Rose 4 []]])" by simp
  note duplicate_copies[OF demo_heap_ok(1) n this, of demo_json_env]
  then obtain q h' where q: "cJSON_Duplicate demo_json_env (Some 0) True demo_heap = Inr (q, h')"
    "case q of None \<Rightarrow> nodes h' = nodes demo_heap \<and> \<not> ((\<forall>k n. allocate demo_json_env k n) \<and> levels (children demo_tree) \<le> 10000)
     | Some b \<Rightarrow> \<exists>rs'. denotes h' (Some b) [Rose b rs'] [unref demo_tree] \<and> wired h' [Rose b rs'] \<and> distinct (addrs [Rose b rs']) \<and>
         set (addrs [Rose b rs']) \<subseteq> {top demo_heap..<top h'} \<and>
         (\<forall>x. x \<notin> set (addrs [Rose b rs']) \<longrightarrow> nodes h' x = nodes demo_heap x)" by (elim exE conjE)
  ultimately obtain b where b: "q = Some b" by (cases q) auto
  from q(2)[unfolded b option.case] obtain rs' where "denotes h' (Some b) [Rose b rs'] [unref demo_tree]" by (elim exE conjE)
  with q(1) b \<open>unref demo_tree = demo_tree\<close> show ?thesis by metis
qed

end
