(* ===== verification/Cjson_Compare.thy ===== *)
theory Cjson_Compare
  imports Cjson_Duplicate Cjson_Print
begin

text \<open>
  Comparing items, \<open>cJSON_Compare\<close> of \<open>src/src/cJSON.c\<close>, on the heap, and a comparison of trees that it computes. An
  item equals its duplicate, and the order of the arguments does not matter.
\<close>

section \<open>The code\<close>

definition comparable :: "nat \<Rightarrow> bool" where
  "comparable k \<longleftrightarrow> k \<in> {cJSON_False, cJSON_True, cJSON_NULL, cJSON_Number, cJSON_String, cJSON_Raw, cJSON_Array, cJSON_Object}"

text \<open>The cases that are decided without looking at children: kinds, whether the items are the same one, numbers, strings.\<close>

definition verdict :: "'d json_env \<Rightarrow> bool \<Rightarrow> nat \<Rightarrow> nat \<Rightarrow> 'd \<Rightarrow> 'd \<Rightarrow> string option \<Rightarrow> string option \<Rightarrow> bool option" where
  "verdict E same k l d e v w =
     (if k \<noteq> l \<or> \<not> comparable k then Some False
      else if same \<or> k = cJSON_False \<or> k = cJSON_True \<or> k = cJSON_NULL then Some True
      else if k = cJSON_Number then Some (compare_double E d e)
      else if k = cJSON_String \<or> k = cJSON_Raw then Some (v \<noteq> None \<and> w = v)
      else None)"

definition node_verdict :: "'d json_env \<Rightarrow> bool \<Rightarrow> 'd node \<Rightarrow> 'd node \<Rightarrow> bool option" where
  "node_verdict E same x y = verdict E same (j_type x AND 0xFF) (j_type y AND 0xFF) (j_valuedouble x) (j_valuedouble y)
     (j_valuestring x) (j_valuestring y)"

text \<open>The loop over two arrays, and each of the two loops over the members of one object and their counterparts in the other; \<open>cmp\<close> compares
  children, the number is a fuel.\<close>

fun compare_elements :: "(ptr \<Rightarrow> ptr \<Rightarrow> 'd heap \<Rightarrow> link_fault + bool \<times> 'd heap) \<Rightarrow> nat \<Rightarrow> ptr \<Rightarrow> ptr \<Rightarrow> 'd heap \<Rightarrow> link_fault + bool \<times> 'd heap" where
  "compare_elements cmp 0 p q h = Inl NoEnd"
| "compare_elements cmp (Suc n) p q h =
     (if p = None \<or> q = None then return (p = q) h
      else seq (cmp p q) (\<lambda>ok.
        if \<not> ok then return False
        else seq (load p) (\<lambda>x. seq (load q) (\<lambda>y. compare_elements cmp n (j_next x) (j_next y)))) h)"

fun compare_members ::
  "(ptr \<Rightarrow> ptr \<Rightarrow> 'd heap \<Rightarrow> link_fault + bool \<times> 'd heap) \<Rightarrow> bool \<Rightarrow> nat \<Rightarrow> ptr \<Rightarrow> ptr \<Rightarrow> 'd heap \<Rightarrow> link_fault + bool \<times> 'd heap" where
  "compare_members cmp cs 0 p obj h = Inl NoEnd"
| "compare_members cmp cs (Suc n) p obj h =
     (if p = None then return True h
      else seq (load p) (\<lambda>x. seq (get_object_item obj (j_string x) cs) (\<lambda>q.
        if q = None then return False
        else seq (cmp p q) (\<lambda>ok. if \<not> ok then return False else compare_members cmp cs n (j_next x) obj))) h)"

primrec compare_rec :: "'d json_env \<Rightarrow> nat \<Rightarrow> bool \<Rightarrow> ptr \<Rightarrow> ptr \<Rightarrow> 'd heap \<Rightarrow> link_fault + bool \<times> 'd heap" where
  "compare_rec E 0 cs a b h = Inl NoEnd"
| "compare_rec E (Suc n) cs a b h =
     (if a = None \<or> b = None then return False h
      else seq (load a) (\<lambda>x. seq (load b) (\<lambda>y.
        case node_verdict E (a = b) x y of
          Some r \<Rightarrow> return r
        | None \<Rightarrow>
            if j_type x AND 0xFF = cJSON_Array then compare_elements (compare_rec E n cs) (top h + 1) (j_child x) (j_child y)
            else seq (compare_members (compare_rec E n cs) cs (top h + 1) (j_child x) b) (\<lambda>ok.
                   if ok then compare_members (compare_rec E n cs) cs (top h + 1) (j_child y) a else return False))) h)"

definition cJSON_Compare :: "'d json_env \<Rightarrow> ptr \<Rightarrow> ptr \<Rightarrow> bool \<Rightarrow> 'd heap \<Rightarrow> link_fault + bool \<times> 'd heap" where
  "cJSON_Compare E a b case_sensitive h = compare_rec E (2 * top h + 1) case_sensitive a b h"

section \<open>Comparing trees\<close>

fun find_member :: "bool \<Rightarrow> string \<Rightarrow> 'd cJSON list \<Rightarrow> 'd cJSON option" where
  "find_member cs name [] = None"
| "find_member cs name (c # r) = (if key_stops cs name (item_string c) then Some c else find_member cs name r)"

lemma find_member_in: "find_member cs name ts = Some t \<Longrightarrow> t \<in> set ts"
  by (induction ts) (auto split: if_splits)

lemma size_children: "size_list size (children t) < size t"
  by (cases t) simp

function compare_items :: "'d json_env \<Rightarrow> bool \<Rightarrow> 'd cJSON \<Rightarrow> 'd cJSON \<Rightarrow> bool"
and compare_lists :: "'d json_env \<Rightarrow> bool \<Rightarrow> 'd cJSON list \<Rightarrow> 'd cJSON list \<Rightarrow> bool"
and compare_all :: "'d json_env \<Rightarrow> bool \<Rightarrow> 'd cJSON list \<Rightarrow> 'd cJSON list \<Rightarrow> bool" where
  "compare_items E cs t u =
     (case verdict E False (item_type t AND 0xFF) (item_type u AND 0xFF) (valuedouble t) (valuedouble u) (valuestring t) (valuestring u) of
        Some r \<Rightarrow> r
      | None \<Rightarrow>
          if item_type t AND 0xFF = cJSON_Array then compare_lists E cs (children t) (children u)
          else compare_all E cs (children t) (children u) \<and> compare_all E cs (children u) (children t))"
| "compare_lists E cs [] us = (us = [])"
| "compare_lists E cs (t # ts) us = (case us of [] \<Rightarrow> False | u # us' \<Rightarrow> compare_items E cs t u \<and> compare_lists E cs ts us')"
| "compare_all E cs [] us = True"
| "compare_all E cs (t # ts) us =
     (case item_string t of None \<Rightarrow> False
      | Some k \<Rightarrow> (case find_member cs k us of None \<Rightarrow> False
                 | Some u \<Rightarrow> item_string u \<noteq> None \<and> compare_items E cs t u \<and> compare_all E cs ts us))"
  by pat_completeness auto
termination
proof (relation "measure (\<lambda>x. case x of
     Inl (_, _, t, u) \<Rightarrow> 2 * (size t + size u)
   | Inr (Inl (_, _, ts, us)) \<Rightarrow> 2 * (size_list size ts + size_list size us) + 1
   | Inr (Inr (_, _, ts, us)) \<Rightarrow> 2 * (size_list size ts + size_list size us) + 1)", goal_cases)
  case (2 E cs t u)
  then show ?case using size_children[of t] size_children[of u] by simp
next
  case (3 E cs t u)
  then show ?case using size_children[of t] size_children[of u] by simp
next
  case (4 E cs t u)
  then show ?case using size_children[of t] size_children[of u] by simp
next
  case (7 E cs t ts us k u)
  then have "size u \<le> size_list size us" using find_member_in[of cs k us u] by (intro size_list_estimation') auto
  then show ?case by simp
qed simp_all

declare compare_items.simps [simp del]

section \<open>The code computes the comparison of trees\<close>

text \<open>The node \<open>a\<close> with the trees \<open>rs\<close> below it holds \<open>t\<close>.\<close>

definition item_at :: "'d heap \<Rightarrow> nat \<Rightarrow> rose list \<Rightarrow> 'd cJSON \<Rightarrow> bool" where
  "item_at h a rs t \<longleftrightarrow> (\<exists>x. nodes h a = Some x \<and> node_is x t \<and> denotes h (j_child x) rs (children t))"

lemma denotes_Cons_iff: "denotes h p (Rose a rs # us) (t # ts) \<longleftrightarrow>
    p = Some a \<and> item_at h a rs t \<and> (\<exists>x. nodes h a = Some x \<and> denotes h (j_next x) us ts)"
  by (auto simp: item_at_def)

lemma member_from_at:
  "denotes h p us ts \<Longrightarrow> length us < n \<Longrightarrow>
    (case find_member cs name ts of
       None \<Rightarrow> member_from n cs name p h = Inr (None, h)
     | Some t \<Rightarrow> \<exists>a rs. member_from n cs name p h = Inr (Some a, h) \<and> Rose a rs \<in> set us \<and> item_at h a rs t)"
proof (induction h p us ts arbitrary: n rule: denotes.induct)
  case (1 h p)
  then show ?case by (cases n) auto
next
  case (2 h p a rs us t ts)
  obtain m where n: "n = Suc m" using "2.prems"(2) by (cases n) auto
  obtain x where x: "p = Some a" "nodes h a = Some x" "node_is x t" "denotes h (j_child x) rs (children t)" "denotes h (j_next x) us ts"
    using "2.prems"(1) by auto
  have k: "j_string x = item_string t" using x(3) by (simp add: node_is_def)
  show ?case
  proof (cases "key_stops cs name (item_string t)")
    case True
    then show ?thesis using x k by (auto simp: n item_at_def)
  next
    case False
    have "length us < m" using "2.prems"(2) n by simp
    from "2.IH"(2)[OF x(5) this] show ?thesis using False x k by (auto simp: n split: option.splits)
  qed
qed auto

lemma length_le_addrs: "length us \<le> length (addrs us)"
  by (induction us rule: addrs.induct) simp_all

lemma get_object_item_at:
  assumes "item_at h o' us u" "length (addrs us) \<le> top h"
  shows "case find_member cs k (children u) of
       None \<Rightarrow> get_object_item (Some o') (Some k) cs h = Inr (None, h)
     | Some t \<Rightarrow> \<exists>a rs. get_object_item (Some o') (Some k) cs h = Inr (if item_string t = None then None else Some a, h) \<and>
         Rose a rs \<in> set us \<and> item_at h a rs t"
proof -
  obtain x where x: "nodes h o' = Some x" "denotes h (j_child x) us (children u)" using assms(1) by (auto simp: item_at_def)
  have "length us < top h + 1" using assms(2) length_le_addrs[of us] by simp
  from member_from_at[OF x(2) this, of cs k] x(1) show ?thesis
    by (fastforce simp: get_object_item_def seq_def item_at_def node_is_def split: option.splits)
qed

text \<open>What \<open>cmp\<close> must do on pairs of trees below \<open>rs\<close> and \<open>us\<close>.\<close>

definition compares :: "(ptr \<Rightarrow> ptr \<Rightarrow> 'd heap \<Rightarrow> link_fault + bool \<times> 'd heap) \<Rightarrow> ('d cJSON \<Rightarrow> 'd cJSON \<Rightarrow> bool) \<Rightarrow> 'd heap \<Rightarrow>
    rose list \<Rightarrow> rose list \<Rightarrow> bool" where
  "compares cmp C h rs us \<longleftrightarrow> (\<forall>a as b bs t u. Rose a as \<in> set rs \<longrightarrow> Rose b bs \<in> set us \<longrightarrow> item_at h a as t \<longrightarrow> item_at h b bs u \<longrightarrow>
     cmp (Some a) (Some b) h = Inr (C t u, h))"

lemma compare_elements_at:
  assumes "compares cmp (compare_items E cs) h rs us" "denotes h p rs ts" "denotes h q us ss" "length rs < n"
  shows "compare_elements cmp n p q h = Inr (compare_lists E cs ts ss, h)"
  using assms
proof (induction rs arbitrary: p q ts us ss n)
  case Nil
  then obtain m where "n = Suc m" "p = None" "ts = []" by (cases n; cases ts) auto
  moreover have "q = None \<longleftrightarrow> ss = []" using Nil.prems(3) by (cases us; cases ss) (auto elim: denotes.elims)
  ultimately show ?case by auto
next
  case (Cons r rs)
  obtain a as where r: "r = Rose a as" by (cases r)
  obtain t ts' where ts: "ts = t # ts'" using Cons.prems(2) r by (cases ts) auto
  obtain m where n: "n = Suc m" using Cons.prems(4) by (cases n) auto
  obtain x where x: "p = Some a" "item_at h a as t" "nodes h a = Some x" "denotes h (j_next x) rs ts'"
    using Cons.prems(2) unfolding r ts denotes_Cons_iff by blast
  show ?case
  proof (cases us)
    case Nil
    then have "q = None" "ss = []" using Cons.prems(3) by (cases ss; auto)+
    then show ?thesis using x n ts by simp
  next
    case (Cons v us')
    obtain b bs where v: "v = Rose b bs" by (cases v)
    obtain u ss' where ss: "ss = u # ss'" using Cons.prems(3) Cons v by (cases ss) auto
    obtain y where y: "q = Some b" "item_at h b bs u" "nodes h b = Some y" "denotes h (j_next y) us' ss'"
      using Cons.prems(3) unfolding Cons v ss denotes_Cons_iff by blast
    have c: "cmp (Some a) (Some b) h = Inr (compare_items E cs t u, h)"
      using Cons.prems(1) x(2) y(2) unfolding compares_def by (auto simp: r v Cons)
    have "compares cmp (compare_items E cs) h rs us'" using Cons.prems(1) unfolding compares_def by (auto simp: Cons)
    from Cons.IH[OF this x(4) y(4)] Cons.prems(4) n have "compare_elements cmp m (j_next x) (j_next y) h = Inr (compare_lists E cs ts' ss', h)" by simp
    then show ?thesis using x y c by (simp add: n ts ss seq_def[of "cmp (Some a) (Some b)"])
  qed
qed

lemma compare_members_at:
  assumes "compares cmp (compare_items E cs) h rs us" "denotes h p rs ts" "item_at h o' us u" "length rs < n" "length (addrs us) \<le> top h"
  shows "compare_members cmp cs n p (Some o') h = Inr (compare_all E cs ts (children u), h)"
  using assms(1,2,4)
proof (induction rs arbitrary: p ts n)
  case Nil
  then obtain m where "n = Suc m" "p = None" "ts = []" by (cases n; cases ts) auto
  then show ?case by simp
next
  case (Cons r rs)
  obtain a as where r: "r = Rose a as" by (cases r)
  obtain t ts' where ts: "ts = t # ts'" using Cons.prems(2) r by (cases ts) auto
  obtain m where n: "n = Suc m" using Cons.prems(3) by (cases n) auto
  obtain x where x: "p = Some a" "item_at h a as t" "nodes h a = Some x" "denotes h (j_next x) rs ts'"
    using Cons.prems(2) unfolding r ts denotes_Cons_iff by blast
  have key: "j_string x = item_string t" using x(2,3) by (auto simp: item_at_def node_is_def)
  have rest: "compare_members cmp cs m (j_next x) (Some o') h = Inr (compare_all E cs ts' (children u), h)"
    by (rule Cons.IH) (use Cons.prems x(4) n in \<open>auto simp: compares_def\<close>)
  show ?case
  proof (cases "item_string t")
    case None
    then have "get_object_item (Some o') (j_string x) cs h = Inr (None, h)" using key by (simp add: get_object_item_def)
    then show ?thesis using None x by (simp add: n ts seq_def[of "get_object_item (Some o') (j_string x) cs"])
  next
    case (Some k)
    note found = get_object_item_at[OF assms(3,5), of k cs]
    show ?thesis
    proof (cases "find_member cs k (children u)")
      case None
      then have "get_object_item (Some o') (j_string x) cs h = Inr (None, h)" using found key Some by simp
      then show ?thesis using None Some x by (simp add: n ts seq_def[of "get_object_item (Some o') (j_string x) cs"])
    next
      case (Some u')
      then obtain b bs where b: "get_object_item (Some o') (Some k) cs h = Inr (if item_string u' = None then None else Some b, h)"
        "Rose b bs \<in> set us" "item_at h b bs u'" using found by auto
      have c: "cmp (Some a) (Some b) h = Inr (compare_items E cs t u', h)"
        using Cons.prems(1) x(2) b(2,3) unfolding compares_def by (auto simp: r)
      show ?thesis using Some x rest c b(1) key \<open>item_string t = Some k\<close>
        by (auto simp: n ts seq_def[of "get_object_item (Some o') (Some k) cs"] seq_def[of "cmp (Some a) (Some b)"])
    qed
  qed
qed

lemma addrs_subtree: "Rose a as \<in> set rs \<Longrightarrow> set (a # addrs as) \<subseteq> set (addrs rs) \<and> length (addrs as) < length (addrs rs)"
  by (induction rs rule: addrs.induct) auto

lemma compare_rec_at:
  "item_at h a rs t \<Longrightarrow> item_at h b us u \<Longrightarrow> set (a # addrs rs) \<inter> set (b # addrs us) = {} \<Longrightarrow>
    length (addrs rs) + length (addrs us) < n \<Longrightarrow> length (addrs rs) \<le> top h \<Longrightarrow> length (addrs us) \<le> top h \<Longrightarrow>
    compare_rec E n cs (Some a) (Some b) h = Inr (compare_items E cs t u, h)"
proof (induction n arbitrary: a rs t b us u)
  case (Suc n)
  obtain x where x: "nodes h a = Some x" "node_is x t" "denotes h (j_child x) rs (children t)" using Suc.prems(1) by (auto simp: item_at_def)
  obtain y where y: "nodes h b = Some y" "node_is y u" "denotes h (j_child y) us (children u)" using Suc.prems(2) by (auto simp: item_at_def)
  have ab: "a \<noteq> b" using Suc.prems(3) by auto
  have v: "node_verdict E (Some a = Some b) x y = verdict E False (item_type t AND 0xFF) (item_type u AND 0xFF) (valuedouble t) (valuedouble u) (valuestring t) (valuestring u)"
    using x(2) y(2) ab by (simp add: node_verdict_def node_is_def)
  have ty: "j_type x = item_type t" using x(2) by (simp add: node_is_def)
  have cmp: "compares (compare_rec E n cs) (compare_items E cs) h rs us"
    unfolding compares_def
  proof (intro allI impI)
    fix c cs' d ds t' u' assume c: "Rose c cs' \<in> set rs" "Rose d ds \<in> set us" and i: "item_at h c cs' t'" "item_at h d ds u'"
    show "compare_rec E n cs (Some c) (Some d) h = Inr (compare_items E cs t' u', h)"
      by (rule Suc.IH[OF i]) (use addrs_subtree[OF c(1)] addrs_subtree[OF c(2)] Suc.prems in auto)
  qed
  have cmp': "compares (compare_rec E n cs) (compare_items E cs) h us rs"
    unfolding compares_def
  proof (intro allI impI)
    fix c cs' d ds t' u' assume c: "Rose c cs' \<in> set us" "Rose d ds \<in> set rs" and i: "item_at h c cs' t'" "item_at h d ds u'"
    show "compare_rec E n cs (Some c) (Some d) h = Inr (compare_items E cs t' u', h)"
      by (rule Suc.IH[OF i]) (use addrs_subtree[OF c(1)] addrs_subtree[OF c(2)] Suc.prems in auto)
  qed
  have l: "length rs < top h + 1" "length us < top h + 1" using Suc.prems(5,6) length_le_addrs[of rs] length_le_addrs[of us] by simp_all
  have e: "compare_elements (compare_rec E n cs) (top h + 1) (j_child x) (j_child y) h = Inr (compare_lists E cs (children t) (children u), h)"
    by (rule compare_elements_at[OF cmp x(3) y(3) l(1)])
  have m: "compare_members (compare_rec E n cs) cs (top h + 1) (j_child x) (Some b) h = Inr (compare_all E cs (children t) (children u), h)"
    by (rule compare_members_at[OF cmp x(3) Suc.prems(2) l(1) Suc.prems(6)])
  have m': "compare_members (compare_rec E n cs) cs (top h + 1) (j_child y) (Some a) h = Inr (compare_all E cs (children u) (children t), h)"
    by (rule compare_members_at[OF cmp' y(3) Suc.prems(1) l(2) Suc.prems(5)])
  have "compare_rec E (Suc n) cs (Some a) (Some b) h =
     (case verdict E False (item_type t AND 0xFF) (item_type u AND 0xFF) (valuedouble t) (valuedouble u) (valuestring t) (valuestring u) of
        Some r \<Rightarrow> return r h
      | None \<Rightarrow> if item_type t AND 0xFF = cJSON_Array then compare_elements (compare_rec E n cs) (top h + 1) (j_child x) (j_child y) h
          else seq (compare_members (compare_rec E n cs) cs (top h + 1) (j_child x) (Some b)) (\<lambda>ok.
                 if ok then compare_members (compare_rec E n cs) cs (top h + 1) (j_child y) (Some a) else return False) h)"
    using x(1) y(1) v ty by (simp split: option.split)
  then show ?case using e m m'
    by (auto simp: compare_items.simps[of E cs t u] seq_def split: option.split)
qed simp

lemma compare_computes:
  assumes "heap_ok h" "item_at h a rs t" "item_at h b us u" "distinct (a # addrs rs @ b # addrs us)"
  shows "cJSON_Compare E (Some a) (Some b) cs h = Inr (compare_items E cs t u, h)"
proof -
  have "length (addrs rs) \<le> top h" if "item_at h a rs t" "distinct (addrs rs)" for a rs t
    using that live_bound[OF assms(1), of "addrs rs"] denotes_live by (fastforce simp: item_at_def)
  from this[OF assms(2)] this[OF assms(3)] assms(4) have "length (addrs rs) \<le> top h" "length (addrs us) \<le> top h" by auto
  with compare_rec_at[OF assms(2,3), of "2 * top h + 1" E cs] assms(4) show ?thesis by (auto simp: cJSON_Compare_def)
qed

section \<open>Symmetry\<close>

lemma verdict_sym:
  assumes "\<forall>x y. compare_double E x y = compare_double E y x"
  shows "verdict E s k l d e v w = verdict E s l k e d w v"
  using assms by (auto simp: verdict_def)

lemma verdict_None: "verdict E False k l d e v w = None \<Longrightarrow> k = l \<and> (k = cJSON_Array \<or> k = cJSON_Object)"
  by (auto simp: verdict_def comparable_def split: if_splits)

lemma compare_lists_Nil2: "compare_lists E cs ts [] = (ts = [])"
  by (cases ts) simp_all

lemma compare_items_sym:
  shows "(\<forall>x y. compare_double E x y = compare_double E y x) \<Longrightarrow> compare_items E cs t u = compare_items E cs u t"
    and "(\<forall>x y. compare_double E x y = compare_double E y x) \<Longrightarrow> compare_lists E cs ts us = compare_lists E cs us ts"
    and "compare_all E cs ps qs = compare_all E cs ps qs"
proof (induction E cs t u and E cs ts us and E cs ps qs rule: compare_items_compare_lists_compare_all.induct)
  case (1 E cs t u)
  let ?v = "verdict E False (item_type t AND 0xFF) (item_type u AND 0xFF) (valuedouble t) (valuedouble u) (valuestring t) (valuestring u)"
  have v: "verdict E False (item_type u AND 0xFF) (item_type t AND 0xFF) (valuedouble u) (valuedouble t) (valuestring u) (valuestring t) = ?v"
    by (rule verdict_sym[OF 1(4)])
  show ?case
  proof (cases ?v)
    case None
    then have "item_type u AND 0xFF = item_type t AND 0xFF" using verdict_None by fastforce
    with None v 1(1)[OF None _ 1(4)] show ?thesis by (auto simp: compare_items.simps[of E cs t u] compare_items.simps[of E cs u t])
  next
    case (Some r)
    with v show ?thesis by (simp add: compare_items.simps[of E cs t u] compare_items.simps[of E cs u t])
  qed
next
  case (3 E cs t ts us)
  then show ?case by (cases us) auto
qed (auto simp: compare_lists_Nil2)

section \<open>Copies\<close>

definition fold_key :: "bool \<Rightarrow> string \<Rightarrow> string" where
  "fold_key cs k = (if cs then k else map lower_char k)"

lemma key_stops_fold: "key_stops cs name (Some k) \<longleftrightarrow> fold_key cs name = fold_key cs k"
  by (simp add: key_stops_def fold_key_def strcaseeq_def)

definition keys_ok :: "bool \<Rightarrow> 'd cJSON list \<Rightarrow> bool" where
  "keys_ok cs ch \<longleftrightarrow> list_all (\<lambda>c. item_string c \<noteq> None) ch \<and> distinct (map (\<lambda>c. fold_key cs (the (item_string c))) ch)"

text \<open>Items of a known kind, with numbers that equal themselves, texts present, and keys that the search tells apart.\<close>

fun self_equal :: "'d json_env \<Rightarrow> bool \<Rightarrow> 'd cJSON \<Rightarrow> bool" where
  "self_equal E cs (Item ty vs vi vd key ch) =
     (comparable (ty AND 0xFF) \<and> (ty AND 0xFF = cJSON_Number \<longrightarrow> compare_double E vd vd) \<and>
      (ty AND 0xFF = cJSON_String \<or> ty AND 0xFF = cJSON_Raw \<longrightarrow> vs \<noteq> None) \<and>
      (ty AND 0xFF = cJSON_Object \<longrightarrow> keys_ok cs ch) \<and> list_all (self_equal E cs) ch)"

lemma and_256: "n AND 256 = (if bit n 8 then 256 else 0)" for n :: nat
proof (rule bit_eqI)
  fix k
  have "bit (256 :: nat) k \<longleftrightarrow> k = 8" using bit_exp_iff[of 8 k, where 'a = nat] by simp
  then show "bit (n AND 256) k = bit (if bit n 8 then 256 else 0 :: nat) k" by (auto simp: bit_and_iff)
qed

lemma not_reference_kind: "not_reference ty AND 0xFF = ty AND 0xFF"
proof -
  have m: "n AND 255 = n mod 256" for n :: nat
    using take_bit_eq_mask[of 8 n] by (simp add: take_bit_eq_mod mask_eq_exp_minus_1)
  have "ty AND 256 = 0 \<or> ty AND 256 = 256 \<and> 256 \<le> ty"
  proof (cases "bit ty 8")
    case True
    then have "odd (ty div 256)" by (simp add: bit_iff_odd)
    then have "256 \<le> ty" by (metis div_less even_zero linorder_not_less)
    with True show ?thesis by (simp add: and_256)
  qed (simp add: and_256)
  then show ?thesis by (auto simp: m not_reference_def le_mod_geq)
qed

lemma find_member_copy:
  assumes "keys_ok cs ch" "c \<in> set ch" "item_string c = Some k" "\<And>d. item_string (f d) = item_string d"
  shows "find_member cs k (map f ch) = Some (f c)"
  using assms(1,2)
proof (induction ch)
  case (Cons d ch)
  show ?case
  proof (cases "d = c")
    case True
    then show ?thesis using assms(3,4) by (simp add: key_stops_fold)
  next
    case False
    obtain j where j: "item_string d = Some j" using Cons.prems(1) by (auto simp: keys_ok_def)
    have c: "c \<in> set ch" using Cons.prems(2) False by simp
    have "fold_key cs (the (item_string d)) \<notin> (\<lambda>c. fold_key cs (the (item_string c))) ` set ch"
      using Cons.prems(1) by (simp add: keys_ok_def)
    then have "fold_key cs (the (item_string d)) \<noteq> fold_key cs (the (item_string c))" using c by blast
    then have "fold_key cs k \<noteq> fold_key cs j" using assms(3) j by simp
    moreover have "keys_ok cs ch" using Cons.prems(1) by (simp add: keys_ok_def)
    ultimately show ?thesis using Cons.IH[OF _ c] assms(4) j by (simp add: key_stops_fold)
  qed
qed simp

lemma compare_all_copy:
  assumes "\<And>t. t \<in> set ts \<Longrightarrow> \<exists>k u. item_string t = Some k \<and> find_member cs k us = Some u \<and> item_string u \<noteq> None \<and> compare_items E cs t u"
  shows "compare_all E cs ts us"
  using assms
proof (induction ts)
  case (Cons t ts)
  from Cons.prems[of t] obtain k u where "item_string t = Some k" "find_member cs k us = Some u" "item_string u \<noteq> None" "compare_items E cs t u" by auto
  with Cons show ?case by simp
qed simp

lemma unref_simps [simp]: "item_string (unref t) = item_string t" "valuestring (unref t) = valuestring t"
  "valuedouble (unref t) = valuedouble t" "children (unref t) = map unref (children t)" "item_type (unref t) AND 0xFF = item_type t AND 0xFF"
  by (cases t; simp add: not_reference_kind)+

lemma compare_copy: "self_equal E cs t \<Longrightarrow> compare_items E cs t (unref t) \<and> compare_items E cs (unref t) t"
proof (induction t)
  case (Item ty vs vi vd key ch)
  have IH: "compare_items E cs c (unref c) \<and> compare_items E cs (unref c) c" if "c \<in> set ch" for c
    using Item that by (simp add: list_all_iff)
  then have lists: "compare_lists E cs ch (map unref ch)" "compare_lists E cs (map unref ch) ch"
    by (induction ch) auto
  have alls: "compare_all E cs ch (map unref ch) \<and> compare_all E cs (map unref ch) ch" if "ty AND 0xFF = cJSON_Object"
  proof -
    have k: "keys_ok cs ch" using Item.prems that by simp
    have key: "\<exists>k. item_string c = Some k" if "c \<in> set ch" for c using k that by (auto simp: keys_ok_def list_all_iff)
    have "\<exists>k u. item_string c = Some k \<and> find_member cs k (map unref ch) = Some u \<and> item_string u \<noteq> None \<and> compare_items E cs c u"
      if "c \<in> set ch" for c
    proof -
      obtain j where j: "item_string c = Some j" using key \<open>c \<in> set ch\<close> by blast
      with find_member_copy[OF k that j, of unref] IH[OF that] show ?thesis by auto
    qed
    then have "compare_all E cs ch (map unref ch)" by (rule compare_all_copy)
    moreover have "\<exists>k u. item_string t = Some k \<and> find_member cs k ch = Some u \<and> item_string u \<noteq> None \<and> compare_items E cs t u"
      if t: "t \<in> set (map unref ch)" for t
    proof -
      from t obtain c where c: "c \<in> set ch" "t = unref c" by auto
      obtain j where j: "item_string c = Some j" using key c(1) by blast
      with find_member_copy[OF k c(1) j, of id] IH[OF c(1)] c(2) show ?thesis by auto
    qed
    then have "compare_all E cs (map unref ch) ch" by (rule compare_all_copy)
    ultimately show ?thesis ..
  qed
  let ?t = "Item ty vs vi vd key ch" and ?u = "Item (not_reference ty) vs vi vd key (map unref ch)"
  have v: "verdict E False (ty AND 0xFF) (ty AND 0xFF) vd vd vs vs = (if ty AND 0xFF = cJSON_Array \<or> ty AND 0xFF = cJSON_Object then None else Some True)"
    using Item.prems by (auto simp: verdict_def comparable_def)
  have "compare_items E cs ?t ?u" "compare_items E cs ?u ?t"
    using lists alls Item.prems
    by (auto simp: compare_items.simps[of E cs ?t ?u] compare_items.simps[of E cs ?u ?t] not_reference_kind v[simplified] comparable_def split: if_splits)
  then show ?case by simp
qed

section \<open>Properties: comparing\<close>

text \<open>The order of the arguments does not matter. For two items whose trees share no node the comparison returns, leaves the heap
  as it is, and gives the same answer with its arguments exchanged, if the comparison of two numbers does. (The order of the
  members of an object, the marks of references and constant keys, and keys of the two items themselves play no part.)\<close>

theorem compare_symmetric:
  assumes "\<forall>x y. compare_double E x y = compare_double E y x" "heap_ok h" "item_at h a rs t" "item_at h b us u"
    "distinct (a # addrs rs @ b # addrs us)"
  shows "\<exists>r. cJSON_Compare E (Some a) (Some b) cs h = Inr (r, h) \<and> cJSON_Compare E (Some b) (Some a) cs h = Inr (r, h)"
proof -
  have "distinct (b # addrs us @ a # addrs rs)" using assms(5) by auto
  with compare_computes[OF assms(2-5), of E cs] compare_computes[OF assms(2,4,3), of E cs] compare_items_sym(1)[OF assms(1), of cs t u]
  show ?thesis by simp
qed


text \<open>An object with two members of one key does not equal its own copy: the second is compared with the copy of the first.\<close>

lemma repeated_key_unequal:
  "\<not> compare_items demo_json_env True (Item 64 None 0 0 None [Item 4 None 0 0 (Some ''a'') [], Item 2 None 0 0 (Some ''a'') []])
                               (Item 64 None 0 0 None [Item 4 None 0 0 (Some ''a'') [], Item 2 None 0 0 (Some ''a'') []])"
  by (simp add: compare_items.simps verdict_def comparable_def key_stops_def)

lemma demo_compare_double: "compare_double demo_json_env x y \<longleftrightarrow> x = y"
  by (simp add: compare_double_def demo_json_env_def)

theorem compare_symmetric_witness:
  "\<exists>r. cJSON_Compare demo_json_env (Some 1) (Some 2) True demo_heap = Inr (r, demo_heap) \<and>
       cJSON_Compare demo_json_env (Some 2) (Some 1) True demo_heap = Inr (r, demo_heap)"
proof -
  have i: "item_at demo_heap 1 [] (Item 4 None 0 0 None [])" "item_at demo_heap 2 [Rose 4 []] (Item 32 None 0 0 None [Item 8 None 7 7 None []])"
    by (simp_all add: item_at_def demo_heap_def node_is_def)
  show ?thesis by (rule compare_symmetric[OF _ demo_heap_ok(1) i]) (auto simp: demo_compare_double)
qed


end
