(* ===== verification/Cjson_Values.thy ===== *)
theory Cjson_Values
  imports Cjson_Compare
begin

text \<open>
  Reading and setting the values of items, and the allocator hooks, in \<open>src/src/cJSON.c\<close>. What the accessors say of an item that
  the parser built, and when a text is replaced in place.
\<close>

section \<open>Kinds\<close>

definition has_kind :: "nat \<Rightarrow> ptr \<Rightarrow> 'd heap \<Rightarrow> link_fault + bool \<times> 'd heap" where
  "has_kind kind item h = (if item = None then return False h else seq (load item) (\<lambda>x. return (j_type x AND 0xFF = kind)) h)"

definition cJSON_IsInvalid :: "ptr \<Rightarrow> 'd heap \<Rightarrow> link_fault + bool \<times> 'd heap" where
  "cJSON_IsInvalid = has_kind cJSON_Invalid"

definition cJSON_IsFalse :: "ptr \<Rightarrow> 'd heap \<Rightarrow> link_fault + bool \<times> 'd heap" where
  "cJSON_IsFalse = has_kind cJSON_False"

definition cJSON_IsTrue :: "ptr \<Rightarrow> 'd heap \<Rightarrow> link_fault + bool \<times> 'd heap" where
  "cJSON_IsTrue = has_kind cJSON_True"

definition cJSON_IsBool :: "ptr \<Rightarrow> 'd heap \<Rightarrow> link_fault + bool \<times> 'd heap" where
  "cJSON_IsBool item h =
     (if item = None then return False h else seq (load item) (\<lambda>x. return (j_type x AND (cJSON_True OR cJSON_False) \<noteq> 0)) h)"

definition cJSON_IsNull :: "ptr \<Rightarrow> 'd heap \<Rightarrow> link_fault + bool \<times> 'd heap" where
  "cJSON_IsNull = has_kind cJSON_NULL"

definition cJSON_IsNumber :: "ptr \<Rightarrow> 'd heap \<Rightarrow> link_fault + bool \<times> 'd heap" where
  "cJSON_IsNumber = has_kind cJSON_Number"

definition cJSON_IsString :: "ptr \<Rightarrow> 'd heap \<Rightarrow> link_fault + bool \<times> 'd heap" where
  "cJSON_IsString = has_kind cJSON_String"

definition cJSON_IsArray :: "ptr \<Rightarrow> 'd heap \<Rightarrow> link_fault + bool \<times> 'd heap" where
  "cJSON_IsArray = has_kind cJSON_Array"

definition cJSON_IsObject :: "ptr \<Rightarrow> 'd heap \<Rightarrow> link_fault + bool \<times> 'd heap" where
  "cJSON_IsObject = has_kind cJSON_Object"

definition cJSON_IsRaw :: "ptr \<Rightarrow> 'd heap \<Rightarrow> link_fault + bool \<times> 'd heap" where
  "cJSON_IsRaw = has_kind cJSON_Raw"

lemmas kind_defs = cJSON_IsInvalid_def cJSON_IsFalse_def cJSON_IsTrue_def cJSON_IsNull_def cJSON_IsNumber_def cJSON_IsString_def
  cJSON_IsArray_def cJSON_IsObject_def cJSON_IsRaw_def

section \<open>Values\<close>

text \<open>NULL and \<open>NAN\<close>, the answers for items of another kind, are \<open>None\<close>.\<close>

definition cJSON_GetStringValue :: "ptr \<Rightarrow> 'd heap \<Rightarrow> link_fault + string option \<times> 'd heap" where
  "cJSON_GetStringValue item =
     seq (cJSON_IsString item) (\<lambda>s. if \<not> s then return None else seq (load item) (\<lambda>x. return (j_valuestring x)))"

definition cJSON_GetNumberValue :: "ptr \<Rightarrow> 'd heap \<Rightarrow> link_fault + 'd option \<times> 'd heap" where
  "cJSON_GetNumberValue item =
     seq (cJSON_IsNumber item) (\<lambda>s. if \<not> s then return None else seq (load item) (\<lambda>x. return (Some (j_valuedouble x))))"

definition cJSON_SetNumberHelper :: "'d json_env \<Rightarrow> ptr \<Rightarrow> 'd \<Rightarrow> 'd heap \<Rightarrow> link_fault + 'd option \<times> 'd heap" where
  "cJSON_SetNumberHelper E obj number =
     (if obj = None then return None
      else seq (store obj (\<lambda>x. x\<lparr>j_valueint := saturate E number, j_valuedouble := number\<rparr>)) (\<lambda>_. return (Some number)))"

text \<open>The ranges from the addresses \<open>new\<close> and \<open>old\<close> of strings of lengths \<open>m\<close> and \<open>k\<close>, terminators included.\<close>

definition apart :: "nat \<Rightarrow> nat \<Rightarrow> nat \<Rightarrow> nat \<Rightarrow> bool" where
  "apart new m old k \<longleftrightarrow> new + m < old \<or> old + k < new"

definition cJSON_SetValuestring ::
  "'d json_env \<Rightarrow> nat \<Rightarrow> nat \<Rightarrow> ptr \<Rightarrow> string option \<Rightarrow> 'd heap \<Rightarrow> link_fault + string option \<times> 'd heap" where
  "cJSON_SetValuestring E new old obj str =
     (if obj = None then return None
      else seq (load obj) (\<lambda>x.
        if j_type x AND cJSON_String = 0 \<or> is_reference x then return None
        else (case (j_valuestring x, str) of
            (Some v, Some s) \<Rightarrow>
              if length s \<le> length v then
                if \<not> apart new (length s) old (length v) then return None
                else seq (store obj (j_valuestring_update (\<lambda>_. Some s))) (\<lambda>_. return (Some s))
              else seq (cJSON_strdup E s) (\<lambda>copy. case copy of
                  None \<Rightarrow> return None
                | Some c \<Rightarrow> seq (store obj (j_valuestring_update (\<lambda>_. Some c))) (\<lambda>_. return (Some c)))
          | _ \<Rightarrow> return None)))"

section \<open>Hooks\<close>

text \<open>\<open>malloc\<close>, \<open>free\<close> and \<open>realloc\<close>, like the functions installed in their place, are values of a type of function pointers.\<close>

record 'f internal_hooks =
  hk_allocate :: 'f
  hk_deallocate :: 'f
  hk_reallocate :: "'f option"

record 'f cJSON_Hooks =
  malloc_fn :: "'f option"
  free_fn :: "'f option"

definition cJSON_InitHooks :: "'f \<Rightarrow> 'f \<Rightarrow> 'f \<Rightarrow> 'f cJSON_Hooks option \<Rightarrow> 'f internal_hooks \<Rightarrow> 'f internal_hooks" where
  "cJSON_InitHooks malloc free realloc hooks global =
     (case hooks of
        None \<Rightarrow> global\<lparr>hk_allocate := malloc, hk_deallocate := free, hk_reallocate := Some realloc\<rparr>
      | Some k \<Rightarrow>
          (let a = (case malloc_fn k of None \<Rightarrow> malloc | Some f \<Rightarrow> f);
               d = (case free_fn k of None \<Rightarrow> free | Some f \<Rightarrow> f)
           in global\<lparr>hk_allocate := a, hk_deallocate := d,
                hk_reallocate := if a = malloc \<and> d = free then Some realloc else None\<rparr>))"

text \<open>What is reallocated came from \<open>malloc\<close> and is freed by \<open>free\<close>, whatever is installed and in whatever order.\<close>

definition matched :: "'f \<Rightarrow> 'f \<Rightarrow> 'f \<Rightarrow> 'f internal_hooks \<Rightarrow> bool" where
  "matched malloc free realloc g \<longleftrightarrow>
     hk_reallocate g = (if hk_allocate g = malloc \<and> hk_deallocate g = free then Some realloc else None)"

lemma init_hooks_matched: "matched malloc free realloc (cJSON_InitHooks malloc free realloc hooks g)"
  by (cases hooks) (auto simp: matched_def cJSON_InitHooks_def Let_def)

section \<open>Properties: values\<close>

abbreviation kind_tests :: "(ptr \<Rightarrow> 'd heap \<Rightarrow> link_fault + bool \<times> 'd heap) list" where
  "kind_tests \<equiv> [cJSON_IsFalse, cJSON_IsTrue, cJSON_IsNull, cJSON_IsNumber, cJSON_IsString, cJSON_IsArray, cJSON_IsObject,
     cJSON_IsInvalid, cJSON_IsRaw]"

lemma item_load: "item_at h a rs t \<Longrightarrow> \<exists>x. load (Some a) h = Inr (x, h) \<and> node_is x t"
  by (auto simp: item_at_def load_def)

lemma has_kind_at: "item_at h a rs t \<Longrightarrow> has_kind k (Some a) h = Inr (item_type t AND 0xFF = k, h)"
  using item_load[of h a rs t] by (auto simp: has_kind_def seq_def return_def node_is_def)

lemma wf_json_kind:
  assumes "wf_json E n t"
  shows "item_type t \<in> {cJSON_False, cJSON_True, cJSON_NULL, cJSON_Number, cJSON_String, cJSON_Array, cJSON_Object}"
    "(valuestring t \<noteq> None) = (item_type t = cJSON_String)" "item_type t = cJSON_Number \<longrightarrow> valueint t = saturate E (valuedouble t)"
  using assms by (cases n; auto simp: scalar_ok_def container_ok_def)+

text \<open>C15: Items that come from a text have one kind, and the accessors agree with it. For an item that the parser built, wherever it
  is stored, exactly one of the tests for the seven JSON kinds is true, and those for invalid and raw items are false; a
  boolean is one that is false or true; \<open>GetStringValue\<close> is not NULL exactly for strings and is then their text;
  \<open>GetNumberValue\<close> is not NaN for numbers only and is their double, of which the integer is the saturation.\<close>

theorem parsed_items_typed:
  assumes "cJSON_ParseWithLengthOpts E (Some content) len term = Inr (Some t, endp, err)" "len \<le> length content" "item_at h a rs t"
  shows "(\<exists>i<7. map (\<lambda>f. f (Some a) h) kind_tests = map (\<lambda>j. Inr (j = i, h)) [0, 1, 2, 3, 4, 5, 6, 7, 8 :: nat]) \<and>
    cJSON_IsBool (Some a) h = Inr (item_type t = cJSON_False \<or> item_type t = cJSON_True, h) \<and>
    cJSON_GetStringValue (Some a) h = Inr (valuestring t, h) \<and>
    (cJSON_IsString (Some a) h = Inr (True, h) \<longleftrightarrow> valuestring t \<noteq> None) \<and>
    cJSON_GetNumberValue (Some a) h = Inr (if item_type t = cJSON_Number then Some (valuedouble t) else None, h) \<and>
    (cJSON_IsNumber (Some a) h = Inr (True, h) \<longrightarrow> valueint t = saturate E (valuedouble t))"
proof -
  have "wf_json E 1000 t" using parse_outcome[OF assms(2), of E "term"] assms(1) by auto
  note wf = wf_json_kind[OF this]
  have ty: "item_type t AND 0xFF = item_type t" using wf(1) by auto
  note kind = has_kind_at[OF assms(3), unfolded ty]
  obtain x where x: "load (Some a) h = Inr (x, h)" "node_is x t" using item_load[OF assms(3)] by blast
  have "item_type t \<in> set [cJSON_False, cJSON_True, cJSON_NULL, cJSON_Number, cJSON_String, cJSON_Array, cJSON_Object]"
    using wf(1) by simp
  then obtain i where i: "i < 7" "item_type t = [cJSON_False, cJSON_True, cJSON_NULL, cJSON_Number, cJSON_String, cJSON_Array, cJSON_Object] ! i"
    unfolding in_set_conv_nth by (force simp: numeral_eq_Suc)
  have "i = 0 \<or> i = 1 \<or> i = 2 \<or> i = 3 \<or> i = 4 \<or> i = 5 \<or> i = 6" using i(1) by linarith
  then have "map (\<lambda>f. f (Some a) h) kind_tests = map (\<lambda>j. Inr (j = i, h)) [0, 1, 2, 3, 4, 5, 6, 7, 8 :: nat]"
    using i(2) by (elim disjE) (simp_all add: kind_defs kind)
  then have "\<exists>i<7. map (\<lambda>f. f (Some a) h) kind_tests = map (\<lambda>j. Inr (j = i, h)) [0, 1, 2, 3, 4, 5, 6, 7, 8 :: nat]" using i(1) by blast
  moreover have "cJSON_IsBool (Some a) h = Inr (item_type t = cJSON_False \<or> item_type t = cJSON_True, h)"
    using x wf(1) by (auto simp: cJSON_IsBool_def seq_def return_def node_is_def)
  moreover have "cJSON_GetStringValue (Some a) h = Inr (valuestring t, h)"
    using x wf(2) by (auto simp: cJSON_GetStringValue_def kind_defs kind seq_def return_def node_is_def)
  moreover have "cJSON_GetNumberValue (Some a) h = Inr (if item_type t = cJSON_Number then Some (valuedouble t) else None, h)"
    using x by (auto simp: cJSON_GetNumberValue_def kind_defs kind seq_def return_def node_is_def)
  ultimately show ?thesis using wf by (simp add: kind_defs kind)
qed

text \<open>Setting a text, on every branch. The call succeeds exactly for a string that owns a text, with a text that either is not longer
  and lies apart, or is longer and can be allocated. Then the item's text is the new one and nothing else has
  changed; otherwise no node has changed. It never copies between overlapping strings or past the end of the old text.\<close>

lemma set_valuestring_outcome:
  assumes "nodes h a = Some x"
  shows "\<exists>k. cJSON_SetValuestring E new old (Some a) str h =
    (if j_type x AND cJSON_String = 0 \<or> is_reference x then Inr (None, h)
     else case (j_valuestring x, str) of
       (Some v, Some s) \<Rightarrow>
         if (if length s \<le> length v then apart new (length s) old (length v) else allocate E (allocs h) (length s + 1))
         then Inr (Some s, h\<lparr>nodes := (nodes h)(a := Some (x\<lparr>j_valuestring := Some s\<rparr>)), allocs := k\<rparr>) else Inr (None, h\<lparr>allocs := k\<rparr>)
     | _ \<Rightarrow> Inr (None, h))"
proof (cases "\<exists>s v. str = Some s \<and> j_valuestring x = Some v \<and> length v < length s")
  case True
  then show ?thesis using assms
    by (intro exI[of _ "allocs h + 1"])
      (auto simp: cJSON_SetValuestring_def seq_def load_def store_def return_def cJSON_strdup_def)
next
  case False
  then show ?thesis using assms
    by (intro exI[of _ "allocs h"])
      (auto simp: cJSON_SetValuestring_def seq_def load_def store_def return_def not_less split: option.splits)
qed

theorem parsed_items_typed_witness:
  "map (\<lambda>f. f (Some 4) demo_heap) kind_tests = map (\<lambda>j. Inr (j = 3, demo_heap)) [0, 1, 2, 3, 4, 5, 6, 7, 8 :: nat]"
proof -
  have p: "cJSON_ParseWithLengthOpts demo_json_env (Some ''7'') 1 False = Inr (Some (Item 8 None 7 7 None []), Some 1, None)"
    by code_simp
  have "item_at demo_heap 4 [] (Item 8 None 7 7 None [])" by (simp add: item_at_def demo_heap_def node_is_def)
  from parsed_items_typed[OF p _ this] have i: "\<exists>i<7. map (\<lambda>f. f (Some 4) demo_heap) kind_tests = map (\<lambda>j. Inr (j = i, demo_heap)) [0, 1, 2, 3, 4, 5, 6, 7, 8 :: nat]"
    and n: "cJSON_GetNumberValue (Some 4) demo_heap = Inr (Some 7, demo_heap)" by simp_all
  from n have "cJSON_IsNumber (Some 4) demo_heap = Inr (True, demo_heap)"
    by (simp add: cJSON_IsNumber_def has_kind_def demo_heap_def)
  with i show ?thesis by auto
qed

end
