(* ===== verification/Json_Body.thy ===== *)
theory Json_Body
  imports Responses Cjson_Roundtrip Http_Types
begin

text \<open>
  JSON in requests and responses: \<open>parse_json_body\<close> and \<open>server_send_json\<close> of \<open>src/src/server.c\<close>. The parsed body is kept in
  the field \<open>json_doc\<close> of the request, here the argument \<open>doc\<close>, and is parsed at most once.
\<close>

section \<open>The code\<close>

definition parse_json_body :: "'d json_env \<Rightarrow> HttpRequest option \<Rightarrow> 'd cJSON option \<Rightarrow> nat option \<Rightarrow>
    json_fault + ('d cJSON option \<times> 'd cJSON option \<times> nat option)" where
  "parse_json_body E req doc g =
     (case req of None \<Rightarrow> Inr (None, doc, g)
      | Some r \<Rightarrow>
        if rq_body r = None then Inr (None, doc, g)
        else if doc = None then andthen (cJSON_Parse E (rq_body r) g) (\<lambda>(item, g'). Inr (item, item, g'))
        else Inr (doc, doc, g))"

definition server_send_json :: "'d json_env \<Rightarrow> int \<Rightarrow> 'd cJSON option \<Rightarrow> ClientConnection option \<Rightarrow> json_fault + ClientConnection option" where
  "server_send_json E status json_obj conn =
     (case (conn, json_obj) of
        (Some c, Some t) \<Rightarrow>
          andthen (cJSON_PrintUnformatted E t) (\<lambda>json_str. Inr (Some (case json_str of
              None \<Rightarrow> c
            | Some m \<Rightarrow> server_send_response status ''application/json'' (Some (cstr m)) c)))
      | _ \<Rightarrow> Inr conn)"

section \<open>The answer is readable\<close>


definition demo_conn :: ClientConnection where
  "demo_conn = \<lparr>client_ip = ''1.1.1.1'', current_path = ''/a'', response_headers = [], anon_id = [], conn_out = [], access_log = []\<rparr>"


end
