(* ===== verification/Config_Files.thy ===== *)
theory Config_Files
  imports Config
begin

text \<open>
  The file helpers of \<open>src/src/arws_config.c\<close>: making the directories above the configuration file, giving it back to the user who
  started the program through \<open>sudo\<close>, its time of modification. The calls to the system are lists of what is asked for.
\<close>

section \<open>The code\<close>

definition before_last_slash :: "string \<Rightarrow> string option" where
  "before_last_slash s = map_option (\<lambda>r. take (length s - length r) s) (strrchr s CHR ''/'')"

text \<open>The directories \<open>mkdir\<close> is called for, in order.\<close>

definition dirs_below :: "nat \<Rightarrow> string \<Rightarrow> string list" where
  "dirs_below n d = map (\<lambda>j. take j d) (filter (\<lambda>j. d ! j = CHR ''/'') [1..<n])"

definition ensure_parent_dir :: "string option \<Rightarrow> string list" where
  "ensure_parent_dir path =
     (case path of None \<Rightarrow> []
      | Some p \<Rightarrow> if p = [] then []
          else (case before_last_slash (buf_copy 512 p) of
                  None \<Rightarrow> []
                | Some d \<Rightarrow> if d = [] then [] else dirs_below (length d) d @ [d]))"

definition file_mtime :: "(string \<Rightarrow> int option) \<Rightarrow> string option \<Rightarrow> int" where
  "file_mtime stat path =
     (case path of None \<Rightarrow> 0
      | Some p \<Rightarrow> if p = [] then 0 else (case stat p of None \<Rightarrow> 0 | Some t \<Rightarrow> t))"

text \<open>The calls of \<open>chown\<close>: path, user and group, which \<open>uid_t\<close> and \<open>gid_t\<close> keep to 32 bits.\<close>

definition fix_owner :: "int \<Rightarrow> (string \<Rightarrow> string option) \<Rightarrow> string \<Rightarrow> (string \<times> int \<times> int) list" where
  "fix_owner euid env path =
     (if euid \<noteq> 0 then []
      else (case (env ''SUDO_UID'', env ''SUDO_GID'') of
          (Some su, Some sg) \<Rightarrow>
            (let uid = strtol su mod 2 ^ 32; gid = strtol sg mod 2 ^ 32
             in (path, uid, gid) # (case before_last_slash (buf_copy 512 path) of
                    None \<Rightarrow> []
                  | Some d \<Rightarrow> if d = [] then [] else [(d, uid, gid)]))
        | _ \<Rightarrow> []))"

section \<open>The directories exist afterwards\<close>

text \<open>A file system as its set of directories: a directory is made if the one it lies in exists, or it lies in the root or the
  current one.\<close>

definition mkdir :: "string \<Rightarrow> string set \<Rightarrow> string set" where
  "mkdir d fs = (case before_last_slash d of
      None \<Rightarrow> insert d fs
    | Some p \<Rightarrow> if p = [] \<or> p \<in> fs then insert d fs else fs)"

lemma before_last_slash_SomeD:
  assumes "before_last_slash s = Some p"
  shows "\<exists>i < length s. s ! i = CHR ''/'' \<and> p = take i s"
proof -
  from assms obtain r where r: "strrchr s CHR ''/'' = Some r" "p = take (length s - length r) s" by (auto simp: before_last_slash_def)
  let ?t = "takeWhile (\<lambda>d. d \<noteq> CHR ''/'') (rev s)"
  have in_s: "CHR ''/'' \<in> set s" and rr: "r = CHR ''/'' # rev ?t" using r(1) by (auto simp: strrchr_def split: if_splits)
  have "?t \<noteq> rev s" using in_s by (metis (full_types) set_rev set_takeWhileD)
  then have less: "length ?t < length (rev s)"
    using length_takeWhile_le[of "\<lambda>d. d \<noteq> CHR ''/''" "rev s"] takeWhile_eq_take[of "\<lambda>d. d \<noteq> CHR ''/''" "rev s"] by (metis le_neq_implies_less take_all)
  from nth_length_takeWhile[OF less] have "rev s ! length ?t = CHR ''/''" by simp
  then have "s ! (length s - Suc (length ?t)) = CHR ''/''" using less by (simp add: rev_nth)
  then show ?thesis using less rr r(2) by (intro exI[of _ "length s - Suc (length ?t)"]) simp
qed

lemma mkdir_keeps: "fs \<subseteq> mkdir d fs"
  by (auto simp: mkdir_def split: option.split)

lemma mkdir_prefix:
  assumes "\<And>i. 0 < i \<Longrightarrow> i < n \<Longrightarrow> d ! i = CHR ''/'' \<Longrightarrow> take i d \<in> fs" "n \<le> length d"
  shows "take n d \<in> mkdir (take n d) fs"
proof (cases "before_last_slash (take n d)")
  case (Some p)
  from before_last_slash_SomeD[OF this] obtain i where "i < length (take n d)" "take n d ! i = CHR ''/''" "p = take i (take n d)" by blast
  then have i: "i < n" "d ! i = CHR ''/''" "p = take i d" by (simp_all add: min_def split: if_splits)
  then have "p = [] \<or> p \<in> fs" using assms(1)[of i] by (cases "i = 0") auto
  then show ?thesis using Some by (simp add: mkdir_def)
qed (simp add: mkdir_def)

lemma dirs_made:
  "n \<le> length d \<Longrightarrow> 0 < j \<Longrightarrow> j < n \<Longrightarrow> d ! j = CHR ''/'' \<Longrightarrow> take j d \<in> fold mkdir (dirs_below n d) fs"
proof (induction n arbitrary: j)
  case (Suc n)
  show ?case
  proof (cases "0 < n \<and> d ! n = CHR ''/''")
    case True
    then have e: "dirs_below (Suc n) d = dirs_below n d @ [take n d]" by (simp add: dirs_below_def)
    have "take n d \<in> mkdir (take n d) (fold mkdir (dirs_below n d) fs)"
      by (rule mkdir_prefix) (use Suc in auto)
    then show ?thesis using Suc mkdir_keeps[of "fold mkdir (dirs_below n d) fs" "take n d"]
      by (cases "j = n") (auto simp: e)
  next
    case False
    then have "dirs_below (Suc n) d = dirs_below n d" by (auto simp: dirs_below_def)
    with False Suc show ?thesis by (cases "j = n") auto
  qed
qed simp

text \<open>The directory of the configuration file exists after \<open>ensure_parent_dir\<close>. For a path of at most 511 bytes with a directory in
  it, the calls of \<open>mkdir\<close> are made from the top down, so that each finds the directory it needs: afterwards the directory of
  the file exists, and so does each one above it; nothing that existed is gone.\<close>

theorem parent_dir_made:
  assumes "length path < 512" "before_last_slash path = Some dir" "dir \<noteq> []"
  shows "dir \<in> fold mkdir (ensure_parent_dir (Some path)) fs \<and>
    (\<forall>j < length dir. 0 < j \<longrightarrow> dir ! j = CHR ''/'' \<longrightarrow> take j dir \<in> fold mkdir (ensure_parent_dir (Some path)) fs) \<and>
    fs \<subseteq> fold mkdir (ensure_parent_dir (Some path)) fs"
proof -
  have "path \<noteq> []" using assms(2) by (auto simp: before_last_slash_def strrchr_def)
  then have e: "ensure_parent_dir (Some path) = dirs_below (length dir) dir @ [dir]"
    using assms by (simp add: ensure_parent_dir_def buf_copy_def)
  let ?fs = "fold mkdir (dirs_below (length dir) dir) fs"
  have made: "take j dir \<in> ?fs" if "0 < j" "j < length dir" "dir ! j = CHR ''/''" for j
    using dirs_made[of "length dir" dir j fs] that by simp
  have "fs \<subseteq> fold mkdir ds fs" for ds
    by (induction ds arbitrary: fs) (use mkdir_keeps in \<open>simp, fastforce\<close>)
  moreover have "dir \<in> mkdir dir ?fs" using mkdir_prefix[of "length dir" dir ?fs] made by simp
  ultimately show ?thesis using made mkdir_keeps[of ?fs dir] by (auto simp: e)
qed

theorem parent_dir_made_witness:
  "''storage/arws'' \<in> fold mkdir (ensure_parent_dir (Some ''storage/arws/arws.cfg'')) {}"
  using parent_dir_made[of "''storage/arws/arws.cfg''" "''storage/arws''" "{}"] by (simp add: before_last_slash_def strrchr_def)

end
